(* ===== verification/Prelude.thy ===== *)
theory Prelude
  imports "HOL-Library.Word" "HOL-Library.Multiset" "HOL-Library.Monad_Syntax"
begin

text \<open>
  The shared base of the development: the C integer types at their width, the byte-addressed
  physical memory of the machine with its little-endian word accesses, and the facts on words,
  masks, address ranges and lists that the component theories use. Nothing here is about one
  component; the collections \<open>word_nat\<close> (reading bit operations as arithmetic on \<open>unat\<close>),
  \<open>mem_simps\<close> (loads after stores) and \<open>frame_simps\<close> (fields an operation leaves alone) are
  extended by the theories that import this one.
\<close>

unbundle bit_operations_syntax

named_theorems word_nat
named_theorems mem_simps
named_theorems frame_simps

section \<open>Machine integers\<close>

type_synonym u8 = "8 word"
type_synonym u16 = "16 word"
type_synonym u32 = "32 word"
type_synonym u64 = "64 word"

text \<open>A C \<open>int\<close> or \<open>long\<close> result: system calls return it, negative values being \<open>-errno\<close>.\<close>

type_synonym cint = int

text \<open>Reading masks and shifts as arithmetic on the unsigned value.\<close>

lemma unat_take_bit [word_nat]: "unat (take_bit n a) = unat a mod 2 ^ n"
  for a :: "'a::len word"
proof -
  have "unat (take_bit n a) = take_bit n (unat a)"
    by (rule unsigned_take_bit_eq)
  then show ?thesis by (simp only: take_bit_eq_mod)
qed

lemma unat_drop_bit [word_nat]: "unat (drop_bit n a) = unat a div 2 ^ n"
  for a :: "'a::len word"
proof -
  have "unat (drop_bit n a) = drop_bit n (unat a)"
    by (simp add: unsigned_drop_bit_eq take_bit_nat_eq_self)
  then show ?thesis by (simp only: drop_bit_eq_div)
qed

lemma unat_push_bit32: "unat (push_bit n (a :: u32)) = unat a * 2 ^ n mod 2 ^ 32"
proof -
  have "unat (push_bit n a) = take_bit 32 (push_bit n (unat a))"
    by (simp add: unsigned_push_bit_eq)
  then show ?thesis by (simp only: take_bit_eq_mod push_bit_eq_mult)
qed

lemma and_low_eq_take_bit:
  "a AND 0xFFF = take_bit 12 (a :: u32)" "a AND 0xFFFFF = take_bit 20 (a :: u32)"
  "a AND 7 = take_bit 3 (a :: u32)" "a AND 3 = take_bit 2 (a :: u32)"
  "a AND 15 = take_bit 4 (a :: u32)" "a AND 0xFF = take_bit 8 (a :: u32)"
  "a AND 1 = take_bit 1 (a :: u32)" "a AND 0x3FF = take_bit 10 (a :: u32)"
  by (simp_all add: take_bit_eq_mask mask_numeral)

lemma unat_and_low [word_nat]:
  "unat ((a :: u32) AND 0xFFF) = unat a mod 4096" "unat ((a :: u32) AND 0xFFFFF) = unat a mod 1048576"
  "unat ((a :: u32) AND 7) = unat a mod 8" "unat ((a :: u32) AND 3) = unat a mod 4"
  "unat ((a :: u32) AND 15) = unat a mod 16" "unat ((a :: u32) AND 0xFF) = unat a mod 256"
  "unat ((a :: u32) AND 1) = unat a mod 2" "unat ((a :: u32) AND 0x3FF) = unat a mod 1024"
  by (simp_all only: and_low_eq_take_bit unat_take_bit) simp_all

lemma and_high_eq: "(a :: u32) AND NOT (mask n) = a - take_bit n a"
proof -
  have "a AND NOT (mask n) = push_bit n (drop_bit n a)"
    by (simp add: bit_eq_iff bit_simps) auto
  then show ?thesis
    by (metis add_diff_cancel_right' bits_ident)
qed

lemma unat_and_high:
  "unat ((a :: u32) AND 0xFFFFF000) = unat a - unat a mod 4096"
  "unat ((a :: u32) AND 0xFFF00000) = unat a - unat a mod 1048576"
  "unat ((a :: u32) AND 0xFFFFFC00) = unat a - unat a mod 1024"
  "unat ((a :: u32) AND 0xFFFFFFF8) = unat a - unat a mod 8"
  "unat ((a :: u32) AND 0xFFFFFFFC) = unat a - unat a mod 4"
  "unat ((a :: u32) AND 0xFFFFFFF0) = unat a - unat a mod 16"
proof -
  have le: "take_bit n a \<le> a" for n
    by (simp add: word_le_nat_alt unat_take_bit)
  have sub: "unat (a - take_bit n a) = unat a - unat a mod 2 ^ n" for n
    by (simp add: unat_sub [OF le] unat_take_bit)
  have eqs: "(0xFFFFF000 :: u32) = NOT (mask 12)" "(0xFFF00000 :: u32) = NOT (mask 20)"
    "(0xFFFFFC00 :: u32) = NOT (mask 10)" "(0xFFFFFFF8 :: u32) = NOT (mask 3)"
    "(0xFFFFFFFC :: u32) = NOT (mask 2)" "(0xFFFFFFF0 :: u32) = NOT (mask 4)"
    by (simp_all add: mask_numeral not_eq_complement)
  show "unat (a AND 0xFFFFF000) = unat a - unat a mod 4096"
    by (simp only: eqs and_high_eq sub) simp
  show "unat (a AND 0xFFF00000) = unat a - unat a mod 1048576"
    by (simp only: eqs and_high_eq sub) simp
  show "unat (a AND 0xFFFFFC00) = unat a - unat a mod 1024"
    by (simp only: eqs and_high_eq sub) simp
  show "unat (a AND 0xFFFFFFF8) = unat a - unat a mod 8"
    by (simp only: eqs and_high_eq sub) simp
  show "unat (a AND 0xFFFFFFFC) = unat a - unat a mod 4"
    by (simp only: eqs and_high_eq sub) simp
  show "unat (a AND 0xFFFFFFF0) = unat a - unat a mod 16"
    by (simp only: eqs and_high_eq sub) simp
qed

lemmas [word_nat] = unat_and_high

lemma unat_bound32 [simp, intro]: "unat (a :: u32) < 4294967296"
  using unsigned_less [of a] by simp

lemma unat_of_nat32: "n < 4294967296 \<Longrightarrow> unat (of_nat n :: u32) = n"
  by (simp add: unsigned_of_nat take_bit_nat_eq_self)

lemma unat_add32: "unat (a :: u32) + unat b < 4294967296 \<Longrightarrow> unat (a + b) = unat a + unat b"
  using unat_add_lem [of a b] by simp

lemma unat_diff32: "b \<le> (a :: u32) \<Longrightarrow> unat (a - b) = unat a - unat b"
  by (rule unat_sub)

lemma unat_mult32: "unat (a :: u32) * unat b < 4294967296 \<Longrightarrow> unat (a * b) = unat a * unat b"
  using unat_mult_lem [of a b] by simp

lemma unat_div32: "unat ((a :: u32) div b) = unat a div unat b"
  by (rule unat_div)

lemma unat_mod32: "unat ((a :: u32) mod b) = unat a mod unat b"
  by (rule unat_mod)

lemma unat_minus_one32: "(a :: u32) \<noteq> 0 \<Longrightarrow> unat (a - 1) = unat a - 1"
  by (rule unat_minus_one)

text \<open>Division and alignment on the unsigned values.\<close>

lemma div_mod_unique_nat: "r < k \<Longrightarrow> x = k * q + r \<longleftrightarrow> x div k = q \<and> x mod k = (r :: nat)"
  by (metis add.commute add_cancel_right_left div_less div_mult_self4 less_nat_zero_code
      mod_less mod_mult_self4 mult_div_mod_eq)

lemma aligned_nowrap:
  assumes "unat (a :: u32) mod k = 0" "k dvd 4294967296" "off < k"
  shows "unat a + off < 4294967296"
proof -
  obtain q p where q: "unat a = k * q" and p: "4294967296 = k * p"
    using assms(1,2) by (meson dvdE mod_eq_0_iff_dvd)
  have "k * q < k * p" using q p unat_bound32 [of a] by simp
  then have "Suc q \<le> p" using assms(3) by simp
  then have "k * Suc q \<le> k * p" by (rule mult_le_mono2)
  then show ?thesis using assms(3) q p by simp
qed

lemma aligned_add_unat:
  assumes "unat (a :: u32) mod k = 0" "k dvd 4294967296" "off < k"
  shows "unat (a + of_nat off) = unat a + off"
proof -
  have "off < 4294967296" using assms(2,3) by (meson dvd_imp_le less_le_trans zero_less_numeral)
  then show ?thesis using aligned_nowrap [OF assms] by (simp add: unat_add32 unat_of_nat32)
qed

lemma aligned_add_div_mod:
  fixes x :: nat
  assumes "x mod k = 0" "off < k"
  shows "(x + off) div k = x div k" "(x + off) mod k = off"
  using assms by (auto simp: mod_eq_0_iff_dvd elim!: dvdE)

section \<open>Physical memory\<close>

text \<open>
  The kernel runs identity mapped: a pointer is a physical address and memory is one array of
  bytes. Words are stored little-endian, as the ARM core does.
\<close>

type_synonym memory = "u32 \<Rightarrow> u8"

definition ld32 :: "memory \<Rightarrow> u32 \<Rightarrow> u32" where
  "ld32 m a = ucast (m a) OR push_bit 8 (ucast (m (a + 1))) OR
     push_bit 16 (ucast (m (a + 2))) OR push_bit 24 (ucast (m (a + 3)))"

definition st32 :: "memory \<Rightarrow> u32 \<Rightarrow> u32 \<Rightarrow> memory" where
  "st32 m a v = m(a := ucast v, a + 1 := ucast (drop_bit 8 v),
     a + 2 := ucast (drop_bit 16 v), a + 3 := ucast (drop_bit 24 v))"

text \<open>\<open>inrange a b n\<close>: address \<open>a\<close> lies in the \<open>n\<close> bytes from \<open>b\<close> (modulo the address space).\<close>

definition inrange :: "u32 \<Rightarrow> u32 \<Rightarrow> nat \<Rightarrow> bool" where
  "inrange a b n \<longleftrightarrow> unat (a - b) < n"

lemma inrange_nowrap:
  assumes "unat b + n \<le> 4294967296"
  shows "inrange a b n \<longleftrightarrow> unat b \<le> unat a \<and> unat a < unat b + n"
proof (cases "b \<le> a")
  case True
  then have "unat b \<le> unat a" by (simp add: word_le_nat_alt)
  then show ?thesis using True by (auto simp: inrange_def unat_diff32)
next
  case False
  then have lt: "unat a < unat b" by (simp add: word_le_nat_alt)
  have "unat (a - b) = unat a + 4294967296 - unat b"
    using lt by (simp add: unat_sub_if_size word_size)
  then show ?thesis using lt assms by (auto simp: inrange_def)
qed

lemma ld32_st32_same [simp, mem_simps]: "ld32 (st32 m a v) a = v"
proof -
  have d: "a + 1 \<noteq> a" "a + 2 \<noteq> a" "a + 3 \<noteq> a" "a + 1 \<noteq> a + 2" "a + 1 \<noteq> a + 3" "a + 2 \<noteq> a + 3"
    by simp_all
  have "ld32 (st32 m a v) a = ucast (ucast v :: u8) OR push_bit 8 (ucast (ucast (drop_bit 8 v) :: u8))
     OR push_bit 16 (ucast (ucast (drop_bit 16 v) :: u8)) OR push_bit 24 (ucast (ucast (drop_bit 24 v) :: u8))"
    using d by (simp add: ld32_def st32_def)
  also have "\<dots> = v"
  proof (rule bit_word_eqI)
    fix n
    assume n: "n < LENGTH(32)"
    consider "n < 8" | "8 \<le> n" "n < 16" | "16 \<le> n" "n < 24" | "24 \<le> n" "n < 32"
      using n by fastforce
    then show "bit ((ucast (ucast v :: u8) :: u32) OR push_bit 8 (ucast (ucast (drop_bit 8 v) :: u8))
      OR push_bit 16 (ucast (ucast (drop_bit 16 v) :: u8))
      OR push_bit 24 (ucast (ucast (drop_bit 24 v) :: u8))) n = bit v n"
      by cases (auto simp add: bit_simps)
  qed
  finally show ?thesis .
qed

lemma word_aligned_nowrap:
  assumes "unat (a :: u32) mod 4 = 0" and "k < 4"
  shows "unat (a + of_nat k) = unat a + k"
  by (rule aligned_add_unat [OF assms(1) _ assms(2)]) simp

lemma aligned_bytes_distinct:
  assumes "unat (a :: u32) mod 4 = 0" "unat (b :: u32) mod 4 = 0" "a \<noteq> b" "i < 4" "j < 4"
  shows "a + of_nat i \<noteq> b + of_nat j"
proof
  assume "a + of_nat i = b + of_nat j"
  then have "unat a + i = unat b + j"
    using word_aligned_nowrap assms by metis
  then have "unat a = unat b" using assms by presburger
  then show False using assms(3) by (simp add: word_unat_eq_iff)
qed

lemma ld32_st32_other [mem_simps]:
  assumes "unat a mod 4 = 0" "unat b mod 4 = 0" "a \<noteq> b"
  shows "ld32 (st32 m a v) b = ld32 m b"
proof -
  have "b + of_nat j \<noteq> a + of_nat i" if "i < 4" "j < 4" for i j
    using aligned_bytes_distinct [of b a j i] assms that by auto
  note ne = this
  have "b \<noteq> a" "b \<noteq> a + 1" "b \<noteq> a + 2" "b \<noteq> a + 3"
    using ne [of 0 0] ne [of 1 0] ne [of 2 0] ne [of 3 0] by simp_all
  moreover have "b + 1 \<noteq> a" "b + 1 \<noteq> a + 1" "b + 1 \<noteq> a + 2" "b + 1 \<noteq> a + 3"
    using ne [of 0 1] ne [of 1 1] ne [of 2 1] ne [of 3 1] by simp_all
  moreover have "b + 2 \<noteq> a" "b + 2 \<noteq> a + 1" "b + 2 \<noteq> a + 2" "b + 2 \<noteq> a + 3"
    using ne [of 0 2] ne [of 1 2] ne [of 2 2] ne [of 3 2] by simp_all
  moreover have "b + 3 \<noteq> a" "b + 3 \<noteq> a + 1" "b + 3 \<noteq> a + 2" "b + 3 \<noteq> a + 3"
    using ne [of 0 3] ne [of 1 3] ne [of 2 3] ne [of 3 3] by simp_all
  ultimately show ?thesis
    by (simp add: ld32_def st32_def)
qed

lemma ld32_cong:
  assumes "m a = m' a" "m (a + 1) = m' (a + 1)" "m (a + 2) = m' (a + 2)" "m (a + 3) = m' (a + 3)"
  shows "ld32 m a = ld32 m' a"
  using assms by (simp add: ld32_def)

lemma st32_apply:
  assumes al: "unat a mod 4 = 0"
  shows "st32 m a v x = (if unat x div 4 = unat a div 4 then ucast (drop_bit (8 * (unat x mod 4)) v) else m x)"
proof -
  have key: "x = a + of_nat k \<longleftrightarrow> unat x = unat a + k" if "k < 4" for k
    by (simp add: word_unat_eq_iff word_aligned_nowrap [OF al that])
  have e: "x = a \<longleftrightarrow> unat x = unat a" "x = a + 1 \<longleftrightarrow> unat x = unat a + 1"
    "x = a + 2 \<longleftrightarrow> unat x = unat a + 2" "x = a + 3 \<longleftrightarrow> unat x = unat a + 3"
    using key [of 0] key [of 1] key [of 2] key [of 3] by simp_all
  have "st32 m a v x = (if unat x = unat a + 3 then ucast (drop_bit 24 v)
     else if unat x = unat a + 2 then ucast (drop_bit 16 v)
     else if unat x = unat a + 1 then ucast (drop_bit 8 v)
     else if unat x = unat a then ucast v else m x)"
    unfolding st32_def fun_upd_apply e by simp
  also have "\<dots> = (if unat x div 4 = unat a div 4 then ucast (drop_bit (8 * (unat x mod 4)) v) else m x)"
  proof (cases "unat x div 4 = unat a div 4")
    case True
    then have eq: "unat x = unat a + unat x mod 4"
      using al mult_div_mod_eq [of 4 "unat x"] mult_div_mod_eq [of 4 "unat a"] by simp
    have "unat x mod 4 < 4" by simp
    then consider "unat x mod 4 = 0" | "unat x mod 4 = 1" | "unat x mod 4 = 2" | "unat x mod 4 = 3"
      by linarith
    then show ?thesis using True eq by cases simp_all
  next
    case False
    then have "unat x \<noteq> unat a" "unat x \<noteq> unat a + 1" "unat x \<noteq> unat a + 2" "unat x \<noteq> unat a + 3"
      using al by auto
    then show ?thesis using False by simp
  qed
  finally show ?thesis .
qed

section \<open>Counting loops\<close>

text \<open>A \<open>for\<close> loop that stops at the first index with a property is \<open>find\<close> over the indices.\<close>

lemma find_upt_Some: "find P [0..<n] = Some i \<longleftrightarrow> i < n \<and> P i \<and> (\<forall>j < i. \<not> P j)"
  by (auto simp: find_Some_iff)

lemma find_upt_None: "find P [0..<n] = None \<longleftrightarrow> (\<forall>i < n. \<not> P i)"
  by (auto simp: find_None_iff)

lemma takeWhile_upt_le:
  assumes "\<And>i. i \<le> n \<Longrightarrow> P i \<longleftrightarrow> i \<le> k"
  shows "takeWhile P [0..<Suc n] = [0..<Suc (min k n)]"
proof -
  have "takeWhile P [0..<Suc n] = take (Suc (min k n)) [0..<Suc n]"
    by (rule takeWhile_eq_take_P_nth) (use assms in \<open>auto simp: nth_append simp del: upt_Suc\<close>)
  then show ?thesis by (simp add: take_upt del: upt_Suc)
qed

text \<open>A ring visited from an offset.\<close>

lemma shift_mod_inj:
  fixes i j n :: nat
  assumes "i < n" "j < n" "(a + i) mod n = (a + j) mod n"
  shows "i = j"
proof -
  have "i = j" if "i \<le> j" "j < n" "(a + j) mod n = (a + i) mod n" for i j :: nat
  proof -
    have "n dvd (a + j) - (a + i)" using that mod_eq_dvd_iff_nat [of "a + i" "a + j" n] by simp
    then have "n dvd j - i" by simp
    then show "i = j" using that by (auto dest!: dvd_imp_le)
  qed
  from this [of i j] this [of j i] show ?thesis using assms by (cases "i \<le> j") auto
qed

lemma shift_mod_surj:
  fixes n :: nat
  assumes "c < n"
  obtains i where "i < n" "(a + i) mod n = c"
proof -
  have "inj_on (\<lambda>i. (a + i) mod n) {0..<n}" by (rule inj_onI) (auto intro: shift_mod_inj)
  moreover have "(\<lambda>i. (a + i) mod n) ` {0..<n} \<subseteq> {0..<n}" using assms by auto
  ultimately have "(\<lambda>i. (a + i) mod n) ` {0..<n} = {0..<n}" by (intro endo_inj_surj) auto
  then have "c \<in> (\<lambda>i. (a + i) mod n) ` {0..<n}" using assms by simp
  then show thesis using that by auto
qed

end
