(* ===== verification/Libk.thy ===== *)
theory Libk
  imports Prelude
begin

text \<open>
  The freestanding libc primitives of \<open>kernel/lib/libk.c\<close> over physical memory: the block
  operations \<open>memcpy\<close>, \<open>memset\<close>, \<open>memmove\<close>, \<open>memcmp\<close> and the string operations on
  NUL-terminated byte strings. Every loop of the source is a recursion that performs the same
  loads and stores in the same order, so the model also says what happens when source and
  destination overlap. A scan for a NUL byte may never end, so the string scans are
  \<open>option\<close>-valued, \<open>None\<close> meaning that no NUL is ever met.
\<close>

section \<open>Definitions\<close>

fun memcpy :: "memory \<Rightarrow> u32 \<Rightarrow> u32 \<Rightarrow> nat \<Rightarrow> memory" where
  "memcpy m d s 0 = m"
| "memcpy m d s (Suc n) = memcpy (m(d := m s)) (d + 1) (s + 1) n"

fun memset :: "memory \<Rightarrow> u32 \<Rightarrow> u8 \<Rightarrow> nat \<Rightarrow> memory" where
  "memset m d c 0 = m"
| "memset m d c (Suc n) = memset (m(d := c)) (d + 1) c n"

text \<open>The descending loop of \<open>memmove\<close>: pointers start past the end and are decremented first.\<close>

fun memmove_down :: "memory \<Rightarrow> u32 \<Rightarrow> u32 \<Rightarrow> nat \<Rightarrow> memory" where
  "memmove_down m d s 0 = m"
| "memmove_down m d s (Suc n) = memmove_down (m(d - 1 := m (s - 1))) (d - 1) (s - 1) n"

definition memmove :: "memory \<Rightarrow> u32 \<Rightarrow> u32 \<Rightarrow> nat \<Rightarrow> memory" where
  "memmove m d s n =
     (if d < s then memcpy m d s n else memmove_down m (d + of_nat n) (s + of_nat n) n)"

fun memcmp :: "memory \<Rightarrow> u32 \<Rightarrow> u32 \<Rightarrow> nat \<Rightarrow> cint" where
  "memcmp m a b 0 = 0"
| "memcmp m a b (Suc n) =
     (if m a \<noteq> m b then int (unat (m a)) - int (unat (m b)) else memcmp m (a + 1) (b + 1) n)"

partial_function (option) strlen_from :: "memory \<Rightarrow> u32 \<Rightarrow> u32 \<Rightarrow> u32 option" where
  "strlen_from m s n = (if m (s + n) = 0 then Some n else strlen_from m s (n + 1))"

definition strlen :: "memory \<Rightarrow> u32 \<Rightarrow> u32 option" where
  "strlen m s = strlen_from m s 0"

partial_function (option) strcmp :: "memory \<Rightarrow> u32 \<Rightarrow> u32 \<Rightarrow> cint option" where
  "strcmp m a b =
     (if m a \<noteq> 0 \<and> m a = m b then strcmp m (a + 1) (b + 1)
      else Some (int (unat (m a)) - int (unat (m b))))"

fun strncmp :: "memory \<Rightarrow> u32 \<Rightarrow> u32 \<Rightarrow> nat \<Rightarrow> cint" where
  "strncmp m a b 0 = 0"
| "strncmp m a b (Suc n) =
     (if m a \<noteq> 0 \<and> m a = m b then strncmp m (a + 1) (b + 1) n
      else int (unat (m a)) - int (unat (m b)))"

partial_function (option) strcpy :: "memory \<Rightarrow> u32 \<Rightarrow> u32 \<Rightarrow> memory option" where
  "strcpy m d s =
     (let m' = m(d := m s) in if m s = 0 then Some m' else strcpy m' (d + 1) (s + 1))"

text \<open>The copying loop of \<open>strlcpy_\<close>; \<open>k\<close> counts what is left of \<open>cap - 1\<close>.\<close>

fun strlcpy_loop :: "memory \<Rightarrow> u32 \<Rightarrow> u32 \<Rightarrow> nat \<Rightarrow> memory" where
  "strlcpy_loop m d s 0 = m(d := 0)"
| "strlcpy_loop m d s (Suc k) =
     (if m s \<noteq> 0 then strlcpy_loop (m(d := m s)) (d + 1) (s + 1) k else m(d := 0))"

definition strlcpy :: "memory \<Rightarrow> u32 \<Rightarrow> u32 \<Rightarrow> nat \<Rightarrow> memory" where
  "strlcpy m d s cap = (if cap = 0 then m else strlcpy_loop m d s (cap - 1))"

text \<open>\<open>cstr m a xs\<close>: the NUL-terminated string at address \<open>a\<close> has the bytes \<open>xs\<close>.\<close>

fun cstr :: "memory \<Rightarrow> u32 \<Rightarrow> u8 list \<Rightarrow> bool" where
  "cstr m a [] = (m a = 0)"
| "cstr m a (x # xs) = (m a = x \<and> x \<noteq> 0 \<and> cstr m (a + 1) xs)"

section \<open>Block operations\<close>

lemma inrange_Suc:
  assumes "n < 4294967296"
  shows "inrange a d (Suc n) \<longleftrightarrow> a = d \<or> inrange a (d + 1) n"
proof (cases "a = d")
  case True
  then show ?thesis by (simp add: inrange_def)
next
  case False
  then have "a - d \<noteq> 0" by simp
  then have "unat (a - d - 1) = unat (a - d) - 1" "0 < unat (a - d)"
    by (simp_all add: unat_minus_one32 unat_gt_0)
  moreover have e: "a - (d + 1) = a - d - 1" by simp
  ultimately show ?thesis
    unfolding inrange_def e using False by linarith
qed

lemma memset_apply:
  "n \<le> 4294967296 \<Longrightarrow> memset m d c n a = (if inrange a d n then c else m a)"
proof (induction n arbitrary: m d)
  case 0
  then show ?case by (simp add: inrange_def)
next
  case (Suc n)
  then show ?case by (simp add: inrange_Suc)
qed

lemma memcpy_ascending:
  assumes "n \<le> 4294967296"
    and "\<And>i j. i < j \<Longrightarrow> j < n \<Longrightarrow> s + of_nat j \<noteq> d + of_nat i"
  shows "memcpy m d s n a = (if inrange a d n then m (s + (a - d)) else m a)"
  using assms
proof (induction n arbitrary: m d s)
  case 0
  then show ?case by (simp add: inrange_def)
next
  case (Suc n)
  have hyp: "(s + 1) + of_nat j \<noteq> (d + 1) + of_nat i" if "i < j" "j < n" for i j
    using Suc.prems(2) [of "Suc i" "Suc j"] that by (simp add: algebra_simps)
  have IH: "memcpy m d s (Suc n) a =
      (if inrange a (d + 1) n then (m(d := m s)) (s + 1 + (a - (d + 1))) else (m(d := m s)) a)"
    unfolding memcpy.simps by (rule Suc.IH) (use Suc.prems(1) hyp in simp_all)
  have src: "s + (a - d) \<noteq> d" if "inrange a (d + 1) n"
  proof -
    define k where "k = unat (a - (d + 1))"
    have "a - (d + 1) = of_nat k" by (simp add: k_def)
    then have "a - d = of_nat (Suc k)" by (simp add: algebra_simps)
    moreover have "Suc k < Suc n" using that by (simp add: inrange_def k_def)
    ultimately show ?thesis using Suc.prems(2) [of 0 "Suc k"] by simp
  qed
  have eq: "s + 1 + (a - (d + 1)) = s + (a - d)" by simp
  show ?case
    using IH src Suc.prems(1) by (auto simp: inrange_Suc eq simp del: memcpy.simps)
qed

lemma memcpy_disjoint:
  assumes "n \<le> 4294967296" and "\<And>i. i < n \<Longrightarrow> \<not> inrange (s + of_nat i) d n"
  shows "memcpy m d s n a = (if inrange a d n then m (s + (a - d)) else m a)"
proof (rule memcpy_ascending [OF assms(1)])
  fix i j :: nat
  assume "i < j" "j < n"
  then have "inrange (d + of_nat i) d n"
    using assms(1) by (simp add: inrange_def unat_of_nat32)
  then show "s + of_nat j \<noteq> d + of_nat i"
    using assms(2) [OF \<open>j < n\<close>] by metis
qed

lemma memmove_down_descending:
  assumes "n \<le> 4294967296"
    and "\<And>i j. i < j \<Longrightarrow> j < n \<Longrightarrow> s + of_nat i \<noteq> d + of_nat j"
  shows "memmove_down m (d + of_nat n) (s + of_nat n) n a =
    (if inrange a d n then m (s + (a - d)) else m a)"
  using assms
proof (induction n arbitrary: m)
  case 0
  then show ?case by (simp add: inrange_def)
next
  case (Suc n)
  have IH: "memmove_down m (d + of_nat (Suc n)) (s + of_nat (Suc n)) (Suc n) a =
      (if inrange a d n then (m(d + of_nat n := m (s + of_nat n))) (s + (a - d))
       else (m(d + of_nat n := m (s + of_nat n))) a)"
  proof -
    have "memmove_down m (d + of_nat (Suc n)) (s + of_nat (Suc n)) (Suc n) a =
        memmove_down (m(d + of_nat n := m (s + of_nat n))) (d + of_nat n) (s + of_nat n) n a"
      by simp
    also have "\<dots> = (if inrange a d n then (m(d + of_nat n := m (s + of_nat n))) (s + (a - d))
       else (m(d + of_nat n := m (s + of_nat n))) a)"
      by (rule Suc.IH) (use Suc.prems in simp_all)
    finally show ?thesis .
  qed
  have top: "inrange a d (Suc n) \<longleftrightarrow> inrange a d n \<or> a = d + of_nat n"
  proof -
    have "a = d + of_nat n \<longleftrightarrow> unat (a - d) = n"
      using Suc.prems(1) by (auto simp: unat_of_nat32 word_unat_eq_iff [of "a - d"] algebra_simps
          dest: arg_cong [where f = "of_nat :: nat \<Rightarrow> u32"])
    then show ?thesis by (auto simp: inrange_def)
  qed
  have src: "s + (a - d) \<noteq> d + of_nat n" if "inrange a d n"
    using Suc.prems(2) [of "unat (a - d)" n] that by (simp add: inrange_def)
  show ?case
    using IH src by (auto simp: top simp del: memmove_down.simps of_nat_Suc)
qed

lemma nowrap_add_inj:
  assumes "unat (x :: u32) + i < 4294967296" "unat (y :: u32) + j < 4294967296"
  shows "x + of_nat i = y + of_nat j \<longleftrightarrow> unat x + i = unat y + j"
proof -
  have "unat (x + of_nat i) = unat x + i" "unat (y + of_nat j) = unat y + j"
    using assms by (simp_all add: unat_add32 unat_of_nat32)
  then show ?thesis by (simp add: word_unat_eq_iff)
qed

lemma memcmp_zero_iff: "memcmp m a b n = 0 \<longleftrightarrow> (\<forall>i < n. m (a + of_nat i) = m (b + of_nat i))"
proof (induction n arbitrary: a b)
  case 0
  then show ?case by simp
next
  case (Suc n)
  have "(\<forall>i < Suc n. m (a + of_nat i) = m (b + of_nat i)) \<longleftrightarrow>
      m a = m b \<and> (\<forall>i < n. m (a + 1 + of_nat i) = m (b + 1 + of_nat i))"
    by (simp add: All_less_Suc2 add.assoc)
  moreover have "int (unat (m a)) - int (unat (m b)) = 0 \<longleftrightarrow> m a = m b"
    by (simp add: word_uint_eq_iff)
  ultimately show ?case using Suc.IH [of "a + 1" "b + 1"] by simp
qed

section \<open>Strings\<close>

lemma cstr_nth:
  "cstr m a xs \<Longrightarrow> i < length xs \<Longrightarrow> m (a + of_nat i) = xs ! i \<and> xs ! i \<noteq> 0"
proof (induction xs arbitrary: a i)
  case (Cons x xs)
  then show ?case
    by (cases i) (force simp: add.assoc [symmetric] simp del: add.assoc)+
qed simp

lemma cstr_end: "cstr m a xs \<Longrightarrow> m (a + of_nat (length xs)) = 0"
  by (induction xs arbitrary: a) (auto simp: add.assoc [symmetric])

lemma cstr_cong:
  "(\<And>i. i \<le> length xs \<Longrightarrow> m (a + of_nat i) = m' (b + of_nat i)) \<Longrightarrow> cstr m a xs = cstr m' b xs"
proof (induction xs arbitrary: a b)
  case Nil
  then show ?case by simp
next
  case (Cons x xs)
  have "cstr m (a + 1) xs = cstr m' (b + 1) xs"
    by (rule Cons.IH) (use Cons.prems [of "Suc _"] in \<open>simp add: add.assoc\<close>)
  then show ?case using Cons.prems [of 0] by simp
qed

lemma cstr_unique: "cstr m a xs \<Longrightarrow> cstr m a ys \<Longrightarrow> xs = ys"
proof (induction xs arbitrary: a ys)
  case Nil
  then show ?case by (cases ys) auto
next
  case (Cons x xs)
  then show ?case by (cases ys) auto
qed

lemma strlen_from_cstr:
  "cstr m (s + n) xs \<Longrightarrow> strlen_from m s n = Some (n + of_nat (length xs))"
proof (induction xs arbitrary: n)
  case Nil
  then show ?case by (simp add: strlen_from.simps)
next
  case (Cons x xs)
  then have "strlen_from m s (n + 1) = Some (n + 1 + of_nat (length xs))"
    by (simp add: add.assoc)
  then show ?case using Cons.prems by (subst strlen_from.simps) simp
qed

lemma strcmp_cstr:
  assumes "cstr m a xs" "cstr m b ys"
  shows "\<exists>r. strcmp m a b = Some r \<and> (r = 0 \<longleftrightarrow> xs = ys)"
  using assms
proof (induction xs arbitrary: a b ys)
  case Nil
  then have "strcmp m a b = Some (- int (unat (m b)))" by (subst strcmp.simps) simp
  moreover have "m b = 0 \<longleftrightarrow> ys = []" using Nil.prems(2) by (cases ys) auto
  ultimately show ?case by (auto simp: word_uint_eq_iff)
next
  case (Cons x xs)
  show ?case
  proof (cases "m b = x")
    case True
    then obtain ys' where ys: "ys = x # ys'" "cstr m (b + 1) ys'"
      using Cons.prems by (cases ys) auto
    then have "strcmp m a b = strcmp m (a + 1) (b + 1)"
      using Cons.prems True by (subst strcmp.simps) simp
    then show ?thesis using Cons.IH [of "a + 1" "b + 1" ys'] Cons.prems ys by simp
  next
    case False
    then have "strcmp m a b = Some (int (unat x) - int (unat (m b)))"
      using Cons.prems by (subst strcmp.simps) auto
    moreover have "x # xs \<noteq> ys" using False Cons.prems(2) by (cases ys) auto
    ultimately show ?thesis using False by (auto simp: word_uint_eq_iff)
  qed
qed

text \<open>The result of \<open>strlcpy_\<close>: at most \<open>cap - 1\<close> bytes of the source, then a NUL.\<close>

lemma strlcpy_loop_frame:
  assumes "k < 4294967296" "\<not> inrange a d (Suc k)"
  shows "strlcpy_loop m d s k a = m a"
  using assms
proof (induction k arbitrary: m d s)
  case 0
  then show ?case by (auto simp: inrange_def)
next
  case (Suc k)
  then have "a \<noteq> d" "\<not> inrange a (d + 1) (Suc k)"
    by (auto simp: inrange_Suc)
  then show ?case using Suc by simp
qed

lemma strlcpy_loop_cstr:
  assumes "cstr m s xs" "k < 4294967295"
    and "\<And>i. i \<le> length xs \<Longrightarrow> \<not> inrange (s + of_nat i) d (Suc k)"
  shows "cstr (strlcpy_loop m d s k) d (take k xs)"
  using assms
proof (induction k arbitrary: m d s xs)
  case 0
  then show ?case by simp
next
  case (Suc k)
  show ?case
  proof (cases xs)
    case Nil
    then show ?thesis using Suc.prems by simp
  next
    case (Cons x ys)
    let ?m = "m(d := m s)"
    have sep: "\<not> inrange (s + of_nat i) d (Suc (Suc k))" if "i \<le> Suc (length ys)" for i
      using Suc.prems(3) [of i] that Cons by simp
    have "s + of_nat i \<noteq> d" if "i \<le> Suc (length ys)" for i
      using sep [OF that] Suc.prems(2) by (auto simp: inrange_Suc)
    then have "cstr ?m (s + 1) ys = cstr m (s + 1) ys"
      by (intro cstr_cong) (metis (no_types, opaque_lifting) Suc_le_mono add.assoc fun_upd_apply of_nat_Suc)
    moreover have "\<not> inrange (s + 1 + of_nat i) (d + 1) (Suc k)" if "i \<le> length ys" for i
      using sep [of "Suc i"] that Suc.prems(2) by (simp add: inrange_Suc add.assoc)
    ultimately have IH: "cstr (strlcpy_loop ?m (d + 1) (s + 1) k) (d + 1) (take k ys)"
      using Suc.prems Cons by (intro Suc.IH) (auto simp del: fun_upd_apply)
    have "\<not> inrange d (d + 1) (Suc k)"
      using Suc.prems(2) by (simp add: inrange_def unsigned_minus_1_eq_mask mask_eq_exp_minus_1)
    then have "strlcpy_loop ?m (d + 1) (s + 1) k d = m s"
      using strlcpy_loop_frame [of k d "d + 1" ?m "s + 1"] Suc.prems(2) by simp
    then show ?thesis using IH Suc.prems(1) Cons by simp
  qed
qed

section \<open>Properties\<close>

text \<open>
  C37. \<open>memmove\<close> copies correctly whatever the overlap: for two regions of \<open>n\<close> bytes that do not
  wrap around the address space, afterwards the destination holds the bytes the source held
  before the call and every other byte of memory is unchanged.
\<close>

theorem memmove_copies:
  assumes "unat d + n \<le> 4294967296" and "unat s + n \<le> 4294967296"
  shows "memmove m d s n a = (if inrange a d n then m (s + (a - d)) else m a)"
proof (cases "d < s")
  case True
  then have "s + of_nat j \<noteq> d + of_nat i" if "i < j" "j < n" for i j
    using that assms by (simp add: nowrap_add_inj word_less_nat_alt)
  then show ?thesis
    using True assms(1) by (simp add: memmove_def memcpy_ascending)
next
  case False
  then have "s + of_nat i \<noteq> d + of_nat j" if "i < j" "j < n" for i j
    using that assms by (simp add: nowrap_add_inj word_less_nat_alt)
  then show ?thesis
    using False assms(1) by (simp add: memmove_def memmove_down_descending)
qed

theorem memmove_copies_witness:
  "memmove (\<lambda>a. ucast a) 17 16 4 20 = 19 \<and> memmove (\<lambda>a. ucast a) 17 16 4 17 = 16"
proof -
  have "unat (17 :: u32) + 4 \<le> 4294967296" "unat (16 :: u32) + 4 \<le> 4294967296" by simp_all
  from memmove_copies [OF this] show ?thesis by (simp add: inrange_def)
qed

text \<open>
  \<open>strlcpy_\<close> into a separate buffer of \<open>cap\<close> bytes always leaves a NUL-terminated string
  there, the source cut to \<open>cap - 1\<close> bytes, and writes nothing outside the \<open>cap\<close> bytes.
\<close>

lemma strlcpy_bounded_terminated:
  assumes "cstr m s xs" and "0 < cap" and "cap < 4294967296"
    and "\<forall>i \<le> length xs. \<not> inrange (s + of_nat i) d cap"
  shows "cstr (strlcpy m d s cap) d (take (cap - 1) xs) \<and>
    (\<forall>a. \<not> inrange a d cap \<longrightarrow> strlcpy m d s cap a = m a)"
proof -
  obtain k where k: "cap = Suc k" using assms(2) by (cases cap) auto
  have "cstr (strlcpy_loop m d s k) d (take k xs)"
    by (rule strlcpy_loop_cstr) (use assms k in auto)
  moreover have "strlcpy_loop m d s k a = m a" if "\<not> inrange a d cap" for a
    by (rule strlcpy_loop_frame) (use assms(3) that k in auto)
  ultimately show ?thesis using k by (simp add: strlcpy_def)
qed

end
