(* ===== verification/Pmm.thy ===== *)
theory Pmm
  imports Libk
begin

text \<open>
  The physical page allocator of \<open>kernel/mm/pmm.c\<close>: a bitmap of 4 KB frames over a window of
  DRAM, with the linear scans of the source. The allocator's static variables are the fields of
  \<open>pmm\<close>, which extends the machine's memory; every later state record of the kernel extends this
  one, so the operations apply unchanged inside the larger kernel state. The contract the rest
  of the kernel relies on is the locale \<open>frame_allocator\<close>, interpreted at the end on the model's
  own operations.
\<close>

section \<open>State and operations\<close>

record phys =
  mem :: memory

record pmm = phys +
  bitmap :: "u32 \<Rightarrow> u8"
  base_pa :: u32
  num_pages :: u32
  used_pages :: u32

abbreviation PAGE_SIZE :: u32 where
  "PAGE_SIZE \<equiv> 4096"

text \<open>\<open>128u * 1024u * 1024u / PAGE_SIZE\<close>\<close>

definition MAX_PAGES :: u32 where
  "MAX_PAGES = 32768"

definition bit_set :: "u32 \<Rightarrow> 'a pmm_scheme \<Rightarrow> 'a pmm_scheme" where
  "bit_set i s = s\<lparr>bitmap := (bitmap s)
     (drop_bit 3 i := bitmap s (drop_bit 3 i) OR ucast (push_bit (unat (i AND 7)) (1 :: u32)))\<rparr>"

definition bit_clr :: "u32 \<Rightarrow> 'a pmm_scheme \<Rightarrow> 'a pmm_scheme" where
  "bit_clr i s = s\<lparr>bitmap := (bitmap s)
     (drop_bit 3 i := bitmap s (drop_bit 3 i) AND ucast (NOT (push_bit (unat (i AND 7)) (1 :: u32))))\<rparr>"

definition bit_get :: "u32 \<Rightarrow> 'a pmm_scheme \<Rightarrow> bool" where
  "bit_get i s \<longleftrightarrow> drop_bit (unat (i AND 7)) (bitmap s (drop_bit 3 i)) AND 1 \<noteq> 0"

definition pmm_init :: "u32 \<Rightarrow> u32 \<Rightarrow> 'a pmm_scheme \<Rightarrow> 'a pmm_scheme" where
  "pmm_init start0 end0 s =
     (let start = (start0 + PAGE_SIZE - 1) AND NOT (PAGE_SIZE - 1);
          end = end0 AND NOT (PAGE_SIZE - 1);
          n = (if end > start then (end - start) div PAGE_SIZE else 0);
          n = (if n > MAX_PAGES then MAX_PAGES else n)
      in fold (\<lambda>i. bit_clr (of_nat i)) [0..<unat n]
           (s\<lparr>base_pa := start, num_pages := n, used_pages := 0\<rparr>))"

definition zero_page :: "u32 \<Rightarrow> 'a phys_scheme \<Rightarrow> 'a phys_scheme" where
  "zero_page pa s = s\<lparr>mem := fold (\<lambda>i m. st32 m (pa + 4 * of_nat i) 0) [0..<1024] (mem s)\<rparr>"

definition page_pa :: "'a pmm_scheme \<Rightarrow> nat \<Rightarrow> u32" where
  "page_pa s i = base_pa s + of_nat i * PAGE_SIZE"

definition pmm_alloc_page :: "'a pmm_scheme \<Rightarrow> u32 \<times> 'a pmm_scheme" where
  "pmm_alloc_page s =
     (case find (\<lambda>i. \<not> bit_get (of_nat i) s) [0..<unat (num_pages s)] of
        Some i \<Rightarrow> (let s1 = bit_set (of_nat i) s;
                     s2 = s1\<lparr>used_pages := used_pages s1 + 1\<rparr>
                 in (page_pa s i, zero_page (page_pa s i) s2))
      | None \<Rightarrow> (0, s))"

text \<open>
  The outer loop of \<open>pmm_alloc_aligned\<close> runs while \<open>i + n <= num_pages\<close> (an unsigned sum), from
  \<open>i = 0\<close>; the indices it visits are listed first. The list is cut at \<open>num_pages\<close>; the loop of
  the source never goes further (lemma \<open>aligned_indices_complete\<close>).
\<close>

definition aligned_indices :: "u32 \<Rightarrow> 'a pmm_scheme \<Rightarrow> nat list" where
  "aligned_indices n s =
     takeWhile (\<lambda>i. of_nat i + n \<le> num_pages s) [0..<Suc (unat (num_pages s))]"

definition run_free :: "nat \<Rightarrow> nat \<Rightarrow> 'a pmm_scheme \<Rightarrow> bool" where
  "run_free i n s \<longleftrightarrow> (\<forall>j \<in> set [0..<n]. \<not> bit_get (of_nat i + of_nat j) s)"

definition take_run :: "nat \<Rightarrow> nat \<Rightarrow> 'a pmm_scheme \<Rightarrow> 'a pmm_scheme" where
  "take_run i n s =
     fold (\<lambda>j t. zero_page (page_pa t (i + j)) (bit_set (of_nat i + of_nat j) t)) [0..<n] s"

definition pmm_alloc_aligned :: "u32 \<Rightarrow> u32 \<Rightarrow> 'a pmm_scheme \<Rightarrow> u32 \<times> 'a pmm_scheme" where
  "pmm_alloc_aligned n align s =
     (case find (\<lambda>i. page_pa s i AND (align - 1) = 0 \<and> run_free i (unat n) s) (aligned_indices n s) of
        Some i \<Rightarrow> (let s1 = take_run i (unat n) s
                 in (page_pa s i, s1\<lparr>used_pages := used_pages s1 + n\<rparr>))
      | None \<Rightarrow> (0, s))"

definition pmm_free_page :: "u32 \<Rightarrow> 'a pmm_scheme \<Rightarrow> 'a pmm_scheme" where
  "pmm_free_page pa s =
     (if pa < base_pa s then s
      else (let i = (pa - base_pa s) div PAGE_SIZE
            in if i < num_pages s \<and> bit_get i s
               then (let s1 = bit_clr i s in s1\<lparr>used_pages := used_pages s1 - 1\<rparr>)
               else s))"

definition reserve_one :: "u32 \<Rightarrow> 'a pmm_scheme \<Rightarrow> 'a pmm_scheme" where
  "reserve_one i s =
     (if \<not> bit_get i s
      then (let s1 = bit_set i s in s1\<lparr>used_pages := used_pages s1 + 1\<rparr>) else s)"

definition pmm_reserve :: "u32 \<Rightarrow> u32 \<Rightarrow> 'a pmm_scheme \<Rightarrow> 'a pmm_scheme" where
  "pmm_reserve start end s =
     (if end \<le> base_pa s then s
      else (let start = (if start < base_pa s then base_pa s else start);
                a = (start - base_pa s) div PAGE_SIZE;
                e = (end - base_pa s + PAGE_SIZE - 1) div PAGE_SIZE;
                e = (if e > num_pages s then num_pages s else e)
            in fold (\<lambda>i. reserve_one (of_nat i)) [unat a..<unat e] s))"

definition pmm_free_pages :: "'a pmm_scheme \<Rightarrow> u32" where
  "pmm_free_pages s = num_pages s - used_pages s"

definition pmm_total_pages :: "'a pmm_scheme \<Rightarrow> u32" where
  "pmm_total_pages s = num_pages s"

section \<open>The bitmap as a set of pages\<close>

lemma bit_get_iff: "bit_get i s \<longleftrightarrow> bit (bitmap s (drop_bit 3 i)) (unat (i AND 7))"
  by (simp add: bit_get_def bit_iff_odd_drop_bit and_one_eq odd_iff_mod_2_eq_one)

lemma index_split: "i = j \<longleftrightarrow> drop_bit 3 i = drop_bit 3 j \<and> unat (i AND 7) = unat (j AND 7)"
  for i j :: u32
proof
  assume "drop_bit 3 i = drop_bit 3 j \<and> unat (i AND 7) = unat (j AND 7)"
  then have "unat i div 8 = unat j div 8" "unat i mod 8 = unat j mod 8"
    using unat_drop_bit [of 3 i] unat_drop_bit [of 3 j] by (simp_all add: word_nat)
  then have "unat i = unat j"
    by (metis div_mult_mod_eq)
  then show "i = j" by (simp add: word_unat_eq_iff)
qed simp

lemma unat_and7_less: "unat ((i :: u32) AND 7) < 8"
  by (simp add: word_nat)

lemma bit_get_bit_set [simp]: "bit_get j (bit_set i s) \<longleftrightarrow> j = i \<or> bit_get j s"
proof (cases "drop_bit 3 j = drop_bit 3 i")
  case True
  then show ?thesis
    using unat_and7_less [of j] unat_and7_less [of i]
    by (auto simp: bit_get_iff bit_set_def bit_simps index_split [of j i])
next
  case False
  then show ?thesis by (auto simp: bit_get_iff bit_set_def)
qed

lemma bit_get_bit_clr [simp]: "bit_get j (bit_clr i s) \<longleftrightarrow> j \<noteq> i \<and> bit_get j s"
proof (cases "drop_bit 3 j = drop_bit 3 i")
  case True
  then show ?thesis
    using unat_and7_less [of j] unat_and7_less [of i]
    by (auto simp: bit_get_iff bit_clr_def bit_simps index_split [of j i])
next
  case False
  then show ?thesis by (auto simp: bit_get_iff bit_clr_def)
qed

lemma bit_get_cong: "bitmap s = bitmap t \<Longrightarrow> bit_get i s = bit_get i t"
  by (simp add: bit_get_def)

lemma bit_get_updates [simp]:
  "bit_get i (s\<lparr>used_pages := u\<rparr>) = bit_get i s"
  "bit_get i (s\<lparr>base_pa := b\<rparr>) = bit_get i s"
  "bit_get i (s\<lparr>num_pages := n\<rparr>) = bit_get i s"
  "bit_get i (mem_update f s) = bit_get i s"
  "bit_get i (zero_page pa s) = bit_get i s"
  by (simp_all add: bit_get_def zero_page_def)

lemma bit_fields [simp, frame_simps]:
  "mem (bit_set i s) = mem s" "mem (bit_clr i s) = mem s"
  "base_pa (bit_set i s) = base_pa s" "base_pa (bit_clr i s) = base_pa s"
  "num_pages (bit_set i s) = num_pages s" "num_pages (bit_clr i s) = num_pages s"
  "used_pages (bit_set i s) = used_pages s" "used_pages (bit_clr i s) = used_pages s"
  "pmm.more (bit_set i s) = pmm.more s" "pmm.more (bit_clr i s) = pmm.more s"
  by (simp_all add: bit_set_def bit_clr_def)

lemma zero_page_fields [simp, frame_simps]:
  "bitmap (zero_page pa s) = bitmap s" "base_pa (zero_page pa s) = base_pa s"
  "num_pages (zero_page pa s) = num_pages s" "used_pages (zero_page pa s) = used_pages s"
  "pmm.more (zero_page pa s) = pmm.more s" "phys.more (zero_page pa t) = phys.more t"
  by (simp_all add: zero_page_def)

lemma page_pa_cong [simp]:
  "page_pa (bit_set i s) k = page_pa s k" "page_pa (bit_clr i s) k = page_pa s k"
  "page_pa (zero_page pa s) k = page_pa s k" "page_pa (s\<lparr>used_pages := u\<rparr>) k = page_pa s k"
  by (simp_all add: page_pa_def)

definition page_aligned :: "u32 \<Rightarrow> bool" where
  "page_aligned a \<longleftrightarrow> a AND 0xFFF = 0"

lemma page_aligned_unat: "page_aligned a \<longleftrightarrow> unat a mod 4096 = 0"
  unfolding page_aligned_def
  by (metis unat_and_low(1) unat_eq_0)

definition same_page :: "u32 \<Rightarrow> u32 \<Rightarrow> bool" where
  "same_page a b \<longleftrightarrow> unat a div 4096 = unat b div 4096"

lemma fold_zero_words:
  assumes "page_aligned pa" "n \<le> 1024"
  shows "fold (\<lambda>i m. st32 m (pa + 4 * of_nat i) 0) [0..<n] m a =
    (if same_page a pa \<and> unat a mod 4096 < 4 * n then 0 else m a)"
  using assms(2)
proof (induction n)
  case 0
  then show ?case by simp
next
  case (Suc n)
  have al: "unat pa mod 4096 = 0" using assms(1) by (simp add: page_aligned_unat)
  have "unat (pa + of_nat (4 * n)) = unat pa + 4 * n"
    by (rule aligned_add_unat [OF al]) (use Suc.prems in simp_all)
  then have addr: "unat (pa + 4 * of_nat n) = unat pa + 4 * n" by simp
  obtain q where q: "unat pa = 4096 * q" using al by (meson dvdE mod_eq_0_iff_dvd)
  have "unat (pa + 4 * of_nat n) mod 4 = 0" unfolding addr q by simp
  note st = st32_apply [OF this, of _ 0 a]
  have "unat a div 4 = (unat pa + 4 * n) div 4 \<longleftrightarrow> unat a div 4 = 1024 * q + n"
    unfolding q by simp
  also have "\<dots> \<longleftrightarrow> unat a div 4 div 1024 = q \<and> unat a div 4 mod 1024 = n"
    using Suc.prems by (simp add: div_mod_unique_nat)
  also have "\<dots> \<longleftrightarrow> same_page a pa \<and> unat a mod 4096 div 4 = n"
    unfolding same_page_def q by (simp add: div_mult2_eq [symmetric] mod_mult2_eq [of _ 4 1024, simplified])
  also have "unat a mod 4096 div 4 = n \<longleftrightarrow> 4 * n \<le> unat a mod 4096 \<and> unat a mod 4096 < 4 * n + 4"
    by linarith
  finally have eq: "unat a div 4 = (unat pa + 4 * n) div 4 \<longleftrightarrow>
      same_page a pa \<and> 4 * n \<le> unat a mod 4096 \<and> unat a mod 4096 < 4 * n + 4" .
  have st': "st32 m' (pa + 4 * of_nat n) 0 a =
      (if same_page a pa \<and> 4 * n \<le> unat a mod 4096 \<and> unat a mod 4096 < 4 * n + 4 then 0 else m' a)" for m'
    unfolding st addr eq by simp
  show ?case
    using Suc by (auto simp: st')
qed

lemma mem_zero_page:
  assumes "page_aligned pa"
  shows "mem (zero_page pa s) a = (if same_page a pa then 0 else mem s a)"
  using fold_zero_words [OF assms, of 1024 "mem s" a] by (simp add: zero_page_def)

section \<open>Invariant\<close>

definition used_set :: "'a pmm_scheme \<Rightarrow> nat set" where
  "used_set s = {i. i < unat (num_pages s) \<and> bit_get (of_nat i) s}"

definition pmm_inv :: "'a pmm_scheme \<Rightarrow> bool" where
  "pmm_inv s \<longleftrightarrow> num_pages s \<le> MAX_PAGES \<and> page_aligned (base_pa s) \<and> base_pa s \<noteq> 0 \<and>
     unat (base_pa s) + 4096 * unat (num_pages s) \<le> 4294967296 \<and>
     unat (used_pages s) = card (used_set s)"

definition frame_window :: "'a pmm_scheme \<Rightarrow> u32 set" where
  "frame_window s = page_pa s ` {..<unat (num_pages s)}"

definition used_frames :: "'a pmm_scheme \<Rightarrow> u32 set" where
  "used_frames s = page_pa s ` used_set s"

lemma pmm_inv_num: "pmm_inv s \<Longrightarrow> unat (num_pages s) \<le> 32768"
  by (simp add: pmm_inv_def MAX_PAGES_def word_le_nat_alt)

lemma used_set_subset: "used_set s \<subseteq> {..<unat (num_pages s)}"
  by (auto simp: used_set_def)

lemma finite_used_set [simp]: "finite (used_set s)"
  by (rule finite_subset [OF used_set_subset]) simp

lemma unat_page_pa:
  assumes "pmm_inv s" "i < unat (num_pages s)"
  shows "unat (page_pa s i) = unat (base_pa s) + 4096 * i"
proof -
  have i: "unat (of_nat i * 4096 :: u32) = i * 4096"
    using assms pmm_inv_num [OF assms(1)] by (subst unat_mult32) (auto simp: unat_of_nat32)
  have "4096 * i + unat (base_pa s) < 4294967296"
    using assms by (auto simp: pmm_inv_def)
  then show ?thesis
    unfolding page_pa_def using i by (subst unat_add32) auto
qed

lemma page_pa_aligned:
  assumes "pmm_inv s" "i < unat (num_pages s)"
  shows "page_aligned (page_pa s i)"
  using assms by (auto simp: page_aligned_unat unat_page_pa pmm_inv_def)

lemma page_pa_nonzero:
  assumes "pmm_inv s" "i < unat (num_pages s)"
  shows "page_pa s i \<noteq> 0"
proof -
  have "0 < unat (base_pa s)" using assms(1) by (simp add: pmm_inv_def unat_gt_0)
  then show ?thesis using unat_page_pa [OF assms] by auto
qed

lemma page_pa_inj: "pmm_inv s \<Longrightarrow> inj_on (page_pa s) {..<unat (num_pages s)}"
  by (rule inj_onI) (metis add_left_cancel lessThan_iff mult_cancel1 unat_page_pa zero_neq_numeral)

lemma page_pa_eq_iff:
  "pmm_inv s \<Longrightarrow> i < unat (num_pages s) \<Longrightarrow> j < unat (num_pages s) \<Longrightarrow> page_pa s i = page_pa s j \<longleftrightarrow> i = j"
  using page_pa_inj [of s] by (auto simp: inj_on_def)

lemma page_pa_mem_used:
  "pmm_inv s \<Longrightarrow> i < unat (num_pages s) \<Longrightarrow> page_pa s i \<in> used_frames s \<longleftrightarrow> i \<in> used_set s"
  unfolding used_frames_def using page_pa_inj [of s] used_set_subset [of s]
  by (auto simp: inj_on_image_mem_iff)

lemma unat_page_index:
  "pmm_inv s \<Longrightarrow> i \<le> unat (num_pages s) \<Longrightarrow> unat (of_nat i :: u32) = i"
  using pmm_inv_num [of s] by (intro unat_of_nat32) linarith

lemma of_nat_bit_index:
  assumes "pmm_inv s" "i < unat (num_pages s)" "j < unat (num_pages s)"
  shows "(of_nat i :: u32) = of_nat j \<longleftrightarrow> i = j"
proof
  assume "(of_nat i :: u32) = of_nat j"
  then show "i = j"
    using unat_page_index [OF assms(1) less_imp_le [OF assms(2)]]
      unat_page_index [OF assms(1) less_imp_le [OF assms(3)]] by metis
qed simp

lemma used_set_bit_set:
  assumes "pmm_inv s" "i < unat (num_pages s)"
  shows "used_set (bit_set (of_nat i) s) = insert i (used_set s)"
  using assms by (auto simp: used_set_def of_nat_bit_index)

lemma used_set_bit_clr:
  assumes "pmm_inv s" "i < unat (num_pages s)"
  shows "used_set (bit_clr (of_nat i) s) = used_set s - {i}"
  using assms by (auto simp: used_set_def of_nat_bit_index)

lemma used_set_updates [simp]:
  "used_set (s\<lparr>used_pages := u\<rparr>) = used_set s" "used_set (zero_page pa s) = used_set s"
  "used_set (mem_update f s) = used_set s"
  by (simp_all add: used_set_def)

lemma pmm_inv_mem [simp]:
  "pmm_inv (mem_update f s) = pmm_inv s" "pmm_inv (zero_page pa s) = pmm_inv s"
  by (simp_all add: pmm_inv_def)

lemma card_used_bound: "pmm_inv s \<Longrightarrow> card (used_set s) \<le> unat (num_pages s)"
  using card_mono [OF _ used_set_subset, of s] by simp

lemma unat_used_succ:
  assumes "pmm_inv s" "i < unat (num_pages s)" "i \<notin> used_set s"
  shows "unat (used_pages s + 1) = Suc (unat (used_pages s))"
  using assms card_used_bound [of s] pmm_inv_num [of s]
  by (subst unat_add32) (auto simp: pmm_inv_def)

lemma pmm_inv_take_one:
  assumes "pmm_inv s" "i < unat (num_pages s)" "i \<notin> used_set s"
  shows "pmm_inv ((bit_set (of_nat i) s)\<lparr>used_pages := used_pages s + 1\<rparr>)"
  using assms unat_used_succ [OF assms]
  by (simp add: pmm_inv_def used_set_bit_set)

lemma pmm_alloc_page_cases:
  assumes inv: "pmm_inv s" and alloc: "pmm_alloc_page s = (pa, s')"
  obtains (full) "pa = 0" "s' = s" "used_set s = {..<unat (num_pages s)}"
  | (page) i where "i < unat (num_pages s)" "i \<notin> used_set s" "{..<i} \<subseteq> used_set s"
      "pa = page_pa s i" "pa \<noteq> 0" "page_aligned pa" "pmm_inv s'"
      "used_set s' = insert i (used_set s)"
      "mem s' = (\<lambda>a. if same_page a pa then 0 else mem s a)"
      "base_pa s' = base_pa s" "num_pages s' = num_pages s" "pmm.more s' = pmm.more s"
proof (cases "find (\<lambda>i. \<not> bit_get (of_nat i) s) [0..<unat (num_pages s)]")
  case None
  then show thesis
    using alloc find_upt_None [THEN iffD1, OF None]
    by (intro full) (auto simp: pmm_alloc_page_def used_set_def)
next
  case (Some i)
  then have i: "i < unat (num_pages s)" "\<not> bit_get (of_nat i) s" "\<forall>j < i. bit_get (of_nat j) s"
    by (auto simp: find_upt_Some)
  then have nu: "i \<notin> used_set s" by (simp add: used_set_def)
  have s': "pa = page_pa s i"
    "s' = zero_page (page_pa s i) ((bit_set (of_nat i) s)\<lparr>used_pages := used_pages s + 1\<rparr>)"
    using alloc Some by (auto simp: pmm_alloc_page_def Let_def)
  show thesis
  proof (rule page [of i])
    show "{..<i} \<subseteq> used_set s" using i by (auto simp: used_set_def)
    show "mem s' = (\<lambda>a. if same_page a pa then 0 else mem s a)"
      using s' by (simp add: fun_eq_iff mem_zero_page page_pa_aligned [OF inv i(1)])
  qed (use i nu s' inv in \<open>simp_all add: page_pa_nonzero page_pa_aligned pmm_inv_take_one used_set_bit_set\<close>)
qed

section \<open>Freeing, reserving, initialising\<close>

lemma pmm_free_page_frame:
  "mem (pmm_free_page pa s) = mem s" "base_pa (pmm_free_page pa s) = base_pa s"
  "num_pages (pmm_free_page pa s) = num_pages s" "pmm.more (pmm_free_page pa s) = pmm.more s"
  by (simp_all add: pmm_free_page_def Let_def)

lemma page_index_page_pa:
  assumes "pmm_inv s" "i < unat (num_pages s)"
  shows "(page_pa s i - base_pa s) div PAGE_SIZE = of_nat i" "base_pa s \<le> page_pa s i"
proof -
  have u: "unat (page_pa s i) = unat (base_pa s) + 4096 * i" by (rule unat_page_pa [OF assms])
  then show le: "base_pa s \<le> page_pa s i" by (simp add: word_le_nat_alt)
  have "unat (page_pa s i - base_pa s) = 4096 * i"
    using u unat_diff32 [OF le] by simp
  then show "(page_pa s i - base_pa s) div PAGE_SIZE = of_nat i"
    using unat_page_index [OF assms(1) less_imp_le [OF assms(2)]]
    by (simp add: word_unat_eq_iff unat_div32)
qed

lemma pmm_inv_drop_one:
  assumes "pmm_inv s" "i \<in> used_set s"
  shows "pmm_inv ((bit_clr (of_nat i) s)\<lparr>used_pages := used_pages s - 1\<rparr>)"
proof -
  have i: "i < unat (num_pages s)" using assms(2) by (simp add: used_set_def)
  have "card (used_set s) \<noteq> 0" using assms(2) by auto
  then have "unat (used_pages s - 1) = card (used_set s) - 1"
    using assms(1) by (subst unat_diff32) (auto simp: pmm_inv_def word_le_nat_alt Suc_le_eq card_gt_0_iff)
  then show ?thesis
    using assms i by (simp add: pmm_inv_def used_set_bit_clr)
qed

lemma pmm_free_page_index:
  assumes "pmm_inv s" "i < unat (num_pages s)"
  shows "pmm_inv (pmm_free_page (page_pa s i) s) \<and> used_set (pmm_free_page (page_pa s i) s) = used_set s - {i}"
proof (cases "i \<in> used_set s")
  case True
  then have "pmm_free_page (page_pa s i) s = (bit_clr (of_nat i) s)\<lparr>used_pages := used_pages s - 1\<rparr>"
    using assms unat_page_index [OF assms(1) less_imp_le [OF assms(2)]]
      page_index_page_pa [OF assms] by (auto simp: pmm_free_page_def word_less_nat_alt word_le_nat_alt used_set_def)
  then show ?thesis using pmm_inv_drop_one [OF assms(1) True] used_set_bit_clr [OF assms] by simp
next
  case False
  then have "pmm_free_page (page_pa s i) s = s"
    using assms by (simp add: pmm_free_page_def page_index_page_pa used_set_def)
  then show ?thesis using assms False by simp
qed

text \<open>Freeing any address, in the window or not, keeps the invariant.\<close>

lemma pmm_free_page_inv:
  assumes "pmm_inv s"
  shows "pmm_inv (pmm_free_page pa s)"
proof -
  let ?i = "(pa - base_pa s) div PAGE_SIZE"
  show ?thesis
  proof (cases "pa < base_pa s \<or> \<not> (?i < num_pages s \<and> bit_get ?i s)")
    case True
    then show ?thesis using assms by (auto simp: pmm_free_page_def Let_def)
  next
    case False
    then have "unat ?i \<in> used_set s" by (simp add: used_set_def word_less_nat_alt)
    then show ?thesis
      using False pmm_inv_drop_one [OF assms, of "unat ?i"] by (simp add: pmm_free_page_def Let_def)
  qed
qed

lemma reserve_one_spec:
  assumes "pmm_inv s" "i < unat (num_pages s)"
  shows "pmm_inv (reserve_one (of_nat i) s) \<and> used_set (reserve_one (of_nat i) s) = insert i (used_set s) \<and>
         num_pages (reserve_one (of_nat i) s) = num_pages s \<and> base_pa (reserve_one (of_nat i) s) = base_pa s \<and>
         mem (reserve_one (of_nat i) s) = mem s \<and> pmm.more (reserve_one (of_nat i) s) = pmm.more s"
proof (cases "i \<in> used_set s")
  case True
  then show ?thesis using assms by (auto simp: reserve_one_def used_set_def)
next
  case False
  then have "reserve_one (of_nat i) s = (bit_set (of_nat i) s)\<lparr>used_pages := used_pages s + 1\<rparr>"
    using assms by (simp add: reserve_one_def used_set_def)
  then show ?thesis using pmm_inv_take_one [OF assms False] used_set_bit_set [OF assms] by simp
qed

lemma reserve_fold:
  assumes "pmm_inv s" "set xs \<subseteq> {..<unat (num_pages s)}"
  shows "pmm_inv (fold (\<lambda>i. reserve_one (of_nat i)) xs s) \<and>
         used_set (fold (\<lambda>i. reserve_one (of_nat i)) xs s) = set xs \<union> used_set s \<and>
         num_pages (fold (\<lambda>i. reserve_one (of_nat i)) xs s) = num_pages s \<and>
         base_pa (fold (\<lambda>i. reserve_one (of_nat i)) xs s) = base_pa s \<and>
         mem (fold (\<lambda>i. reserve_one (of_nat i)) xs s) = mem s"
  using assms
proof (induction xs arbitrary: s)
  case (Cons i xs)
  then have "i < unat (num_pages s)" by simp
  from reserve_one_spec [OF Cons.prems(1) this] Cons show ?case by simp
qed simp

lemma bit_clr_fold:
  "bit_get j (fold (\<lambda>i. bit_clr (of_nat i)) xs s) \<longleftrightarrow> j \<notin> of_nat ` set xs \<and> bit_get j s"
  "mem (fold (\<lambda>i. bit_clr (of_nat i)) xs s) = mem s"
  "num_pages (fold (\<lambda>i. bit_clr (of_nat i)) xs s) = num_pages s"
  "base_pa (fold (\<lambda>i. bit_clr (of_nat i)) xs s) = base_pa s"
  "used_pages (fold (\<lambda>i. bit_clr (of_nat i)) xs s) = used_pages s"
  "pmm.more (fold (\<lambda>i. bit_clr (of_nat i)) xs s) = pmm.more s"
  by (induction xs arbitrary: s) auto

lemma round_down_page: "unat (x AND NOT (PAGE_SIZE - 1)) = 4096 * (unat x div 4096)" for x :: u32
proof -
  have "NOT (PAGE_SIZE - 1) = (0xFFFFF000 :: u32)" by simp
  then have "unat (x AND NOT (PAGE_SIZE - 1)) = unat x - unat x mod 4096"
    by (simp only: unat_and_high)
  then show ?thesis by (simp add: minus_mod_eq_mult_div)
qed

lemma page_aligned_round_down: "page_aligned (x AND NOT (PAGE_SIZE - 1))"
  unfolding page_aligned_unat round_down_page by simp

lemma round_up_page:
  assumes "unat (x :: u32) \<le> 0xFFFFF000"
  shows "unat ((x + PAGE_SIZE - 1) AND NOT (PAGE_SIZE - 1)) = 4096 * ((unat x + 4095) div 4096)"
proof -
  have "unat (x + 4095) = unat x + 4095" using assms by (subst unat_add32) auto
  moreover have "x + PAGE_SIZE - 1 = x + 4095" by simp
  ultimately show ?thesis by (simp only: round_down_page)
qed

lemma pmm_init_inv:
  assumes "0 < start" "unat start \<le> 0xFFFFF000"
  shows "pmm_inv (pmm_init start end s)" "used_set (pmm_init start end s) = {}"
    "unat (base_pa (pmm_init start end s)) = 4096 * ((unat start + 4095) div 4096)"
    "unat (num_pages (pmm_init start end s)) =
       min 32768 (unat end div 4096 - (unat start + 4095) div 4096)"
proof -
  define b where "b = (start + PAGE_SIZE - 1) AND NOT (PAGE_SIZE - 1)"
  define e where "e = end AND NOT (PAGE_SIZE - 1)"
  define n where "n = (if e > b then (e - b) div PAGE_SIZE else 0)"
  define n' where "n' = (if n > MAX_PAGES then MAX_PAGES else n)"
  have init: "pmm_init start end s = fold (\<lambda>i. bit_clr (of_nat i)) [0..<unat n']
           (s\<lparr>base_pa := b, num_pages := n', used_pages := 0\<rparr>)"
    by (simp add: pmm_init_def b_def e_def n_def n'_def Let_def)
  have b: "unat b = 4096 * ((unat start + 4095) div 4096)" unfolding b_def by (rule round_up_page [OF assms(2)])
  have e: "unat e = 4096 * (unat end div 4096)" unfolding e_def by (rule round_down_page)
  have n: "unat n = unat end div 4096 - (unat start + 4095) div 4096"
    using b e unat_diff32 [of b e]
    by (auto simp: n_def word_less_nat_alt word_le_nat_alt unat_div32 diff_mult_distrib2 [symmetric])
  have n': "unat n' = min 32768 (unat end div 4096 - (unat start + 4095) div 4096)"
    using n by (auto simp: n'_def MAX_PAGES_def word_less_nat_alt)
  show "unat (base_pa (pmm_init start end s)) = 4096 * ((unat start + 4095) div 4096)"
    "unat (num_pages (pmm_init start end s)) =
       min 32768 (unat end div 4096 - (unat start + 4095) div 4096)"
    using b n' by (simp_all add: init bit_clr_fold)
  show u: "used_set (pmm_init start end s) = {}"
    by (auto simp: used_set_def init bit_clr_fold)
  have "0 < unat start" using assms(1) by (simp add: unat_gt_0)
  then have "0 < unat b" unfolding b by simp
  moreover have "unat b + 4096 * unat n' \<le> 4294967296"
  proof -
    have "(unat start + 4095) div 4096 \<le> 1048576" using assms(2) by linarith
    moreover have "unat end div 4096 \<le> 1048576"
      using unat_bound32 [of "end"] by linarith
    moreover have "unat n' \<le> unat end div 4096 - (unat start + 4095) div 4096" unfolding n' by simp
    ultimately show ?thesis unfolding b by linarith
  qed
  moreover have "page_aligned b" unfolding b_def by (rule page_aligned_round_down)
  ultimately show "pmm_inv (pmm_init start end s)"
    using u n' by (auto simp: pmm_inv_def init bit_clr_fold MAX_PAGES_def word_le_nat_alt)
qed

lemma page_span_low: "(S - B) div 4096 \<le> i \<longleftrightarrow> S < B + 4096 * (i + 1)" for S B i :: nat
  using div_less_iff_less_mult [of 4096 "S - B" "Suc i"] by (auto simp: less_Suc_eq_le)

lemma page_span_high: "B < E \<Longrightarrow> i < (E - B + 4095) div 4096 \<longleftrightarrow> B + 4096 * i < E" for E B i :: nat
  using less_eq_div_iff_mult_less_eq [of 4096 "Suc i" "E - B + 4095"] by (auto simp: Suc_le_eq)

lemma pmm_reserve_spec:
  assumes inv: "pmm_inv s" and lt: "start < end"
  shows "pmm_inv (pmm_reserve start end s)"
    "used_set (pmm_reserve start end s) = used_set s \<union>
       {i. i < unat (num_pages s) \<and> unat (base_pa s) + 4096 * i < unat end \<and>
           unat start < unat (base_pa s) + 4096 * (i + 1)}"
    "num_pages (pmm_reserve start end s) = num_pages s"
    "base_pa (pmm_reserve start end s) = base_pa s"
    "mem (pmm_reserve start end s) = mem s"
proof -
  define a where "a = ((if start < base_pa s then base_pa s else start) - base_pa s) div PAGE_SIZE"
  define e where "e = (end - base_pa s + PAGE_SIZE - 1) div PAGE_SIZE"
  define e' where "e' = (if e > num_pages s then num_pages s else e)"
  let ?f = "fold (\<lambda>i. reserve_one (of_nat i)) [unat a..<unat e'] s"
  have unf: "pmm_reserve start end s = (if end \<le> base_pa s then s else ?f)"
    by (simp add: pmm_reserve_def Let_def a_def e_def e'_def)
  have "set [unat a..<unat e'] \<subseteq> {..<unat (num_pages s)}"
    by (auto simp: e'_def word_less_nat_alt split: if_splits)
  note f = reserve_fold [OF inv this]
  have ua: "unat a = (unat start - unat (base_pa s)) div 4096"
    using unat_diff32 [of "base_pa s" start] by (auto simp: a_def unat_div32 word_less_nat_alt word_le_nat_alt)
  have ue: "unat e = (unat end - unat (base_pa s) + 4095) div 4096" if "\<not> end \<le> base_pa s"
  proof -
    have "4096 \<le> unat (base_pa s)" using inv
      by (auto simp: pmm_inv_def page_aligned_unat unat_gt_0 dvd_imp_le mod_eq_0_iff_dvd)
    moreover have "unat (end - base_pa s) = unat end - unat (base_pa s)"
      using that by (intro unat_diff32) simp
    ultimately have "unat (end - base_pa s) < 4294963201"
      using unat_bound32 [of "end"] by linarith
    then have "unat (end - base_pa s) + unat (4095 :: u32) < 4294967296"
      by simp
    then have "unat (end - base_pa s + 4095) = unat (end - base_pa s) + 4095"
      by (subst unat_add32) simp_all
    moreover have shift: "end - base_pa s + PAGE_SIZE - 1 = end - base_pa s + 4095" by simp
    moreover note \<open>unat (end - base_pa s) = unat end - unat (base_pa s)\<close>
    ultimately show ?thesis unfolding e_def unat_div32 shift by simp
  qed
  have idx: "i \<in> {unat a..<unat e'} \<longleftrightarrow> i < unat (num_pages s) \<and> unat (base_pa s) + 4096 * i < unat end \<and>
           unat start < unat (base_pa s) + 4096 * (i + 1)" if "\<not> end \<le> base_pa s" for i
  proof -
    have "unat (base_pa s) < unat end" using that by (simp add: word_le_nat_alt)
    then have "i < unat e \<longleftrightarrow> unat (base_pa s) + 4096 * i < unat end"
      unfolding ue [OF that] by (rule page_span_high)
    moreover have "unat a \<le> i \<longleftrightarrow> unat start < unat (base_pa s) + 4096 * (i + 1)"
      unfolding ua by (rule page_span_low)
    moreover have "unat e' = min (unat e) (unat (num_pages s))"
      by (simp add: e'_def word_less_nat_alt)
    ultimately show ?thesis by auto
  qed
  show "pmm_inv (pmm_reserve start end s)" "num_pages (pmm_reserve start end s) = num_pages s"
    "base_pa (pmm_reserve start end s) = base_pa s" "mem (pmm_reserve start end s) = mem s"
    using inv f by (auto simp: unf)
  show "used_set (pmm_reserve start end s) = used_set s \<union>
       {i. i < unat (num_pages s) \<and> unat (base_pa s) + 4096 * i < unat end \<and>
           unat start < unat (base_pa s) + 4096 * (i + 1)}" (is "_ = _ \<union> ?S")
  proof (cases "end \<le> base_pa s")
    case True
    then have S: "?S = {}" by (auto simp: word_le_nat_alt)
    show ?thesis unfolding S using True by (simp add: unf)
  next
    case False
    have S: "?S = {unat a..<unat e'}" by (rule set_eqI) (simp only: idx [OF False] mem_Collect_eq)
    show ?thesis unfolding S using False f by (simp add: unf Un_commute)
  qed
qed

section \<open>Aligned runs\<close>

lemma aligned_indices_complete:
  assumes "pmm_inv s"
  shows "aligned_indices n s = (if n \<le> num_pages s then [0..<Suc (unat (num_pages s) - unat n)] else [])"
    "n \<le> num_pages s \<Longrightarrow> \<not> of_nat (Suc (unat (num_pages s))) + n \<le> num_pages s"
proof -
  have P: "of_nat i + n \<le> num_pages s \<longleftrightarrow> i \<le> unat (num_pages s) - unat n"
    if "n \<le> num_pages s" "i \<le> Suc (unat (num_pages s))" for i
  proof -
    have "unat (of_nat i + n) = i + unat n"
      using that pmm_inv_num [OF assms] by (subst unat_add32) (auto simp: unat_of_nat32 word_le_nat_alt)
    then show ?thesis using that by (auto simp: word_le_nat_alt)
  qed
  show "aligned_indices n s = (if n \<le> num_pages s then [0..<Suc (unat (num_pages s) - unat n)] else [])"
  proof (cases "n \<le> num_pages s")
    case True
    then show ?thesis
      unfolding aligned_indices_def using P [OF True]
      by (subst takeWhile_upt_le [where k = "unat (num_pages s) - unat n"]) (auto simp del: upt_Suc)
  next
    case False
    then show ?thesis by (simp add: aligned_indices_def upt_rec [of 0])
  qed
  show "n \<le> num_pages s \<Longrightarrow> \<not> of_nat (Suc (unat (num_pages s))) + n \<le> num_pages s"
    using P [of "Suc (unat (num_pages s))"] by simp
qed

lemma take_run_Suc:
  "take_run i (Suc n) s =
     zero_page (page_pa (take_run i n s) (i + n)) (bit_set (of_nat i + of_nat n) (take_run i n s))"
  by (simp add: take_run_def)

lemma take_run_frame [simp]:
  "take_run i 0 s = s"
  "base_pa (take_run i n s) = base_pa s" "num_pages (take_run i n s) = num_pages s"
  "used_pages (take_run i n s) = used_pages s" "pmm.more (take_run i n s) = pmm.more s"
  by (induction n) (simp_all add: take_run_Suc, simp_all add: take_run_def)

lemma page_pa_take_run [simp]: "page_pa (take_run i n s) j = page_pa s j"
  by (simp add: page_pa_def)

lemma bit_get_take_run:
  "bit_get k (take_run i n s) \<longleftrightarrow> (\<exists>j < n. k = of_nat i + of_nat j) \<or> bit_get k s"
  by (induction n) (auto simp: take_run_Suc less_Suc_eq)

lemma used_set_take_run:
  assumes "pmm_inv s" "i + n \<le> unat (num_pages s)"
  shows "used_set (take_run i n s) = {i..<i + n} \<union> used_set s"
proof -
  have "(\<exists>j < n. (of_nat k :: u32) = of_nat i + of_nat j) \<longleftrightarrow> k \<in> {i..<i + n}" if "k < unat (num_pages s)" for k
  proof
    assume "\<exists>j < n. (of_nat k :: u32) = of_nat i + of_nat j"
    then obtain j where j: "j < n" "(of_nat k :: u32) = of_nat (i + j)" by auto
    then have "k = i + j" using of_nat_bit_index [OF assms(1) that, of "i + j"] assms(2) by linarith
    then show "k \<in> {i..<i + n}" using j by simp
  next
    assume "k \<in> {i..<i + n}"
    then show "\<exists>j < n. (of_nat k :: u32) = of_nat i + of_nat j"
      by (intro exI [of _ "k - i"]) (auto simp: of_nat_diff)
  qed
  then have "used_set (take_run i n s) = {k. k < unat (num_pages s) \<and> (k \<in> {i..<i + n} \<or> bit_get (of_nat k) s)}"
    unfolding used_set_def take_run_frame bit_get_take_run by blast
  then show ?thesis using assms(2) unfolding used_set_def by fastforce
qed

lemma mem_take_run:
  assumes "pmm_inv s" "i + n \<le> unat (num_pages s)"
  shows "mem (take_run i n s) a = (if \<exists>j < n. same_page a (page_pa s (i + j)) then 0 else mem s a)"
  using assms(2)
proof (induction n)
  case (Suc n)
  then have "page_aligned (page_pa s (i + n))" using page_pa_aligned [OF assms(1)] by simp
  then show ?case using Suc by (auto simp: take_run_Suc mem_zero_page less_Suc_eq)
qed simp

lemma run_free_iff:
  assumes "i + n \<le> unat (num_pages s)"
  shows "run_free i n s \<longleftrightarrow> {i..<i + n} \<inter> used_set s = {}"
proof -
  have "{i..<i + n} = (\<lambda>j. i + j) ` {0..<n}" by (simp add: image_add_atLeastLessThan add.commute)
  then have "run_free i n s \<longleftrightarrow> (\<forall>k \<in> {i..<i + n}. \<not> bit_get (of_nat k) s)"
    by (simp only: run_free_def ball_simps set_upt of_nat_add)
  then show ?thesis
    using assms by (fastforce simp: disjoint_iff used_set_def)
qed

lemma pmm_inv_take_run:
  assumes "pmm_inv s" "i + unat n \<le> unat (num_pages s)" "{i..<i + unat n} \<inter> used_set s = {}"
  shows "pmm_inv ((take_run i (unat n) s)\<lparr>used_pages := used_pages s + n\<rparr>)"
proof -
  have "card ({i..<i + unat n} \<union> used_set s) = unat n + card (used_set s)"
    using assms(3) by (simp add: card_Un_disjoint)
  moreover have "card ({i..<i + unat n} \<union> used_set s) \<le> unat (num_pages s)"
    using card_mono [of "{..<unat (num_pages s)}" "{i..<i + unat n} \<union> used_set s"]
      used_set_subset [of s] assms(2) by (simp add: subset_iff)
  ultimately have "unat (used_pages s + n) = card ({i..<i + unat n} \<union> used_set s)"
    using assms(1) pmm_inv_num [OF assms(1)] by (subst unat_add32) (auto simp: pmm_inv_def)
  then show ?thesis
    using assms(1) used_set_take_run [OF assms(1,2)] by (simp add: pmm_inv_def)
qed

lemma pmm_alloc_aligned_cases:
  assumes inv: "pmm_inv s" and n: "0 < n" and alloc: "pmm_alloc_aligned n align s = (pa, s')"
  obtains (none) "pa = 0" "s' = s"
      "\<And>i. i + unat n \<le> unat (num_pages s) \<Longrightarrow> page_pa s i AND (align - 1) = 0 \<Longrightarrow>
            {i..<i + unat n} \<inter> used_set s \<noteq> {}"
  | (run) i where "i + unat n \<le> unat (num_pages s)" "{i..<i + unat n} \<inter> used_set s = {}"
      "pa = page_pa s i" "pa AND (align - 1) = 0" "pmm_inv s'"
      "used_set s' = {i..<i + unat n} \<union> used_set s"
      "mem s' = (\<lambda>a. if \<exists>j < unat n. same_page a (page_pa s (i + j)) then 0 else mem s a)"
      "base_pa s' = base_pa s" "num_pages s' = num_pages s" "pmm.more s' = pmm.more s"
proof -
  let ?P = "\<lambda>i. page_pa s i AND (align - 1) = 0 \<and> run_free i (unat n) s"
  have idx: "aligned_indices n s = [0..<(if n \<le> num_pages s then Suc (unat (num_pages s) - unat n) else 0)]"
    using aligned_indices_complete(1) [OF inv, of n] by simp
  have dom: "i < (if n \<le> num_pages s then Suc (unat (num_pages s) - unat n) else 0) \<longleftrightarrow>
      i + unat n \<le> unat (num_pages s)" for i
    by (auto simp: word_le_nat_alt)
  show thesis
  proof (cases "find ?P (aligned_indices n s)")
    case None
    show thesis
    proof (rule none)
      show "pa = 0" "s' = s" using alloc None by (simp_all add: pmm_alloc_aligned_def)
      fix i assume i: "i + unat n \<le> unat (num_pages s)" "page_pa s i AND (align - 1) = 0"
      then have "\<not> run_free i (unat n) s"
        using None unfolding idx find_upt_None dom by blast
      then show "{i..<i + unat n} \<inter> used_set s \<noteq> {}" using run_free_iff [OF i(1)] by simp
    qed
  next
    case (Some i)
    then have i: "i + unat n \<le> unat (num_pages s)" "page_pa s i AND (align - 1) = 0" "run_free i (unat n) s"
      unfolding idx find_upt_Some dom by blast+
    then have free: "{i..<i + unat n} \<inter> used_set s = {}" using run_free_iff [OF i(1)] by simp
    have s': "pa = page_pa s i" "s' = (take_run i (unat n) s)\<lparr>used_pages := used_pages s + n\<rparr>"
      using alloc Some by (simp_all add: pmm_alloc_aligned_def Let_def)
    show thesis
      by (rule run [of i]) (use i free s' inv in \<open>simp_all add: pmm_inv_take_run used_set_take_run
            mem_take_run fun_eq_iff\<close>)
  qed
qed

section \<open>The contract of a frame allocator\<close>

lemma same_page_unique:
  assumes "page_aligned p" "page_aligned q" "same_page a p" "same_page a q"
  shows "p = q"
proof -
  have "unat p mod 4096 = unat q mod 4096" "unat p div 4096 = unat q div 4096"
    using assms by (simp_all add: same_page_def page_aligned_unat)
  then have "unat p = unat q" by (metis div_mult_mod_eq)
  then show ?thesis by (simp add: word_unat_eq_iff)
qed

text \<open>
  What the page-table code, the kernel heap and the RAM filesystem rely on: frames come out of a
  fixed window, page aligned, never null, zeroed, and not handed out to anyone else until they
  are freed; the allocator refuses only when every frame is in use.
\<close>

locale frame_allocator =
  fixes inv :: "'s \<Rightarrow> bool"
    and owned :: "'s \<Rightarrow> u32 set"
    and window :: "'s \<Rightarrow> u32 set"
    and content :: "'s \<Rightarrow> memory"
    and alloc :: "'s \<Rightarrow> u32 \<times> 's"
    and release :: "u32 \<Rightarrow> 's \<Rightarrow> 's"
  assumes window_frame: "inv s \<Longrightarrow> pa \<in> window s \<Longrightarrow> page_aligned pa \<and> pa \<noteq> 0"
    and window_finite: "finite (window s)"
    and owned_window: "owned s \<subseteq> window s"
    and alloc_full: "inv s \<Longrightarrow> alloc s = (0, s') \<Longrightarrow> s' = s \<and> owned s = window s"
    and alloc_fresh: "inv s \<Longrightarrow> alloc s = (pa, s') \<Longrightarrow> pa \<noteq> 0 \<Longrightarrow>
          inv s' \<and> pa \<in> window s - owned s \<and> owned s' = insert pa (owned s) \<and> window s' = window s \<and>
          content s' = (\<lambda>a. if same_page a pa then 0 else content s a)"
    and release_inv: "inv s \<Longrightarrow> inv (release pa s)"
    and release_window: "window (release pa s) = window s"
    and release_content: "content (release pa s) = content s"
    and release_owned: "inv s \<Longrightarrow> pa \<in> window s \<Longrightarrow> owned (release pa s) = owned s - {pa}"
begin

lemma alloc_inv: "inv s \<Longrightarrow> inv (snd (alloc s))"
  using alloc_full [of s] alloc_fresh [of s] by (cases "alloc s"; cases "fst (alloc s) = 0") auto

lemma alloc_succeeds_iff: "inv s \<Longrightarrow> fst (alloc s) \<noteq> 0 \<longleftrightarrow> owned s \<noteq> window s"
  using alloc_full [of s] alloc_fresh [of s] by (cases "alloc s") auto

lemma alloc_keeps_owned_frames:
  assumes "inv s" "alloc s = (pa, s')" "q \<in> owned s" "same_page a q"
  shows "content s' a = content s a"
proof (cases "pa = 0")
  case True
  then show ?thesis using alloc_full assms(1,2) by auto
next
  case False
  then have fresh: "pa \<in> window s - owned s" "content s' = (\<lambda>a. if same_page a pa then 0 else content s a)"
    using alloc_fresh [OF assms(1,2)] by auto
  have "\<not> same_page a pa"
  proof
    assume "same_page a pa"
    then have "q = pa"
      using assms(3,4) fresh(1) window_frame [OF assms(1)] owned_window [of s]
      by (blast intro: same_page_unique)
    then show False using fresh(1) assms(3) by simp
  qed
  then show ?thesis by (simp add: fresh(2))
qed

lemma alloc_release: 
  assumes "inv s" "alloc s = (pa, s')" "pa \<noteq> 0"
  shows "owned (release pa s') = owned s"
proof -
  have f: "inv s'" "pa \<in> window s - owned s" "owned s' = insert pa (owned s)" "window s' = window s"
    using alloc_fresh [OF assms] by auto
  then show ?thesis using release_owned [of s' pa] by auto
qed

lemma release_then_alloc:
  assumes "inv s" "pa \<in> owned s"
  shows "fst (alloc (release pa s)) \<noteq> 0"
proof -
  have "pa \<in> window s" using assms(2) owned_window [of s] by auto
  then have "owned (release pa s) \<noteq> window (release pa s)"
    using release_owned [OF assms(1)] release_window by auto
  then show ?thesis using alloc_succeeds_iff [OF release_inv [OF assms(1)]] by simp
qed

end

lemma frame_window_cong:
  "base_pa s' = base_pa s \<Longrightarrow> num_pages s' = num_pages s \<Longrightarrow> frame_window s' = frame_window s"
  by (simp add: frame_window_def page_pa_def)

lemma used_frames_cong:
  "base_pa s' = base_pa s \<Longrightarrow> used_frames s' = page_pa s ` used_set s'"
  by (simp add: used_frames_def page_pa_def [abs_def])

interpretation pool: frame_allocator pmm_inv used_frames frame_window mem pmm_alloc_page pmm_free_page
proof
  show "page_aligned pa \<and> pa \<noteq> 0" if "pmm_inv s" "pa \<in> frame_window s" for s :: "'a pmm_scheme" and pa
    using that by (auto simp: frame_window_def page_pa_aligned dest: page_pa_nonzero)
  show "finite (frame_window s)" for s :: "'a pmm_scheme" by (simp add: frame_window_def)
  show "used_frames s \<subseteq> frame_window s" for s :: "'a pmm_scheme"
    using used_set_subset [of s] by (auto simp: frame_window_def used_frames_def)
  show "s' = s \<and> used_frames s = frame_window s"
    if "pmm_inv s" "pmm_alloc_page s = (0, s')" for s s' :: "'a pmm_scheme"
    using that by (rule pmm_alloc_page_cases) (auto simp: used_frames_def frame_window_def)
  show "pmm_inv s' \<and> pa \<in> frame_window s - used_frames s \<and> used_frames s' = insert pa (used_frames s) \<and>
      frame_window s' = frame_window s \<and> mem s' = (\<lambda>a. if same_page a pa then 0 else mem s a)"
    if "pmm_inv s" "pmm_alloc_page s = (pa, s')" "pa \<noteq> 0" for s s' :: "'a pmm_scheme" and pa
    using that(1,2)
  proof (cases rule: pmm_alloc_page_cases)
    case (page i)
    have "frame_window s' = frame_window s" by (rule frame_window_cong) (use page in simp_all)
    moreover have "used_frames s' = insert pa (used_frames s)"
      using page by (subst used_frames_cong [of s' s]) (simp_all add: used_frames_def)
    moreover have "pa \<in> frame_window s" using page by (auto simp: frame_window_def)
    moreover have "pa \<notin> used_frames s" using page page_pa_mem_used [OF that(1), of i] by simp
    ultimately show ?thesis using page by simp
  qed (use that in simp)
  show "pmm_inv (pmm_free_page pa s)" if "pmm_inv s" for s :: "'a pmm_scheme" and pa
    using that by (rule pmm_free_page_inv)
  show "frame_window (pmm_free_page pa s) = frame_window s" for s :: "'a pmm_scheme" and pa
    by (rule frame_window_cong) (simp_all add: pmm_free_page_frame)
  show "mem (pmm_free_page pa s) = mem s" for s :: "'a pmm_scheme" and pa
    by (rule pmm_free_page_frame)
  show "used_frames (pmm_free_page pa s) = used_frames s - {pa}"
    if inv: "pmm_inv s" and pa: "pa \<in> frame_window s" for s :: "'a pmm_scheme" and pa
  proof -
    obtain i where i: "i < unat (num_pages s)" "pa = page_pa s i" using pa by (auto simp: frame_window_def)
    have "used_frames (pmm_free_page pa s) = page_pa s ` (used_set s - {i})"
      using pmm_free_page_index [OF inv i(1)] i(2)
      by (subst used_frames_cong [of "pmm_free_page pa s" s]) (simp_all add: pmm_free_page_frame)
    also have "\<dots> = used_frames s - {pa}"
      using page_pa_eq_iff [OF inv _ i(1)] used_set_subset [of s] i(2) by (auto simp: used_frames_def)
    finally show ?thesis .
  qed
qed

section \<open>Histories of the allocator\<close>

text \<open>Every state the allocator can be in once \<open>pmm_init\<close> has run: any interleaving of its operations.\<close>

inductive pmm_reach :: "u32 \<Rightarrow> u32 \<Rightarrow> 'a pmm_scheme \<Rightarrow> bool" for start0 :: u32 and end0 :: u32 where
  init: "pmm_reach start0 end0 (pmm_init start0 end0 s)"
| alloc: "pmm_reach start0 end0 s \<Longrightarrow> pmm_reach start0 end0 (snd (pmm_alloc_page s))"
| alloc_run: "pmm_reach start0 end0 s \<Longrightarrow> 0 < n \<Longrightarrow> pmm_reach start0 end0 (snd (pmm_alloc_aligned n align s))"
| free: "pmm_reach start0 end0 s \<Longrightarrow> pmm_reach start0 end0 (pmm_free_page pa s)"
| reserve: "pmm_reach start0 end0 s \<Longrightarrow> a < b \<Longrightarrow> pmm_reach start0 end0 (pmm_reserve a b s)"
| store: "pmm_reach start0 end0 s \<Longrightarrow> pmm_reach start0 end0 (s\<lparr>mem := m\<rparr>)"

lemma pmm_alloc_aligned_inv:
  assumes "pmm_inv s" "0 < n"
  shows "pmm_inv (snd (pmm_alloc_aligned n align s))"
proof (cases "pmm_alloc_aligned n align s")
  case (Pair pa s')
  show ?thesis by (rule pmm_alloc_aligned_cases [OF assms Pair]) (simp_all add: Pair assms)
qed

lemma pmm_reach_inv:
  assumes "pmm_reach start0 end0 s" "0 < start0" "unat start0 \<le> 0xFFFFF000"
  shows "pmm_inv s"
  using assms
  by (induction rule: pmm_reach.induct)
     (auto simp: pmm_init_inv pool.alloc_inv pmm_alloc_aligned_inv pmm_free_page_inv pmm_reserve_spec)

text \<open>
  C13. In every state reachable from \<open>pmm_init\<close> by allocations, aligned allocations, frees,
  reservations and writes to memory, \<open>pmm_free_pages\<close> reports exactly the number of frames
  whose bit is clear: the counter \<open>used_pages\<close> never drifts from the bitmap and the unsigned
  subtraction never wraps.
\<close>

theorem pmm_free_pages_exact:
  assumes "pmm_reach start0 end0 s" "0 < start0" "unat start0 \<le> 0xFFFFF000"
  shows "unat (pmm_free_pages s) = card {i. i < unat (num_pages s) \<and> \<not> bit_get (of_nat i) s}"
proof -
  have inv: "pmm_inv s" by (rule pmm_reach_inv [OF assms])
  have "{i. i < unat (num_pages s) \<and> \<not> bit_get (of_nat i) s} = {..<unat (num_pages s)} - used_set s"
    by (auto simp: used_set_def)
  then have "card {i. i < unat (num_pages s) \<and> \<not> bit_get (of_nat i) s} = unat (num_pages s) - card (used_set s)"
    by (simp add: card_Diff_subset used_set_subset)
  moreover have "unat (pmm_free_pages s) = unat (num_pages s) - unat (used_pages s)"
    using inv card_used_bound [OF inv] unfolding pmm_free_pages_def
    by (intro unat_diff32) (auto simp: pmm_inv_def word_le_nat_alt)
  ultimately show ?thesis using inv by (simp add: pmm_inv_def)
qed

definition pmm_blank :: pmm where
  "pmm_blank = \<lparr>mem = (\<lambda>_. 7), bitmap = (\<lambda>_. 255), base_pa = 0, num_pages = 0, used_pages = 0\<rparr>"

theorem pmm_free_pages_exact_witness:
  "unat (pmm_free_pages (pmm_reserve 0x40001000 0x40001001 (pmm_init 0x40000001 0x40004000 pmm_blank))) =
   card {i. i < unat (num_pages (pmm_reserve 0x40001000 0x40001001 (pmm_init 0x40000001 0x40004000 pmm_blank))) \<and>
         \<not> bit_get (of_nat i) (pmm_reserve 0x40001000 0x40001001 (pmm_init 0x40000001 0x40004000 pmm_blank))}"
  by (rule pmm_free_pages_exact [of "0x40000001" "0x40004000"]) (auto intro: pmm_reach.intros)

text \<open>
  C15. In every reachable state \<open>pmm_alloc_page\<close> returns 0 only if every frame is in use, and then
  changes nothing; otherwise it returns the lowest free frame of the window, page aligned and not
  null, marks exactly that frame, zeroes exactly that page, and leaves every other byte of memory
  alone.
\<close>

theorem pmm_alloc_page_correct:
  assumes "pmm_reach start0 end0 s" "0 < start0" "unat start0 \<le> 0xFFFFF000"
    and "pmm_alloc_page s = (pa, s')"
  shows "(pa = 0 \<and> s' = s \<and> (\<forall>i < unat (num_pages s). bit_get (of_nat i) s)) \<or>
    (\<exists>i < unat (num_pages s). \<not> bit_get (of_nat i) s \<and> (\<forall>j < i. bit_get (of_nat j) s) \<and>
       unat pa = unat (base_pa s) + 4096 * i \<and> pa \<noteq> 0 \<and> page_aligned pa \<and>
       (\<forall>j < unat (num_pages s). bit_get (of_nat j) s' \<longleftrightarrow> j = i \<or> bit_get (of_nat j) s) \<and>
       mem s' = (\<lambda>a. if same_page a pa then 0 else mem s a))"
proof -
  have inv: "pmm_inv s" by (rule pmm_reach_inv [OF assms(1-3)])
  from inv assms(4) show ?thesis
  proof (cases rule: pmm_alloc_page_cases)
    case full
    then show ?thesis by (auto simp: used_set_def)
  next
    case (page i)
    have lower: "\<forall>j < i. bit_get (of_nat j) s" using page(3) by (auto simp: used_set_def)
    have bits: "bit_get (of_nat j) s' \<longleftrightarrow> j = i \<or> bit_get (of_nat j) s" if "j < unat (num_pages s)" for j
    proof -
      have "j \<in> used_set s' \<longleftrightarrow> j = i \<or> j \<in> used_set s" using page(8) by simp
      then show ?thesis using that page(11) by (simp add: used_set_def)
    qed
    have "\<not> bit_get (of_nat i) s" using page(1,2) by (simp add: used_set_def)
    then show ?thesis using page(1,4-6,9) lower bits unat_page_pa [OF inv page(1)] by blast
  qed
qed

theorem pmm_alloc_page_correct_witness:
  "let s = pmm_reserve 0x40001000 0x40001001 (pmm_init 0x40000001 0x40004000 pmm_blank);
       pa = fst (pmm_alloc_page s); s' = snd (pmm_alloc_page s)
   in (pa = 0 \<and> s' = s \<and> (\<forall>i < unat (num_pages s). bit_get (of_nat i) s)) \<or>
    (\<exists>i < unat (num_pages s). \<not> bit_get (of_nat i) s \<and> (\<forall>j < i. bit_get (of_nat j) s) \<and>
       unat pa = unat (base_pa s) + 4096 * i \<and> pa \<noteq> 0 \<and> page_aligned pa \<and>
       (\<forall>j < unat (num_pages s). bit_get (of_nat j) s' \<longleftrightarrow> j = i \<or> bit_get (of_nat j) s) \<and>
       mem s' = (\<lambda>a. if same_page a pa then 0 else mem s a))"
  unfolding Let_def
  by (rule pmm_alloc_page_correct [of "0x40000001" "0x40004000"]) (auto intro: pmm_reach.intros)

text \<open>
  C17. In every reachable state an aligned allocation of \<open>n > 0\<close> pages either returns 0, leaves the
  allocator alone and there is no aligned run of \<open>n\<close> free frames, or returns the aligned base of
  a run that was wholly free, marks exactly the run and zeroes exactly its pages.
\<close>

theorem pmm_alloc_aligned_correct:
  assumes "pmm_reach start0 end0 s" "0 < start0" "unat start0 \<le> 0xFFFFF000"
    and "0 < n" "pmm_alloc_aligned n align s = (pa, s')"
  shows "(pa = 0 \<and> s' = s \<and>
      (\<forall>i. i + unat n \<le> unat (num_pages s) \<longrightarrow> (base_pa s + of_nat i * 4096) AND (align - 1) = 0 \<longrightarrow>
           {i..<i + unat n} \<inter> used_set s \<noteq> {})) \<or>
    (\<exists>i. i + unat n \<le> unat (num_pages s) \<and> {i..<i + unat n} \<inter> used_set s = {} \<and>
       pa = base_pa s + of_nat i * 4096 \<and> pa AND (align - 1) = 0 \<and> pa \<noteq> 0 \<and>
       used_set s' = {i..<i + unat n} \<union> used_set s \<and>
       mem s' = (\<lambda>a. if \<exists>j < unat n. same_page a (page_pa s (i + j)) then 0 else mem s a))"
proof -
  have inv: "pmm_inv s" by (rule pmm_reach_inv [OF assms(1-3)])
  from inv assms(4,5) show ?thesis
  proof (cases rule: pmm_alloc_aligned_cases)
    case none
    then show ?thesis unfolding page_pa_def by blast
  next
    case (run i)
    have "i < unat (num_pages s)" using run(1) assms(4) by (simp add: word_less_nat_alt)
    then have "pa \<noteq> 0" using page_pa_nonzero [OF inv] run(3) by simp
    then show ?thesis using run(1-4,6,7) unfolding page_pa_def by blast
  qed
qed

theorem pmm_alloc_aligned_correct_witness:
  "let s = pmm_init 0x40000001 0x40020000 pmm_blank;
       pa = fst (pmm_alloc_aligned 4 0x4000 s); s' = snd (pmm_alloc_aligned 4 0x4000 s)
   in (pa = 0 \<and> s' = s \<and>
      (\<forall>i. i + unat (4 :: u32) \<le> unat (num_pages s) \<longrightarrow> (base_pa s + of_nat i * 4096) AND (0x4000 - 1) = 0 \<longrightarrow>
           {i..<i + unat (4 :: u32)} \<inter> used_set s \<noteq> {})) \<or>
    (\<exists>i. i + unat (4 :: u32) \<le> unat (num_pages s) \<and> {i..<i + unat (4 :: u32)} \<inter> used_set s = {} \<and>
       pa = base_pa s + of_nat i * 4096 \<and> pa AND (0x4000 - 1) = 0 \<and> pa \<noteq> 0 \<and>
       used_set s' = {i..<i + unat (4 :: u32)} \<union> used_set s \<and>
       mem s' = (\<lambda>a. if \<exists>j < unat (4 :: u32). same_page a (page_pa s (i + j)) then 0 else mem s a))"
  unfolding Let_def
  by (rule pmm_alloc_aligned_correct [of "0x40000001" "0x40020000"]) (auto intro: pmm_reach.intros)

section \<open>Reserved ranges\<close>

text \<open>
  The calls a client can make, with what each hands out: the base and the number of pages. The byte
  ranges \<open>[lo, lo + len)\<close> and \<open>[start, end)\<close> are compared as plain numbers.
\<close>

datatype pmm_op = Page | Run u32 u32 | Free u32 | Reserve u32 u32 | Store memory

fun pmm_exec :: "pmm_op \<Rightarrow> 'a pmm_scheme \<Rightarrow> (u32 \<times> nat) \<times> 'a pmm_scheme" where
  "pmm_exec Page s = (let (pa, s) = pmm_alloc_page s in ((pa, 1), s))"
| "pmm_exec (Run n align) s = (let (pa, s) = pmm_alloc_aligned n align s in ((pa, unat n), s))"
| "pmm_exec (Free pa) s = ((0, 0), pmm_free_page pa s)"
| "pmm_exec (Reserve a b) s = ((0, 0), pmm_reserve a b s)"
| "pmm_exec (Store m) s = ((0, 0), s\<lparr>mem := m\<rparr>)"

fun pmm_run :: "pmm_op list \<Rightarrow> 'a pmm_scheme \<Rightarrow> (u32 \<times> nat) list \<times> 'a pmm_scheme" where
  "pmm_run [] s = ([], s)"
| "pmm_run (p # ps) s = (let (g, s) = pmm_exec p s; (gs, s) = pmm_run ps s in (g # gs, s))"

definition off_range :: "u32 \<Rightarrow> u32 \<Rightarrow> nat \<Rightarrow> nat \<Rightarrow> bool" where
  "off_range start end lo len \<longleftrightarrow> lo + len \<le> unat start \<or> unat end \<le> lo"

fun pmm_op_ok :: "u32 \<Rightarrow> u32 \<Rightarrow> pmm_op \<Rightarrow> bool" where
  "pmm_op_ok start end Page \<longleftrightarrow> True"
| "pmm_op_ok start end (Run n align) \<longleftrightarrow> 0 < n"
| "pmm_op_ok start end (Free pa) \<longleftrightarrow> off_range start end (4096 * (unat pa div 4096)) 4096"
| "pmm_op_ok start end (Reserve a b) \<longleftrightarrow> a < b"
| "pmm_op_ok start end (Store m) \<longleftrightarrow> True"

definition holds_range :: "u32 \<Rightarrow> u32 \<Rightarrow> 'a pmm_scheme \<Rightarrow> bool" where
  "holds_range start end s \<longleftrightarrow>
     (\<forall>i < unat (num_pages s). \<not> off_range start end (unat (base_pa s) + 4096 * i) 4096 \<longrightarrow> i \<in> used_set s)"

lemma holds_range_mono:
  assumes "holds_range start end s" "base_pa s' = base_pa s" "num_pages s' = num_pages s" "used_set s \<subseteq> used_set s'"
  shows "holds_range start end s'"
  using assms by (auto simp: holds_range_def)

text \<open>A free clears at most the bit of the frame its argument lies in.\<close>

lemma pmm_free_page_clears:
  assumes inv: "pmm_inv s" and i: "i \<in> used_set s" and ne: "unat pa div 4096 \<noteq> unat (page_pa s i) div 4096"
  shows "i \<in> used_set (pmm_free_page pa s)"
proof -
  define k where "k = (pa - base_pa s) div PAGE_SIZE"
  have lt: "i < unat (num_pages s)" using i used_set_subset by blast
  show ?thesis
  proof (cases "pa < base_pa s \<or> \<not> (k < num_pages s \<and> bit_get k s)")
    case True
    then show ?thesis using i by (auto simp: pmm_free_page_def k_def [symmetric] Let_def)
  next
    case False
    obtain q where b: "unat (base_pa s) = 4096 * q" using inv by (auto simp: pmm_inv_def page_aligned_unat)
    have "unat k = (unat pa - unat (base_pa s)) div 4096"
      using False by (simp add: k_def unat_div32 unat_diff32 word_less_nat_alt word_le_nat_alt)
    moreover obtain d where "unat pa = 4096 * q + d"
      using False b le_Suc_ex [of "4096 * q" "unat pa"] by (auto simp: word_less_nat_alt)
    ultimately have pa: "unat pa div 4096 = q + unat k" using b by simp
    have "unat (page_pa s i) div 4096 = q + i" using b unat_page_pa [OF inv lt] by simp
    then have "i \<noteq> unat k" using ne pa by auto
    moreover have "unat k < unat (num_pages s)" using False by (simp add: word_less_nat_alt)
    ultimately show ?thesis
      using False i used_set_bit_clr [OF inv, of "unat k"] by (simp add: pmm_free_page_def k_def [symmetric] Let_def)
  qed
qed

lemma off_range_pages:
  assumes lt: "start < end" and pos: "0 < k"
    and each: "\<And>j. i \<le> j \<Longrightarrow> j < i + k \<Longrightarrow> off_range start end (lo + 4096 * j) 4096"
  shows "off_range start end (lo + 4096 * i) (4096 * k)"
  using pos each
proof (induction k)
  case (Suc k)
  have new: "off_range start end (lo + 4096 * (i + k)) 4096" using Suc.prems(2) [of "i + k"] by simp
  show ?case
  proof (cases "k = 0")
    case False
    then have "off_range start end (lo + 4096 * i) (4096 * k)" using Suc by simp
    then show ?thesis using new lt by (auto simp: off_range_def word_less_nat_alt)
  qed (use new in simp)
qed simp

lemma pmm_exec_holds:
  assumes inv: "pmm_inv s" and lt: "start < end" and h: "holds_range start end s" and ok: "pmm_op_ok start end p"
    and e: "pmm_exec p s = ((pa, n), s')"
  shows "pmm_inv s' \<and> holds_range start end s' \<and> (pa \<noteq> 0 \<longrightarrow> off_range start end (unat pa) (4096 * n))"
proof (cases p)
  case Page
  then have n: "n = 1" and al: "pmm_alloc_page s = (pa, s')" using e by (auto split: prod.splits)
  from inv al show ?thesis
  proof (cases rule: pmm_alloc_page_cases)
    case (page i)
    then show ?thesis
      using h holds_range_mono [OF h, of s'] unat_page_pa [OF inv page(1)] n by (auto simp: holds_range_def)
  qed (use inv h in simp)
next
  case (Run m align)
  then have m: "0 < m" "n = unat m" and al: "pmm_alloc_aligned m align s = (pa, s')"
    using e ok by (auto split: prod.splits)
  from inv m(1) al show ?thesis
  proof (cases rule: pmm_alloc_aligned_cases)
    case (run i)
    have pos: "0 < n" using m by (simp add: word_less_nat_alt)
    have free: "off_range start end (unat (base_pa s) + 4096 * j) 4096" if "i \<le> j" "j < i + n" for j
      using h that run(1,2) m(2) by (auto simp: holds_range_def)
    have "off_range start end (unat (base_pa s) + 4096 * i) (4096 * n)"
      by (rule off_range_pages [OF lt pos]) (use free in auto)
    moreover have "unat pa = unat (base_pa s) + 4096 * i"
      using unat_page_pa [OF inv, of i] run(1,3) m(2) pos by simp
    ultimately show ?thesis using run holds_range_mono [OF h, of s'] by auto
  qed (use inv h in simp)
next
  case (Free q)
  then have s': "s' = pmm_free_page q s" "pa = 0" using e by simp_all
  note fr = pmm_free_page_frame [of q s]
  have "i \<in> used_set s'" if i: "i < unat (num_pages s)" and a: "\<not> off_range start end (unat (base_pa s) + 4096 * i) 4096" for i
  proof -
    have "off_range start end (4096 * (unat q div 4096)) 4096" using ok Free by simp
    moreover have "4096 * (unat (page_pa s i) div 4096) = unat (base_pa s) + 4096 * i"
      using page_pa_aligned [OF inv i] unat_page_pa [OF inv i] by (auto simp: page_aligned_unat)
    ultimately have "unat q div 4096 \<noteq> unat (page_pa s i) div 4096" using a by metis
    then show ?thesis using pmm_free_page_clears [OF inv _, of i q] h i a s' by (simp add: holds_range_def)
  qed
  then show ?thesis using fr s' inv pmm_free_page_inv [of s q] by (simp add: holds_range_def)
next
  case (Reserve a b)
  then show ?thesis
    using e ok pmm_reserve_spec [OF inv, of a b] holds_range_mono [OF h, of s'] by auto
next
  case (Store m)
  then show ?thesis using e inv h by (auto simp: holds_range_def)
qed

lemma pmm_run_holds:
  assumes "pmm_inv s" "start < end" "holds_range start end s" "list_all (pmm_op_ok start end) ps" "pmm_run ps s = (gs, s')"
  shows "holds_range start end s' \<and> (\<forall>(pa, n) \<in> set gs. pa \<noteq> 0 \<longrightarrow> off_range start end (unat pa) (4096 * n))"
  using assms
proof (induction ps arbitrary: s gs)
  case (Cons p ps)
  obtain pa n t where e: "pmm_exec p s = ((pa, n), t)" by (metis prod.exhaust)
  obtain gs' where r: "pmm_run ps t = (gs', s')" "gs = (pa, n) # gs'"
    using Cons.prems(5) e by (auto split: prod.splits)
  note t = pmm_exec_holds [OF Cons.prems(1-3) _ e]
  show ?case using Cons.IH [OF _ Cons.prems(2) _ _ r(1)] t Cons.prems(4) r(2) by auto
qed simp

text \<open>
  C20. Reserving \<open>[start, end)\<close> in a reachable state protects it for good: whatever calls follow,
  single-page and aligned allocations of at least one page, further reservations, stores to memory
  and frees of frames that do not overlap the range, no allocation returns a page that overlaps the
  range, and afterwards every frame of the window that overlaps it is still marked in use. The
  reservation itself releases no frame that was in use before.
\<close>

theorem pmm_reserve_protects:
  assumes "pmm_reach start0 end0 s" "0 < start0" "unat start0 \<le> 0xFFFFF000" "start < end"
    and "list_all (pmm_op_ok start end) ps" "pmm_run ps (pmm_reserve start end s) = (gs, s')"
  shows "(\<forall>(pa, n) \<in> set gs. pa \<noteq> 0 \<longrightarrow> unat pa + 4096 * n \<le> unat start \<or> unat end \<le> unat pa) \<and>
    (\<forall>i < unat (num_pages s'). unat (base_pa s') + 4096 * i < unat end \<longrightarrow>
       unat start < unat (base_pa s') + 4096 * (i + 1) \<longrightarrow> bit_get (of_nat i) s') \<and>
    used_set s \<subseteq> used_set (pmm_reserve start end s)"
proof -
  have inv: "pmm_inv s" by (rule pmm_reach_inv [OF assms(1-3)])
  note r = pmm_reserve_spec [OF inv assms(4)]
  have "holds_range start end (pmm_reserve start end s)"
    unfolding holds_range_def r(2-4) by (auto simp: off_range_def)
  note h = pmm_run_holds [OF r(1) assms(4) this assms(5,6)]
  have "bit_get (of_nat i) s'" if "i < unat (num_pages s')" "unat (base_pa s') + 4096 * i < unat end"
    "unat start < unat (base_pa s') + 4096 * (i + 1)" for i
    using h that by (auto simp: holds_range_def off_range_def used_set_def)
  moreover have "used_set s \<subseteq> used_set (pmm_reserve start end s)" unfolding r(2) by blast
  ultimately show ?thesis using h by (simp add: off_range_def case_prod_beta)
qed

lemma pmm_alloc_page_of_free:
  assumes "pmm_inv s" "used_set s \<noteq> {..<unat (num_pages s)}"
  shows "fst (pmm_alloc_page s) \<noteq> 0"
proof (cases "pmm_alloc_page s")
  case (Pair pa s')
  show ?thesis by (rule pmm_alloc_page_cases [OF assms(1) Pair]) (use Pair assms(2) in simp_all)
qed

theorem pmm_reserve_protects_witness:
  "let s = pmm_reserve 0x40001000 0x40002001 (pmm_init 0x40000001 0x40004000 pmm_blank);
       (gs, s') = pmm_run [Page, Free 0x40003000, Run 1 0x1000, Reserve 5 6, Page] s
   in fst (hd gs) \<noteq> 0 \<and>
     (\<forall>(pa, n) \<in> set gs. pa \<noteq> 0 \<longrightarrow> unat pa + 4096 * n \<le> unat (0x40001000 :: u32) \<or> unat (0x40002001 :: u32) \<le> unat pa) \<and>
     (\<forall>i < unat (num_pages s'). unat (base_pa s') + 4096 * i < unat (0x40002001 :: u32) \<longrightarrow>
       unat (0x40001000 :: u32) < unat (base_pa s') + 4096 * (i + 1) \<longrightarrow> bit_get (of_nat i) s')"
proof -
  let ?t = "pmm_init 0x40000001 0x40004000 pmm_blank"
  let ?s = "pmm_reserve 0x40001000 0x40002001 ?t" and ?ps = "[Page, Free 0x40003000, Run 1 0x1000, Reserve 5 6, Page]"
  have r0: "pmm_reach 0x40000001 0x40004000 ?t" by (rule pmm_reach.init)
  have inv: "pmm_inv ?t" and u: "used_set ?t = {}" and n: "unat (num_pages ?t) = 3"
    and b: "unat (base_pa ?t) = 0x40001000"
    using pmm_init_inv [of "0x40000001" "0x40004000" pmm_blank] by simp_all
  have "2 \<notin> used_set ?s" using pmm_reserve_spec(2) [OF inv, of "0x40001000" "0x40002001"] u b by simp
  moreover have "2 < unat (num_pages ?s)" using pmm_reserve_spec(3) [OF inv, of "0x40001000" "0x40002001"] n by simp
  ultimately have "used_set ?s \<noteq> {..<unat (num_pages ?s)}" by blast
  then have nz: "fst (pmm_alloc_page ?s) \<noteq> 0"
    using pmm_reserve_spec(1) [OF inv, of "0x40001000" "0x40002001"] by (intro pmm_alloc_page_of_free) simp_all
  obtain gs s' where run: "pmm_run ?ps ?s = (gs, s')" by fastforce
  have "fst (hd gs) \<noteq> 0" using nz run by (auto split: prod.splits)
  moreover have "list_all (pmm_op_ok 0x40001000 0x40002001) ?ps" by (simp add: off_range_def)
  ultimately show ?thesis
    using pmm_reserve_protects [OF r0 _ _ _ _ run] unfolding Let_def run by (simp only: prod.case) simp
qed

end
