(* ===== verification/Kmalloc.thy ===== *)
theory Kmalloc
  imports Pmm
begin

text \<open>
  The kernel heap of \<open>kernel/mm/kmalloc.c\<close>: blocks with a header \<open>{size, free, next}\<close> threaded
  into one list inside pages taken from the page allocator. Headers live in physical memory at
  their byte addresses, so the model shows what a stray write to a header would do, and the
  proofs show that the allocator's own writes never touch an allocated payload. The search for
  a fitting block follows \<open>next\<close> pointers and would not end on a cyclic list, so \<open>kmalloc\<close> is
  \<open>option\<close>-valued with \<open>None\<close> for a call that never returns; on a well-formed heap it returns.
\<close>

section \<open>State and operations\<close>

record kheap = pmm +
  head :: u32
  tail :: u32
  used_bytes :: u32

abbreviation HDR :: u32 where
  "HDR \<equiv> 12"

definition ALIGN8 :: "u32 \<Rightarrow> u32" where
  "ALIGN8 x = (x + 7) AND NOT 7"

definition MIN_SPLIT :: u32 where
  "MIN_SPLIT = 16"

text \<open>The fields of \<open>struct blk\<close> at offsets 0, 4 and 8.\<close>

definition blk_size :: "'a phys_scheme \<Rightarrow> u32 \<Rightarrow> u32" where
  "blk_size s b = ld32 (mem s) b"

definition blk_free :: "'a phys_scheme \<Rightarrow> u32 \<Rightarrow> u32" where
  "blk_free s b = ld32 (mem s) (b + 4)"

definition blk_next :: "'a phys_scheme \<Rightarrow> u32 \<Rightarrow> u32" where
  "blk_next s b = ld32 (mem s) (b + 8)"

definition set_size :: "u32 \<Rightarrow> u32 \<Rightarrow> 'a phys_scheme \<Rightarrow> 'a phys_scheme" where
  "set_size b v s = s\<lparr>mem := st32 (mem s) b v\<rparr>"

definition set_free :: "u32 \<Rightarrow> u32 \<Rightarrow> 'a phys_scheme \<Rightarrow> 'a phys_scheme" where
  "set_free b v s = s\<lparr>mem := st32 (mem s) (b + 4) v\<rparr>"

definition set_next :: "u32 \<Rightarrow> u32 \<Rightarrow> 'a phys_scheme \<Rightarrow> 'a phys_scheme" where
  "set_next b v s = s\<lparr>mem := st32 (mem s) (b + 8) v\<rparr>"

lemmas blk_defs = blk_size_def blk_free_def blk_next_def set_size_def set_free_def set_next_def

definition grow :: "u32 \<Rightarrow> 'a kheap_scheme \<Rightarrow> u32 \<times> 'a kheap_scheme" where
  "grow need s =
     (let want = ALIGN8 need + ALIGN8 HDR;
          npages = (want + PAGE_SIZE - 1) div PAGE_SIZE;
          (pa, s) = pmm_alloc_aligned npages PAGE_SIZE s
      in if pa = 0 then (0, s)
         else (let b = pa;
                   s = set_size b (npages * PAGE_SIZE - ALIGN8 HDR) s;
                   s = set_free b 1 s;
                   s = set_next b 0 s
               in if head s = 0 then (b, s\<lparr>head := b, tail := b\<rparr>)
                  else (let s = set_next (tail s) b s in (b, s\<lparr>tail := b\<rparr>))))"

definition split :: "u32 \<Rightarrow> u32 \<Rightarrow> 'a kheap_scheme \<Rightarrow> 'a kheap_scheme" where
  "split b sz s =
     (let rem = blk_size s b - sz
      in if rem < ALIGN8 HDR + MIN_SPLIT then s
         else (let n = b + ALIGN8 HDR + sz;
                   s = set_size n (rem - ALIGN8 HDR) s;
                   s = set_free n 1 s;
                   s = set_next n (blk_next s b) s;
                   s = set_size b sz s;
                   s = set_next b n s
               in if tail s = b then s\<lparr>tail := n\<rparr> else s))"

text \<open>The first-fit walk of \<open>kmalloc\<close>: \<open>Some 0\<close> when the list ends without a fit.\<close>

partial_function (option) first_fit :: "memory \<Rightarrow> u32 \<Rightarrow> u32 \<Rightarrow> u32 option" where
  "first_fit m sz b =
     (if b = 0 then Some 0
      else if ld32 m (b + 4) \<noteq> 0 \<and> ld32 m b \<ge> sz then Some b
      else first_fit m sz (ld32 m (b + 8)))"

text \<open>What \<open>kmalloc\<close> does with the block it chose, the same on both of its paths.\<close>

definition take_block :: "u32 \<Rightarrow> u32 \<Rightarrow> 'a kheap_scheme \<Rightarrow> u32 \<times> 'a kheap_scheme" where
  "take_block b sz s =
     (let s = split b sz s;
          s = set_free b 0 s;
          s = s\<lparr>used_bytes := used_bytes s + blk_size s b\<rparr>;
          p = b + ALIGN8 HDR
      in (p, s\<lparr>mem := memset (mem s) p 0 (unat (blk_size s b))\<rparr>))"

definition kmalloc :: "u32 \<Rightarrow> 'a kheap_scheme \<Rightarrow> (u32 \<times> 'a kheap_scheme) option" where
  "kmalloc sz0 s =
     (let sz = ALIGN8 (if sz0 = 0 then 8 else sz0)
      in case first_fit (mem s) sz (head s) of
           None \<Rightarrow> None
         | Some b \<Rightarrow>
             if b \<noteq> 0 then Some (take_block b sz s)
             else (let (b, s) = grow sz s
                   in if b = 0 then Some (0, s) else Some (take_block b sz s)))"

definition kzalloc :: "u32 \<Rightarrow> 'a kheap_scheme \<Rightarrow> (u32 \<times> 'a kheap_scheme) option" where
  "kzalloc sz s = kmalloc sz s"

definition kfree :: "u32 \<Rightarrow> 'a kheap_scheme \<Rightarrow> 'a kheap_scheme" where
  "kfree ptr s =
     (if ptr = 0 then s
      else (let b = ptr - ALIGN8 HDR;
                s = set_free b 1 s;
                s = (if used_bytes s \<ge> blk_size s b then s\<lparr>used_bytes := used_bytes s - blk_size s b\<rparr> else s);
                n = blk_next s b
            in if n \<noteq> 0 \<and> blk_free s n \<noteq> 0 \<and> n = b + ALIGN8 HDR + blk_size s b
               then (let s = set_size b (blk_size s b + (ALIGN8 HDR + blk_size s n)) s;
                         s = set_next b (blk_next s n) s
                     in if tail s = n then s\<lparr>tail := b\<rparr> else s)
               else s))"

definition krealloc :: "u32 \<Rightarrow> u32 \<Rightarrow> 'a kheap_scheme \<Rightarrow> (u32 \<times> 'a kheap_scheme) option" where
  "krealloc ptr newsize s =
     (if ptr = 0 then kmalloc newsize s
      else (let b = ptr - ALIGN8 HDR;
                old = blk_size s b
            in if ALIGN8 newsize \<le> old then Some (ptr, s)
               else (case kmalloc newsize s of
                       None \<Rightarrow> None
                     | Some (n, s) \<Rightarrow>
                         if n = 0 then Some (0, s)
                         else (let s = s\<lparr>mem := memcpy (mem s) n ptr (unat old)\<rparr>
                               in Some (n, kfree ptr s)))))"

definition kmalloc_used :: "'a kheap_scheme \<Rightarrow> u32" where
  "kmalloc_used s = used_bytes s"

section \<open>Byte frames\<close>

lemma ALIGN8_HDR [simp]: "ALIGN8 HDR = 16"
  by (simp add: ALIGN8_def)

lemma unat_ALIGN8:
  assumes "unat x \<le> 0xFFFFFFF8"
  shows "unat (ALIGN8 x) = 8 * ((unat x + 7) div 8)"
proof -
  have x: "unat (x + 7) = unat x + 7" using assms by (subst unat_add32) auto
  have "NOT 7 = (0xFFFFFFF8 :: u32)" by simp
  then have "unat (ALIGN8 x) = unat (x + 7) - unat (x + 7) mod 8"
    unfolding ALIGN8_def by (simp only: unat_and_high)
  then show ?thesis unfolding x by (simp add: minus_mod_eq_mult_div)
qed

lemma ALIGN8_facts:
  assumes "unat x \<le> 0xFFFFFFF8"
  shows "unat (ALIGN8 x) mod 8 = 0" "unat x \<le> unat (ALIGN8 x)" "unat (ALIGN8 x) < unat x + 8"
  unfolding unat_ALIGN8 [OF assms] by simp_all

lemma st32_frame:
  assumes "unat a mod 4 = 0" "unat x < unat a \<or> unat a + 4 \<le> unat x"
  shows "st32 m a v x = m x"
proof -
  have "unat x div 4 \<noteq> unat a div 4"
  proof
    assume "unat x div 4 = unat a div 4"
    moreover have "unat a = 4 * (unat a div 4)" using assms(1) mult_div_mod_eq [of 4 "unat a"] by simp
    moreover have "4 * (unat x div 4) \<le> unat x" "unat x < 4 * (unat x div 4) + 4" by simp_all
    ultimately show False using assms(2) by linarith
  qed
  then show ?thesis using st32_apply [OF assms(1)] by simp
qed

lemma ld32_range_cong:
  assumes "unat a + 4 \<le> 4294967296"
    and "\<And>x. unat a \<le> unat x \<Longrightarrow> unat x < unat a + 4 \<Longrightarrow> m x = m' x"
  shows "ld32 m a = ld32 m' a"
proof -
  have u: "unat (a + of_nat k) = unat a + k" if "k < 4" for k
    using assms(1) that by (simp add: unat_add32 unat_of_nat32)
  have "m (a + of_nat k) = m' (a + of_nat k)" if "k < 4" for k
    by (rule assms(2)) (use u [OF that] that in simp_all)
  from this [of 0] this [of 1] this [of 2] this [of 3] show ?thesis by (intro ld32_cong) simp_all
qed

section \<open>The heap as a list of blocks\<close>

datatype ablk = Blk (baddr: u32) (bsize: u32) (bfree: bool)

definition extent :: "ablk \<Rightarrow> nat set" where
  "extent B = {unat (baddr B)..<unat (baddr B) + 16 + unat (bsize B)}"

definition payload :: "ablk \<Rightarrow> nat set" where
  "payload B = {unat (baddr B) + 16..<unat (baddr B) + 16 + unat (bsize B)}"

text \<open>\<open>seg m p bs q\<close>: from \<open>p\<close> the \<open>next\<close> links run through exactly the blocks \<open>bs\<close> and end at \<open>q\<close>.\<close>

fun seg :: "memory \<Rightarrow> u32 \<Rightarrow> ablk list \<Rightarrow> u32 \<Rightarrow> bool" where
  "seg m p [] q = (p = q)"
| "seg m p (B # bs) q = (p = baddr B \<and> p \<noteq> 0 \<and> ld32 m p = bsize B \<and>
     (ld32 m (p + 4) \<noteq> 0) = bfree B \<and> seg m (ld32 m (p + 8)) bs q)"

definition blk_ok :: "ablk \<Rightarrow> bool" where
  "blk_ok B \<longleftrightarrow> unat (baddr B) mod 8 = 0 \<and> unat (bsize B) mod 8 = 0 \<and>
     unat (baddr B) + 16 + unat (bsize B) \<le> 4294967296"

definition apart :: "ablk \<Rightarrow> ablk \<Rightarrow> bool" where
  "apart A B \<longleftrightarrow> extent A \<inter> extent B = {}"

definition frame_bytes :: "'a pmm_scheme \<Rightarrow> nat set" where
  "frame_bytes s = {x. \<exists>i \<in> used_set s. unat (base_pa s) + 4096 * i \<le> x \<and> x < unat (base_pa s) + 4096 * (i + 1)}"

definition heap_blocks :: "'a kheap_scheme \<Rightarrow> ablk list \<Rightarrow> bool" where
  "heap_blocks s bs \<longleftrightarrow> pmm_inv s \<and> seg (mem s) (head s) bs 0 \<and>
     (\<forall>B \<in> set bs. blk_ok B \<and> extent B \<subseteq> frame_bytes s) \<and> sorted_wrt apart bs \<and>
     (bs \<noteq> [] \<longrightarrow> tail s = baddr (last bs))"

text \<open>The bytes the heap has taken from the page allocator.\<close>

definition heap_area :: "ablk list \<Rightarrow> nat set" where
  "heap_area bs = \<Union> (extent ` set bs)"

lemma heap_area_append [simp]: "heap_area (xs @ ys) = heap_area xs \<union> heap_area ys"
  by (auto simp: heap_area_def)

lemma heap_area_Cons [simp]: "heap_area (B # bs) = extent B \<union> heap_area bs"
  by (simp add: heap_area_def)

lemma heap_area_Nil [simp]: "heap_area [] = {}"
  by (simp add: heap_area_def)

text \<open>The window of physical pages is fixed once the page allocator is set up.\<close>

definition same_window :: "'a pmm_scheme \<Rightarrow> 'a pmm_scheme \<Rightarrow> bool" where
  "same_window s s' \<longleftrightarrow> base_pa s' = base_pa s \<and> num_pages s' = num_pages s"

definition kheap_inv :: "'a kheap_scheme \<Rightarrow> bool" where
  "kheap_inv s \<longleftrightarrow> (\<exists>bs. heap_blocks s bs)"

lemma seg_append: "seg m p (xs @ ys) q \<longleftrightarrow> (\<exists>r. seg m p xs r \<and> seg m r ys q)"
  by (induction xs arbitrary: p) auto

lemma seg_unique: "seg m p xs 0 \<Longrightarrow> seg m p ys 0 \<Longrightarrow> xs = ys"
proof (induction xs arbitrary: p ys)
  case Nil
  then show ?case by (cases ys) auto
next
  case (Cons B xs)
  then show ?case by (cases ys) (auto simp: ablk.expand)
qed

lemma mod8_words: "x mod 8 = 0 \<Longrightarrow> x mod 4 = 0 \<and> (x + 4) mod 4 = 0 \<and> (x + 8) mod 4 = 0" for x :: nat
  by presburger

lemma blk_ok_offsets:
  assumes "blk_ok B"
  shows "unat (baddr B + 4) = unat (baddr B) + 4" "unat (baddr B + 8) = unat (baddr B) + 8"
    "unat (baddr B + 16) = (unat (baddr B) + 16) mod 4294967296"
    "unat (baddr B) mod 4 = 0" "unat (baddr B + 4) mod 4 = 0" "unat (baddr B + 8) mod 4 = 0"
proof -
  have b: "unat (baddr B) + 16 \<le> 4294967296" "unat (baddr B) mod 8 = 0" using assms by (auto simp: blk_ok_def)
  show u: "unat (baddr B + 4) = unat (baddr B) + 4" "unat (baddr B + 8) = unat (baddr B) + 8"
    using b by (simp_all add: unat_add32)
  show "unat (baddr B + 16) = (unat (baddr B) + 16) mod 4294967296" by (simp add: unat_word_ariths)
  show "unat (baddr B) mod 4 = 0" "unat (baddr B + 4) mod 4 = 0" "unat (baddr B + 8) mod 4 = 0"
    unfolding u using mod8_words [OF b(2)] by simp_all
qed

text \<open>A header is twelve bytes; a change of memory elsewhere leaves the list alone.\<close>

lemma seg_frame:
  assumes "\<And>B. B \<in> set bs \<Longrightarrow> blk_ok B"
    and "\<And>B x. B \<in> set bs \<Longrightarrow> unat (baddr B) \<le> unat x \<Longrightarrow> unat x < unat (baddr B) + 12 \<Longrightarrow> m' x = m x"
  shows "seg m' p bs q = seg m p bs q"
  using assms
proof (induction bs arbitrary: p)
  case (Cons B bs)
  have ok: "blk_ok B" using Cons.prems(1) by simp
  then have lim: "unat (baddr B) + 16 \<le> 4294967296" by (simp add: blk_ok_def)
  note off = blk_ok_offsets [OF ok]
  have eq: "m' x = m x" if "unat (baddr B) \<le> unat x" "unat x < unat (baddr B) + 12" for x
    using Cons.prems(2) [of B x] that by simp
  have "ld32 m' (baddr B) = ld32 m (baddr B)"
    by (rule ld32_range_cong) (use lim eq in simp_all)
  moreover have "ld32 m' (baddr B + 4) = ld32 m (baddr B + 4)"
    by (rule ld32_range_cong) (use off lim eq in simp_all)
  moreover have "ld32 m' (baddr B + 8) = ld32 m (baddr B + 8)"
    by (rule ld32_range_cong) (use off lim eq in simp_all)
  moreover have "seg m' r bs q = seg m r bs q" for r
    by (rule Cons.IH) (use Cons.prems in auto)
  ultimately show ?case by (simp cong: conj_cong)
qed simp

lemma extent_header: "unat (baddr B) \<le> x \<Longrightarrow> x < unat (baddr B) + 16 \<Longrightarrow> x \<in> extent B"
  by (simp add: extent_def)

lemma payload_extent: "payload B \<subseteq> extent B"
  by (auto simp: payload_def extent_def)

text \<open>Replacing some blocks of the list by others that occupy the same bytes.\<close>

lemma seg_det: "seg m p bs q \<Longrightarrow> seg m p bs r \<Longrightarrow> q = r"
  by (induction bs arbitrary: p) auto

lemma seg_splice:
  assumes "seg m p (xs @ As @ ys) q" "seg m (baddr (hd As)) As r" "As \<noteq> []"
    and "\<And>C. C \<in> set xs \<union> set ys \<Longrightarrow> blk_ok C \<and> (\<forall>A \<in> set As. apart A C)"
    and "\<And>x. (\<And>A. A \<in> set As \<Longrightarrow> unat x \<notin> extent A) \<Longrightarrow> m' x = m x"
    and "seg m' (baddr (hd As)) Bs r"
  shows "seg m' p (xs @ Bs @ ys) q"
proof -
  obtain a r' where split: "seg m p xs a" "seg m a As r'" "seg m r' ys q"
    using assms(1) by (auto simp: seg_append)
  have a: "a = baddr (hd As)" using split(2) assms(3) by (cases As) auto
  then have r: "r' = r" using split(2) assms(2) seg_det by blast
  have keep: "m' x = m x"
    if "C \<in> set xs \<union> set ys" "unat (baddr C) \<le> unat x" "unat x < unat (baddr C) + 12" for C x
  proof (rule assms(5))
    have "unat x \<in> extent C" using that by (intro extent_header) simp_all
    then show "unat x \<notin> extent A" if "A \<in> set As" for A
      using assms(4) [OF \<open>C \<in> set xs \<union> set ys\<close>] that by (auto simp: apart_def)
  qed
  have "seg m' p xs a"
    using split(1) by (subst seg_frame [where m = m]) (use assms(4) keep in auto)
  moreover have "seg m' r ys q"
    using split(3) unfolding r by (subst seg_frame [where m = m]) (use assms(4) keep in auto)
  ultimately show ?thesis using assms(6) a by (auto simp: seg_append)
qed

lemma seg_replace:
  assumes "seg m p (xs @ B # ys) q"
    and "\<And>C. C \<in> set xs \<union> set ys \<Longrightarrow> blk_ok C \<and> apart B C"
    and "\<And>x. unat x \<notin> extent B \<Longrightarrow> m' x = m x"
    and "seg m' (baddr B) Bs (ld32 m (baddr B + 8))"
  shows "seg m' p (xs @ Bs @ ys) q"
  using assms by (intro seg_splice [of m p xs "[B]" ys q _ m' Bs]) (auto simp: seg_append)

definition split_blks :: "u32 \<Rightarrow> u32 \<Rightarrow> u32 \<Rightarrow> bool \<Rightarrow> ablk list" where
  "split_blks b n sz fr =
     (if unat n - unat sz < 32 then [Blk b n fr]
      else [Blk b sz fr, Blk (b + 16 + sz) (n - sz - 16) True])"

lemma split_remainder:
  assumes "blk_ok (Blk b n fr)" "unat sz mod 8 = 0" "unat sz \<le> unat n" "32 \<le> unat n - unat sz"
  shows "unat (b + 16 + sz) = unat b + 16 + unat sz" "unat (n - sz - 16) = unat n - unat sz - 16"
    "blk_ok (Blk b sz fr)" "blk_ok (Blk (b + 16 + sz) (n - sz - 16) True)"
proof -
  have lim: "unat b + 16 + unat n \<le> 4294967296" and al: "unat b mod 8 = 0" "unat n mod 8 = 0"
    using assms(1) by (auto simp: blk_ok_def)
  have "unat (b + 16) = unat b + 16" using lim assms(3,4) by (subst unat_add32) auto
  then show c: "unat (b + 16 + sz) = unat b + 16 + unat sz" using lim assms(3,4) by (subst unat_add32) auto
  have d: "unat (n - sz) = unat n - unat sz" using assms(3) by (intro unat_diff32) (simp add: word_le_nat_alt)
  then show r: "unat (n - sz - 16) = unat n - unat sz - 16"
    using assms(4) by (subst unat_diff32) (auto simp: word_le_nat_alt)
  show "blk_ok (Blk b sz fr)" using assms(2,3) lim al by (simp add: blk_ok_def)
  have "(unat b + 16 + unat sz) mod 8 = 0" using al(1) assms(2) by (simp add: mod_add_eq [symmetric, of "unat b + 16"] mod_add_eq [symmetric, of "unat b"])
  moreover have "(unat n - unat sz - 16) mod 8 = 0"
    using al(2) assms(2) by (simp add: mod_eq_0_iff_dvd dvd_diff_nat)
  ultimately show "blk_ok (Blk (b + 16 + sz) (n - sz - 16) True)"
    using lim assms(3,4) by (simp add: blk_ok_def c r)
qed

lemma split_blks_ok:
  assumes "blk_ok (Blk b n fr)" "unat sz mod 8 = 0" "unat sz \<le> unat n"
  shows "C \<in> set (split_blks b n sz fr) \<Longrightarrow> blk_ok C \<and> extent C \<subseteq> extent (Blk b n fr)"
    "sorted_wrt apart (split_blks b n sz fr)"
    "split_blks b n sz fr \<noteq> []" "baddr (hd (split_blks b n sz fr)) = b"
    "unat sz \<le> unat (bsize (hd (split_blks b n sz fr)))"
  using split_remainder [OF assms] assms
  by (auto simp: split_blks_def extent_def apart_def split: if_splits)

lemma ablk_fields [frame_simps]:
  "head (set_size b v s) = head s" "head (set_free b v s) = head s" "head (set_next b v s) = head s"
  "tail (set_size b v s) = tail s" "tail (set_free b v s) = tail s" "tail (set_next b v s) = tail s"
  by (simp_all add: blk_defs)

lemma split_spec:
  assumes ok: "blk_ok (Blk b n fr)" and sz: "unat sz mod 8 = 0" "unat sz \<le> unat n"
    and here: "seg (mem s) b [Blk b n fr] r"
  defines "s' \<equiv> split b sz s"
  shows "seg (mem s') b (split_blks b n sz fr) r"
    "unat x \<notin> extent (Blk b n fr) \<Longrightarrow> mem s' x = mem s x"
    "tail s' = (if tail s = b then baddr (last (split_blks b n sz fr)) else tail s)"
    "s' = s\<lparr>mem := mem s', tail := tail s'\<rparr>"
proof -
  have h: "b \<noteq> 0" "ld32 (mem s) b = n" "(ld32 (mem s) (b + 4) \<noteq> 0) = fr" "ld32 (mem s) (b + 8) = r"
    using here by auto
  have rem: "n - sz < 16 + MIN_SPLIT \<longleftrightarrow> unat n - unat sz < 32"
    using sz(2) by (simp add: MIN_SPLIT_def word_less_nat_alt unat_diff32 word_le_nat_alt)
  show "s' = s\<lparr>mem := mem s', tail := tail s'\<rparr>"
    by (simp add: s'_def split_def Let_def blk_defs)
  have "seg (mem s') b (split_blks b n sz fr) r \<and>
    (\<forall>x. unat x \<notin> extent (Blk b n fr) \<longrightarrow> mem s' x = mem s x) \<and>
    tail s' = (if tail s = b then baddr (last (split_blks b n sz fr)) else tail s)"
  proof (cases "unat n - unat sz < 32")
    case True
    then have "s' = s" by (simp add: s'_def split_def blk_size_def h rem)
    then show ?thesis using here True by (simp add: split_blks_def)
  next
    case False
    define c where "c = b + 16 + sz"
    have big: "32 \<le> unat n - unat sz" using False by simp
    note sr = split_remainder [OF ok sz big, folded c_def]
    have ub: "unat (b + 4) = unat b + 4" "unat (b + 8) = unat b + 8"
      using blk_ok_offsets [OF ok] by simp_all
    have uc: "unat (c + 4) = unat c + 4" "unat (c + 8) = unat c + 8"
      using blk_ok_offsets [OF sr(4)] by simp_all
    have al: "unat b mod 4 = 0" "unat (b + 4) mod 4 = 0" "unat (b + 8) mod 4 = 0"
      "unat c mod 4 = 0" "unat (c + 4) mod 4 = 0" "unat (c + 8) mod 4 = 0"
      using blk_ok_offsets(4-6) [OF ok] blk_ok_offsets(4-6) [OF sr(4)] by simp_all
    have gap: "unat b + 16 \<le> unat c" "unat c + 16 \<le> unat b + 16 + unat n" using sr(1) big by simp_all
    have ne: "c \<noteq> b" "c + 4 \<noteq> b" "c + 8 \<noteq> b" "c \<noteq> b + 4" "c + 4 \<noteq> b + 4" "c + 8 \<noteq> b + 4"
      "c \<noteq> b + 8" "c + 4 \<noteq> b + 8" "c + 8 \<noteq> b + 8"
      unfolding word_unat_eq_iff ub uc using gap by simp_all
    have self: "b \<noteq> b + 4" "b \<noteq> b + 8" "b + 8 \<noteq> b + 4" "c \<noteq> c + 4" "c \<noteq> c + 8" "c + 8 \<noteq> c + 4"
      unfolding word_unat_eq_iff ub uc by linarith+
    let ?m = "st32 (st32 (st32 (st32 (st32 (mem s) c (n - sz - 16)) (c + 4) 1) (c + 8) r) b sz) (b + 8) c"
    have rd: "ld32 (st32 (st32 (mem s) c (n - sz - 16)) (c + 4) 1) (b + 8) = r"
      using al ne h by (simp add: ld32_st32_other)
    have s': "s' = (if tail s = b then s\<lparr>mem := ?m, tail := c\<rparr> else s\<lparr>mem := ?m\<rparr>)"
    proof -
      have cc: "b + ALIGN8 HDR + sz = c" by (simp add: c_def)
      show ?thesis unfolding s'_def split_def Let_def blk_defs cc
        using False rd by (simp add: h rem)
    qed
    have hdrs: "ld32 ?m b = sz" "(ld32 ?m (b + 4) \<noteq> 0) = fr" "ld32 ?m (b + 8) = c"
      "ld32 ?m c = n - sz - 16" "ld32 ?m (c + 4) = 1" "ld32 ?m (c + 8) = r"
      by (simp_all only: ld32_st32_same ld32_st32_other al ne ne [symmetric] self self [symmetric] h
          not_False_eq_True zero_neq_one)
    have "c \<noteq> 0" using gap by auto
    then have "seg ?m b (split_blks b n sz fr) r"
      using False hdrs h(1) by (simp add: split_blks_def c_def)
    moreover have "?m x = mem s x" if "unat x \<notin> extent (Blk b n fr)" for x
    proof -
      have out: "unat x < unat b \<or> unat b + 16 + unat n \<le> unat x" using that by (auto simp: extent_def)
      then have out': "unat x < unat c \<or> unat c + 16 \<le> unat x" using gap by linarith
      have "st32 m b v x = m x" "st32 m (b + 8) v x = m x" for m v
        by (rule st32_frame, rule al, use out ub gap in linarith)+
      moreover have "st32 m c v x = m x" "st32 m (c + 4) v x = m x" "st32 m (c + 8) v x = m x" for m v
        by (rule st32_frame, rule al, use out' uc in linarith)+
      ultimately show ?thesis by simp
    qed
    ultimately show ?thesis using False by (simp add: s' split_blks_def c_def)
  qed
  then show "seg (mem s') b (split_blks b n sz fr) r"
    "unat x \<notin> extent (Blk b n fr) \<Longrightarrow> mem s' x = mem s x"
    "tail s' = (if tail s = b then baddr (last (split_blks b n sz fr)) else tail s)"
    by simp_all
qed

lemma heap_updates [simp]:
  "used_set (s\<lparr>head := h\<rparr>) = used_set s" "used_set (s\<lparr>tail := t\<rparr>) = used_set s"
  "used_set (s\<lparr>used_bytes := u\<rparr>) = used_set s"
  "pmm_inv (s\<lparr>head := h\<rparr>) = pmm_inv s" "pmm_inv (s\<lparr>tail := t\<rparr>) = pmm_inv s"
  "pmm_inv (s\<lparr>used_bytes := u\<rparr>) = pmm_inv s"
  by (simp_all add: used_set_def bit_get_def pmm_inv_def)

lemma frame_bytes_updates [simp]:
  "frame_bytes (s\<lparr>head := h\<rparr>) = frame_bytes s" "frame_bytes (s\<lparr>tail := t\<rparr>) = frame_bytes s"
  "frame_bytes (s\<lparr>used_bytes := u\<rparr>) = frame_bytes s"
  "frame_bytes (s\<lparr>mem := m\<rparr>) = frame_bytes s"
  by (simp_all add: frame_bytes_def)

lemma seg_set_free:
  assumes "blk_ok B" "seg m (baddr B) (B # bs) r" "\<And>C. C \<in> set bs \<Longrightarrow> blk_ok C \<and> apart B C"
  shows "seg (st32 m (baddr B + 4) v) (baddr B) (Blk (baddr B) (bsize B) (v \<noteq> 0) # bs) r"
proof -
  let ?m = "st32 m (baddr B + 4) v"
  note off = blk_ok_offsets [OF assms(1)]
  have "baddr B + 4 \<noteq> baddr B" "baddr B + 4 \<noteq> baddr B + 8" by simp_all
  then have "ld32 ?m (baddr B) = ld32 m (baddr B)" "ld32 ?m (baddr B + 8) = ld32 m (baddr B + 8)"
    using off(4-6) by (simp_all only: ld32_st32_other not_False_eq_True)
  moreover have "seg ?m q bs r = seg m q bs r" for q
  proof (rule seg_frame)
    fix C and x :: u32
    assume C: "C \<in> set bs" "unat (baddr C) \<le> unat x" "unat x < unat (baddr C) + 12"
    then have "unat x \<in> extent C" by (intro extent_header) simp_all
    then have "unat x \<notin> extent B" using assms(3) [OF C(1)] by (auto simp: apart_def)
    then have "unat x < unat (baddr B) \<or> unat (baddr B) + 16 \<le> unat x" by (auto simp: extent_def)
    then show "?m x = m x" using off(1,5) by (intro st32_frame) auto
  qed (use assms(3) in blast)
  ultimately show ?thesis using assms(2) by simp
qed

lemma apart_sym: "apart A B \<longleftrightarrow> apart B A"
  by (auto simp: apart_def)

lemma apart_mono: "apart A B \<Longrightarrow> extent A' \<subseteq> extent A \<Longrightarrow> apart A' B"
  by (auto simp: apart_def)

lemma heap_blocks_middle:
  assumes "heap_blocks s (xs @ As @ ys)" "C \<in> set xs \<union> set ys" "A \<in> set As"
  shows "blk_ok C \<and> apart A C"
  using assms by (auto simp: heap_blocks_def sorted_wrt_append apart_sym)

text \<open>Replacing neighbouring blocks of a well-formed heap by blocks inside their bytes.\<close>

lemma heap_blocks_splice:
  assumes hb: "heap_blocks s (xs @ As @ ys)" and As: "As \<noteq> []" "seg (mem s) (baddr (hd As)) As r"
    and mem: "\<And>x. (\<And>A. A \<in> set As \<Longrightarrow> unat x \<notin> extent A) \<Longrightarrow> mem s' x = mem s x"
    and seg: "seg (mem s') (baddr (hd As)) Bs r"
    and Bs: "\<And>C. C \<in> set Bs \<Longrightarrow> blk_ok C \<and> extent C \<subseteq> \<Union> (extent ` set As)" "sorted_wrt apart Bs" "Bs \<noteq> []"
    and tail: "tail s' = (if ys = [] then baddr (last Bs) else tail s)"
    and same: "head s' = head s" "pmm_inv s'" "frame_bytes s' = frame_bytes s"
  shows "heap_blocks s' (xs @ Bs @ ys)"
proof -
  note mid = heap_blocks_middle [OF hb]
  have sep: "blk_ok C \<and> (\<forall>A \<in> set As. apart A C)" if "C \<in> set xs \<union> set ys" for C
    using mid [OF that] As(1) by (cases As) auto
  have old: "seg (mem s) (head s) (xs @ As @ ys) 0" using hb by (simp add: heap_blocks_def)
  have chain: "seg (mem s') (head s') (xs @ Bs @ ys) 0"
    unfolding same(1) by (rule seg_splice [OF old As(2,1) sep mem seg])
  have ok: "blk_ok C \<and> extent C \<subseteq> frame_bytes s'" if "C \<in> set (xs @ Bs @ ys)" for C
  proof (cases "C \<in> set Bs")
    case True
    have "\<Union> (extent ` set As) \<subseteq> frame_bytes s" using hb by (auto simp: heap_blocks_def)
    then show ?thesis using Bs(1) [OF True] by (auto simp: same)
  next
    case False
    then show ?thesis using that hb by (auto simp: heap_blocks_def same)
  qed
  have "apart C D \<and> apart D C" if C: "C \<in> set Bs" and D: "D \<in> set xs \<union> set ys" for C D
    using mid [OF D] Bs(1) [OF C] by (auto simp: apart_def)
  then have sorted: "sorted_wrt apart (xs @ Bs @ ys)"
    using hb Bs(2) by (simp add: heap_blocks_def sorted_wrt_append) blast
  have "tail s' = baddr (last (xs @ Bs @ ys))"
    using hb As(1) Bs(3) tail by (cases "ys = []") (simp_all add: heap_blocks_def)
  with chain ok sorted show ?thesis using same(2) by (simp add: heap_blocks_def)
qed

lemma memset_bytes:
  assumes "unat p + n \<le> 4294967296"
  shows "memset m p c n x = (if unat p \<le> unat x \<and> unat x < unat p + n then c else m x)"
  using assms by (simp add: memset_apply inrange_nowrap)

lemma unat_payload:
  assumes "blk_ok B" "0 < unat (bsize B)"
  shows "unat (baddr B + 16) = unat (baddr B) + 16"
  using assms by (subst unat_add32) (auto simp: blk_ok_def)

lemma header_write_frame:
  assumes "blk_ok B" "unat x < unat (baddr B) \<or> unat (baddr B) + 16 \<le> unat x"
  shows "st32 m (baddr B) v x = m x" "st32 m (baddr B + 4) v x = m x" "st32 m (baddr B + 8) v x = m x"
  using blk_ok_offsets [OF assms(1)] assms(2) by (auto intro!: st32_frame)

lemma take_block_spec:
  assumes hb: "heap_blocks s (xs @ Blk b n True # ys)"
    and sz: "unat sz mod 8 = 0" "0 < unat sz" "unat sz \<le> unat n"
    and take: "take_block b sz s = (p, s')"
  shows "p = b + 16" "heap_blocks s' (xs @ split_blks b n sz False @ ys)"
    "unat x \<notin> extent (Blk b n True) \<Longrightarrow> mem s' x = mem s x"
    "unat x \<in> payload (hd (split_blks b n sz False)) \<Longrightarrow> mem s' x = 0"
    "frame_bytes s' = frame_bytes s" "s' = s\<lparr>mem := mem s', tail := tail s', used_bytes := used_bytes s'\<rparr>"
    "used_bytes s' = used_bytes s + bsize (hd (split_blks b n sz False))"
proof -
  let ?B = "Blk b n True"
  have ok: "blk_ok ?B" and inv: "pmm_inv s" using hb by (auto simp: heap_blocks_def)
  obtain r where here: "seg (mem s) b [?B] r" and r: "r = ld32 (mem s) (b + 8)"
    using hb by (auto simp: heap_blocks_def seg_append)
  define t where "t = split b sz s"
  note sp = split_spec [OF ok sz(1,3) here, folded t_def]
  define n1 where "n1 = (if unat n - unat sz < 32 then n else sz)"
  define T where "T = (if unat n - unat sz < 32 then [] else [Blk (b + 16 + sz) (n - sz - 16) True])"
  have cons: "split_blks b n sz f = Blk b n1 f # T" for f
    by (simp add: split_blks_def n1_def T_def)
  note so = split_blks_ok [OF ok sz(1,3), unfolded cons]
  have T: "blk_ok C \<and> apart (Blk b n1 True) C" if "C \<in> set T" for C
    using so(1,2) that by auto
  have ok1: "blk_ok (Blk b n1 True)" and ext: "extent (Blk b n1 True) \<subseteq> extent ?B"
    using so(1) [of "Blk b n1 True"] by auto
  have seg1: "seg (mem t) b (Blk b n1 True # T) r" using sp(1) by (simp add: cons)
  let ?m2 = "st32 (mem t) (b + 4) 0"
  have seg2: "seg ?m2 b (Blk b n1 False # T) r"
    using seg_set_free [of "Blk b n1 True" "mem t" T r 0] ok1 seg1 T by simp
  then have n1: "ld32 ?m2 b = n1" by simp
  have n1pos: "0 < unat n1" using so(5) sz(2) by simp
  have up: "unat (b + 16) = unat b + 16" using unat_payload [OF ok1] n1pos by simp
  have lim: "unat (b + 16) + unat n1 \<le> 4294967296" using ok1 up by (simp add: blk_ok_def)
  let ?m3 = "memset ?m2 (b + 16) 0 (unat n1)"
  have s': "s' = t\<lparr>mem := ?m3, used_bytes := used_bytes t + n1\<rparr>" and p: "p = b + 16"
    using take n1 by (auto simp: take_block_def Let_def t_def [symmetric] blk_defs)
  have m3: "?m3 x = (if unat x \<in> payload (Blk b n1 False) then 0 else ?m2 x)" for x
    unfolding memset_bytes [OF lim] up by (simp add: payload_def)
  have seg3: "seg ?m3 b (Blk b n1 False # T) r"
  proof (subst seg_frame [where m = ?m2])
    fix C and x :: u32
    assume C: "C \<in> set (Blk b n1 False # T)" "unat (baddr C) \<le> unat x" "unat x < unat (baddr C) + 12"
    have "unat x \<notin> payload (Blk b n1 False)"
    proof (cases "C = Blk b n1 False")
      case True
      then show ?thesis using C by (auto simp: payload_def)
    next
      case False
      then have "apart (Blk b n1 True) C" using T C by auto
      moreover have "unat x \<in> extent C" using C by (intro extent_header) simp_all
      ultimately show ?thesis by (auto simp: apart_def extent_def payload_def)
    qed
    then show "?m3 x = ?m2 x" by (simp add: m3)
  qed (use T ok1 seg2 in \<open>auto simp: blk_ok_def\<close>)
  have outside: "mem s' x = mem s x" if "unat x \<notin> extent ?B" for x
  proof -
    have "unat x \<notin> extent (Blk b n1 True)" using ext that by blast
    then have "unat x \<notin> payload (Blk b n1 False)" "unat x < unat b \<or> unat b + 16 \<le> unat x"
      by (auto simp: payload_def extent_def)
    then have "mem s' x = mem t x"
      using header_write_frame(2) [OF ok] by (simp add: s' m3)
    then show ?thesis using sp(2) [OF that] by simp
  qed
  have fields: "head t = head s" "pmm_inv t" "frame_bytes t = frame_bytes s" "used_bytes t = used_bytes s"
    "kheap.more t = kheap.more s"
    by (subst sp(4), simp add: inv)+
  show "p = b + 16" by (rule p)
  show "unat x \<notin> extent ?B \<Longrightarrow> mem s' x = mem s x" by (rule outside)
  show "unat x \<in> payload (hd (split_blks b n sz False)) \<Longrightarrow> mem s' x = 0"
    by (simp add: s' m3 cons)
  show "frame_bytes s' = frame_bytes s" by (simp add: s' fields)
  show "s' = s\<lparr>mem := mem s', tail := tail s', used_bytes := used_bytes s'\<rparr>"
    unfolding s' by (subst sp(4)) simp
  show "used_bytes s' = used_bytes s + bsize (hd (split_blks b n sz False))"
    using fields by (simp add: s' cons)
  show "heap_blocks s' (xs @ split_blks b n sz False @ ys)"
  proof (rule heap_blocks_splice [of s xs "[?B]" ys r])
    show "seg (mem s') (baddr (hd [?B])) (split_blks b n sz False) r"
      using seg3 by (simp add: s' cons)
    show "blk_ok C \<and> extent C \<subseteq> \<Union> (extent ` set [?B])" if "C \<in> set (split_blks b n sz False)" for C
      using that so(1) [of C] ok1 ext by (auto simp: cons blk_ok_def extent_def)
    show "sorted_wrt apart (split_blks b n sz False)"
      using so(2) by (auto simp: cons apart_def extent_def)
    show "tail s' = (if ys = [] then baddr (last (split_blks b n sz False)) else tail s)"
    proof (cases "ys = []")
      case True
      then show ?thesis using sp(3) hb by (simp add: s' cons heap_blocks_def)
    next
      case False
      then have "tail s = baddr (last ys)" "apart ?B (last ys)"
        using hb heap_blocks_middle [of s xs "[?B]" ys "last ys"] by (auto simp: heap_blocks_def)
      then have "tail s \<noteq> b" by (auto simp: apart_def extent_def)
      then show ?thesis using sp(3) False by (simp add: s' cons)
    qed
  qed (use fields hb here outside in \<open>simp_all add: s' cons\<close>)
qed

lemma same_page_iff:
  assumes "page_aligned pa"
  shows "same_page x pa \<longleftrightarrow> unat pa \<le> unat x \<and> unat x < unat pa + 4096"
proof -
  have "unat pa = 4096 * (unat pa div 4096)" using assms mult_div_mod_eq [of 4096 "unat pa"] by (simp add: page_aligned_unat)
  moreover have "4096 * (unat x div 4096) \<le> unat x" "unat x < 4096 * (unat x div 4096) + 4096" by simp_all
  ultimately show ?thesis unfolding same_page_def by (auto simp: algebra_simps)
qed

text \<open>The bytes of a run of frames, and that a fresh run is apart from every frame in use.\<close>

lemma run_bytes:
  fixes B :: nat
  shows "{B + 4096 * i..<B + 4096 * (i + n)} = {x. \<exists>k \<in> {i..<i + n}. B + 4096 * k \<le> x \<and> x < B + 4096 * (k + 1)}"
proof (intro set_eqI iffI)
  fix x
  assume x: "x \<in> {B + 4096 * i..<B + 4096 * (i + n)}"
  let ?k = "(x - B) div 4096"
  have "4096 * ?k \<le> x - B" "x - B < 4096 * ?k + 4096" by simp_all
  then have "B + 4096 * ?k \<le> x" "x < B + 4096 * (?k + 1)" using x by auto
  moreover from this have "?k \<in> {i..<i + n}" using x by auto
  ultimately show "x \<in> {x. \<exists>k \<in> {i..<i + n}. B + 4096 * k \<le> x \<and> x < B + 4096 * (k + 1)}" by blast
qed auto

lemma run_fresh:
  assumes "{i..<i + n} \<inter> used_set s = {}"
  shows "{unat (base_pa s) + 4096 * i..<unat (base_pa s) + 4096 * (i + n)} \<inter> frame_bytes s = {}"
proof -
  have "j = k" if "B + 4096 * j \<le> x" "x < B + 4096 * (j + 1)" "B + 4096 * k \<le> x" "x < B + 4096 * (k + 1)"
    for B j k x :: nat
  proof -
    have "4096 * j < 4096 * (k + 1)" "4096 * k < 4096 * (j + 1)" using that by linarith+
    then show ?thesis by simp
  qed
  then show ?thesis using assms unfolding run_bytes frame_bytes_def by blast
qed

lemma frame_bytes_run:
  assumes "base_pa s' = base_pa s" "used_set s' = {i..<i + n} \<union> used_set s"
  shows "frame_bytes s' = {unat (base_pa s) + 4096 * i..<unat (base_pa s) + 4096 * (i + n)} \<union> frame_bytes s"
  unfolding run_bytes by (auto simp: frame_bytes_def assms)

lemma alloc_run_keeps:
  assumes "pmm_inv s" "i + n \<le> unat (num_pages s)" "unat x \<in> frame_bytes s" "{i..<i + n} \<inter> used_set s = {}" "j < n"
  shows "\<not> same_page x (page_pa s (i + j))"
proof
  assume "same_page x (page_pa s (i + j))"
  moreover have k: "i + j < unat (num_pages s)" using assms(2,5) by simp
  ultimately have "unat (base_pa s) + 4096 * (i + j) \<le> unat x" "unat x < unat (base_pa s) + 4096 * (i + j) + 4096"
    using same_page_iff [OF page_pa_aligned [OF assms(1) k]] unat_page_pa [OF assms(1) k] by simp_all
  then have "unat x \<in> {unat (base_pa s) + 4096 * i..<unat (base_pa s) + 4096 * (i + n)}" using assms(5) by simp
  then show False using run_fresh [OF assms(4)] assms(3) by blast
qed

lemma grow_pages:
  assumes "unat need mod 8 = 0" "unat need \<le> 0xFFFFEFF0"
  defines "np \<equiv> (ALIGN8 need + ALIGN8 HDR + PAGE_SIZE - 1) div PAGE_SIZE"
  shows "0 < np" "unat need + 16 \<le> 4096 * unat np" "unat np \<le> 1048575"
    "unat (np * PAGE_SIZE - ALIGN8 HDR) = 4096 * unat np - 16"
proof -
  have "unat (ALIGN8 need) = unat need"
    using assms(1,2) unat_ALIGN8 [of need] aligned_add_div_mod(1) [of "unat need" 8 7]
      mult_div_mod_eq [of 8 "unat need"] by simp
  then have al: "ALIGN8 need = need" by (simp add: word_unat_eq_iff)
  have u: "unat (need + 4111) = unat need + 4111" using assms(2) by (subst unat_add32) auto
  have "ALIGN8 need + ALIGN8 HDR + PAGE_SIZE - 1 = need + 4111" by (simp add: al)
  then have np: "unat np = (unat need + 4111) div 4096" unfolding np_def by (simp only: unat_div32 u) simp
  show "0 < np" unfolding word_less_nat_alt np by simp
  show big: "unat need + 16 \<le> 4096 * unat np" unfolding np by simp
  show le: "unat np \<le> 1048575" unfolding np using assms(2) by simp
  have "unat (np * PAGE_SIZE) = 4096 * unat np" using le by (subst unat_mult32) simp_all
  then show "unat (np * PAGE_SIZE - ALIGN8 HDR) = 4096 * unat np - 16"
    using big by (subst unat_diff32) (auto simp: word_le_nat_alt)
qed

lemma seg_fresh_header:
  assumes "blk_ok (Blk b n True)" "b \<noteq> 0"
  shows "seg (st32 (st32 (st32 m b n) (b + 4) 1) (b + 8) 0) b [Blk b n True] 0"
proof -
  note off = blk_ok_offsets(4-6) [OF assms(1), simplified ablk.sel]
  have ne: "b + 8 \<noteq> b" "b + 4 \<noteq> b" "b + 8 \<noteq> b + 4" by simp_all
  show ?thesis using assms(2)
    by (simp add: ld32_st32_same) (simp only: ld32_st32_same ld32_st32_other off ne not_False_eq_True, simp)
qed

lemma seg_append_block:
  assumes "seg m h (xs @ [L]) 0" "seg m b [N] 0"
    and "\<And>C. C \<in> set (xs @ [L, N]) \<Longrightarrow> blk_ok C" "sorted_wrt apart (xs @ [L, N])" "baddr N = b"
  shows "seg (st32 m (baddr L + 8) b) h (xs @ [L, N]) 0"
proof -
  let ?m = "st32 m (baddr L + 8) b"
  have ok: "blk_ok L" "blk_ok N" and LN: "apart L N" using assms(3,4) by (auto simp: sorted_wrt_append)
  have L: "baddr L \<noteq> 0" "ld32 m (baddr L) = bsize L" "(ld32 m (baddr L + 4) \<noteq> 0) = bfree L" "ld32 m (baddr L + 8) = 0"
    using assms(1) by (auto simp: seg_append)
  have frame: "?m x = m x" if "unat x \<notin> extent L" for x
    using that header_write_frame(3) [OF ok(1)] by (auto simp: extent_def)
  have "seg ?m b [N] 0"
  proof (subst seg_frame [where m = m])
    fix C and x :: u32
    assume C: "C \<in> set [N]" "unat (baddr C) \<le> unat x" "unat x < unat (baddr C) + 12"
    then have "unat x \<in> extent N" by (intro extent_header) auto
    then show "?m x = m x" using LN by (intro frame) (auto simp: apart_def)
  qed (use ok assms(2) in auto)
  moreover have ne: "baddr L + 8 \<noteq> baddr L" "baddr L + 8 \<noteq> baddr L + 4" by simp_all
  have "ld32 ?m (baddr L) = ld32 m (baddr L)" "ld32 ?m (baddr L + 4) = ld32 m (baddr L + 4)"
    by (simp_all only: ld32_st32_other blk_ok_offsets(4-6) [OF ok(1)] ne not_False_eq_True)
  ultimately have "seg ?m (baddr L) [L, N] (ld32 m (baddr L + 8))"
    using L assms(5) by simp
  then show ?thesis
    using seg_replace [of m h xs L "[]" 0 ?m "[L, N]"] assms(1,3,4) frame
    by (auto simp: sorted_wrt_append apart_sym)
qed

lemma kheap_of_more:
  assumes "pmm.more s = pmm.more t"
  shows "head s = head t" "tail s = tail t" "used_bytes s = used_bytes t" "kheap.more s = kheap.more t"
  using assms by (metis kheap.select_convs kheap.surjective pmm.select_convs(5))+

lemma sorted_wrt_apart_unique:
  assumes "sorted_wrt apart bs" "C \<in> set bs" "D \<in> set bs" "x \<in> extent C" "x \<in> extent D"
  shows "C = D"
  using assms by (induction bs) (auto simp: apart_def)

lemma grow_cases:
  assumes hb: "heap_blocks s bs" and need: "unat need mod 8 = 0" "unat need \<le> 0xFFFFEFF0"
    and g: "grow need s = (b, s')"
  obtains (oom) "b = 0" "s' = s"
  | (grown) n where "b \<noteq> 0" "heap_blocks s' (bs @ [Blk b n True])" "unat need \<le> unat n"
      "\<And>C x. C \<in> set bs \<Longrightarrow> unat x \<in> payload C \<Longrightarrow> mem s' x = mem s x"
      "frame_bytes s \<subseteq> frame_bytes s'" "extent (Blk b n True) \<inter> frame_bytes s = {}"
      "\<And>x. unat x \<in> frame_bytes s \<Longrightarrow> (\<And>C. C \<in> set bs \<Longrightarrow> unat x \<notin> extent C) \<Longrightarrow> mem s' x = mem s x"
      "used_bytes s' = used_bytes s" "kheap.more s' = kheap.more s" "same_window s s'"
proof -
  define np where "np = (ALIGN8 need + ALIGN8 HDR + PAGE_SIZE - 1) div PAGE_SIZE"
  define n where "n = np * PAGE_SIZE - ALIGN8 HDR"
  note gp = grow_pages [OF need, folded np_def, folded n_def]
  have inv: "pmm_inv s" using hb by (simp add: heap_blocks_def)
  obtain pa t where al: "pmm_alloc_aligned np PAGE_SIZE s = (pa, t)" by fastforce
  from inv gp(1) al show thesis
  proof (cases rule: pmm_alloc_aligned_cases)
    case none
    then show ?thesis using g al by (intro oom) (simp_all add: grow_def Let_def np_def)
  next
    case (run i)
    let ?N = "Blk pa n True"
    have i: "i < unat (num_pages s)" using run(1) gp(1) by (simp add: word_less_nat_alt)
    have pa: "pa \<noteq> 0" using page_pa_nonzero [OF inv i] run(3) by simp
    have upa: "unat pa = unat (base_pa s) + 4096 * i" using unat_page_pa [OF inv i] run(3) by simp
    have ext: "extent ?N = {unat (base_pa s) + 4096 * i..<unat (base_pa s) + 4096 * (i + unat np)}"
      using gp(2,4) by (simp add: extent_def upa algebra_simps)
    have "unat (base_pa s) + 4096 * unat (num_pages s) \<le> 4294967296" using inv by (simp add: pmm_inv_def)
    then have okN: "blk_ok ?N"
      using page_pa_aligned [OF inv i] run(1,3) gp(2,4) upa
      by (auto simp: blk_ok_def page_aligned_unat mod_eq_0_iff_dvd dvd_diff_nat intro: dvd_trans [of 8 4096])
    have fb: "frame_bytes t = extent ?N \<union> frame_bytes s"
      unfolding ext by (rule frame_bytes_run) (use run in simp_all)
    have fresh: "extent ?N \<inter> frame_bytes s = {}" unfolding ext by (rule run_fresh [OF run(2)])
    let ?m1 = "st32 (st32 (st32 (mem t) pa n) (pa + 4) 1) (pa + 8) 0"
    have m1: "?m1 x = mem s x" if "unat x \<in> frame_bytes s" for x
    proof -
      have "unat x \<notin> extent ?N" using that fresh by blast
      then have "unat x < unat pa \<or> unat pa + 16 \<le> unat x" by (auto simp: extent_def)
      from header_write_frame [OF okN, simplified ablk.sel, OF this]
        alloc_run_keeps [OF inv run(1) that run(2)] show ?thesis by (auto simp: run(7))
    qed
    have segN: "seg ?m1 pa [?N] 0" by (rule seg_fresh_header [OF okN pa])
    note fields = kheap_of_more [OF run(10)]
    have s': "b = pa" "s' = (if head s = 0 then t\<lparr>mem := ?m1, head := pa, tail := pa\<rparr>
        else t\<lparr>mem := st32 ?m1 (tail s + 8) pa, tail := pa\<rparr>)"
      using g [unfolded grow_def Let_def blk_defs, folded np_def, folded n_def] al pa fields
      by (auto split: if_splits)
    have old: "blk_ok C" "extent C \<subseteq> frame_bytes s" "apart C ?N" if "C \<in> set bs" for C
      using hb that fresh by (auto simp: heap_blocks_def apart_def)
    have sorted: "sorted_wrt apart (bs @ [?N])"
      using hb old by (auto simp: heap_blocks_def sorted_wrt_append)
    have "unat x \<in> frame_bytes s" if "C \<in> set bs" "unat (baddr C) \<le> unat x" "unat x < unat (baddr C) + 12"
      for C and x :: u32
      using old(2) [OF that(1)] extent_header [of C "unat x"] that(2,3) by auto
    then have segm1: "seg ?m1 (head s) bs 0"
      using hb old(1) m1 by (subst seg_frame [where m = "mem s"]) (simp_all add: heap_blocks_def)
    have fb': "frame_bytes s' = extent ?N \<union> frame_bytes s" "pmm_inv s'" "tail s' = pa"
      "used_bytes s' = used_bytes s" "kheap.more s' = kheap.more s" "same_window s s'"
      using s' fb run(5,8,9) fields by (simp_all add: same_window_def)
    have "seg (mem s') (head s') (bs @ [?N]) 0 \<and>
      (\<forall>x. unat x \<in> frame_bytes s \<longrightarrow> (\<forall>C \<in> set bs. unat x \<notin> extent C \<or> unat x \<in> payload C) \<longrightarrow> mem s' x = mem s x)"
    proof (cases bs rule: rev_cases)
      case Nil
      then have "head s = 0" using hb by (simp add: heap_blocks_def)
      then show ?thesis using s' segN m1 Nil by simp
    next
      case (snoc xs L)
      have "head s \<noteq> 0" using hb snoc by (cases xs) (auto simp: heap_blocks_def)
      moreover have "tail s = baddr L" using hb snoc by (simp add: heap_blocks_def)
      ultimately have s'2: "s' = t\<lparr>mem := st32 ?m1 (baddr L + 8) pa, tail := pa\<rparr>" using s' by simp
      have L: "blk_ok L" using old(1) snoc by simp
      have "seg (st32 ?m1 (baddr L + 8) pa) (head s) (xs @ [L, ?N]) 0"
        by (rule seg_append_block) (use segm1 segN old(1) okN sorted snoc in auto)
      moreover have "st32 ?m1 (baddr L + 8) pa x = mem s x"
        if "unat x \<in> frame_bytes s" "\<forall>C \<in> set bs. unat x \<notin> extent C \<or> unat x \<in> payload C" for x
      proof -
        have "unat x < unat (baddr L) \<or> unat (baddr L) + 16 \<le> unat x"
          using that(2) snoc by (auto simp: extent_def payload_def)
        from header_write_frame(3) [OF L this] m1 [OF that(1)] show ?thesis by simp
      qed
      ultimately show ?thesis using snoc fields by (simp add: s'2)
    qed
    note main = this
    have "heap_blocks s' (bs @ [?N])"
      unfolding heap_blocks_def using main sorted old(1,2) okN fb' by auto
    moreover have "mem s' x = mem s x" if "C \<in> set bs" "unat x \<in> payload C" for C x
    proof -
      have x: "unat x \<in> extent C" using that payload_extent by blast
      have "D = C" if "D \<in> set bs" "unat x \<in> extent D" for D
        using hb that \<open>C \<in> set bs\<close> x sorted_wrt_apart_unique [of bs D C "unat x"] by (simp add: heap_blocks_def)
      then show ?thesis using main old(2) [OF that(1)] x that by blast
    qed
    ultimately show ?thesis using pa gp(2,4) fresh main fb' s'(1)
      by (intro grown [of n]) auto
  qed
qed

section \<open>The operations on a well-formed heap\<close>

definition live :: "ablk list \<Rightarrow> ablk set" where
  "live bs = {B \<in> set bs. \<not> bfree B}"

lemma first_fit_spec:
  "seg m b bs 0 \<Longrightarrow> first_fit m sz b =
     Some (case find (\<lambda>B. bfree B \<and> sz \<le> bsize B) bs of None \<Rightarrow> 0 | Some B \<Rightarrow> baddr B)"
proof (induction bs arbitrary: b)
  case Nil
  then show ?case by (simp add: first_fit.simps)
next
  case (Cons B bs)
  then show ?case by (subst first_fit.simps) auto
qed

text \<open>
  The outcome of \<open>take_block\<close> that clients see: a new live block, holding at least the size asked
  for, zeroed, apart from every live block, whose bytes are unchanged.
\<close>

definition allocated :: "'a kheap_scheme \<Rightarrow> ablk list \<Rightarrow> u32 \<Rightarrow> u32 \<Rightarrow> 'a kheap_scheme \<Rightarrow> ablk list \<Rightarrow> ablk \<Rightarrow> bool" where
  "allocated s bs sz p s' bs' B \<longleftrightarrow>
     heap_blocks s' bs' \<and> p = baddr B + 16 \<and> p \<noteq> 0 \<and> \<not> bfree B \<and> unat sz \<le> unat (bsize B) \<and>
     live bs' = insert B (live bs) \<and> (\<forall>C \<in> live bs. apart B C) \<and>
     (\<forall>x. unat x \<in> payload B \<longrightarrow> mem s' x = 0) \<and>
     (\<forall>C \<in> live bs. \<forall>x. unat x \<in> payload C \<longrightarrow> mem s' x = mem s x) \<and>
     (\<forall>x. unat x \<in> frame_bytes s \<longrightarrow> (\<forall>C \<in> set bs. unat x \<notin> extent C) \<longrightarrow> mem s' x = mem s x) \<and>
     frame_bytes s \<subseteq> frame_bytes s' \<and> kheap.more s' = kheap.more s \<and>
     heap_area bs' \<inter> frame_bytes s \<subseteq> heap_area bs \<and> same_window s s' \<and>
     used_bytes s' = used_bytes s + bsize B"

lemma split_blks_cons:
  "\<exists>n1 T. (\<forall>f. split_blks b n sz f = Blk b n1 f # T) \<and> (\<forall>C \<in> set T. bfree C)"
  by (cases "unat n - unat sz < 32") (auto simp: split_blks_def)

lemma live_splice:
  assumes "\<And>f. split_blks b n sz f = Blk b n1 f # T" "\<And>C. C \<in> set T \<Longrightarrow> bfree C"
  shows "live (xs @ split_blks b n sz False @ ys) = insert (Blk b n1 False) (live (xs @ Blk b n True # ys))"
  using assms by (auto simp: live_def)

lemma take_block_allocated:
  assumes hb: "heap_blocks s (xs @ Blk b n True # ys)"
    and sz: "unat sz mod 8 = 0" "0 < unat sz" "unat sz \<le> unat n"
    and take: "take_block b sz s = (p, s')"
  shows "\<exists>bs' B. allocated s (xs @ Blk b n True # ys) sz p s' bs' B"
proof -
  let ?B = "Blk b n True" and ?bs = "xs @ Blk b n True # ys"
  note tb = take_block_spec [OF hb sz take]
  have ok: "blk_ok ?B" using hb by (auto simp: heap_blocks_def)
  obtain n1 T where cons: "\<And>f. split_blks b n sz f = Blk b n1 f # T" and T: "\<And>C. C \<in> set T \<Longrightarrow> bfree C"
    using split_blks_cons [of b n sz] by blast
  note so = split_blks_ok [OF ok sz(1,3), unfolded cons]
  have sz1: "unat sz \<le> unat n1" using so(5) by simp
  have ok1: "blk_ok (Blk b n1 True)" and ext: "extent (Blk b n1 True) \<subseteq> extent ?B" using so(1) by auto
  have p: "unat (b + 16) = unat b + 16" using unat_payload [OF ok1] sz1 sz(2) by simp
  have apart: "apart ?B C" if "C \<in> live ?bs" for C
    using that heap_blocks_middle [of s xs "[?B]" ys C ?B] hb by (auto simp: live_def)
  have keep: "mem s' x = mem s x" if "C \<in> live ?bs" "unat x \<in> payload C" for C x
    using apart [OF that(1)] that(2) payload_extent tb(3) by (auto simp: apart_def)
  have "allocated s ?bs sz p s' (xs @ split_blks b n sz False @ ys) (Blk b n1 False)"
    unfolding allocated_def
  proof (intro conjI)
    show "heap_blocks s' (xs @ split_blks b n sz False @ ys)" by (rule tb(2))
    show "p = baddr (Blk b n1 False) + 16" "p \<noteq> 0" using tb(1) p by auto
    show "live (xs @ split_blks b n sz False @ ys) = insert (Blk b n1 False) (live ?bs)"
      by (rule live_splice) (use cons T in auto)
    show "\<forall>C \<in> live ?bs. apart (Blk b n1 False) C"
      using apart ext by (auto simp: apart_def extent_def)
    show "\<forall>x. unat x \<in> payload (Blk b n1 False) \<longrightarrow> mem s' x = 0" using tb(4) by (simp add: cons)
    show "\<forall>C \<in> live ?bs. \<forall>x. unat x \<in> payload C \<longrightarrow> mem s' x = mem s x" using keep by blast
    show "\<forall>x. unat x \<in> frame_bytes s \<longrightarrow> (\<forall>C \<in> set ?bs. unat x \<notin> extent C) \<longrightarrow> mem s' x = mem s x"
      using tb(3) by simp
    show "frame_bytes s \<subseteq> frame_bytes s'" using tb(5) by simp
    show "kheap.more s' = kheap.more s" by (subst tb(6)) simp
    show "heap_area (xs @ split_blks b n sz False @ ys) \<inter> frame_bytes s \<subseteq> heap_area ?bs"
    proof -
      have "extent C \<subseteq> extent ?B" if "C \<in> set (Blk b n1 False # T)" for C
        using so(1) [of "Blk b n1 True"] so(1) [of C] that by (cases "C \<in> set T") (simp_all add: extent_def)
      then have "heap_area (Blk b n1 False # T) \<subseteq> extent ?B" unfolding heap_area_def by blast
      then show ?thesis by (auto simp: cons)
    qed
    show "same_window s s'" by (subst tb(6)) (simp add: same_window_def)
    show "used_bytes s' = used_bytes s + bsize (Blk b n1 False)" using tb(7) by (simp add: cons)
  qed (use sz1 in simp_all)
  then show ?thesis by blast
qed

lemma allocated_weaken:
  assumes "allocated s bs z p s' bs' B" "unat sz \<le> unat z"
  shows "allocated s bs sz p s' bs' B"
proof -
  have "unat z \<le> unat (bsize B)" using assms(1) by (simp add: allocated_def)
  then have "unat sz \<le> unat (bsize B)" using assms(2) by simp
  then show ?thesis using assms(1) unfolding allocated_def by blast
qed

lemma kmalloc_spec:
  assumes hb: "heap_blocks s bs" and sz: "unat sz \<le> 0xFFFFEFF0"
  shows "kmalloc sz s = Some (0, s) \<or>
    (\<exists>p s' bs' B. kmalloc sz s = Some (p, s') \<and> allocated s bs sz p s' bs' B)"
proof -
  define z where "z = ALIGN8 (if sz = 0 then 8 else sz)"
  have le: "unat (if sz = 0 then 8 else sz) \<le> 0xFFFFEFF0" using sz by simp
  have z: "unat z mod 8 = 0" "unat sz \<le> unat z" "0 < unat z" "unat z \<le> 0xFFFFEFF0"
  proof -
    note al = ALIGN8_facts [of "if sz = 0 then 8 else sz", folded z_def]
    show "unat z mod 8 = 0" using al le by simp
    have "0 < unat (if sz = 0 then 8 else sz)" by (simp add: unat_gt_0)
    then show "0 < unat z" using al(2) le by linarith
    show "unat sz \<le> unat z" using al(2) le by (cases "sz = 0") simp_all
    show "unat z \<le> 0xFFFFEFF0"
      using unat_ALIGN8 [of "if sz = 0 then 8 else sz", folded z_def] le by (auto split: if_splits)
  qed
  have weaken: "\<exists>bs' B. allocated s bs sz p s' bs' B" if "\<exists>bs' B. allocated s bs z p s' bs' B" for p s'
    using that z(2) allocated_weaken by blast
  have seg: "seg (mem s) (head s) bs 0" using hb by (simp add: heap_blocks_def)
  show ?thesis
  proof (cases "find (\<lambda>B. bfree B \<and> z \<le> bsize B) bs")
    case (Some B)
    then have B: "bfree B" "z \<le> bsize B" "B \<in> set bs" by (auto simp: find_Some_iff)
    then obtain xs ys where bs: "bs = xs @ B # ys" by (auto dest: split_list)
    obtain b n where Bn: "B = Blk b n True" using B(1) by (cases B) auto
    have b: "b \<noteq> 0" using seg bs Bn by (auto simp: seg_append)
    obtain p s' where tb: "take_block b z s = (p, s')" by fastforce
    have "kmalloc sz s = Some (p, s')"
      using first_fit_spec [OF seg, of z] Some b tb
      by (simp add: kmalloc_def z_def [symmetric] Bn del: z_def)
    moreover have "\<exists>bs' B. allocated s bs z p s' bs' B"
      using take_block_allocated [OF _ z(1,3) _ tb] hb bs Bn B(2) by (simp add: word_le_nat_alt)
    ultimately show ?thesis using weaken by blast
  next
    case None
    then have ff: "first_fit (mem s) z (head s) = Some 0" using first_fit_spec [OF seg, of z] by simp
    obtain b t where g: "grow z s = (b, t)" by fastforce
    from hb z(1,4) g show ?thesis
    proof (cases rule: grow_cases)
      case oom
      then show ?thesis using ff g by (simp add: kmalloc_def z_def [symmetric] del: z_def)
    next
      case (grown n)
      obtain p s' where tb: "take_block b z t = (p, s')" by fastforce
      have k: "kmalloc sz s = Some (p, s')"
        using ff g grown(1) tb by (simp add: kmalloc_def z_def [symmetric] del: z_def)
      obtain bs' B where a: "allocated t (bs @ [Blk b n True]) z p s' bs' B"
        using take_block_allocated [of t bs b n "[]" z p s'] grown(2,3) z(1,3) tb by auto
      have lv: "live (bs @ [Blk b n True]) = live bs" by (auto simp: live_def)
      have area: "heap_area bs' \<inter> frame_bytes s \<subseteq> heap_area bs" "same_window s s'"
        using a grown(5,6,10) by (auto simp: allocated_def same_window_def)
      have "allocated s bs z p s' bs' B"
        using a grown area unfolding allocated_def lv by (auto simp: live_def)
      then show ?thesis using k weaken by blast
    qed
  qed
qed

lemma heap_blocks_mark_free:
  assumes hb: "heap_blocks s (xs @ Blk b n f # ys)"
  shows "heap_blocks (s\<lparr>mem := st32 (mem s) (b + 4) 1, used_bytes := u\<rparr>) (xs @ Blk b n True # ys)"
proof -
  let ?B = "Blk b n f"
  have ok: "blk_ok ?B" and inv: "pmm_inv s" using hb by (auto simp: heap_blocks_def)
  have here: "seg (mem s) b [?B] (ld32 (mem s) (b + 8))" using hb by (auto simp: heap_blocks_def seg_append)
  have seg: "seg (st32 (mem s) (b + 4) 1) b [Blk b n True] (ld32 (mem s) (b + 8))"
    using seg_set_free [of ?B "mem s" "[]" _ 1] ok here by simp
  have "heap_blocks (s\<lparr>mem := st32 (mem s) (b + 4) 1, used_bytes := u\<rparr>) (xs @ [Blk b n True] @ ys)"
  proof (rule heap_blocks_splice [of s xs "[?B]" ys "ld32 (mem s) (b + 8)"])
    fix x :: u32
    assume "\<And>A. A \<in> set [?B] \<Longrightarrow> unat x \<notin> extent A"
    then have "unat x \<notin> extent ?B" by simp
    then have "unat x < unat b \<or> unat b + 16 \<le> unat x" by (auto simp: extent_def)
    then show "mem (s\<lparr>mem := st32 (mem s) (b + 4) 1, used_bytes := u\<rparr>) x = mem s x"
      using header_write_frame(2) [OF ok] by simp
  qed (use hb here seg ok inv in \<open>auto simp: blk_ok_def extent_def heap_blocks_def\<close>)
  then show ?thesis by simp
qed

lemma coalesced_size:
  assumes hb: "heap_blocks s (xs @ [Blk b n True, Blk c k True] @ ys)" and adj: "c = b + 16 + n"
  shows "unat c = unat b + 16 + unat n" "unat (n + (16 + k)) = unat n + 16 + unat k"
proof -
  have ok: "blk_ok (Blk b n True)" "blk_ok (Blk c k True)" and c: "c \<noteq> 0"
    using hb by (auto simp: heap_blocks_def seg_append)
  then have lim: "unat b + 16 + unat n \<le> 4294967296" "unat c + 16 + unat k \<le> 4294967296"
    by (auto simp: blk_ok_def)
  have "unat c \<noteq> 0" using c by (simp add: unat_eq_zero)
  moreover have "unat c = (unat b + 16 + unat n) mod 4294967296"
    unfolding adj by (simp add: unat_word_ariths mod_simps)
  ultimately show uc: "unat c = unat b + 16 + unat n"
    using lim(1) by (cases "unat b + 16 + unat n = 4294967296") auto
  have "unat (16 + k) = 16 + unat k" using uc lim(2) by (subst unat_add32) auto
  then show "unat (n + (16 + k)) = unat n + 16 + unat k" using uc lim(2) by (subst unat_add32) auto
qed

lemma coalesced_extent:
  assumes "heap_blocks s (xs @ [Blk b n True, Blk c k True] @ ys)" "c = b + 16 + n"
  shows "extent (Blk b (n + (16 + k)) True) = extent (Blk b n True) \<union> extent (Blk c k True)"
  using coalesced_size [OF assms] by (auto simp: extent_def)

lemma heap_blocks_coalesce:
  assumes hb: "heap_blocks s (xs @ [Blk b n True, Blk c k True] @ ys)" and adj: "c = b + 16 + n"
  defines "m \<equiv> st32 (st32 (mem s) b (n + (16 + k))) (b + 8) (ld32 (mem s) (c + 8))"
  shows "heap_blocks (s\<lparr>mem := m, tail := (if tail s = c then b else tail s)\<rparr>)
           (xs @ [Blk b (n + (16 + k)) True] @ ys)"
proof -
  let ?B = "Blk b n True" and ?N = "Blk c k True" and ?M = "Blk b (n + (16 + k)) True"
  let ?s = "s\<lparr>mem := m, tail := (if tail s = c then b else tail s)\<rparr>"
  have ok: "blk_ok ?B" "blk_ok ?N" and inv: "pmm_inv s" and BN: "apart ?B ?N"
    using hb by (auto simp: heap_blocks_def sorted_wrt_append)
  have here: "seg (mem s) b [?B, ?N] (ld32 (mem s) (c + 8))" using hb by (auto simp: heap_blocks_def seg_append)
  have lim: "unat b + 16 + unat n \<le> 4294967296" "unat c + 16 + unat k \<le> 4294967296"
    and al: "unat b mod 8 = 0" "unat n mod 8 = 0" "unat k mod 8 = 0"
    using ok by (auto simp: blk_ok_def)
  note uc = coalesced_size(1) [OF hb adj] and un = coalesced_size(2) [OF hb adj]
  have okM: "blk_ok ?M" using un uc lim(2) al by (simp add: blk_ok_def mod_eq_0_iff_dvd)
  have off: "unat b mod 4 = 0" "unat (b + 4) mod 4 = 0" "unat (b + 8) mod 4 = 0"
    using blk_ok_offsets(4-6) [OF ok(1)] by simp_all
  have ne: "b + 8 \<noteq> b" "b + 8 \<noteq> b + 4" "b \<noteq> b + 4" by simp_all
  have "ld32 m b = n + (16 + k)" "ld32 m (b + 4) = ld32 (mem s) (b + 4)" "ld32 m (b + 8) = ld32 (mem s) (c + 8)"
    unfolding m_def by (simp_all only: ld32_st32_same ld32_st32_other off ne not_False_eq_True)
  then have seg: "seg m b [?M] (ld32 (mem s) (c + 8))" using here by simp
  have "heap_blocks ?s (xs @ [?M] @ ys)"
  proof (rule heap_blocks_splice [of s xs "[?B, ?N]" ys "ld32 (mem s) (c + 8)"])
    fix x :: u32
    assume "\<And>A. A \<in> set [?B, ?N] \<Longrightarrow> unat x \<notin> extent A"
    then have "unat x \<notin> extent ?B" by simp
    then have "unat x < unat b \<or> unat b + 16 \<le> unat x" by (auto simp: extent_def)
    then show "mem ?s x = mem s x"
      using header_write_frame [OF ok(1)] by (simp add: m_def)
  next
    show "tail ?s = (if ys = [] then baddr (last [?M]) else tail s)"
    proof (cases "ys = []")
      case True
      then show ?thesis using hb by (simp add: heap_blocks_def)
    next
      case False
      then have "tail s = baddr (last ys)" "apart ?N (last ys)"
        using hb heap_blocks_middle [of s xs "[?B, ?N]" ys "last ys" ?N] by (auto simp: heap_blocks_def)
      then have "tail s \<noteq> c" by (auto simp: apart_def extent_def)
      then show ?thesis using False by simp
    qed
    show "blk_ok C \<and> extent C \<subseteq> \<Union> (extent ` set [?B, ?N])" if "C \<in> set [?M]" for C
      using that okM un uc by (auto simp: extent_def)
  qed (use hb here seg inv in \<open>auto simp: heap_blocks_def\<close>)
  then show ?thesis by simp
qed

text \<open>
  What \<open>kfree\<close> of a live block leaves: the block is no longer live, every other block is, and no
  byte outside the freed block's header has changed.
\<close>

definition freed :: "'a kheap_scheme \<Rightarrow> ablk list \<Rightarrow> ablk \<Rightarrow> 'a kheap_scheme \<Rightarrow> ablk list \<Rightarrow> bool" where
  "freed s bs B s' bs' \<longleftrightarrow>
     heap_blocks s' bs' \<and> live bs' = live bs - {B} \<and>
     (\<forall>x. unat x < unat (baddr B) \<or> unat (baddr B) + 16 \<le> unat x \<longrightarrow> mem s' x = mem s x) \<and>
     frame_bytes s' = frame_bytes s \<and> kheap.more s' = kheap.more s \<and>
     heap_area bs' \<subseteq> heap_area bs \<and> same_window s s' \<and>
     used_bytes s' = (if used_bytes s \<ge> bsize B then used_bytes s - bsize B else used_bytes s)"

lemma heap_blocks_distinct: "heap_blocks s (xs @ B # ys) \<Longrightarrow> B \<notin> set xs \<union> set ys"
  using heap_blocks_middle [of s xs "[B]" ys B B] by (auto simp: apart_def extent_def)

lemma kfree_spec:
  assumes hb: "heap_blocks s bs" and B: "B \<in> live bs" and p: "p = baddr B + 16" "p \<noteq> 0"
  shows "\<exists>bs'. freed s bs B (kfree p s) bs'"
proof -
  obtain b n where Bn: "B = Blk b n False" using B by (cases B) (auto simp: live_def)
  obtain xs ys where bs: "bs = xs @ B # ys" using B by (auto simp: live_def dest: split_list)
  have ok: "blk_ok B" and inv: "pmm_inv s" using hb bs by (auto simp: heap_blocks_def)
  define s1 where "s1 = s\<lparr>mem := st32 (mem s) (b + 4) 1,
    used_bytes := (if used_bytes s \<ge> n then used_bytes s - n else used_bytes s)\<rparr>"
  have hb1: "heap_blocks s1 (xs @ Blk b n True # ys)"
    unfolding s1_def by (rule heap_blocks_mark_free) (use hb bs Bn in simp)
  have h1: "ld32 (mem s1) b = n" using hb1 by (auto simp: heap_blocks_def seg_append)
  define c where "c = ld32 (mem s1) (b + 8)"
  let ?join = "c \<noteq> 0 \<and> ld32 (mem s1) (c + 4) \<noteq> 0 \<and> c = b + 16 + n"
  have b: "p - 16 = b" using p Bn by simp
  have m1: "mem s1 = st32 (mem s) (b + 4) 1" by (simp add: s1_def)
  have kf: "kfree p s = (if ?join then s1\<lparr>mem := st32 (st32 (mem s1) b (n + (16 + ld32 (mem s1) c))) (b + 8)
       (ld32 (st32 (mem s1) b (n + (16 + ld32 (mem s1) c))) (c + 8)), tail := (if tail s1 = c then b else tail s1)\<rparr> else s1)"
  proof -
    have used: "(if used_bytes t \<ge> blk_size t b then t\<lparr>used_bytes := used_bytes t - blk_size t b\<rparr> else t) = s1"
      if "t = set_free b 1 s" for t
      using h1 by (simp add: that blk_defs s1_def)
    have rd: "blk_size s1 b = n" "blk_next s1 b = c" "blk_size s1 c = ld32 (mem s1) c"
      "blk_free s1 c = ld32 (mem s1) (c + 4)"
      by (simp_all add: blk_defs h1 c_def)
    have "kfree p s = (if ?join
      then (let t = set_size b (n + (16 + ld32 (mem s1) c)) s1; t = set_next b (blk_next t c) t
            in if tail t = c then t\<lparr>tail := b\<rparr> else t) else s1)"
      unfolding kfree_def ALIGN8_HDR b Let_def used [OF refl] rd using p(2) by (simp only: if_False)
    moreover have "(let t = set_size b v s1; t = set_next b (blk_next t c) t in if tail t = c then t\<lparr>tail := b\<rparr> else t) =
      s1\<lparr>mem := st32 (st32 (mem s1) b v) (b + 8) (ld32 (st32 (mem s1) b v) (c + 8)),
         tail := (if tail s1 = c then b else tail s1)\<rparr>" for v
      by (simp add: blk_defs Let_def)
    ultimately show ?thesis by (simp only:)
  qed
  have keep1: "mem s1 x = mem s x" if "unat x < unat b \<or> unat b + 16 \<le> unat x" for x
    using header_write_frame(2) [OF ok] that Bn by (simp add: m1)
  have lv: "live (xs @ Blk b n True # ys) = live bs - {B}"
    using heap_blocks_distinct [of s xs B ys] hb bs Bn by (auto simp: live_def)
  have fields: "frame_bytes s1 = frame_bytes s" "kheap.more s1 = kheap.more s"
    "used_bytes s1 = (if used_bytes s \<ge> n then used_bytes s - n else used_bytes s)" "same_window s s1"
    by (simp_all add: s1_def same_window_def)
  have ext: "extent (Blk b n True) = extent B" by (simp add: extent_def Bn)
  show ?thesis
  proof (cases ?join)
    case False
    then have "freed s bs B (kfree p s) (xs @ Blk b n True # ys)"
      using hb1 lv keep1 fields ext Bn bs by (auto simp: freed_def kf same_window_def)
    then show ?thesis by blast
  next
    case True
    have "seg (mem s1) c ys 0" using hb1 c_def by (auto simp: heap_blocks_def seg_append)
    then obtain k zs where ys: "ys = Blk c k True # zs" and k: "ld32 (mem s1) c = k"
      using True by (cases ys; cases "hd ys") auto
    have hb2: "heap_blocks s1 (xs @ [Blk b n True, Blk c k True] @ zs)" using hb1 ys by simp
    have okc: "blk_ok (Blk c k True)" and ap: "apart (Blk b n True) (Blk c k True)"
      using hb2 by (auto simp: heap_blocks_def sorted_wrt_append)
    have "b \<noteq> c + 8"
    proof
      assume "b = c + 8"
      then have "unat b = unat c + 8" using blk_ok_offsets(2) [OF okc] by simp
      then show False using ap by (auto simp: apart_def extent_def)
    qed
    moreover have "unat b mod 4 = 0" "unat (c + 8) mod 4 = 0"
      using blk_ok_offsets(4) [OF ok] blk_ok_offsets(6) [OF okc] Bn by simp_all
    ultimately have rd: "ld32 (st32 (mem s1) b v) (c + 8) = ld32 (mem s1) (c + 8)" for v
      by (simp add: ld32_st32_other)
    have kf2: "kfree p s = s1\<lparr>mem := st32 (st32 (mem s1) b (n + (16 + k))) (b + 8) (ld32 (mem s1) (c + 8)),
        tail := (if tail s1 = c then b else tail s1)\<rparr>"
      unfolding kf if_P [OF True] k rd by (rule refl)
    have hb3: "heap_blocks (kfree p s) (xs @ [Blk b (n + (16 + k)) True] @ zs)"
      unfolding kf2 by (rule heap_blocks_coalesce [OF hb2]) (use True in blast)
    have "live (xs @ [Blk b (n + (16 + k)) True] @ zs) = live (xs @ Blk b n True # ys)"
      by (auto simp: live_def ys)
    moreover have "mem (kfree p s) x = mem s x" if "unat x < unat b \<or> unat b + 16 \<le> unat x" for x
      using keep1 [OF that] header_write_frame [OF ok, of x] that Bn by (simp add: kf2)
    moreover have "heap_area (xs @ [Blk b (n + (16 + k)) True] @ zs) \<subseteq> heap_area bs"
      using coalesced_extent [OF hb2] True ext by (auto simp: bs ys k)
    ultimately have "freed s bs B (kfree p s) (xs @ [Blk b (n + (16 + k)) True] @ zs)"
      using hb3 lv fields Bn by (simp add: freed_def kf2 same_window_def)
    then show ?thesis by blast
  qed
qed

text \<open>Writes that stay out of every header keep the heap; clients write to their payloads freely.\<close>

lemma heap_blocks_write:
  assumes "heap_blocks s bs"
    and "\<And>C x. C \<in> set bs \<Longrightarrow> unat (baddr C) \<le> unat x \<Longrightarrow> unat x < unat (baddr C) + 12 \<Longrightarrow> m x = mem s x"
  shows "heap_blocks (s\<lparr>mem := m\<rparr>) bs"
proof -
  have "seg m (head s) bs 0 = seg (mem s) (head s) bs 0"
    by (rule seg_frame) (use assms in \<open>auto simp: heap_blocks_def\<close>)
  then show ?thesis using assms(1) by (simp add: heap_blocks_def)
qed

lemma payload_not_header:
  assumes "heap_blocks s bs" "B \<in> set bs" "C \<in> set bs" "unat x \<in> payload B" "unat (baddr C) \<le> unat x"
  shows "unat (baddr C) + 16 \<le> unat x"
proof (rule ccontr)
  assume "\<not> unat (baddr C) + 16 \<le> unat x"
  then have "unat x \<in> extent C" using assms(5) by (intro extent_header) simp_all
  moreover have "unat x \<in> extent B" using assms(4) payload_extent by blast
  ultimately have "B = C"
    using sorted_wrt_apart_unique [of bs B C "unat x"] assms(1-3) by (simp add: heap_blocks_def)
  then show False using assms(4) \<open>\<not> unat (baddr C) + 16 \<le> unat x\<close> by (simp add: payload_def)
qed

lemma live_unique:
  assumes "heap_blocks s bs" "B \<in> live bs" "C \<in> live bs" "x \<in> extent B" "x \<in> extent C"
  shows "B = C"
  using assms sorted_wrt_apart_unique [of bs B C x] by (simp add: heap_blocks_def live_def)

text \<open>
  What \<open>krealloc\<close> to a larger size leaves: the old block is gone, a new block holds the old bytes,
  and every other live block is untouched.
\<close>

definition moved :: "'a kheap_scheme \<Rightarrow> ablk list \<Rightarrow> ablk \<Rightarrow> u32 \<Rightarrow> u32 \<Rightarrow> 'a kheap_scheme \<Rightarrow> ablk list \<Rightarrow> ablk \<Rightarrow> bool" where
  "moved s bs B newsize p s' bs' N \<longleftrightarrow>
     heap_blocks s' bs' \<and> p = baddr N + 16 \<and> p \<noteq> 0 \<and> unat newsize \<le> unat (bsize N) \<and>
     unat (bsize B) \<le> unat (bsize N) \<and>
     live bs' = insert N (live bs) - {B} \<and> (\<forall>C \<in> live bs. apart N C) \<and>
     (\<forall>i < unat (bsize B). mem s' (p + of_nat i) = mem s (baddr B + 16 + of_nat i)) \<and>
     (\<forall>C \<in> live bs - {B}. \<forall>x. unat x \<in> payload C \<longrightarrow> mem s' x = mem s x) \<and>
     (\<forall>x. unat x \<in> frame_bytes s - heap_area bs \<longrightarrow> mem s' x = mem s x) \<and>
     frame_bytes s \<subseteq> frame_bytes s' \<and> heap_area bs' \<inter> frame_bytes s \<subseteq> heap_area bs \<and> same_window s s' \<and>
     kheap.more s' = kheap.more s \<and>
     used_bytes s' = (if used_bytes s + bsize N \<ge> bsize B then used_bytes s + bsize N - bsize B
                      else used_bytes s + bsize N)"

lemma aligned_size_le:
  assumes "\<not> ALIGN8 newsize \<le> n" "unat newsize \<le> 0xFFFFEFF0" "unat newsize \<le> N" "N mod 8 = 0"
  shows "unat n \<le> N"
proof -
  have "unat n < unat (ALIGN8 newsize)" using assms(1) by (simp add: word_le_nat_alt)
  moreover have "unat (ALIGN8 newsize) = 8 * ((unat newsize + 7) div 8)"
    by (rule unat_ALIGN8) (use assms(2) in simp)
  moreover have "8 * ((unat newsize + 7) div 8) \<le> N"
  proof -
    have "(unat newsize + 7) div 8 \<le> (N + 7) div 8" using assms(3) by (intro div_le_mono) simp
    also have "\<dots> = N div 8" using aligned_add_div_mod(1) [OF assms(4), of 7] by simp
    finally show ?thesis using assms(4) mult_div_mod_eq [of 8 N] by linarith
  qed
  ultimately show ?thesis by linarith
qed

lemma krealloc_spec:
  assumes hb: "heap_blocks s bs" and B: "B \<in> live bs" and ptr: "ptr = baddr B + 16" "ptr \<noteq> 0"
    and sz: "unat newsize \<le> 0xFFFFEFF0"
  shows "(ALIGN8 newsize \<le> bsize B \<and> krealloc ptr newsize s = Some (ptr, s)) \<or>
    (\<not> ALIGN8 newsize \<le> bsize B \<and> (krealloc ptr newsize s = Some (0, s) \<or>
      (\<exists>p s' bs' N. krealloc ptr newsize s = Some (p, s') \<and> moved s bs B newsize p s' bs' N)))"
proof -
  have old: "blk_size s (ptr - ALIGN8 HDR) = bsize B"
  proof -
    obtain xs ys where "bs = xs @ B # ys" using B by (auto simp: live_def dest: split_list)
    then have "ld32 (mem s) (baddr B) = bsize B" using hb by (auto simp: heap_blocks_def seg_append)
    then show ?thesis by (simp add: blk_size_def ptr)
  qed
  show ?thesis
  proof (cases "ALIGN8 newsize \<le> bsize B")
    case True
    then show ?thesis using ptr(2) old by (simp add: krealloc_def Let_def del: ALIGN8_HDR)
  next
    case False
    from kmalloc_spec [OF hb sz] show ?thesis
    proof (elim disjE exE conjE)
      assume "kmalloc newsize s = Some (0, s)"
      then show ?thesis using False ptr(2) old by (simp add: krealloc_def Let_def del: ALIGN8_HDR)
    next
      fix p t bs1 N
      assume k: "kmalloc newsize s = Some (p, t)" and a: "allocated s bs newsize p t bs1 N"
      define m where "m = memcpy (mem t) p ptr (unat (bsize B))"
      have hb1: "heap_blocks t bs1" and lv1: "live bs1 = insert N (live bs)" and p: "p = baddr N + 16" "p \<noteq> 0"
        and Nz: "unat newsize \<le> unat (bsize N)" and NC: "\<And>C. C \<in> live bs \<Longrightarrow> apart N C"
        and keep: "\<And>C x. C \<in> live bs \<Longrightarrow> unat x \<in> payload C \<Longrightarrow> mem t x = mem s x"
        and more: "kheap.more t = kheap.more s"
        using a by (auto simp: allocated_def)
      have N: "N \<in> live bs1" "B \<in> live bs1" using lv1 B by auto
      have okN: "blk_ok N" and okB: "blk_ok B" using hb1 N by (auto simp: heap_blocks_def live_def)
      have le: "unat (bsize B) \<le> unat (bsize N)"
        by (rule aligned_size_le [OF False sz Nz]) (use okN in \<open>simp add: blk_ok_def\<close>)
      have up: "unat p = unat (baddr N) + 16"
        using blk_ok_offsets(3) [OF okN] p okN by (cases "unat (baddr N) + 16 = 4294967296") (auto simp: blk_ok_def unat_eq_zero)
      have uq: "unat ptr = unat (baddr B) + 16"
        using blk_ok_offsets(3) [OF okB] ptr okB by (cases "unat (baddr B) + 16 = 4294967296") (auto simp: blk_ok_def unat_eq_zero)
      have lim: "unat p + unat (bsize B) \<le> 4294967296" "unat ptr + unat (bsize B) \<le> 4294967296"
        using okN okB up uq le by (auto simp: blk_ok_def)
      have ui: "unat (ptr + of_nat i) = unat ptr + i" "unat (p + of_nat i) = unat p + i" if "i < unat (bsize B)" for i
        using lim that by (simp_all add: unat_add32 unat_of_nat32)
      have srcB: "unat (ptr + of_nat i) \<in> payload B" if "i < unat (bsize B)" for i
        using ui [OF that] that uq by (simp add: payload_def)
      have cp: "m x = (if inrange x p (unat (bsize B)) then mem t (ptr + (x - p)) else mem t x)" for x
        unfolding m_def
      proof (rule memcpy_disjoint)
        fix i assume i: "i < unat (bsize B)"
        have "unat (ptr + of_nat i) \<notin> extent N"
          using srcB [OF i] NC [OF B] payload_extent by (auto simp: apart_def)
        then show "\<not> inrange (ptr + of_nat i) p (unat (bsize B))"
          unfolding inrange_nowrap [OF lim(1)] using up le by (auto simp: extent_def)
      qed (use unat_bound32 [of "bsize B"] in linarith)
      have inN: "unat x \<in> payload N" if "inrange x p (unat (bsize B))" for x
        using that le up unfolding inrange_nowrap [OF lim(1)] by (simp add: payload_def)
      have hb2: "heap_blocks (t\<lparr>mem := m\<rparr>) bs1"
      proof (rule heap_blocks_write [OF hb1])
        fix C and x :: u32
        assume C: "C \<in> set bs1" "unat (baddr C) \<le> unat x" "unat x < unat (baddr C) + 12"
        have "\<not> inrange x p (unat (bsize B))"
          using payload_not_header [OF hb1 _ C(1) _ C(2), of N] inN N(1) C(3) by (auto simp: live_def)
        then show "m x = mem t x" by (simp add: cp)
      qed
      obtain bs2 where f: "freed (t\<lparr>mem := m\<rparr>) bs1 B (kfree ptr (t\<lparr>mem := m\<rparr>)) bs2"
        using kfree_spec [OF hb2 N(2) ptr] by blast
      let ?s' = "kfree ptr (t\<lparr>mem := m\<rparr>)"
      have kr: "krealloc ptr newsize s = Some (p, ?s')"
        using False ptr(2) old k p(2) by (simp add: krealloc_def Let_def m_def del: ALIGN8_HDR)
      have out: "mem ?s' x = m x" if "unat x \<in> payload C" "C \<in> set bs1" for x C
      proof -
        have "unat x < unat (baddr B) \<or> unat (baddr B) + 16 \<le> unat x"
          using payload_not_header [OF hb1 that(2) _ that(1), of B] N(2) by (simp add: live_def) linarith
        then show ?thesis using f by (auto simp: freed_def)
      qed
      have "moved s bs B newsize p ?s' bs2 N"
        unfolding moved_def
      proof (intro conjI)
        show "heap_blocks ?s' bs2" "live bs2 = insert N (live bs) - {B}" using f lv1 by (auto simp: freed_def)
        show "\<forall>i < unat (bsize B). mem ?s' (p + of_nat i) = mem s (baddr B + 16 + of_nat i)"
        proof (intro allI impI)
          fix i assume i: "i < unat (bsize B)"
          have "inrange (p + of_nat i) p (unat (bsize B))"
            unfolding inrange_nowrap [OF lim(1)] using ui(2) [OF i] i by simp
          then have "mem ?s' (p + of_nat i) = mem t (ptr + of_nat i)"
            using out [OF inN] N(1) by (simp add: cp live_def)
          then show "mem ?s' (p + of_nat i) = mem s (baddr B + 16 + of_nat i)"
            using keep [OF B srcB [OF i]] ptr(1) by simp
        qed
        show "\<forall>C \<in> live bs - {B}. \<forall>x. unat x \<in> payload C \<longrightarrow> mem ?s' x = mem s x"
        proof (intro ballI allI impI)
          fix C and x :: u32 assume C: "C \<in> live bs - {B}" "unat x \<in> payload C"
          then have "\<not> inrange x p (unat (bsize B))"
            using inN [of x] NC [of C] payload_extent by (auto simp: apart_def)
          then have "m x = mem t x" by (simp add: cp)
          then show "mem ?s' x = mem s x" using out [OF C(2)] keep [OF _ C(2)] C(1) lv1 by (auto simp: live_def)
        qed
        show "\<forall>x. unat x \<in> frame_bytes s - heap_area bs \<longrightarrow> mem ?s' x = mem s x"
        proof (intro allI impI)
          fix x :: u32 assume x: "unat x \<in> frame_bytes s - heap_area bs"
          have ar: "unat x \<notin> heap_area bs1" using a x by (auto simp: allocated_def)
          then have "unat x \<notin> extent N" "unat x \<notin> extent B" using N by (auto simp: heap_area_def live_def)
          then have "\<not> inrange x p (unat (bsize B))" "unat x < unat (baddr B) \<or> unat (baddr B) + 16 \<le> unat x"
            using inN [of x] payload_extent [of N] by (blast, auto simp: extent_def)
          then have "mem ?s' x = mem t x" using f by (auto simp: freed_def cp)
          then show "mem ?s' x = mem s x" using a x by (auto simp: allocated_def heap_area_def)
        qed
        show "frame_bytes s \<subseteq> frame_bytes ?s'" "heap_area bs2 \<inter> frame_bytes s \<subseteq> heap_area bs" "same_window s ?s'"
          using f a by (auto simp: freed_def allocated_def same_window_def)
        show "kheap.more ?s' = kheap.more s" using f more by (simp add: freed_def)
        show "used_bytes ?s' = (if used_bytes s + bsize N \<ge> bsize B then used_bytes s + bsize N - bsize B
                      else used_bytes s + bsize N)"
          using f a by (simp add: freed_def allocated_def)
      qed (use p Nz le NC in simp_all)
      then show ?thesis using kr False by blast
    qed
  qed
qed

section \<open>Contract and histories of the heap\<close>

definition live_ptrs :: "'a kheap_scheme \<Rightarrow> u32 set" where
  "live_ptrs s = {p. p \<noteq> 0 \<and> (\<exists>bs B. heap_blocks s bs \<and> B \<in> live bs \<and> p = baddr B + 16)}"

lemma heap_blocks_unique: "heap_blocks s bs \<Longrightarrow> heap_blocks s cs \<Longrightarrow> bs = cs"
  using seg_unique by (auto simp: heap_blocks_def)

lemma live_ptrs_eq: "heap_blocks s bs \<Longrightarrow> live_ptrs s = {p. p \<noteq> 0 \<and> (\<exists>B \<in> live bs. p = baddr B + 16)}"
  using heap_blocks_unique by (auto simp: live_ptrs_def)

lemma live_same_addr:
  assumes "heap_blocks s bs" "B \<in> live bs" "C \<in> live bs" "baddr B = baddr C"
  shows "B = C"
  using live_unique [OF assms(1-3), of "unat (baddr B)"] assms(4) by (simp add: extent_def)

lemma live_ptrs_allocated:
  assumes "heap_blocks s bs" "allocated s bs n p s' bs' B"
  shows "kheap_inv s' \<and> p \<notin> live_ptrs s \<and> live_ptrs s' = insert p (live_ptrs s)"
proof -
  have a: "heap_blocks s' bs'" "live bs' = insert B (live bs)" "p = baddr B + 16" "p \<noteq> 0" "\<And>C. C \<in> live bs \<Longrightarrow> apart B C"
    using assms(2) by (auto simp: allocated_def)
  have "baddr B \<noteq> baddr C" if "C \<in> live bs" for C
    using a(5) [OF that] by (auto simp: apart_def extent_def)
  then have "p \<notin> live_ptrs s" unfolding live_ptrs_eq [OF assms(1)] a(3) by fastforce
  moreover have "live_ptrs s' = insert p (live_ptrs s)"
    using a(4) unfolding live_ptrs_eq [OF assms(1)] live_ptrs_eq [OF a(1)] a(2,3) by auto
  ultimately show ?thesis using a(1) by (auto simp: kheap_inv_def)
qed

lemma live_ptrs_freed:
  assumes "heap_blocks s bs" "B \<in> live bs" "freed s bs B s' bs'"
  shows "kheap_inv s' \<and> live_ptrs s' = live_ptrs s - {baddr B + 16}"
proof -
  have f: "heap_blocks s' bs'" "live bs' = live bs - {B}" using assms(3) by (auto simp: freed_def)
  have "baddr C \<noteq> baddr B" if "C \<in> live bs - {B}" for C
    using live_same_addr [OF assms(1,2), of C] that by auto
  then have "live_ptrs s' = live_ptrs s - {baddr B + 16}"
    unfolding live_ptrs_eq [OF assms(1)] live_ptrs_eq [OF f(1)] f(2) by fastforce
  then show ?thesis using f(1) by (auto simp: kheap_inv_def)
qed

text \<open>What the filesystem and the process code rely on of the heap.\<close>

locale object_heap =
  fixes inv :: "'s \<Rightarrow> bool"
    and objs :: "'s \<Rightarrow> u32 set"
    and alloc :: "u32 \<Rightarrow> 's \<Rightarrow> (u32 \<times> 's) option"
    and release :: "u32 \<Rightarrow> 's \<Rightarrow> 's"
    and fits :: "u32 \<Rightarrow> bool"
  assumes objs_nonnull: "p \<in> objs s \<Longrightarrow> p \<noteq> 0"
    and alloc_returns: "inv s \<Longrightarrow> fits n \<Longrightarrow> alloc n s \<noteq> None"
    and alloc_oom: "inv s \<Longrightarrow> fits n \<Longrightarrow> alloc n s = Some (0, s') \<Longrightarrow> s' = s"
    and alloc_fresh: "inv s \<Longrightarrow> fits n \<Longrightarrow> alloc n s = Some (p, s') \<Longrightarrow> p \<noteq> 0 \<Longrightarrow>
          inv s' \<and> p \<notin> objs s \<and> objs s' = insert p (objs s)"
    and release_live: "inv s \<Longrightarrow> p \<in> objs s \<Longrightarrow> inv (release p s) \<and> objs (release p s) = objs s - {p}"
begin

lemma alloc_keeps_inv: "inv s \<Longrightarrow> fits n \<Longrightarrow> alloc n s = Some (p, s') \<Longrightarrow> inv s'"
  using alloc_oom [of s n s'] alloc_fresh [of s n p s'] by (cases "p = 0") auto

lemma two_objects_differ:
  assumes "inv s" "fits n" "alloc n s = Some (p, s')" "p \<noteq> 0" "fits k" "alloc k s' = Some (q, s'')" "q \<noteq> 0"
  shows "p \<noteq> q"
  using alloc_fresh [OF assms(1-4)] alloc_fresh [of s' k q s''] assms(5-7) by auto

lemma alloc_release_objs:
  assumes "inv s" "fits n" "alloc n s = Some (p, s')" "p \<noteq> 0"
  shows "objs (release p s') = objs s"
  using alloc_fresh [OF assms] release_live [of s' p] by auto

end

definition kmalloc_fits :: "u32 \<Rightarrow> bool" where
  "kmalloc_fits n \<longleftrightarrow> unat n \<le> 0xFFFFEFF0"

lemma kmalloc_result:
  assumes "kheap_inv s" "kmalloc_fits n" "kmalloc n s = Some (p, s')"
  shows "(p = 0 \<and> s' = s) \<or> (\<exists>bs bs' B. heap_blocks s bs \<and> allocated s bs n p s' bs' B)"
proof -
  obtain bs where hb: "heap_blocks s bs" using assms(1) by (auto simp: kheap_inv_def)
  from kmalloc_spec [OF hb] assms(2) have "kmalloc n s = Some (0, s) \<or>
    (\<exists>p s' bs' B. kmalloc n s = Some (p, s') \<and> allocated s bs n p s' bs' B)"
    by (simp add: kmalloc_fits_def)
  then show ?thesis using assms(3) hb by auto
qed

interpretation kobj: object_heap kheap_inv live_ptrs kmalloc kfree kmalloc_fits
proof
  show "p \<noteq> 0" if "p \<in> live_ptrs s" for p and s :: "'a kheap_scheme"
    using that by (simp add: live_ptrs_def)
  show "kmalloc n s \<noteq> None" if inv: "kheap_inv s" and fits: "kmalloc_fits n" for n and s :: "'a kheap_scheme"
  proof -
    obtain bs where "heap_blocks s bs" using inv by (auto simp: kheap_inv_def)
    from kmalloc_spec [OF this, of n] fits show ?thesis by (auto simp: kmalloc_fits_def)
  qed
  show "s' = s" if "kheap_inv s" "kmalloc_fits n" "kmalloc n s = Some (0, s')" for n and s s' :: "'a kheap_scheme"
    using kmalloc_result [OF that] by (auto simp: allocated_def)
  show "kheap_inv s' \<and> p \<notin> live_ptrs s \<and> live_ptrs s' = insert p (live_ptrs s)"
    if "kheap_inv s" "kmalloc_fits n" "kmalloc n s = Some (p, s')" "p \<noteq> 0" for n p and s s' :: "'a kheap_scheme"
    using kmalloc_result [OF that(1-3)] that(4) live_ptrs_allocated by blast
  show "kheap_inv (kfree p s) \<and> live_ptrs (kfree p s) = live_ptrs s - {p}"
    if inv: "kheap_inv s" and p: "p \<in> live_ptrs s" for p and s :: "'a kheap_scheme"
  proof -
    obtain bs B where B: "heap_blocks s bs" "B \<in> live bs" "p = baddr B + 16" "p \<noteq> 0"
      using p by (auto simp: live_ptrs_def)
    then obtain bs' where "freed s bs B (kfree p s) bs'" using kfree_spec [OF B] by blast
    then show ?thesis using live_ptrs_freed [OF B(1,2)] B(3) by blast
  qed
qed

text \<open>Disjoint blocks of a 32-bit address space cannot hold \<open>2 ^ 32\<close> payload bytes.\<close>

lemma sizes_bound:
  assumes "finite L" "\<And>B. B \<in> L \<Longrightarrow> blk_ok B" "\<And>B C. B \<in> L \<Longrightarrow> C \<in> L \<Longrightarrow> B \<noteq> C \<Longrightarrow> apart B C"
  shows "(\<Sum>B \<in> L. unat (bsize B)) < 4294967296"
proof (cases "L = {}")
  case False
  have "(\<Sum>B \<in> L. 16 + unat (bsize B)) = (\<Sum>B \<in> L. card (extent B))" by (simp add: extent_def)
  also have "\<dots> = card (\<Union> (extent ` L))"
    by (subst card_UN_disjoint) (use assms(1,3) in \<open>simp_all add: apart_def extent_def\<close>)
  also have "\<dots> \<le> card {..<4294967296 :: nat}"
    using assms(2) by (intro card_mono) (fastforce simp: extent_def blk_ok_def)+
  finally have "(\<Sum>B \<in> L. 16 + unat (bsize B)) \<le> 4294967296" by simp
  moreover have "(\<Sum>B \<in> L. 16 + unat (bsize B)) = 16 * card L + (\<Sum>B \<in> L. unat (bsize B))"
    by (simp add: sum.distrib)
  moreover have "0 < card L" using False assms(1) by (simp add: card_gt_0_iff)
  ultimately show ?thesis by linarith
qed simp

lemma live_apart:
  assumes "heap_blocks s bs" "B \<in> live bs" "C \<in> live bs" "B \<noteq> C"
  shows "apart B C"
  using live_unique [OF assms(1-3)] assms(4) by (auto simp: apart_def)

lemma finite_live [simp]: "finite (live bs)"
  by (simp add: live_def)

lemma live_ok: "heap_blocks s bs \<Longrightarrow> B \<in> live bs \<Longrightarrow> blk_ok B"
  by (simp add: heap_blocks_def live_def)

definition accounted :: "'a kheap_scheme \<Rightarrow> ablk list \<Rightarrow> bool" where
  "accounted s bs \<longleftrightarrow> heap_blocks s bs \<and> unat (used_bytes s) = (\<Sum>B \<in> live bs. unat (bsize B))"

lemma accounted_allocated:
  assumes "accounted s bs" "allocated s bs n p s' bs' B"
  shows "accounted s' bs'"
proof -
  have a: "heap_blocks s' bs'" "live bs' = insert B (live bs)" "used_bytes s' = used_bytes s + bsize B"
    "\<And>C. C \<in> live bs \<Longrightarrow> apart B C"
    using assms(2) by (auto simp: allocated_def)
  have "B \<notin> live bs" using a(4) [of B] by (auto simp: apart_def extent_def)
  then have sum: "(\<Sum>C \<in> live bs'. unat (bsize C)) = unat (bsize B) + (\<Sum>C \<in> live bs. unat (bsize C))"
    unfolding a(2) by simp
  then have "unat (used_bytes s + bsize B) = unat (used_bytes s) + unat (bsize B)"
    using sizes_bound [of "live bs'", OF finite_live live_ok [OF a(1)] live_apart [OF a(1)]] assms(1)
    by (intro unat_add32) (simp add: accounted_def)
  then show ?thesis using assms(1) a(1,3) sum by (simp add: accounted_def)
qed

lemma accounted_drop:
  assumes "finite L" "B \<in> L" "unat (u :: u32) = (\<Sum>C \<in> L. unat (bsize C))"
  shows "unat (if u \<ge> bsize B then u - bsize B else u) = (\<Sum>C \<in> L - {B}. unat (bsize C))"
proof -
  have "(\<Sum>C \<in> L. unat (bsize C)) = unat (bsize B) + (\<Sum>C \<in> L - {B}. unat (bsize C))"
    by (rule sum.remove [OF assms(1,2)])
  then have "unat u = unat (bsize B) + (\<Sum>C \<in> L - {B}. unat (bsize C))" using assms(3) by simp
  moreover from this have "bsize B \<le> u" by (simp add: word_le_nat_alt)
  ultimately show ?thesis by (simp add: unat_diff32)
qed

lemma accounted_freed:
  assumes "accounted s bs" "B \<in> live bs" "freed s bs B s' bs'"
  shows "accounted s' bs'"
  using assms accounted_drop [of "live bs" B "used_bytes s"] by (auto simp: accounted_def freed_def live_def)

lemma accounted_moved:
  assumes "accounted s bs" "B \<in> live bs" "moved s bs B n p s' bs' N"
  shows "accounted s' bs'"
proof -
  let ?L = "insert N (live bs)"
  have m: "heap_blocks s' bs'" "live bs' = ?L - {B}" "\<And>C. C \<in> live bs \<Longrightarrow> apart N C"
    "used_bytes s' = (if used_bytes s + bsize N \<ge> bsize B then used_bytes s + bsize N - bsize B
                      else used_bytes s + bsize N)"
    using assms(3) by (auto simp: moved_def)
  have hb: "heap_blocks s bs" and u: "unat (used_bytes s) = (\<Sum>C \<in> live bs. unat (bsize C))"
    using assms(1) by (auto simp: accounted_def)
  have new: "N \<notin> live bs" using m(3) [of N] by (auto simp: apart_def extent_def)
  then have okN: "blk_ok N" using live_ok [OF m(1), of N] m(2) assms(2) by auto
  have sum: "(\<Sum>C \<in> ?L. unat (bsize C)) = unat (bsize N) + unat (used_bytes s)"
    using new u by simp
  have "(\<Sum>C \<in> ?L. unat (bsize C)) < 4294967296"
  proof (rule sizes_bound)
    show "blk_ok C" if "C \<in> ?L" for C using that okN live_ok [OF hb] by blast
    show "apart C D" if "C \<in> ?L" "D \<in> ?L" "C \<noteq> D" for C D
      using that live_apart [OF hb, of C D] m(3) apart_sym by blast
  qed simp
  then have add: "unat (used_bytes s + bsize N) = (\<Sum>C \<in> ?L. unat (bsize C))"
    unfolding sum by (subst unat_add32) simp_all
  have "unat (used_bytes s') = (\<Sum>C \<in> ?L - {B}. unat (bsize C))"
    unfolding m(4) by (rule accounted_drop) (use assms(2) add in auto)
  then show ?thesis using m(1,2) by (simp add: accounted_def)
qed

text \<open>
  Every state of the heap under a well-behaved client: it starts with an empty list (the static
  variables are zero), asks for sizes that fit, frees and resizes only live objects, and writes
  only inside live objects.
\<close>

inductive heap_reach :: "'a kheap_scheme \<Rightarrow> bool" where
  boot: "pmm_inv s \<Longrightarrow> head s = 0 \<Longrightarrow> used_bytes s = 0 \<Longrightarrow> heap_reach s"
| malloc: "heap_reach s \<Longrightarrow> kmalloc_fits n \<Longrightarrow> kmalloc n s = Some (p, s') \<Longrightarrow> heap_reach s'"
| free: "heap_reach s \<Longrightarrow> p \<in> live_ptrs s \<Longrightarrow> heap_reach (kfree p s)"
| realloc: "heap_reach s \<Longrightarrow> p \<in> live_ptrs s \<Longrightarrow> kmalloc_fits n \<Longrightarrow> krealloc p n s = Some (q, s') \<Longrightarrow> heap_reach s'"
| store: "heap_reach s \<Longrightarrow> heap_blocks s bs \<Longrightarrow>
    (\<forall>x. (\<forall>B \<in> live bs. unat x \<notin> payload B) \<longrightarrow> m x = mem s x) \<Longrightarrow> heap_reach (s\<lparr>mem := m\<rparr>)"

lemma accounted_write:
  assumes "accounted s bs" "\<forall>x. (\<forall>B \<in> live bs. unat x \<notin> payload B) \<longrightarrow> m x = mem s x"
  shows "accounted (s\<lparr>mem := m\<rparr>) bs"
proof -
  have hb: "heap_blocks s bs" using assms(1) by (simp add: accounted_def)
  have "heap_blocks (s\<lparr>mem := m\<rparr>) bs"
  proof (rule heap_blocks_write [OF hb])
    fix C and x :: u32
    assume C: "C \<in> set bs" "unat (baddr C) \<le> unat x" "unat x < unat (baddr C) + 12"
    have "unat x \<notin> payload B" if "B \<in> live bs" for B
      using payload_not_header [OF hb _ C(1) _ C(2), of B] that C(3) by (auto simp: live_def)
    then show "m x = mem s x" using assms(2) by blast
  qed
  then show ?thesis using assms(1) by (simp add: accounted_def)
qed

lemma live_ptrs_block:
  assumes "heap_blocks s bs" "p \<in> live_ptrs s"
  obtains B where "B \<in> live bs" "p = baddr B + 16" "p \<noteq> 0"
  using assms heap_blocks_unique by (auto simp: live_ptrs_def)

lemma heap_reach_accounted: "heap_reach s \<Longrightarrow> \<exists>bs. accounted s bs"
proof (induction rule: heap_reach.induct)
  case (boot s)
  then have "accounted s []" by (simp add: accounted_def heap_blocks_def live_def)
  then show ?case by blast
next
  case (malloc s n p s')
  then obtain bs where bs: "accounted s bs" by blast
  then have hb: "heap_blocks s bs" by (simp add: accounted_def)
  from kmalloc_spec [OF hb, of n] malloc(2,3)
  have "s' = s \<or> (\<exists>bs' B. allocated s bs n p s' bs' B)" by (auto simp: kmalloc_fits_def)
  then show ?case using bs accounted_allocated by blast
next
  case (free s p)
  then obtain bs where bs: "accounted s bs" by blast
  then have hb: "heap_blocks s bs" by (simp add: accounted_def)
  obtain B where B: "B \<in> live bs" "p = baddr B + 16" "p \<noteq> 0" by (rule live_ptrs_block [OF hb free(2)])
  then obtain bs' where "freed s bs B (kfree p s) bs'" using kfree_spec [OF hb] by blast
  then show ?case using accounted_freed [OF bs B(1)] by blast
next
  case (realloc s p n q s')
  then obtain bs where bs: "accounted s bs" by blast
  then have hb: "heap_blocks s bs" by (simp add: accounted_def)
  obtain B where B: "B \<in> live bs" "p = baddr B + 16" "p \<noteq> 0" by (rule live_ptrs_block [OF hb realloc(2)])
  from krealloc_spec [OF hb B, of n] realloc(3,4)
  have "s' = s \<or> (\<exists>bs' N. moved s bs B n q s' bs' N)" by (auto simp: kmalloc_fits_def)
  then show ?case using bs accounted_moved [OF bs B(1)] by blast
next
  case (store s bs m)
  then obtain cs where cs: "accounted s cs" by blast
  then have "cs = bs" using heap_blocks_unique store(2) by (auto simp: accounted_def)
  then show ?case using accounted_write [of s bs m] cs store(3) by blast
qed

text \<open>
  C1. For every request of at most \<open>0xFFFFEFF0\<close> bytes, in every heap reached by such requests,
  \<open>kmalloc\<close> returns (its list walk ends); it either returns null and
  changes nothing, or returns a non-null object of at least the requested size, all of whose
  bytes are zero, that overlaps no live object; the live objects are the old ones plus the new
  one, and their bytes and every byte in frames owned by others are unchanged. The bound is the
  largest request for which the page count of \<open>grow\<close> does not wrap: above it \<open>grow\<close> asks
  for no page or for one (\<open>grow_page_count_wraps\<close>).
\<close>

theorem kmalloc_correct:
  assumes "heap_reach s" "unat n \<le> 0xFFFFEFF0"
  shows "\<exists>p s'. kmalloc n s = Some (p, s') \<and>
    ((p = 0 \<and> s' = s) \<or> (\<exists>bs bs' B. heap_blocks s bs \<and> allocated s bs n p s' bs' B))"
proof -
  obtain bs where "heap_blocks s bs" using heap_reach_accounted [OF assms(1)] by (auto simp: accounted_def)
  then show ?thesis using kmalloc_spec [of s bs n] assms(2) by blast
qed

definition kheap_blank :: kheap where
  "kheap_blank = \<lparr>mem = (\<lambda>_. 7), bitmap = (\<lambda>_. 255), base_pa = 0, num_pages = 0, used_pages = 0,
     head = 0, tail = 0, used_bytes = 0\<rparr>"

definition kheap_boot :: kheap where
  "kheap_boot = pmm_init 0x40000001 0x40004000 kheap_blank"

lemma kheap_boot_facts:
  "pmm_inv kheap_boot" "used_set kheap_boot = {}" "unat (num_pages kheap_boot) = 3"
  "unat (base_pa kheap_boot) = 0x40001000" "head kheap_boot = 0" "used_bytes kheap_boot = 0"
proof -
  have "pmm.more kheap_boot = pmm.more kheap_blank"
    unfolding kheap_boot_def pmm_init_def Let_def by (simp add: bit_clr_fold)
  then show "head kheap_boot = 0" "used_bytes kheap_boot = 0"
    using kheap_of_more [of kheap_boot kheap_blank] by (simp_all add: kheap_blank_def)
qed (use pmm_init_inv [of "0x40000001" "0x40004000" kheap_blank] in \<open>simp_all add: kheap_boot_def\<close>)

lemma kheap_boot_reach: "heap_reach kheap_boot"
  using kheap_boot_facts by (intro heap_reach.boot)

theorem kmalloc_correct_witness:
  "\<exists>p s'. kmalloc 100 kheap_boot = Some (p, s') \<and>
    ((p = 0 \<and> s' = kheap_boot) \<or>
     (\<exists>bs bs' B. heap_blocks kheap_boot bs \<and> allocated kheap_boot bs 100 p s' bs' B))"
  by (rule kmalloc_correct [OF kheap_boot_reach]) simp

lemma kheap_boot_kmalloc:
  "\<exists>p s' bs' B. kmalloc 100 kheap_boot = Some (p, s') \<and> allocated kheap_boot [] 100 p s' bs' B"
proof -
  note b = kheap_boot_facts
  have hb: "heap_blocks kheap_boot []" using b by (simp add: heap_blocks_def)
  have "kmalloc 100 kheap_boot \<noteq> Some (0, kheap_boot)"
  proof
    assume oom: "kmalloc 100 kheap_boot = Some (0, kheap_boot)"
    obtain pa t where al: "pmm_alloc_aligned 1 PAGE_SIZE kheap_boot = (pa, t)" by fastforce
    have one: "0 < (1 :: u32)" by simp
    from b(1) one al have "pa \<noteq> 0"
    proof (cases rule: pmm_alloc_aligned_cases)
      case none
      have "page_aligned (page_pa kheap_boot 0)" by (rule page_pa_aligned [OF b(1)]) (simp add: b)
      then have "page_pa kheap_boot 0 AND (PAGE_SIZE - 1) = 0" by (simp add: page_aligned_def)
      then show ?thesis using none(3) [of 0] b(2,3) by simp
    next
      case (run i)
      then show ?thesis using page_pa_nonzero [OF b(1), of i] by simp
    qed
    moreover have "ALIGN8 100 = 104" by (simp add: ALIGN8_def)
    moreover have "ALIGN8 104 = 104" by (simp add: ALIGN8_def)
    moreover have "first_fit (mem kheap_boot) 104 0 = Some 0" by (simp add: first_fit.simps)
    moreover obtain c u where g: "grow 104 kheap_boot = (c, u)" by fastforce
    ultimately have c: "c \<noteq> 0" and k: "kmalloc 100 kheap_boot = Some (take_block c 104 u)"
      using al b(5) by (auto simp: kmalloc_def grow_def Let_def split: if_splits)
    then have tb: "take_block c 104 u = (0, kheap_boot)" using oom by simp
    have "unat (104 :: u32) mod 8 = 0" "unat (104 :: u32) \<le> 0xFFFFEFF0" by simp_all
    from hb this g show False
    proof (cases rule: grow_cases)
      case (grown n)
      have "\<exists>bs' B. allocated u ([] @ Blk c n True # []) 104 0 kheap_boot bs' B"
        by (rule take_block_allocated) (use grown tb in simp_all)
      then show False by (auto simp: allocated_def)
    qed (use c in simp_all)
  qed
  then show ?thesis using kmalloc_spec [OF hb, of 100] by simp
qed

lemma kheap_boot_live:
  obtains p s' where "kmalloc 100 kheap_boot = Some (p, s')" "heap_reach s'" "p \<in> live_ptrs s'"
proof -
  obtain p s' bs' B where k: "kmalloc 100 kheap_boot = Some (p, s')" and a: "allocated kheap_boot [] 100 p s' bs' B"
    using kheap_boot_kmalloc by blast
  have "heap_reach s'" by (rule heap_reach.malloc [OF kheap_boot_reach _ k]) (simp add: kmalloc_fits_def)
  moreover have "p \<in> live_ptrs s'" using a by (auto simp: allocated_def live_ptrs_def)
  ultimately show thesis using that k by blast
qed

text \<open>
  C2. Freeing a live object of a reachable heap keeps the heap well formed, whether or not the
  freed block is merged with its successor: exactly that object stops being live, and no byte
  outside the sixteen bytes of its header changes.
\<close>

theorem kfree_correct:
  assumes "heap_reach s" "heap_blocks s bs" "B \<in> live bs" "baddr B + 16 \<noteq> 0"
  shows "\<exists>bs'. freed s bs B (kfree (baddr B + 16) s) bs'"
  using kfree_spec [OF assms(2,3) refl assms(4)] .

theorem kfree_correct_witness:
  "\<exists>s bs B bs'. heap_reach s \<and> B \<in> live bs \<and> freed (s :: kheap) bs B (kfree (baddr B + 16) s) bs'"
proof -
  obtain p s' where r: "heap_reach (s' :: kheap)" "p \<in> live_ptrs s'" using kheap_boot_live by metis
  then obtain bs B where B: "heap_blocks s' bs" "B \<in> live bs" "baddr B + 16 \<noteq> 0" by (auto simp: live_ptrs_def)
  from kfree_correct [OF r(1) B] r(1) B(2) show ?thesis by blast
qed

text \<open>
  C3. \<open>krealloc\<close> of a live object of a reachable heap to at most \<open>0xFFFFEFF0\<close> bytes (the bound of
  \<open>kmalloc\<close>: above it the page count of \<open>grow\<close> wraps) returns; it keeps the object when the new
  size already fits, returns null and changes nothing when memory is exhausted, and otherwise
  moves it: the new object starts with all the bytes of the old one, the old one is freed, and
  every other live object is unchanged.
\<close>

theorem krealloc_correct:
  assumes "heap_reach s" "heap_blocks s bs" "B \<in> live bs" "baddr B + 16 \<noteq> 0" "unat n \<le> 0xFFFFEFF0"
  shows "\<exists>p s'. krealloc (baddr B + 16) n s = Some (p, s') \<and>
    (if ALIGN8 n \<le> bsize B then p = baddr B + 16 \<and> s' = s
     else (p = 0 \<and> s' = s) \<or> (\<exists>bs' N. moved s bs B n p s' bs' N))"
  using krealloc_spec [OF assms(2,3) refl assms(4,5)] by (cases "ALIGN8 n \<le> bsize B") auto

theorem krealloc_correct_witness:
  "\<exists>s bs B p s'. B \<in> live bs \<and> krealloc (baddr B + 16) 5000 (s :: kheap) = Some (p, s') \<and>
    (if ALIGN8 5000 \<le> bsize B then p = baddr B + 16 \<and> s' = s
     else (p = 0 \<and> s' = s) \<or> (\<exists>bs' N. moved s bs B 5000 p s' bs' N))"
proof -
  obtain p s' where r: "heap_reach (s' :: kheap)" "p \<in> live_ptrs s'" using kheap_boot_live by metis
  then obtain bs B where B: "heap_blocks s' bs" "B \<in> live bs" "baddr B + 16 \<noteq> 0" by (auto simp: live_ptrs_def)
  from krealloc_correct [OF r(1) B, of 5000] B(2) show ?thesis by fastforce
qed

text \<open>
  C22. In every reachable heap the statistic \<open>kmalloc_used\<close> is exactly the sum of the payload
  sizes of the live objects; in particular the guard in \<open>kfree\<close> never skips the subtraction and
  the counter never wraps.
\<close>

theorem kmalloc_used_exact:
  assumes "heap_reach s" "heap_blocks s bs"
  shows "unat (kmalloc_used s) = (\<Sum>B \<in> live bs. unat (bsize B))"
proof -
  obtain cs where "accounted s cs" using heap_reach_accounted [OF assms(1)] by blast
  moreover from this have "cs = bs" using heap_blocks_unique assms(2) by (auto simp: accounted_def)
  ultimately show ?thesis by (simp add: accounted_def kmalloc_used_def)
qed

theorem kmalloc_used_exact_witness:
  "\<exists>s bs. live bs \<noteq> {} \<and> unat (kmalloc_used (s :: kheap)) = (\<Sum>B \<in> live bs. unat (bsize B))"
proof -
  obtain p s' where r: "heap_reach (s' :: kheap)" "p \<in> live_ptrs s'" using kheap_boot_live by metis
  then obtain bs B where B: "heap_blocks s' bs" "B \<in> live bs" by (auto simp: live_ptrs_def)
  from kmalloc_used_exact [OF r(1) B(1)] B(2) show ?thesis by blast
qed

text \<open>
  A request of \<open>0xFFFFEFF1\<close> to \<open>0xFFFFFFF0\<close> bytes wraps the page count of \<open>grow\<close> to 0. The page
  allocator answers a request for no pages with the base of its window and marks nothing, so \<open>grow\<close>
  returns a block of \<open>0xFFFFFFF0\<close> bytes over frames that are not reserved for it.
\<close>

lemma pmm_alloc_no_pages:
  assumes "pmm_inv s"
  shows "pmm_alloc_aligned 0 PAGE_SIZE s = (base_pa s, s)"
proof -
  have "aligned_indices 0 s = 0 # takeWhile (\<lambda>i. of_nat i \<le> num_pages s) [1..<Suc (unat (num_pages s))]"
    by (simp add: aligned_indices_def upt_rec [of 0])
  moreover have "base_pa s AND (PAGE_SIZE - 1) = 0" using assms by (simp add: pmm_inv_def page_aligned_def)
  ultimately show ?thesis by (simp add: pmm_alloc_aligned_def page_pa_def run_free_def take_run_def)
qed

lemma grow_page_count_wraps:
  assumes inv: "pmm_inv s" and need: "0xFFFFEFF0 < unat need" "unat need \<le> 0xFFFFFFF0"
  shows "fst (grow need s) = base_pa s" "used_set (snd (grow need s)) = used_set s"
proof -
  have "unat (ALIGN8 need) = 8 * ((unat need + 7) div 8)" by (rule unat_ALIGN8) (use need in simp)
  then have al: "unat (ALIGN8 need) \<ge> 0xFFFFEFF8" "unat (ALIGN8 need) \<le> 0xFFFFFFF0" using need by simp_all
  have "unat (0x100F + ALIGN8 need) = unat (ALIGN8 need) + 0x100F - 0x100000000"
    unfolding unat_word_ariths using al by (simp add: le_mod_geq)
  then have "(ALIGN8 need + ALIGN8 HDR + PAGE_SIZE - 1) div PAGE_SIZE = 0"
    using al by (simp add: word_unat_eq_iff unat_div32 ALIGN8_def [of HDR])
  then show "fst (grow need s) = base_pa s" "used_set (snd (grow need s)) = used_set s"
    using inv pmm_alloc_no_pages [OF inv] by (auto simp: grow_def Let_def blk_defs pmm_inv_def)
qed

text \<open>
  C40. The rounding of the size is not checked for overflow: for a request of more than
  \<open>0xFFFFFFF8\<close> bytes the rounded size is 0, the first free block fits, and \<open>kmalloc\<close> returns a
  pointer into a block smaller than the request instead of null.
\<close>

theorem kmalloc_huge_size_wraps:
  assumes "heap_blocks s bs" "C \<in> set bs" "bfree C" "0xFFFFFFF8 < unat n"
  shows "\<exists>s' B. B \<in> set bs \<and> bfree B \<and> unat (bsize B) < unat n \<and> kmalloc n s = Some (baddr B + 16, s')"
proof -
  have n: "ALIGN8 (if n = 0 then 8 else n) = 0"
  proof -
    have "unat (n + 7) = (unat n + 7) mod 4294967296" by (simp add: unat_word_ariths)
    also have "\<dots> = unat n + 7 - 4294967296"
      using assms(4) unat_bound32 [of n]
      by (subst mod_if, subst mod_less) (linarith, simp)
    finally have m: "unat (n + 7) = unat n + 7 - 4294967296" .
    have "NOT 7 = (0xFFFFFFF8 :: u32)" by simp
    then have "unat (ALIGN8 n) = unat (n + 7) - unat (n + 7) mod 8" unfolding ALIGN8_def by (simp only: unat_and_high)
    moreover have "unat (n + 7) < 8" using m unat_bound32 [of n] by linarith
    ultimately have "unat (ALIGN8 n) = 0" by simp
    then show ?thesis using assms(4) by (auto simp: unat_eq_zero)
  qed
  have seg: "seg (mem s) (head s) bs 0" using assms(1) by (simp add: heap_blocks_def)
  obtain B where f: "find (\<lambda>B. bfree B \<and> 0 \<le> bsize B) bs = Some B"
    using assms(2,3) by (cases "find (\<lambda>B. bfree B \<and> 0 \<le> bsize B) bs") (auto simp: find_None_iff)
  then have B: "bfree B" "B \<in> set bs" by (auto simp: find_Some_iff)
  obtain xs ys where "bs = xs @ B # ys" using B(2) by (auto dest: split_list)
  then have "baddr B \<noteq> 0" using seg by (auto simp: seg_append)
  then have "kmalloc n s = Some (take_block (baddr B) 0 s)"
    using first_fit_spec [OF seg, of 0] f by (simp add: kmalloc_def n)
  moreover have "blk_ok B" using assms(1) B(2) by (simp add: heap_blocks_def)
  ultimately show ?thesis
    using B assms(4) by (auto simp: take_block_def Let_def blk_ok_def)
qed

lemma kheap_boot_free_block:
  "\<exists>s bs C. heap_blocks (s :: kheap) bs \<and> C \<in> set bs \<and> bfree C"
proof -
  obtain p s bs B where a: "allocated kheap_boot [] 100 p s bs B" using kheap_boot_kmalloc by blast
  then have hb: "heap_blocks s bs" and lv: "live bs = {B}" and p: "p = baddr B + 16" "p \<noteq> 0"
    by (auto simp: allocated_def live_def)
  obtain cs where f: "freed s bs B (kfree p s) cs" using kfree_spec [OF hb _ p] lv by blast
  have "head s \<noteq> 0" using hb lv by (cases bs) (auto simp: heap_blocks_def live_def)
  moreover have "head (kfree p s) = head s" by (simp add: kfree_def Let_def blk_defs)
  moreover have hc: "heap_blocks (kfree p s) cs" "live cs = {}" using f lv by (auto simp: freed_def)
  ultimately obtain C where "C \<in> set cs" by (cases cs) (auto simp: heap_blocks_def)
  then show ?thesis using hc by (auto simp: live_def)
qed

theorem kmalloc_huge_size_wraps_witness:
  "\<exists>s s' bs B. B \<in> set bs \<and> unat (bsize B) < 0xFFFFFFFF \<and>
     kmalloc 0xFFFFFFFF (s :: kheap) = Some (baddr B + 16, s')"
proof -
  obtain s :: kheap and bs C where s: "heap_blocks s bs" "C \<in> set bs" "bfree C"
    using kheap_boot_free_block by blast
  from kmalloc_huge_size_wraps [OF s, of "0xFFFFFFFF"] show ?thesis by auto
qed

end
