(* ===== verification/Vm.thy ===== *)
theory Vm
  imports Kmalloc
begin

text \<open>
  Page tables: the kernel's identity map of \<open>kernel/arch/arm/mmu.c\<close> and the per-process address
  spaces of \<open>kernel/arch/arm/vm.c\<close> (ARMv7 short descriptors: a 16 KB first-level table, 1 KB
  coarse second-level tables, 4 KB small pages). The tables live in physical memory as the
  hardware reads them, every descriptor is a little-endian word at its address. Cache and TLB
  maintenance and the writes of the system registers are recorded in the order they happen in
  the log \<open>hw\<close>; the console messages of \<open>mmu_init\<close> are left out.
\<close>

section \<open>State\<close>

datatype hw_event =
    CleanLine u32 | CleanAll | TlbiAll | TlbiMva u32
  | SetTtbr0 u32 | SetTtbcr u32 | SetDacr u32 | EnableMmu | EnableCaches

record vm = kheap +
  kernel_l1 :: u32
  hw :: "hw_event list"

definition emit :: "hw_event \<Rightarrow> 'a vm_scheme \<Rightarrow> 'a vm_scheme" where
  "emit e s = s\<lparr>hw := hw s @ [e]\<rparr>"

definition rd32 :: "'a phys_scheme \<Rightarrow> u32 \<Rightarrow> u32" where
  "rd32 s a = ld32 (mem s) a"

definition wr32 :: "u32 \<Rightarrow> u32 \<Rightarrow> 'a phys_scheme \<Rightarrow> 'a phys_scheme" where
  "wr32 a v s = s\<lparr>mem := st32 (mem s) a v\<rparr>"

section \<open>The kernel's identity map\<close>

datatype mem_type = MEM_NORMAL | MEM_DEVICE

definition L1_ENTRIES :: nat where "L1_ENTRIES = 4096"
definition L1_SIZE :: u32 where "L1_SIZE = 16384"
definition L1_ALIGN :: u32 where "L1_ALIGN = 16384"
definition SECT_MASK :: u32 where "SECT_MASK = 0xFFF00000"
definition DRAM_BASE :: u32 where "DRAM_BASE = 0x40000000"
definition DRAM_END :: u32 where "DRAM_END = 0x48000000"

definition sect_attr :: "mem_type \<Rightarrow> u32" where
  "sect_attr t = (if t = MEM_NORMAL then 0x1C0E else 0x0C16)"

definition mmu_map_section :: "u32 \<Rightarrow> u32 \<Rightarrow> mem_type \<Rightarrow> 'a vm_scheme \<Rightarrow> 'a vm_scheme" where
  "mmu_map_section va pa type s =
     (let idx = drop_bit 20 va;
          s = wr32 (kernel_l1 s + 4 * idx) ((pa AND SECT_MASK) OR sect_attr type) s;
          s = emit (CleanLine (kernel_l1 s + 4 * idx)) s
      in emit (TlbiMva (va AND SECT_MASK)) s)"

definition identity_entry :: "u32 \<Rightarrow> u32" where
  "identity_entry i =
     (let pa = push_bit 20 i;
          t = (if DRAM_BASE \<le> pa \<and> pa < DRAM_END then MEM_NORMAL else MEM_DEVICE)
      in (pa AND SECT_MASK) OR sect_attr t)"

definition mmu_init :: "'a vm_scheme \<Rightarrow> 'a vm_scheme" where
  "mmu_init s =
     (let (pa, s) = pmm_alloc_aligned (L1_SIZE div PAGE_SIZE) L1_ALIGN s;
          s = s\<lparr>kernel_l1 := pa\<rparr>
      in if pa = 0 then s
         else (let s = fold (\<lambda>i. wr32 (pa + 4 * of_nat i) (identity_entry (of_nat i))) [0..<L1_ENTRIES] s;
                   s = emit TlbiAll s;
                   s = emit (SetDacr 0x55555555) s;
                   s = emit (SetTtbcr 0) s;
                   s = emit (SetTtbr0 pa) s;
                   s = emit EnableMmu s;
                   s = emit CleanAll s
               in emit EnableCaches s))"

definition mmu_l1_base :: "'a vm_scheme \<Rightarrow> u32" where
  "mmu_l1_base s = kernel_l1 s"

section \<open>Address spaces\<close>

definition clean_table :: "u32 \<Rightarrow> u32 \<Rightarrow> 'a vm_scheme \<Rightarrow> 'a vm_scheme" where
  "clean_table base bytes s =
     fold (\<lambda>i. emit (CleanLine (base + 32 * of_nat i))) [0..<(unat bytes + 31) div 32] s"

definition L2_ENTRIES :: nat where "L2_ENTRIES = 256"
definition L2_SIZE :: u32 where "L2_SIZE = 1024"
definition L2_ALIGN :: u32 where "L2_ALIGN = 1024"
definition L1_TYPE_MASK :: u32 where "L1_TYPE_MASK = 3"
definition L1_TYPE_COARSE :: u32 where "L1_TYPE_COARSE = 1"
definition L2_SMALL_USER :: u32 where "L2_SMALL_USER = 0x7E"
definition USER_VA_MIN :: u32 where "USER_VA_MIN = 0x1000"
definition USER_VA_MAX :: u32 where "USER_VA_MAX = 0x40000000"

definition L1_COARSE :: "u32 \<Rightarrow> u32" where
  "L1_COARSE l2 = (l2 AND 0xFFFFFC00) OR 1"

definition L1_COARSE_L2BASE :: "u32 \<Rightarrow> u32" where
  "L1_COARSE_L2BASE d = d AND 0xFFFFFC00"

definition L2_SMALL_BASE :: "u32 \<Rightarrow> u32" where
  "L2_SMALL_BASE d = d AND 0xFFFFF000"

definition L2_IS_VALID :: "u32 \<Rightarrow> bool" where
  "L2_IS_VALID d \<longleftrightarrow> d AND 3 \<noteq> 0"

definition l1_index :: "u32 \<Rightarrow> u32" where
  "l1_index va = drop_bit 20 va"

definition l2_index :: "u32 \<Rightarrow> u32" where
  "l2_index va = drop_bit 12 va AND 0xFF"

definition vm_create :: "'a vm_scheme \<Rightarrow> u32 \<times> 'a vm_scheme" where
  "vm_create s =
     (let (l1, s) = pmm_alloc_aligned (L1_SIZE div PAGE_SIZE) L1_ALIGN s
      in if l1 = 0 then (0, s)
         else (let ker = mmu_l1_base s;
                   s = fold (\<lambda>i s. wr32 (l1 + 4 * of_nat i) (rd32 s (ker + 4 * of_nat i)) s) [0..<L1_ENTRIES] s
               in (l1, clean_table l1 L1_SIZE s)))"

definition l2_for :: "u32 \<Rightarrow> u32 \<Rightarrow> bool \<Rightarrow> 'a vm_scheme \<Rightarrow> u32 \<times> 'a vm_scheme" where
  "l2_for l1_pa va create s =
     (let slot = l1_pa + 4 * l1_index va;
          d = rd32 s slot
      in if d AND L1_TYPE_MASK = L1_TYPE_COARSE then (L1_COARSE_L2BASE d, s)
         else if \<not> create then (0, s)
         else (let (l2, s) = pmm_alloc_aligned 1 L2_ALIGN s
               in if l2 = 0 then (0, s)
                  else (let s = fold (\<lambda>k. wr32 (l2 + 4 * of_nat k) 0) [0..<L2_ENTRIES] s;
                            s = clean_table l2 L2_SIZE s;
                            s = wr32 slot (L1_COARSE l2) s;
                            s = emit (CleanLine slot) s
                        in (l2, emit (TlbiMva (va AND 0xFFF00000)) s))))"

definition vm_map_page :: "u32 \<Rightarrow> u32 \<Rightarrow> u32 \<Rightarrow> 'a vm_scheme \<Rightarrow> cint \<times> 'a vm_scheme" where
  "vm_map_page l1_pa va pa s =
     (if va < USER_VA_MIN \<or> va \<ge> USER_VA_MAX then (-1, s)
      else (let (l2, s) = l2_for l1_pa va True s
            in if l2 = 0 then (-2, s)
               else (let slot = l2 + 4 * l2_index va;
                         s = wr32 slot (L2_SMALL_BASE pa OR L2_SMALL_USER) s
                     in (0, emit (CleanLine slot) s))))"

definition vm_walk :: "u32 \<Rightarrow> u32 \<Rightarrow> 'a vm_scheme \<Rightarrow> u32" where
  "vm_walk l1_pa va s =
     (let (l2, s) = l2_for l1_pa va False s
      in if l2 = 0 then 0
         else (let d = rd32 s (l2 + 4 * l2_index va)
               in if \<not> L2_IS_VALID d then 0 else L2_SMALL_BASE d OR (va AND 0xFFF)))"

definition vm_unmap_page :: "u32 \<Rightarrow> u32 \<Rightarrow> 'a vm_scheme \<Rightarrow> cint \<times> 'a vm_scheme" where
  "vm_unmap_page l1_pa va s =
     (let (l2, s) = l2_for l1_pa va False s
      in if l2 = 0 then (-1, s)
         else (let slot = l2 + 4 * l2_index va
               in if \<not> L2_IS_VALID (rd32 s slot) then (-1, s)
                  else (let s = wr32 slot 0 s;
                            s = emit (CleanLine slot) s
                        in (0, emit (TlbiMva (va AND NOT 0xFFF)) s))))"

text \<open>The 1 MB steps of the loops over the user half: \<open>va = USER_VA_MIN & ~0xFFFFF; va < USER_VA_MAX\<close>.\<close>

definition user_sections :: "u32 list" where
  "user_sections = map (\<lambda>i. (USER_VA_MIN AND NOT 0xFFFFF) + of_nat i * 0x100000) [0..<1024]"

definition destroy_section :: "u32 \<Rightarrow> u32 \<Rightarrow> 'a vm_scheme \<Rightarrow> 'a vm_scheme" where
  "destroy_section l1_pa va s =
     (let slot = l1_pa + 4 * l1_index va;
          d = rd32 s slot
      in if d AND L1_TYPE_MASK \<noteq> L1_TYPE_COARSE then s
         else (let l2 = L1_COARSE_L2BASE d;
                   s = fold (\<lambda>k s. if L2_IS_VALID (rd32 s (l2 + 4 * of_nat k))
                                   then pmm_free_page (L2_SMALL_BASE (rd32 s (l2 + 4 * of_nat k))) s
                                   else s) [0..<L2_ENTRIES] s;
                   s = pmm_free_page l2 s
               in wr32 slot 0 s))"

definition vm_destroy :: "u32 \<Rightarrow> 'a vm_scheme \<Rightarrow> 'a vm_scheme" where
  "vm_destroy l1_pa s =
     (let s = fold (destroy_section l1_pa) user_sections s
      in fold (\<lambda>f. pmm_free_page (l1_pa + of_nat f * PAGE_SIZE)) [0..<unat (L1_SIZE div PAGE_SIZE)] s)"

definition copy_page :: "u32 \<Rightarrow> u32 \<Rightarrow> 'a phys_scheme \<Rightarrow> 'a phys_scheme" where
  "copy_page np src_pa s =
     fold (\<lambda>w s. wr32 (np + 4 * of_nat w) (rd32 s (src_pa + 4 * of_nat w)) s) [0..<1024] s"

fun copy_ptes :: "u32 \<Rightarrow> u32 \<Rightarrow> u32 \<Rightarrow> nat list \<Rightarrow> 'a vm_scheme \<Rightarrow> cint \<times> 'a vm_scheme" where
  "copy_ptes dst_l1 va st [] s = (0, s)"
| "copy_ptes dst_l1 va st (k # ks) s =
     (let d = rd32 s (st + 4 * of_nat k)
      in if \<not> L2_IS_VALID d then copy_ptes dst_l1 va st ks s
         else (let src_pa = L2_SMALL_BASE d;
                   page_va = (va AND 0xFFF00000) OR push_bit 12 (of_nat k);
                   (np, s) = pmm_alloc_page s
               in if np = 0 then (-1, s)
                  else (let s = copy_page np src_pa s;
                            (r, s) = vm_map_page dst_l1 page_va np s
                        in if r \<noteq> 0 then (-2, s) else copy_ptes dst_l1 va st ks s)))"

fun copy_sections :: "u32 \<Rightarrow> u32 \<Rightarrow> u32 list \<Rightarrow> 'a vm_scheme \<Rightarrow> cint \<times> 'a vm_scheme" where
  "copy_sections dst_l1 src_l1 [] s = (0, s)"
| "copy_sections dst_l1 src_l1 (va # vas) s =
     (let d = rd32 s (src_l1 + 4 * l1_index va)
      in if d AND L1_TYPE_MASK \<noteq> L1_TYPE_COARSE then copy_sections dst_l1 src_l1 vas s
         else (let (r, s) = copy_ptes dst_l1 va (L1_COARSE_L2BASE d) [0..<L2_ENTRIES] s
               in if r \<noteq> 0 then (r, s) else copy_sections dst_l1 src_l1 vas s))"

definition vm_copy :: "u32 \<Rightarrow> u32 \<Rightarrow> 'a vm_scheme \<Rightarrow> cint \<times> 'a vm_scheme" where
  "vm_copy dst_l1 src_l1 s = copy_sections dst_l1 src_l1 user_sections s"

definition vm_switch :: "u32 \<Rightarrow> 'a vm_scheme \<Rightarrow> 'a vm_scheme" where
  "vm_switch l1_pa s = emit TlbiAll (emit (SetTtbr0 l1_pa) s)"

section \<open>Words and pages\<close>

definition pg :: "u32 \<Rightarrow> nat" where
  "pg a = unat a div 4096"

lemma pg_same_page: "same_page x y \<longleftrightarrow> pg x = pg y"
  by (simp add: same_page_def pg_def)

lemma pg_word:
  assumes "unat a mod 4 = 0" "k < 4"
  shows "pg (a + of_nat k) = pg a"
proof -
  have u: "unat (a + of_nat k) = unat a + k" by (rule word_aligned_nowrap [OF assms])
  have "(unat a + k) div 4 = unat a div 4" using aligned_add_div_mod(1) [OF assms] .
  then have "(unat a + k) div (4 * 1024) = unat a div (4 * 1024)" unfolding div_mult2_eq by simp
  then show ?thesis by (simp add: pg_def u)
qed

lemma ld32_page_cong:
  assumes "unat a mod 4 = 0" "\<And>x. pg x = pg a \<Longrightarrow> m x = m' x"
  shows "ld32 m a = ld32 m' a"
  using assms(2) pg_word [OF assms(1), of 0] pg_word [OF assms(1), of 1]
    pg_word [OF assms(1), of 2] pg_word [OF assms(1), of 3]
  by (intro ld32_cong) simp_all

lemma ld32_zero_bytes:
  assumes "unat a mod 4 = 0" "\<And>x. pg x = pg a \<Longrightarrow> m x = 0"
  shows "ld32 m a = 0"
proof -
  have "ld32 m a = ld32 (\<lambda>_. 0) a" by (rule ld32_page_cong [OF assms(1)]) (use assms(2) in simp)
  then show ?thesis by (simp add: ld32_def)
qed

lemma st32_page:
  assumes "unat a mod 4 = 0" "pg x \<noteq> pg a"
  shows "st32 m a v x = m x"
proof -
  have "x \<noteq> a + of_nat k" if "k < 4" for k using pg_word [OF assms(1) that] assms(2) by auto
  from this [of 0] this [of 1] this [of 2] this [of 3] show ?thesis by (simp add: st32_def)
qed

lemma ld32_st32_iff:
  assumes "unat a mod 4 = 0" "unat b mod 4 = 0"
  shows "ld32 (st32 m a v) b = (if b = a then v else ld32 m b)"
  using ld32_st32_other [OF assms] by auto

lemma page_aligned_pg: "page_aligned a \<Longrightarrow> unat a = 4096 * pg a"
  using mult_div_mod_eq [of 4096 "unat a"] by (simp add: page_aligned_unat pg_def)

lemma pg_inj: "page_aligned a \<Longrightarrow> page_aligned b \<Longrightarrow> pg a = pg b \<Longrightarrow> a = b"
  using page_aligned_pg [of a] page_aligned_pg [of b] by (simp add: word_unat_eq_iff)

text \<open>Addresses of the entries of a first-level and of a second-level table.\<close>

lemma l1_slot:
  assumes "unat (l1 :: u32) mod 16384 = 0" "i < 4096"
  shows "unat (l1 + 4 * of_nat i) = unat l1 + 4 * i" "unat (l1 + 4 * of_nat i) mod 4 = 0"
    "pg (l1 + 4 * of_nat i) = pg l1 + i div 1024"
proof -
  have "l1 + of_nat (4 * i) = l1 + 4 * of_nat i" by simp
  moreover have "unat (l1 + of_nat (4 * i)) = unat l1 + 4 * i"
    by (rule aligned_add_unat [OF assms(1)]) (use assms(2) in simp_all)
  ultimately show u: "unat (l1 + 4 * of_nat i) = unat l1 + 4 * i" by simp
  obtain q where q: "unat l1 = 16384 * q" using assms(1) by (metis mod_0_imp_dvd dvdE)
  show "unat (l1 + 4 * of_nat i) mod 4 = 0" unfolding u q by simp
  have "(16384 * q + 4 * i) div 4096 = 4 * q + i div 1024"
  proof -
    have "(16384 * q + 4 * i) div 4096 = (4 * (1024 * (4 * q) + i)) div (4 * 1024)" by (simp add: algebra_simps)
    also have "\<dots> = (1024 * (4 * q) + i) div 1024" by (subst div_mult_mult1) simp_all
    finally show ?thesis by simp
  qed
  moreover have "(16384 * q) div 4096 = 4 * q" by simp
  ultimately show "pg (l1 + 4 * of_nat i) = pg l1 + i div 1024" unfolding pg_def u q by simp
qed

lemma l2_slot:
  assumes "page_aligned l2" "k < 1024"
  shows "unat (l2 + 4 * of_nat k) = unat l2 + 4 * k" "unat (l2 + 4 * of_nat k) mod 4 = 0"
    "pg (l2 + 4 * of_nat k) = pg l2"
proof -
  have al: "unat l2 mod 4096 = 0" using assms(1) by (simp add: page_aligned_unat)
  have "l2 + of_nat (4 * k) = l2 + 4 * of_nat k" by simp
  moreover have "unat (l2 + of_nat (4 * k)) = unat l2 + 4 * k"
    by (rule aligned_add_unat [OF al]) (use assms(2) in simp_all)
  ultimately show u: "unat (l2 + 4 * of_nat k) = unat l2 + 4 * k" by simp
  show "unat (l2 + 4 * of_nat k) mod 4 = 0" unfolding u page_aligned_pg [OF assms(1)] by simp
  show "pg (l2 + 4 * of_nat k) = pg l2"
    using aligned_add_div_mod(1) [OF al, of "4 * k"] assms(2) by (simp add: pg_def u)
qed

lemma l2_slot_inj:
  assumes "page_aligned l2" "j < 1024" "k < 1024" "l2 + 4 * of_nat j = l2 + 4 * of_nat k"
  shows "j = k"
  using l2_slot(1) [OF assms(1,2)] l2_slot(1) [OF assms(1,3)] unfolding assms(4) by simp

lemma l1_slot_inj:
  assumes "unat (l1 :: u32) mod 16384 = 0" "i < 4096" "j < 4096" "l1 + 4 * of_nat i = l1 + 4 * of_nat j"
  shows "i = j"
  using l1_slot(1) [OF assms(1,2)] l1_slot(1) [OF assms(1,3)] unfolding assms(4) by simp

lemma unat_l1_index: "unat (l1_index va) = unat va div 1048576" "unat (l1_index va) < 4096"
proof -
  show u: "unat (l1_index va) = unat va div 1048576"
    using unat_drop_bit [of 20 va] by (simp add: l1_index_def)
  show "unat (l1_index va) < 4096" unfolding u using unat_bound32 [of va] by linarith
qed

lemma unat_l2_index: "unat (l2_index va) = unat va div 4096 mod 256" "unat (l2_index va) < 256"
proof -
  have "unat (l2_index va) = unat (drop_bit 12 va) mod 256"
    unfolding l2_index_def by (simp only: unat_and_low)
  then show u: "unat (l2_index va) = unat va div 4096 mod 256"
    using unat_drop_bit [of 12 va] by simp
  show "unat (l2_index va) < 256" unfolding u by simp
qed

section \<open>Well-formed tables and the translation they define\<close>

definition used_pgs :: "'a pmm_scheme \<Rightarrow> nat set" where
  "used_pgs s = (\<lambda>i. pg (base_pa s) + i) ` used_set s"

definition l1e :: "'a phys_scheme \<Rightarrow> u32 \<Rightarrow> nat \<Rightarrow> u32" where
  "l1e s l1 i = rd32 s (l1 + 4 * of_nat i)"

definition l2e :: "'a phys_scheme \<Rightarrow> u32 \<Rightarrow> nat \<Rightarrow> u32" where
  "l2e s l2 k = rd32 s (l2 + 4 * of_nat k)"

definition coarse :: "u32 \<Rightarrow> bool" where
  "coarse d \<longleftrightarrow> d AND L1_TYPE_MASK = L1_TYPE_COARSE"

definition l2b :: "'a phys_scheme \<Rightarrow> u32 \<Rightarrow> nat \<Rightarrow> u32" where
  "l2b s l1 i = L1_COARSE_L2BASE (l1e s l1 i)"

definition l2_slots :: "'a phys_scheme \<Rightarrow> u32 \<Rightarrow> nat set" where
  "l2_slots s l1 = {i. i < 4096 \<and> coarse (l1e s l1 i)}"

definition table_pgs :: "'a phys_scheme \<Rightarrow> u32 \<Rightarrow> nat set" where
  "table_pgs s l1 = {pg l1..<pg l1 + 4} \<union> (\<lambda>i. pg (l2b s l1 i)) ` l2_slots s l1"

definition tables_wf :: "'a pmm_scheme \<Rightarrow> u32 \<Rightarrow> bool" where
  "tables_wf s l1 \<longleftrightarrow> pmm_inv s \<and> unat l1 mod 16384 = 0 \<and> table_pgs s l1 \<subseteq> used_pgs s \<and>
     (\<forall>i \<in> l2_slots s l1. page_aligned (l2b s l1 i) \<and> pg (l2b s l1 i) \<notin> {pg l1..<pg l1 + 4}) \<and>
     inj_on (\<lambda>i. pg (l2b s l1 i)) (l2_slots s l1)"

text \<open>
  The abstract address space: a partial map from virtual page numbers (below \<open>2 ^ 20\<close>) to frames.
\<close>

definition xlate :: "'a phys_scheme \<Rightarrow> u32 \<Rightarrow> nat \<Rightarrow> u32 option" where
  "xlate s l1 n =
     (if n < 1048576 \<and> coarse (l1e s l1 (n div 256)) \<and> L2_IS_VALID (l2e s (l2b s l1 (n div 256)) (n mod 256))
      then Some (L2_SMALL_BASE (l2e s (l2b s l1 (n div 256)) (n mod 256))) else None)"

lemma used_pgs_pos:
  assumes "pmm_inv s" "n \<in> used_pgs s"
  shows "0 < n"
proof -
  have "page_aligned (base_pa s)" "base_pa s \<noteq> 0" using assms(1) by (auto simp: pmm_inv_def)
  then have "0 < pg (base_pa s)" using page_aligned_pg [of "base_pa s"] by (auto simp: unat_gt_0 [symmetric])
  then show ?thesis using assms(2) by (auto simp: used_pgs_def)
qed

lemma tables_wf_base:
  assumes "tables_wf s l1" "i \<in> l2_slots s l1"
  shows "l2b s l1 i \<noteq> 0" "page_aligned (l2b s l1 i)" "pg (l2b s l1 i) \<in> used_pgs s"
    "pg (l2b s l1 i) \<in> table_pgs s l1" "pg (l2b s l1 i) \<notin> {pg l1..<pg l1 + 4}"
proof -
  show in_t: "pg (l2b s l1 i) \<in> table_pgs s l1" using assms(2) by (simp add: table_pgs_def)
  then show u: "pg (l2b s l1 i) \<in> used_pgs s" using assms(1) by (auto simp: tables_wf_def)
  have "pmm_inv s" using assms(1) by (simp add: tables_wf_def)
  then have "0 < pg (l2b s l1 i)" using used_pgs_pos u by blast
  then show "l2b s l1 i \<noteq> 0" by (auto simp: pg_def)
qed (use assms in \<open>auto simp: tables_wf_def\<close>)

lemma tables_frame:
  assumes wf: "tables_wf s l1" and eq: "\<And>x. pg x \<in> table_pgs s l1 \<Longrightarrow> mem s' x = mem s x"
  shows "i < 4096 \<Longrightarrow> l1e s' l1 i = l1e s l1 i"
    "l2_slots s' l1 = l2_slots s l1"
    "i \<in> l2_slots s l1 \<Longrightarrow> l2b s' l1 i = l2b s l1 i"
    "i \<in> l2_slots s l1 \<Longrightarrow> k < 1024 \<Longrightarrow> l2e s' (l2b s l1 i) k = l2e s (l2b s l1 i) k"
    "table_pgs s' l1 = table_pgs s l1"
    "xlate s' l1 = xlate s l1"
proof -
  have al: "unat l1 mod 16384 = 0" using wf by (simp add: tables_wf_def)
  show e1: "l1e s' l1 i = l1e s l1 i" if i: "i < 4096" for i
  proof -
    have "i div 1024 < 4" using i by simp
    then have "pg (l1 + 4 * of_nat i) \<in> table_pgs s l1" unfolding l1_slot(3) [OF al i] by (simp add: table_pgs_def)
    then show ?thesis
      unfolding l1e_def rd32_def by (intro ld32_page_cong l1_slot(2) [OF al i]) (use eq in simp)
  qed
  show sl: "l2_slots s' l1 = l2_slots s l1" using e1 by (auto simp: l2_slots_def)
  show b: "l2b s' l1 i = l2b s l1 i" if "i \<in> l2_slots s l1" for i
    using e1 that by (simp add: l2b_def l2_slots_def)
  show e2: "l2e s' (l2b s l1 i) k = l2e s (l2b s l1 i) k" if "i \<in> l2_slots s l1" "k < 1024" for i k
    unfolding l2e_def rd32_def
    by (rule ld32_page_cong)
       (use l2_slot [OF tables_wf_base(2) [OF wf that(1)] that(2)] eq tables_wf_base(4) [OF wf that(1)] in simp_all)
  show "table_pgs s' l1 = table_pgs s l1" unfolding table_pgs_def sl using b by auto
  show "xlate s' l1 = xlate s l1"
  proof
    fix n
    show "xlate s' l1 n = xlate s l1 n"
    proof (cases "n < 1048576 \<and> coarse (l1e s l1 (n div 256))")
      case True
      then have i: "n div 256 \<in> l2_slots s l1" by (auto simp: l2_slots_def)
      then have "n div 256 < 4096" by (simp add: l2_slots_def)
      then show ?thesis using True e1 b [OF i] e2 [OF i, of "n mod 256"] by (simp add: xlate_def)
    next
      case False
      moreover have "n div 256 < 4096" if "n < 1048576" using that by simp
      ultimately show ?thesis using e1 by (auto simp: xlate_def)
    qed
  qed
qed

lemma tables_wf_frame:
  assumes "tables_wf s l1" "\<And>x. pg x \<in> table_pgs s l1 \<Longrightarrow> mem s' x = mem s x"
    and "pmm_inv s'" "table_pgs s l1 \<subseteq> used_pgs s'"
  shows "tables_wf s' l1"
proof -
  note f = tables_frame [OF assms(1,2)]
  have "inj_on (\<lambda>i. pg (l2b s' l1 i)) (l2_slots s l1) = inj_on (\<lambda>i. pg (l2b s l1 i)) (l2_slots s l1)"
    by (rule inj_on_cong) (simp add: f(3))
  then show ?thesis using assms(1,3,4) f(2,3,5) by (simp add: tables_wf_def)
qed

section \<open>Frames by page number\<close>

lemma pg_page_pa:
  assumes "pmm_inv s" "i < unat (num_pages s)"
  shows "pg (page_pa s i) = pg (base_pa s) + i"
proof -
  have "(unat (base_pa s) + 4096 * i) div 4096 = unat (base_pa s) div 4096 + i" by simp
  then show ?thesis by (simp add: pg_def unat_page_pa [OF assms])
qed

lemma alloc_aligned_pgs:
  assumes inv: "pmm_inv s" and n: "0 < n" and alloc: "pmm_alloc_aligned n align s = (pa, s')"
  obtains (none) "pa = 0" "s' = s"
  | (run) "pa \<noteq> 0" "pa AND (align - 1) = 0" "page_aligned pa"
      "{pg pa..<pg pa + unat n} \<inter> used_pgs s = {}"
      "used_pgs s' = {pg pa..<pg pa + unat n} \<union> used_pgs s" "pmm_inv s'"
      "mem s' = (\<lambda>x. if pg x \<in> {pg pa..<pg pa + unat n} then 0 else mem s x)"
      "base_pa s' = base_pa s" "num_pages s' = num_pages s" "pmm.more s' = pmm.more s"
  using inv n alloc
proof (cases rule: pmm_alloc_aligned_cases)
  case (run i)
  have i: "i < unat (num_pages s)" using run(1) n by (simp add: word_less_nat_alt)
  have pa: "pg pa = pg (base_pa s) + i" using pg_page_pa [OF inv i] run(3) by simp
  have img: "{pg pa..<pg pa + unat n} = (\<lambda>j. pg (base_pa s) + j) ` {i..<i + unat n}"
    unfolding pa by (simp add: image_add_atLeastLessThan add.commute add.left_commute)
  have inj: "inj_on (\<lambda>j. pg (base_pa s) + j) ({i..<i + unat n} \<union> used_set s)" by simp
  have "{pg pa..<pg pa + unat n} \<inter> used_pgs s = {}"
    unfolding img used_pgs_def using run(2) by auto
  moreover have "used_pgs s' = {pg pa..<pg pa + unat n} \<union> used_pgs s"
    unfolding img used_pgs_def run(6,8) by (simp add: image_Un)
  moreover have "(\<exists>j < unat n. same_page x (page_pa s (i + j))) \<longleftrightarrow> pg x \<in> {pg pa..<pg pa + unat n}" for x
  proof -
    have "(\<exists>j < unat n. same_page x (page_pa s (i + j))) \<longleftrightarrow> (\<exists>j < unat n. pg x = pg (base_pa s) + (i + j))"
      using run(1) pg_page_pa [OF inv] by (auto simp: pg_same_page)
    also have "\<dots> \<longleftrightarrow> pg x \<in> {pg pa..<pg pa + unat n}"
      unfolding pa by (auto intro: exI [of _ "pg x - (pg (base_pa s) + i)"])
    finally show ?thesis .
  qed
  moreover have "pa \<noteq> 0" "page_aligned pa" using page_pa_nonzero [OF inv i] page_pa_aligned [OF inv i] run(3) by simp_all
  ultimately show ?thesis using run(4,5,7-10) by (intro that(2)) simp_all
qed (use that(1) in blast)

lemma free_page_pgs:
  assumes "pmm_inv s" "page_aligned pa" "pg pa \<in> used_pgs s"
  shows "pmm_inv (pmm_free_page pa s)" "used_pgs (pmm_free_page pa s) = used_pgs s - {pg pa}"
proof -
  obtain i where i: "i \<in> used_set s" "pg pa = pg (base_pa s) + i" using assms(3) by (auto simp: used_pgs_def)
  have lt: "i < unat (num_pages s)" using i(1) by (simp add: used_set_def)
  have pa: "pa = page_pa s i"
    by (rule pg_inj [OF assms(2) page_pa_aligned [OF assms(1) lt]]) (simp add: pg_page_pa [OF assms(1) lt] i(2))
  have u: "used_set (pmm_free_page pa s) = used_set s - {i}"
    using pmm_free_page_index [OF assms(1) lt] pa by simp
  have "used_pgs (pmm_free_page pa s) = (\<lambda>j. pg (base_pa s) + j) ` (used_set s - {i})"
    unfolding used_pgs_def u pmm_free_page_frame ..
  also have "\<dots> = used_pgs s - {pg pa}"
    unfolding used_pgs_def i(2) by (subst image_set_diff) auto
  finally show "used_pgs (pmm_free_page pa s) = used_pgs s - {pg pa}" .
  show "pmm_inv (pmm_free_page pa s)" by (rule pmm_free_page_inv [OF assms(1)])
qed

lemma alloc_page_pgs:
  assumes inv: "pmm_inv s" and alloc: "pmm_alloc_page s = (pa, s')"
  obtains (none) "pa = 0" "s' = s"
  | (page) "pa \<noteq> 0" "page_aligned pa" "pg pa \<notin> used_pgs s" "used_pgs s' = insert (pg pa) (used_pgs s)" "pmm_inv s'"
      "mem s' = (\<lambda>x. if pg x = pg pa then 0 else mem s x)"
      "base_pa s' = base_pa s" "num_pages s' = num_pages s" "pmm.more s' = pmm.more s"
  using inv alloc
proof (cases rule: pmm_alloc_page_cases)
  case full
  then show ?thesis using that(1) by blast
next
  case (page i)
  have pa: "pg pa = pg (base_pa s) + i" using pg_page_pa [OF inv page(1)] page(4) by simp
  show ?thesis
  proof (rule that(2))
    show "pg pa \<notin> used_pgs s" unfolding pa used_pgs_def using page(2) by auto
    show "used_pgs s' = insert (pg pa) (used_pgs s)" unfolding pa used_pgs_def page(8,10) by simp
    show "mem s' = (\<lambda>x. if pg x = pg pa then 0 else mem s x)" using page(9) by (simp add: pg_same_page)
  qed (use page in simp_all)
qed

section \<open>Frame conditions of the table code\<close>

text \<open>The parts of the kernel state that page-table code leaves alone.\<close>

definition vm_frame :: "'a vm_scheme \<Rightarrow> 'a vm_scheme \<Rightarrow> bool" where
  "vm_frame s s' \<longleftrightarrow> head s' = head s \<and> tail s' = tail s \<and> used_bytes s' = used_bytes s \<and>
     kernel_l1 s' = kernel_l1 s \<and> base_pa s' = base_pa s \<and> num_pages s' = num_pages s \<and> vm.more s' = vm.more s"

lemma vm_frame_refl [simp, intro]: "vm_frame s s"
  by (simp add: vm_frame_def)

lemma vm_frame_trans: "vm_frame s t \<Longrightarrow> vm_frame t u \<Longrightarrow> vm_frame s u"
  by (simp add: vm_frame_def)

lemma vm_frame_more:
  assumes "pmm.more s' = pmm.more s" "base_pa s' = base_pa s" "num_pages s' = num_pages s"
  shows "vm_frame s s'" "hw s' = hw s"
proof -
  have k: "kheap.more s' = kheap.more s" using kheap_of_more [OF assms(1)] by simp
  then have "kernel_l1 s' = kernel_l1 s" "hw s' = hw s" "vm.more s' = vm.more s"
    by (metis vm.select_convs vm.surjective kheap.select_convs(4))+
  then show "vm_frame s s'" "hw s' = hw s" using kheap_of_more [OF assms(1)] assms(2,3) by (simp_all add: vm_frame_def)
qed

lemma emit_simps [simp]:
  "mem (emit e s) = mem s" "pmm_inv (emit e s) = pmm_inv s" "used_pgs (emit e s) = used_pgs s"
  "rd32 (emit e s) a = rd32 s a" "vm_frame s (emit e t) = vm_frame s t" "kernel_l1 (emit e s) = kernel_l1 s"
  by (simp_all add: emit_def rd32_def vm_frame_def used_pgs_def pmm_inv_def used_set_def bit_get_def)

lemma wr32_simps [simp]:
  "mem (wr32 a v s) = st32 (mem s) a v" "pmm_inv (wr32 a v s) = pmm_inv s" "used_pgs (wr32 a v s) = used_pgs s"
  "vm_frame s (wr32 a v t) = vm_frame s t" "kernel_l1 (wr32 a v t) = kernel_l1 t"
  by (simp_all add: wr32_def vm_frame_def used_pgs_def)

lemma fold_emit_simps [simp]:
  "mem (fold (\<lambda>i. emit (e i)) xs s) = mem s" "pmm_inv (fold (\<lambda>i. emit (e i)) xs s) = pmm_inv s"
  "used_pgs (fold (\<lambda>i. emit (e i)) xs s) = used_pgs s" "vm_frame t (fold (\<lambda>i. emit (e i)) xs s) = vm_frame t s"
  by (induction xs arbitrary: s) simp_all

lemma clean_table_simps [simp]:
  "mem (clean_table a n s) = mem s" "pmm_inv (clean_table a n s) = pmm_inv s"
  "used_pgs (clean_table a n s) = used_pgs s" "vm_frame t (clean_table a n s) = vm_frame t s"
  by (simp_all add: clean_table_def)

lemma fold_wr32_simps [simp]:
  "mem (fold (\<lambda>i. wr32 (a i) (v i)) xs s) = fold (\<lambda>i m. st32 m (a i) (v i)) xs (mem s)"
  "pmm_inv (fold (\<lambda>i. wr32 (a i) (v i)) xs s) = pmm_inv s"
  "used_pgs (fold (\<lambda>i. wr32 (a i) (v i)) xs s) = used_pgs s"
  "vm_frame t (fold (\<lambda>i. wr32 (a i) (v i)) xs s) = vm_frame t s"
  by (induction xs arbitrary: s) simp_all

lemma st32_zero_same:
  assumes "m a = 0" "m (a + 1) = 0" "m (a + 2) = 0" "m (a + 3) = 0"
  shows "st32 m a 0 = m"
  using assms by (simp add: st32_def fun_eq_iff)

lemma fold_zero_stores:
  assumes "page_aligned l2" "\<And>x. pg x = pg l2 \<Longrightarrow> m x = 0" "\<And>k. k \<in> set ks \<Longrightarrow> k < 1024"
  shows "fold (\<lambda>k m. st32 m (l2 + 4 * of_nat k) 0) ks m = m"
  using assms(3)
proof (induction ks)
  case (Cons k ks)
  let ?a = "l2 + 4 * of_nat k"
  have k: "k < 1024" using Cons.prems by simp
  have z: "m (?a + of_nat j) = 0" if "j < 4" for j
    by (rule assms(2)) (simp only: pg_word [OF l2_slot(2) [OF assms(1) k] that] l2_slot(3) [OF assms(1) k])
  have "st32 m ?a 0 = m"
    using z [of 0] z [of 1] z [of 2] z [of 3] by (intro st32_zero_same) simp_all
  then show ?case using Cons by simp
qed simp

lemma L1_COARSE_bits:
  assumes "page_aligned l2"
  shows "coarse (L1_COARSE l2)" "L1_COARSE_L2BASE (L1_COARSE l2) = l2"
proof -
  have low: "bit l2 n \<Longrightarrow> 12 \<le> n" for n
  proof (rule ccontr)
    assume b: "bit l2 n" and n: "\<not> 12 \<le> n"
    have "l2 AND 0xFFF = 0" using assms by (simp add: page_aligned_def)
    then have "\<not> bit (l2 AND mask 12) n" by (simp add: mask_numeral)
    then show False using b n by (simp add: bit_simps)
  qed
  have hi: "(0xFFFFFC00 :: u32) = NOT (mask 10)" by (simp add: mask_numeral)
  have id: "l2 AND 0xFFFFFC00 = l2"
    unfolding hi by (rule bit_word_eqI) (auto simp: bit_simps dest: low)
  have "(l2 OR 1) AND mask 2 = 1"
    by (rule bit_word_eqI) (auto simp: bit_simps dest: low)
  then show "coarse (L1_COARSE l2)"
    by (simp add: coarse_def L1_COARSE_def id L1_TYPE_MASK_def L1_TYPE_COARSE_def mask_numeral)
  have "(l2 OR 1) AND NOT (mask 10) = l2"
    by (rule bit_word_eqI) (auto simp: bit_simps dest: low)
  then show "L1_COARSE_L2BASE (L1_COARSE l2) = l2"
    unfolding L1_COARSE_L2BASE_def L1_COARSE_def id by (simp only: hi)
qed

definition pool_full :: "'a pmm_scheme \<Rightarrow> bool" where
  "pool_full s \<longleftrightarrow> (\<forall>i < unat (num_pages s). bit_get (of_nat i) s)"

text \<open>Every frame is aligned for a second-level table, so a table is refused only when no frame is left.\<close>

lemma l2_refused:
  assumes inv: "pmm_inv s" and al: "pmm_alloc_aligned 1 L2_ALIGN s = (0, s')"
  shows "pool_full s"
proof -
  have one: "0 < (1 :: u32)" by simp
  from inv one al show ?thesis
  proof (cases rule: pmm_alloc_aligned_cases)
    case none
    have "i \<in> used_set s" if i: "i < unat (num_pages s)" for i
    proof -
      have "page_pa s i AND 0xFFF = 0" using page_pa_aligned [OF inv i] by (simp add: page_aligned_def)
      then have "(page_pa s i AND 0xFFF) AND 0x3FF = 0" by simp
      then have "page_pa s i AND (L2_ALIGN - 1) = 0" by (simp add: L2_ALIGN_def and.assoc)
      then show ?thesis using none(3) [of i] i by auto
    qed
    then show ?thesis by (auto simp: pool_full_def used_set_def)
  next
    case (run i)
    then show ?thesis using page_pa_nonzero [OF inv, of i] by simp
  qed
qed

lemma pool_full_mono:
  assumes full: "pool_full s" and fr: "base_pa s' = base_pa s" "num_pages s' = num_pages s"
    and used: "used_pgs s \<subseteq> used_pgs s'"
  shows "pool_full s'"
proof -
  have "i \<in> used_set s'" if "i < unat (num_pages s)" for i
  proof -
    have "pg (base_pa s) + i \<in> used_pgs s" using full that by (simp add: used_pgs_def pool_full_def used_set_def)
    then show ?thesis using used fr(1) by (auto simp: used_pgs_def)
  qed
  then show ?thesis using fr(2) by (auto simp: pool_full_def used_set_def)
qed

lemma l2_for_cases:
  assumes wf: "tables_wf s l1" and i: "i = unat (l1_index va)"
  obtains (present) "i \<in> l2_slots s l1" "l2_for l1 va c s = (l2b s l1 i, s)"
  | (absent) "i \<notin> l2_slots s l1" "l2_for l1 va c s = (0, s)" "c \<longrightarrow> pool_full s"
  | (new) l2 s' where "i \<notin> l2_slots s l1" "c" "l2_for l1 va c s = (l2, s')" "l2 \<noteq> 0" "page_aligned l2"
      "pg l2 \<notin> used_pgs s" "used_pgs s' = insert (pg l2) (used_pgs s)" "pmm_inv s'" "vm_frame s s'"
      "mem s' = st32 (\<lambda>x. if pg x = pg l2 then 0 else mem s x) (l1 + 4 * of_nat i) (L1_COARSE l2)"
proof -
  have lt: "i < 4096" using i unat_l1_index(2) by simp
  have slot: "l1 + 4 * l1_index va = l1 + 4 * of_nat i" by (simp add: i)
  have inv: "pmm_inv s" using wf by (simp add: tables_wf_def)
  show thesis
  proof (cases "i \<in> l2_slots s l1")
    case True
    then have "l2_for l1 va c s = (l2b s l1 i, s)"
      by (simp add: l2_for_def Let_def slot l2_slots_def coarse_def l1e_def l2b_def)
    then show thesis using present True by blast
  next
    case False
    then have nc: "rd32 s (l1 + 4 * of_nat i) AND L1_TYPE_MASK \<noteq> L1_TYPE_COARSE"
      using lt by (simp add: l2_slots_def coarse_def l1e_def)
    show thesis
    proof (cases c)
      case no: False
      then show thesis using absent False nc by (simp add: l2_for_def Let_def slot)
    next
      case yes: True
      obtain l2 t where al: "pmm_alloc_aligned 1 L2_ALIGN s = (l2, t)" by fastforce
      have one: "0 < (1 :: u32)" by simp
      from inv one al show thesis
      proof (cases rule: alloc_aligned_pgs)
        case none
        then show thesis using absent False yes nc al l2_refused [OF inv, of t] by (simp add: l2_for_def Let_def slot)
      next
        case run
        have z: "fold (\<lambda>k m. st32 m (l2 + 4 * of_nat k) 0) [0..<L2_ENTRIES] (mem t) = mem t"
          by (rule fold_zero_stores [OF run(3)]) (auto simp: run(7) L2_ENTRIES_def)
        have mt: "mem t = (\<lambda>x. if pg x = pg l2 then 0 else mem s x)" using run(7) by auto
        note fr = vm_frame_more(1) [OF run(10,8,9)]
        let ?u = "emit (TlbiMva (va AND 0xFFF00000)) (emit (CleanLine (l1 + 4 * of_nat i))
          (wr32 (l1 + 4 * of_nat i) (L1_COARSE l2) (clean_table l2 L2_SIZE
            (fold (\<lambda>k. wr32 (l2 + 4 * of_nat k) 0) [0..<L2_ENTRIES] t))))"
        have "l2_for l1 va c s = (l2, ?u)"
          using yes nc al run(1) by (simp add: l2_for_def Let_def slot)
        moreover have "mem ?u = st32 (\<lambda>x. if pg x = pg l2 then 0 else mem s x) (l1 + 4 * of_nat i) (L1_COARSE l2)"
          using z mt by simp
        moreover have "{pg l2..<pg l2 + unat (1 :: u32)} = {pg l2}" by auto
        ultimately show thesis
          using new [of l2 ?u] False yes run(1,3,4,5,6) fr by simp
      qed
    qed
  qed
qed

lemma xlate_slots:
  "xlate s l1 n = (if n < 1048576 \<and> n div 256 \<in> l2_slots s l1 \<and> L2_IS_VALID (l2e s (l2b s l1 (n div 256)) (n mod 256))
     then Some (L2_SMALL_BASE (l2e s (l2b s l1 (n div 256)) (n mod 256))) else None)"
proof -
  have "n div 256 < 4096" if "n < 1048576" using that by simp
  then show ?thesis by (auto simp: xlate_def l2_slots_def)
qed

text \<open>A new, empty second-level table hung into an unused slot changes no translation.\<close>

lemma new_table:
  assumes wf: "tables_wf s l1" and i: "i < 4096" "i \<notin> l2_slots s l1"
    and l2: "page_aligned l2" "pg l2 \<notin> used_pgs s"
    and t: "mem t = st32 (\<lambda>x. if pg x = pg l2 then 0 else mem s x) (l1 + 4 * of_nat i) (L1_COARSE l2)"
      "used_pgs t = insert (pg l2) (used_pgs s)" "pmm_inv t"
  shows "tables_wf t l1" "l2_slots t l1 = insert i (l2_slots s l1)" "l2b t l1 i = l2"
    "table_pgs t l1 = insert (pg l2) (table_pgs s l1)" "xlate t l1 = xlate s l1"
    "pg x \<notin> insert (pg l2) {pg l1..<pg l1 + 4} \<Longrightarrow> mem t x = mem s x"
proof -
  have al: "unat l1 mod 16384 = 0" and tp: "table_pgs s l1 \<subseteq> used_pgs s" using wf by (auto simp: tables_wf_def)
  then have fresh: "pg l2 \<notin> table_pgs s l1" using l2(2) by blast
  have slot: "unat (l1 + 4 * of_nat i) mod 4 = 0" "pg (l1 + 4 * of_nat i) \<in> {pg l1..<pg l1 + 4}"
    using l1_slot [OF al i(1)] i(1) by simp_all
  show out: "mem t x = mem s x" if "pg x \<notin> insert (pg l2) {pg l1..<pg l1 + 4}" for x
    using that slot st32_page [OF slot(1), of x] by (auto simp: t(1))
  have e1: "l1e t l1 j = (if j = i then L1_COARSE l2 else l1e s l1 j)" if j: "j < 4096" for j
  proof -
    note sj = l1_slot [OF al j]
    have "pg (l1 + 4 * of_nat j) \<in> {pg l1..<pg l1 + 4}" using sj(3) j by simp
    then have "pg (l1 + 4 * of_nat j) \<noteq> pg l2" using fresh by (auto simp: table_pgs_def)
    then have "ld32 (\<lambda>x. if pg x = pg l2 then 0 else mem s x) (l1 + 4 * of_nat j) = ld32 (mem s) (l1 + 4 * of_nat j)"
      by (intro ld32_page_cong [OF sj(2)]) simp
    moreover have "l1 + 4 * of_nat j = l1 + 4 * of_nat i \<longleftrightarrow> j = i" using l1_slot_inj [OF al j i(1)] by blast
    ultimately show ?thesis unfolding l1e_def rd32_def t(1) ld32_st32_iff [OF slot(1) sj(2)] by simp
  qed
  show sl: "l2_slots t l1 = insert i (l2_slots s l1)"
    using e1 i L1_COARSE_bits(1) [OF l2(1)] by (auto simp: l2_slots_def split: if_splits)
  show bi: "l2b t l1 i = l2" using e1 [OF i(1)] L1_COARSE_bits(2) [OF l2(1)] by (simp add: l2b_def)
  have b: "l2b t l1 j = l2b s l1 j" if "j \<in> l2_slots s l1" for j
    using that e1 [of j] i(2) by (auto simp: l2b_def l2_slots_def)
  show tpt: "table_pgs t l1 = insert (pg l2) (table_pgs s l1)"
    unfolding table_pgs_def sl using b bi by (auto simp: image_iff)
  have "pg l2 \<noteq> pg (l2b s l1 j)" if "j \<in> l2_slots s l1" for j
    using tables_wf_base(4) [OF wf that] fresh by metis
  then have "pg (l2b t l1 i) \<notin> (\<lambda>j. pg (l2b t l1 j)) ` (l2_slots s l1)" using b bi by auto
  moreover have "inj_on (\<lambda>j. pg (l2b t l1 j)) (l2_slots s l1)"
    using wf b by (simp add: tables_wf_def inj_on_def)
  ultimately have "inj_on (\<lambda>j. pg (l2b t l1 j)) (insert i (l2_slots s l1))"
    using i(2) by (simp add: inj_on_insert)
  moreover have "pg l2 \<notin> {pg l1..<pg l1 + 4}" using fresh by (auto simp: table_pgs_def)
  ultimately show "tables_wf t l1"
    using wf t(2,3) tpt b bi l2(1) tables_wf_base(2,5) [OF wf] unfolding tables_wf_def sl by auto
  have old: "l2e t (l2b s l1 j) k = l2e s (l2b s l1 j) k" if "j \<in> l2_slots s l1" "k < 256" for j k
  proof -
    note sk = l2_slot [OF tables_wf_base(2) [OF wf that(1)], of k]
    have "pg (l2b s l1 j) \<notin> insert (pg l2) {pg l1..<pg l1 + 4}"
      using tables_wf_base(4,5) [OF wf that(1)] fresh by auto
    then show ?thesis unfolding l2e_def rd32_def using sk that(2) out by (intro ld32_page_cong) auto
  qed
  have new: "l2e t l2 k = 0" if "k < 256" for k
  proof -
    note sk = l2_slot [OF l2(1), of k]
    have "pg l2 \<noteq> pg (l1 + 4 * of_nat i)" using slot(2) fresh by (auto simp: table_pgs_def)
    then show ?thesis unfolding l2e_def rd32_def
      using sk that st32_page [OF slot(1)] by (intro ld32_zero_bytes) (auto simp: t(1))
  qed
  show "xlate t l1 = xlate s l1"
  proof
    fix n :: nat
    have "n mod 256 < 256" by simp
    then show "xlate t l1 n = xlate s l1 n"
      using old new b bi i(2) by (auto simp: xlate_slots sl L2_IS_VALID_def)
  qed
qed

text \<open>One second-level entry is one entry of the translation.\<close>

lemma pte_write:
  assumes wf: "tables_wf s l1" and i: "i \<in> l2_slots s l1" and k: "k < 256"
    and t: "mem t = st32 (mem s) (l2b s l1 i + 4 * of_nat k) v" "used_pgs t = used_pgs s" "pmm_inv t"
  shows "tables_wf t l1" "table_pgs t l1 = table_pgs s l1"
    "xlate t l1 = (xlate s l1)(256 * i + k := (if L2_IS_VALID v then Some (L2_SMALL_BASE v) else None))"
    "pg x \<noteq> pg (l2b s l1 i) \<Longrightarrow> mem t x = mem s x"
proof -
  let ?b = "l2b s l1 i"
  have al: "unat l1 mod 16384 = 0" using wf by (simp add: tables_wf_def)
  note base = tables_wf_base [OF wf i]
  have k': "k < 1024" using k by simp
  note sk = l2_slot [OF base(2) k']
  show out: "mem t x = mem s x" if "pg x \<noteq> pg ?b" for x
    unfolding t(1) by (rule st32_page [OF sk(2)]) (use that sk(3) in simp)
  have e1: "l1e t l1 j = l1e s l1 j" if j: "j < 4096" for j
    unfolding l1e_def rd32_def
    using l1_slot [OF al j] j base(5) by (intro ld32_page_cong out) auto
  have sl: "l2_slots t l1 = l2_slots s l1" using e1 by (auto simp: l2_slots_def)
  have b: "l2b t l1 j = l2b s l1 j" if "j \<in> l2_slots s l1" for j
    using that e1 by (simp add: l2b_def l2_slots_def)
  show tp: "table_pgs t l1 = table_pgs s l1" unfolding table_pgs_def sl using b by auto
  have "inj_on (\<lambda>i. pg (l2b t l1 i)) (l2_slots s l1) = inj_on (\<lambda>i. pg (l2b s l1 i)) (l2_slots s l1)"
    by (rule inj_on_cong) (simp add: b)
  then show "tables_wf t l1" using wf t(2,3) tp b by (simp add: tables_wf_def sl)
  have e2: "l2e t (l2b s l1 j) n = (if j = i \<and> n = k then v else l2e s (l2b s l1 j) n)"
    if "j \<in> l2_slots s l1" "n < 256" for j n
  proof -
    have n: "n < 1024" using that(2) by simp
    note sn = l2_slot [OF tables_wf_base(2) [OF wf that(1)] n]
    have "l2b s l1 j + 4 * of_nat n = ?b + 4 * of_nat k \<longleftrightarrow> j = i \<and> n = k"
    proof
      assume eq: "l2b s l1 j + 4 * of_nat n = ?b + 4 * of_nat k"
      then have "pg (l2b s l1 j) = pg ?b" using sn(3) sk(3) by simp
      then have j: "j = i" using wf that(1) i by (auto simp: tables_wf_def inj_on_def)
      then show "j = i \<and> n = k" using l2_slot_inj [OF base(2) n k'] eq by blast
    qed simp
    then show ?thesis unfolding l2e_def rd32_def t(1) ld32_st32_iff [OF sk(2) sn(2)] by simp
  qed
  show "xlate t l1 = (xlate s l1)(256 * i + k := (if L2_IS_VALID v then Some (L2_SMALL_BASE v) else None))"
  proof
    fix n :: nat
    have m: "n mod 256 < 256" by simp
    have idx: "n = 256 * i + k \<longleftrightarrow> n div 256 = i \<and> n mod 256 = k"
      using k div_mult_mod_eq [of n 256] by auto
    have "256 * i + k < 1048576" using i k by (simp add: l2_slots_def)
    then show "xlate t l1 n = ((xlate s l1)(256 * i + k := (if L2_IS_VALID v then Some (L2_SMALL_BASE v) else None))) n"
      using e2 [OF _ m] b i idx by (auto simp: xlate_slots sl)
  qed
qed

section \<open>The operations implement a partial map\<close>

lemma pg_index:
  "pg va div 256 = unat (l1_index va)" "pg va mod 256 = unat (l2_index va)"
  "256 * unat (l1_index va) + unat (l2_index va) = pg va" "pg va < 1048576"
proof -
  show a: "pg va div 256 = unat (l1_index va)"
    unfolding unat_l1_index pg_def by (simp add: div_mult2_eq [symmetric])
  show b: "pg va mod 256 = unat (l2_index va)" unfolding unat_l2_index pg_def ..
  show "256 * unat (l1_index va) + unat (l2_index va) = pg va" using a b mult_div_mod_eq [of 256 "pg va"] by simp
  show "pg va < 1048576" unfolding pg_def using unat_bound32 [of va] by linarith
qed

lemma vm_walk_xlate:
  assumes "tables_wf s l1"
  shows "vm_walk l1 va s = (case xlate s l1 (pg va) of None \<Rightarrow> 0 | Some f \<Rightarrow> f OR (va AND 0xFFF))"
  using assms refl
proof (cases rule: l2_for_cases [where va = va and c = False])
  case present
  then show ?thesis
    using tables_wf_base(1) [OF assms present(1)] pg_index(4) [of va]
    by (simp add: vm_walk_def xlate_slots pg_index l2e_def)
next
  case absent
  then show ?thesis by (simp add: vm_walk_def xlate_slots pg_index)
qed simp

lemma small_page_bits:
  "L2_IS_VALID (L2_SMALL_BASE pa OR L2_SMALL_USER)"
  "L2_SMALL_BASE (L2_SMALL_BASE pa OR L2_SMALL_USER) = L2_SMALL_BASE pa"
proof -
  have "bit ((L2_SMALL_BASE pa OR L2_SMALL_USER) AND 3) 1"
    by (simp add: bit_simps L2_SMALL_USER_def)
  then show "L2_IS_VALID (L2_SMALL_BASE pa OR L2_SMALL_USER)" unfolding L2_IS_VALID_def by (metis bit_0_eq bot_apply bot_bool_def)
  have hi: "(0xFFFFF000 :: u32) = NOT (mask 12)" by (simp add: mask_numeral)
  have "(0x7E :: u32) AND NOT (mask 12) = 0" by (simp add: mask_numeral)
  then show "L2_SMALL_BASE (L2_SMALL_BASE pa OR L2_SMALL_USER) = L2_SMALL_BASE pa"
    unfolding L2_SMALL_BASE_def L2_SMALL_USER_def hi
    by (simp add: bit.conj_disj_distrib2 and.assoc)
qed

text \<open>What \<open>vm_map_page\<close> changes besides the translation: only tables of its own address space.\<close>

definition mapped :: "'a vm_scheme \<Rightarrow> u32 \<Rightarrow> 'a vm_scheme \<Rightarrow> bool" where
  "mapped s l1 s' \<longleftrightarrow> tables_wf s' l1 \<and> table_pgs s l1 \<subseteq> table_pgs s' l1 \<and>
     (table_pgs s' l1 - table_pgs s l1) \<inter> used_pgs s = {} \<and> used_pgs s' = used_pgs s \<union> table_pgs s' l1 \<and>
     (\<forall>x. pg x \<notin> table_pgs s' l1 \<longrightarrow> mem s' x = mem s x) \<and> vm_frame s s'"

lemma l2_for_create:
  assumes wf: "tables_wf s l1"
  obtains (oom) "l2_for l1 va True s = (0, s)" "pool_full s"
  | (table) t where "l2_for l1 va True s = (l2b t l1 (unat (l1_index va)), t)" "l2b t l1 (unat (l1_index va)) \<noteq> 0"
      "unat (l1_index va) \<in> l2_slots t l1" "mapped s l1 t" "xlate t l1 = xlate s l1"
  using wf refl
proof (cases rule: l2_for_cases [where va = va and c = True])
  case present
  have "mapped s l1 s" using wf by (auto simp: mapped_def tables_wf_def)
  then show ?thesis using table [of s] present tables_wf_base(1) [OF wf] by simp
next
  case absent
  then show ?thesis using oom by simp
next
  case (new l2 t)
  have i: "unat (l1_index va) < 4096" by (rule unat_l1_index)
  note nt = new_table [OF wf i new(1,5,6,10,7,8)]
  have "table_pgs s l1 \<subseteq> used_pgs s" using wf by (simp add: tables_wf_def)
  then have "mapped s l1 t"
    unfolding mapped_def using nt(1,4) new(6,7,9) nt(6) by (auto simp: table_pgs_def)
  then show ?thesis using table [of t] new nt by simp
qed

lemma vm_map_page_cases:
  assumes wf: "tables_wf s l1" and va: "USER_VA_MIN \<le> va" "va < USER_VA_MAX"
  obtains (oom) "vm_map_page l1 va pa s = (-2, s)" "pool_full s"
  | (ok) s' where "vm_map_page l1 va pa s = (0, s')" "mapped s l1 s'"
      "xlate s' l1 = (xlate s l1)(pg va \<mapsto> L2_SMALL_BASE pa)"
proof (cases rule: l2_for_create [OF wf, of va])
  case 1
  then show ?thesis using va that(1) by (simp add: vm_map_page_def not_less [symmetric])
next
  case (2 t)
  let ?i = "unat (l1_index va)" and ?k = "unat (l2_index va)"
  let ?v = "L2_SMALL_BASE pa OR L2_SMALL_USER"
  define u where "u = emit (CleanLine (l2b t l1 ?i + 4 * l2_index va)) (wr32 (l2b t l1 ?i + 4 * l2_index va) ?v t)"
  have wft: "tables_wf t l1" using 2 by (simp add: mapped_def)
  have mu: "mem u = st32 (mem t) (l2b t l1 ?i + 4 * of_nat ?k) ?v" by (simp add: u_def)
  have uu: "used_pgs u = used_pgs t" "pmm_inv u" "vm_frame t u"
    using wft by (simp_all add: u_def tables_wf_def)
  note pw = pte_write [OF wft 2(3) unat_l2_index(2) mu uu(1,2)]
  have "vm_map_page l1 va pa s = (0, u)"
    using va 2(1,2) by (simp add: vm_map_page_def u_def Let_def not_less [symmetric])
  moreover have "xlate u l1 = (xlate s l1)(pg va \<mapsto> L2_SMALL_BASE pa)"
    using pw(3) 2(5) by (simp add: small_page_bits pg_index)
  moreover have "mapped s l1 u"
  proof -
    have "mem u x = mem t x" if "pg x \<notin> table_pgs t l1" for x
      using pw(4) [of x] that tables_wf_base(4) [OF wft 2(3)] by metis
    moreover have "vm_frame s u" using 2(4) uu(3) vm_frame_trans by (auto simp: mapped_def)
    ultimately show ?thesis using 2(4) pw(1,2) uu(1) by (simp add: mapped_def)
  qed
  ultimately show ?thesis using that(2) by blast
qed

lemma vm_unmap_page_cases:
  assumes wf: "tables_wf s l1"
  obtains (none) "vm_unmap_page l1 va s = (-1, s)" "xlate s l1 (pg va) = None"
  | (ok) s' where "vm_unmap_page l1 va s = (0, s')" "xlate s l1 (pg va) \<noteq> None" "mapped s l1 s'"
      "xlate s' l1 = (xlate s l1)(pg va := None)" "used_pgs s' = used_pgs s"
  using wf refl
proof (cases rule: l2_for_cases [where va = va and c = False])
  case absent
  then show ?thesis using none by (simp add: vm_unmap_page_def xlate_slots pg_index)
next
  case present
  let ?i = "unat (l1_index va)" and ?k = "unat (l2_index va)"
  have b: "l2b s l1 ?i \<noteq> 0" by (rule tables_wf_base(1) [OF wf present(1)])
  have xl: "xlate s l1 (pg va) = (if L2_IS_VALID (l2e s (l2b s l1 ?i) ?k) then Some (L2_SMALL_BASE (l2e s (l2b s l1 ?i) ?k)) else None)"
    using present(1) pg_index(4) by (simp add: xlate_slots pg_index)
  show ?thesis
  proof (cases "L2_IS_VALID (l2e s (l2b s l1 ?i) ?k)")
    case False
    then show ?thesis using none present(2) b xl by (simp add: vm_unmap_page_def l2e_def)
  next
    case True
    define u where "u = emit (TlbiMva (va AND NOT 0xFFF)) (emit (CleanLine (l2b s l1 ?i + 4 * l2_index va))
      (wr32 (l2b s l1 ?i + 4 * l2_index va) 0 s))"
    have mu: "mem u = st32 (mem s) (l2b s l1 ?i + 4 * of_nat ?k) 0" by (simp add: u_def)
    have uu: "used_pgs u = used_pgs s" "pmm_inv u" "vm_frame s u"
      using wf by (simp_all add: u_def tables_wf_def)
    note pw = pte_write [OF wf present(1) unat_l2_index(2) mu uu(1,2)]
    have "vm_unmap_page l1 va s = (0, u)"
      using True b present(2) by (simp add: vm_unmap_page_def u_def Let_def l2e_def)
    moreover have "mapped s l1 u"
    proof -
      have "mem u x = mem s x" if "pg x \<notin> table_pgs s l1" for x
        using pw(4) [of x] that tables_wf_base(4) [OF wf present(1)] by metis
      then show ?thesis using wf pw(1,2) uu by (auto simp: mapped_def tables_wf_def)
    qed
    moreover have "xlate u l1 = (xlate s l1)(pg va := None)"
      using pw(3) by (simp add: pg_index L2_IS_VALID_def)
    ultimately show ?thesis using ok [of u] True xl uu(1) by simp
  qed
qed simp

text \<open>Word-by-word copies between disjoint places.\<close>

lemma fold_copy_words:
  fixes A B :: "nat \<Rightarrow> u32"
  assumes A: "\<And>i. i < n \<Longrightarrow> unat (A i) mod 4 = 0" and B: "\<And>i. i < n \<Longrightarrow> unat (B i) mod 4 = 0"
    and inj: "\<And>i j. i < n \<Longrightarrow> j < n \<Longrightarrow> A i = A j \<Longrightarrow> i = j"
    and sep: "\<And>i j. i < n \<Longrightarrow> j < n \<Longrightarrow> A i \<noteq> B j"
  defines "f \<equiv> \<lambda>i s. wr32 (A i) (rd32 s (B i)) (s :: 'a phys_scheme)"
  shows "fold f [0..<n] s = s\<lparr>mem := mem (fold f [0..<n] s)\<rparr>"
    "i < n \<Longrightarrow> rd32 (fold f [0..<n] s) (A i) = rd32 s (B i)"
    "unat a mod 4 = 0 \<Longrightarrow> (\<And>i. i < n \<Longrightarrow> a \<noteq> A i) \<Longrightarrow> rd32 (fold f [0..<n] s) a = rd32 s a"
    "(\<And>i. i < n \<Longrightarrow> pg x \<noteq> pg (A i)) \<Longrightarrow> mem (fold f [0..<n] s) x = mem s x"
proof -
  have main: "k \<le> n \<Longrightarrow> fold f [0..<k] s = s\<lparr>mem := mem (fold f [0..<k] s)\<rparr> \<and>
    (\<forall>i < k. rd32 (fold f [0..<k] s) (A i) = rd32 s (B i)) \<and>
    (\<forall>a. unat a mod 4 = 0 \<longrightarrow> (\<forall>i < k. a \<noteq> A i) \<longrightarrow> rd32 (fold f [0..<k] s) a = rd32 s a) \<and>
    (\<forall>x. (\<forall>i < k. pg x \<noteq> pg (A i)) \<longrightarrow> mem (fold f [0..<k] s) x = mem s x)" for k
  proof (induction k)
    case (Suc k)
    let ?t = "fold f [0..<k] s"
    have k: "k < n" using Suc.prems by simp
    have IH: "?t = s\<lparr>mem := mem ?t\<rparr>" "\<And>i. i < k \<Longrightarrow> rd32 ?t (A i) = rd32 s (B i)"
      "\<And>a. unat a mod 4 = 0 \<Longrightarrow> \<forall>i < k. a \<noteq> A i \<Longrightarrow> rd32 ?t a = rd32 s a"
      "\<And>x. \<forall>i < k. pg x \<noteq> pg (A i) \<Longrightarrow> mem ?t x = mem s x"
      using Suc by simp_all
    have u: "fold f [0..<Suc k] s = wr32 (A k) (rd32 ?t (B k)) ?t" by (simp add: f_def)
    have "rd32 ?t (B k) = rd32 s (B k)"
    proof (rule IH(3) [OF B [OF k]], intro allI impI)
      fix i assume "i < k"
      then show "B k \<noteq> A i" using sep [of i k] k by simp
    qed
    then have mu: "mem (fold f [0..<Suc k] s) = st32 (mem ?t) (A k) (rd32 s (B k))" unfolding u by (simp add: wr32_def)
    have rd: "rd32 (fold f [0..<Suc k] s) a = (if a = A k then rd32 s (B k) else rd32 ?t a)"
      if "unat a mod 4 = 0" for a
      unfolding rd32_def mu using ld32_st32_iff [OF A [OF k] that] by (simp add: rd32_def)
    have "fold f [0..<Suc k] s = s\<lparr>mem := mem (fold f [0..<Suc k] s)\<rparr>"
      unfolding u by (subst IH(1)) (simp add: wr32_def)
    moreover have "rd32 (fold f [0..<Suc k] s) (A i) = rd32 s (B i)" if "i < Suc k" for i
      using rd [OF A, of i] IH(2) [of i] inj [of i k] that k by (cases "i = k") auto
    moreover have "rd32 (fold f [0..<Suc k] s) a = rd32 s a" if "unat a mod 4 = 0" "\<forall>i < Suc k. a \<noteq> A i" for a
      using rd [OF that(1)] IH(3) [OF that(1)] that(2) by simp
    moreover have "mem (fold f [0..<Suc k] s) x = mem s x" if "\<forall>i < Suc k. pg x \<noteq> pg (A i)" for x
      unfolding mu using st32_page [OF A [OF k], of x] IH(4) [of x] that by simp
    ultimately show ?case by blast
  qed simp
  note m = main [OF order_refl]
  show "fold f [0..<n] s = s\<lparr>mem := mem (fold f [0..<n] s)\<rparr>"
    by (rule m [THEN conjunct1])
  show "i < n \<Longrightarrow> rd32 (fold f [0..<n] s) (A i) = rd32 s (B i)"
    by (rule m [THEN conjunct2, THEN conjunct1, rule_format])
  show "unat a mod 4 = 0 \<Longrightarrow> (\<And>i. i < n \<Longrightarrow> a \<noteq> A i) \<Longrightarrow> rd32 (fold f [0..<n] s) a = rd32 s a"
    by (rule m [THEN conjunct2, THEN conjunct2, THEN conjunct1, rule_format])
  show "(\<And>i. i < n \<Longrightarrow> pg x \<noteq> pg (A i)) \<Longrightarrow> mem (fold f [0..<n] s) x = mem s x"
    by (rule m [THEN conjunct2, THEN conjunct2, THEN conjunct2, rule_format])
qed

text \<open>
  The kernel's own table, as \<open>vm_create\<close> relies on it: in frames in use, sections only.
\<close>

definition kernel_table_ok :: "'a vm_scheme \<Rightarrow> bool" where
  "kernel_table_ok s \<longleftrightarrow> pmm_inv s \<and> unat (kernel_l1 s) mod 16384 = 0 \<and>
     {pg (kernel_l1 s)..<pg (kernel_l1 s) + 4} \<subseteq> used_pgs s \<and> l2_slots s (kernel_l1 s) = {}"

lemma align16k:
  assumes "pa AND (L1_ALIGN - 1) = 0"
  shows "unat pa mod 16384 = 0"
proof -
  have "(16384 - 1 :: u32) = mask 14" by (simp add: mask_numeral)
  then have "take_bit 14 pa = 0" using assms by (simp add: L1_ALIGN_def take_bit_eq_mask)
  then have "unat (take_bit 14 pa) = 0" by simp
  then show ?thesis by (simp add: unat_take_bit)
qed

lemma l1_pages: "unat l1 mod 16384 = 0 \<Longrightarrow> i < 4096 \<Longrightarrow> pg (l1 + 4 * of_nat i) \<in> {pg l1..<pg l1 + 4}" for l1 :: u32
  using l1_slot(3) [of l1 i] by auto

lemma vm_create_cases:
  assumes ker: "kernel_table_ok s"
  obtains (oom) "vm_create s = (0, s)"
  | (ok) l1 s' where "vm_create s = (l1, s')" "l1 \<noteq> 0" "tables_wf s' l1" "table_pgs s' l1 = {pg l1..<pg l1 + 4}"
      "table_pgs s' l1 \<inter> used_pgs s = {}" "used_pgs s' = used_pgs s \<union> table_pgs s' l1"
      "xlate s' l1 = Map.empty" "\<And>i. i < 4096 \<Longrightarrow> l1e s' l1 i = l1e s (kernel_l1 s) i"
      "\<And>x. pg x \<notin> table_pgs s' l1 \<Longrightarrow> mem s' x = mem s x" "vm_frame s s'"
proof -
  have inv: "pmm_inv s" and kal: "unat (kernel_l1 s) mod 16384 = 0"
    and kpg: "{pg (kernel_l1 s)..<pg (kernel_l1 s) + 4} \<subseteq> used_pgs s" and nc: "l2_slots s (kernel_l1 s) = {}"
    using ker by (auto simp: kernel_table_ok_def)
  obtain l1 t where al: "pmm_alloc_aligned (L1_SIZE div PAGE_SIZE) L1_ALIGN s = (l1, t)" by fastforce
  have n: "0 < L1_SIZE div PAGE_SIZE" "unat (L1_SIZE div PAGE_SIZE) = 4" by (simp_all add: L1_SIZE_def)
  from inv n(1) al show thesis
  proof (cases rule: alloc_aligned_pgs)
    case none
    then show thesis using oom al by (simp add: vm_create_def)
  next
    case run
    let ?A = "\<lambda>i. l1 + 4 * of_nat i :: u32" and ?B = "\<lambda>i. kernel_l1 s + 4 * of_nat i :: u32"
    have lal: "unat l1 mod 16384 = 0" by (rule align16k [OF run(2)])
    note fr = vm_frame_more [OF run(10,8,9)]
    have kl: "kernel_l1 t = kernel_l1 s" using fr(1) by (simp add: vm_frame_def)
    have dis: "{pg l1..<pg l1 + 4} \<inter> used_pgs s = {}" using run(4) by (simp add: n)
    have sep: "?A i \<noteq> ?B j" if "i < 4096" "j < 4096" for i j
      using l1_pages [OF lal that(1)] l1_pages [OF kal that(2)] dis kpg by force
    define u where "u = fold (\<lambda>i s. wr32 (?A i) (rd32 s (?B i)) s) [0..<L1_ENTRIES] t"
    have inj: "i = j" if "i < 4096" "j < 4096" "?A i = ?A j" for i j
      by (rule l1_slot_inj [OF lal that])
    note pre = l1_slot(2) [OF lal] l1_slot(2) [OF kal] inj sep
    have cw: "u = t\<lparr>mem := mem u\<rparr>" "\<And>i. i < 4096 \<Longrightarrow> rd32 u (?A i) = rd32 t (?B i)"
      unfolding u_def L1_ENTRIES_def by (rule fold_copy_words, (rule pre; assumption)+)+
    have cw3: "mem u x = mem t x" if "\<And>i. i < 4096 \<Longrightarrow> pg x \<noteq> pg (?A i)" for x
      unfolding u_def L1_ENTRIES_def by (rule fold_copy_words(4)) (rule pre that; assumption)+
    have vc: "vm_create s = (l1, clean_table l1 L1_SIZE u)"
      using al run(1) by (simp add: vm_create_def Let_def mmu_l1_base_def kl u_def)
    let ?s' = "clean_table l1 L1_SIZE u"
    have mt: "mem t x = mem s x" if "pg x \<notin> {pg l1..<pg l1 + 4}" for x using that run(7) by (auto simp: n)
    have rdB: "rd32 t (?B i) = rd32 s (?B i)" if "i < 4096" for i
    proof -
      have "pg (?B i) \<notin> {pg l1..<pg l1 + 4}" using l1_pages [OF kal that] kpg dis by blast
      then show ?thesis
        unfolding rd32_def by (intro ld32_page_cong [OF l1_slot(2) [OF kal that]] mt) simp
    qed
    have e: "l1e ?s' l1 i = l1e s (kernel_l1 s) i" if "i < 4096" for i
      using cw(2) [OF that] rdB [OF that] by (simp add: l1e_def rd32_def)
    have sl: "l2_slots ?s' l1 = {}" using e nc by (auto simp: l2_slots_def)
    then have tp: "table_pgs ?s' l1 = {pg l1..<pg l1 + 4}" by (simp add: table_pgs_def)
    have uu: "used_pgs ?s' = used_pgs s \<union> {pg l1..<pg l1 + 4}" "pmm_inv ?s'" "vm_frame s ?s'"
    proof -
      have "used_pgs u = used_pgs t" "pmm_inv u = pmm_inv t" "vm_frame s u = vm_frame s t"
        by (subst cw(1), simp add: used_pgs_def vm_frame_def)+
      then show "used_pgs ?s' = used_pgs s \<union> {pg l1..<pg l1 + 4}" "pmm_inv ?s'" "vm_frame s ?s'"
        using run(5,6) fr(1) by (auto simp: n)
    qed
    show thesis
    proof (rule ok [OF vc run(1)])
      show "tables_wf ?s' l1" using lal uu tp sl by (simp add: tables_wf_def)
      show "table_pgs ?s' l1 = {pg l1..<pg l1 + 4}" by (rule tp)
      show "table_pgs ?s' l1 \<inter> used_pgs s = {}" using dis tp by simp
      show "used_pgs ?s' = used_pgs s \<union> table_pgs ?s' l1" using uu tp by simp
      show "xlate ?s' l1 = Map.empty" by (rule ext) (simp add: xlate_slots sl)
      show "mem ?s' x = mem s x" if "pg x \<notin> table_pgs ?s' l1" for x
      proof -
        have "pg x \<noteq> pg (?A i)" if "i < 4096" for i
          using l1_pages [OF lal that] \<open>pg x \<notin> table_pgs ?s' l1\<close> tp by metis
        then show ?thesis using cw3 [of x] mt that tp by simp
      qed
    qed (use e uu in auto)
  qed
qed

section \<open>The interface of an address space\<close>

text \<open>
  What a client of \<open>vm.c\<close> (process creation, \<open>mmap\<close>, \<open>brk\<close>, the ELF loader) relies on: an address
  space is a partial map from virtual pages to frames. The abstract map alone fixes the answer of a
  call, except that a mapping may be refused for want of a page table: a mapping outside the user
  range is an error, unmapping succeeds exactly on mapped pages. A successful call updates the map
  at one page, an error changes nothing, and neither touches an address space with tables of its own.
\<close>

datatype vm_op = Map u32 u32 | Unmap u32

fun vm_answers :: "vm_op \<Rightarrow> (nat \<Rightarrow> u32 option) \<Rightarrow> cint set" where
  "vm_answers (Map va pa) m = (if 0x1000 \<le> va \<and> va < 0x40000000 then {0, -2} else {-1})"
| "vm_answers (Unmap va) m = (if m (pg va) = None then {-1} else {0})"

fun vm_spec :: "vm_op \<Rightarrow> (nat \<Rightarrow> u32 option) \<Rightarrow> nat \<Rightarrow> u32 option" where
  "vm_spec (Map va pa) m = m(pg va \<mapsto> L2_SMALL_BASE pa)"
| "vm_spec (Unmap va) m = m(pg va := None)"

text \<open>The answers \<open>rs\<close> are right for the calls \<open>ps\<close> on the map \<open>m\<close>, which becomes \<open>m'\<close>.\<close>

fun vm_allows :: "vm_op list \<Rightarrow> cint list \<Rightarrow> (nat \<Rightarrow> u32 option) \<Rightarrow> (nat \<Rightarrow> u32 option) \<Rightarrow> bool" where
  "vm_allows [] [] m m' \<longleftrightarrow> m' = m"
| "vm_allows (p # ps) (r # rs) m m' \<longleftrightarrow>
     r \<in> vm_answers p m \<and> vm_allows ps rs (if r = 0 then vm_spec p m else m) m'"
| "vm_allows _ _ m m' \<longleftrightarrow> False"

fun vm_ops :: "(vm_op \<Rightarrow> 's \<Rightarrow> cint \<times> 's) \<Rightarrow> vm_op list \<Rightarrow> 's \<Rightarrow> cint list \<times> 's" where
  "vm_ops f [] s = ([], s)"
| "vm_ops f (p # ps) s = (let (r, s) = f p s; (rs, s) = vm_ops f ps s in (r # rs, s))"

locale address_space =
  fixes wf :: "'s \<Rightarrow> u32 \<Rightarrow> bool" and disj :: "'s \<Rightarrow> u32 \<Rightarrow> u32 \<Rightarrow> bool" and full :: "'s \<Rightarrow> bool"
    and lookup :: "'s \<Rightarrow> u32 \<Rightarrow> nat \<Rightarrow> u32 option" and exec :: "u32 \<Rightarrow> vm_op \<Rightarrow> 's \<Rightarrow> cint \<times> 's"
  assumes exec_wf: "wf s l \<Longrightarrow> exec l p s = (r, s') \<Longrightarrow> wf s' l"
    and exec_answer: "wf s l \<Longrightarrow> exec l p s = (r, s') \<Longrightarrow> r \<in> vm_answers p (lookup s l)"
    and exec_ok: "wf s l \<Longrightarrow> exec l p s = (0, s') \<Longrightarrow> lookup s' l = vm_spec p (lookup s l)"
    and exec_fail: "wf s l \<Longrightarrow> exec l p s = (r, s') \<Longrightarrow> r \<noteq> 0 \<Longrightarrow> s' = s"
    and exec_full: "wf s l \<Longrightarrow> exec l p s = (r, s') \<Longrightarrow> full s \<or> r = -2 \<Longrightarrow> full s'"
    and exec_other: "wf s l \<Longrightarrow> wf s k \<Longrightarrow> disj s l k \<Longrightarrow> exec l p s = (r, s') \<Longrightarrow>
      wf s' k \<and> disj s' l k \<and> lookup s' k = lookup s k"
begin

lemma ops_own:
  "wf s l \<Longrightarrow> vm_ops (exec l) ps s = (rs, s') \<Longrightarrow>
     wf s' l \<and> vm_allows ps rs (lookup s l) (lookup s' l) \<and> (full s \<or> -2 \<in> set rs \<longrightarrow> full s')"
proof (induction ps arbitrary: s rs)
  case (Cons p ps)
  obtain r t where e: "exec l p s = (r, t)" by fastforce
  obtain rs' where o: "vm_ops (exec l) ps t = (rs', s')" "rs = r # rs'"
    using Cons.prems(2) e by (auto split: prod.splits)
  have "lookup t l = (if r = 0 then vm_spec p (lookup s l) else lookup s l)"
    using exec_ok [OF Cons.prems(1)] exec_fail [OF Cons.prems(1) e] e by auto
  then show ?case
    using Cons.IH [OF exec_wf [OF Cons.prems(1) e] o(1)] exec_answer [OF Cons.prems(1) e]
      exec_full [OF Cons.prems(1) e] o(2) by auto
qed simp

lemma ops_other:
  "wf s l \<Longrightarrow> wf s k \<Longrightarrow> disj s l k \<Longrightarrow> vm_ops (exec l) ps s = (rs, s') \<Longrightarrow>
     wf s' k \<and> disj s' l k \<and> lookup s' k = lookup s k"
proof (induction ps arbitrary: s rs)
  case (Cons p ps)
  obtain r t where e: "exec l p s = (r, t)" by fastforce
  obtain rs' where o: "vm_ops (exec l) ps t = (rs', s')"
    using Cons.prems(4) e by (auto split: prod.splits)
  note t = exec_other [OF Cons.prems(1-3) e]
  show ?case
    using Cons.IH [OF exec_wf [OF Cons.prems(1) e] _ _ o] t by simp
qed simp

end

fun vm_exec :: "u32 \<Rightarrow> vm_op \<Rightarrow> 'a vm_scheme \<Rightarrow> cint \<times> 'a vm_scheme" where
  "vm_exec l1 (Map va pa) s = vm_map_page l1 va pa s"
| "vm_exec l1 (Unmap va) s = vm_unmap_page l1 va s"

definition vm_disj :: "'a vm_scheme \<Rightarrow> u32 \<Rightarrow> u32 \<Rightarrow> bool" where
  "vm_disj s l k \<longleftrightarrow> table_pgs s l \<inter> table_pgs s k = {}"

lemma mapped_refl: "tables_wf s l1 \<Longrightarrow> mapped s l1 s"
  by (auto simp: mapped_def tables_wf_def vm_frame_def)

lemma mapped_full: "mapped s l s' \<Longrightarrow> pool_full s \<Longrightarrow> pool_full s'"
  by (rule pool_full_mono [of s]) (auto simp: mapped_def vm_frame_def)

lemma vm_exec_cases:
  assumes wf: "tables_wf s l" and e: "vm_exec l p s = (r, s')"
  shows "mapped s l s' \<and> r \<in> vm_answers p (xlate s l) \<and> (r = -2 \<longrightarrow> pool_full s) \<and>
    (if r = 0 then xlate s' l = vm_spec p (xlate s l) else s' = s)"
proof (cases p)
  case (Map va pa)
  note rng = USER_VA_MIN_def USER_VA_MAX_def
  show ?thesis
  proof (cases "USER_VA_MIN \<le> va \<and> va < USER_VA_MAX")
    case True
    from wf conjunct1 [OF True] conjunct2 [OF True] show ?thesis
    proof (cases rule: vm_map_page_cases [where pa = pa])
      case oom
      then show ?thesis using e Map True mapped_refl [OF wf] by (auto simp: rng)
    next
      case (ok t)
      then show ?thesis using e Map True by (auto simp: rng)
    qed
  next
    case False
    then have "vm_map_page l va pa s = (-1, s)" by (auto simp: vm_map_page_def)
    then show ?thesis using e Map False mapped_refl [OF wf] by (auto simp: rng)
  qed
next
  case (Unmap va)
  from wf show ?thesis
  proof (cases rule: vm_unmap_page_cases [where va = va])
    case none
    then show ?thesis using e Unmap mapped_refl [OF wf] by auto
  next
    case (ok t)
    then show ?thesis using e Unmap by auto
  qed
qed

lemma mapped_other:
  assumes m: "mapped s l s'" and k: "tables_wf s k" and d: "vm_disj s l k"
  shows "tables_wf s' k \<and> vm_disj s' l k \<and> xlate s' k = xlate s k"
proof -
  have ku: "table_pgs s k \<subseteq> used_pgs s" using k by (simp add: tables_wf_def)
  have d': "table_pgs s' l \<inter> table_pgs s k = {}"
    using m d ku by (auto simp: mapped_def vm_disj_def)
  then have eq: "mem s' x = mem s x" if "pg x \<in> table_pgs s k" for x
    using m that by (auto simp: mapped_def)
  have "tables_wf s' k"
    using m ku by (intro tables_wf_frame [OF k eq]) (auto simp: mapped_def tables_wf_def)
  then show ?thesis using tables_frame(5,6) [OF k eq] d' by (simp add: vm_disj_def)
qed

interpretation vspace: address_space tables_wf vm_disj pool_full xlate vm_exec
proof
  fix s :: "'a vm_scheme" and l p r s' k
  assume wf: "tables_wf s l" and e: "vm_exec l p s = (r, s')"
  note c = vm_exec_cases [OF wf e]
  show "tables_wf s' l" "r \<in> vm_answers p (xlate s l)" using c by (simp_all add: mapped_def)
  show "r \<noteq> 0 \<Longrightarrow> s' = s" using c by simp
  show "pool_full s \<or> r = -2 \<Longrightarrow> pool_full s'" using c mapped_full by blast
  show "tables_wf s k \<Longrightarrow> vm_disj s l k \<Longrightarrow> tables_wf s' k \<and> vm_disj s' l k \<and> xlate s' k = xlate s k"
    using c mapped_other [of s l s' k] by simp
next
  fix s :: "'a vm_scheme" and l p s'
  assume "tables_wf s l" "vm_exec l p s = (0, s')"
  then show "xlate s' l = vm_spec p (xlate s l)" using vm_exec_cases [of s l p 0 s'] by simp
qed

section \<open>Properties\<close>

text \<open>
  C5. Any sequence of \<open>vm_map_page\<close> and \<open>vm_unmap_page\<close> calls on an address space whose tables are
  well formed (in frames of their own, as \<open>vm_create\<close> makes them) keeps them so and refines the same
  sequence on a partial map from pages to frames, return codes included. The map decides the
  answers: a mapping outside the user range \<open>[0x1000, 0x40000000)\<close> returns -1, inside it 0 or -2;
  unmapping returns 0 exactly when the page is mapped and -1 otherwise. Calls that return 0 update
  the map at their page and the others do not. A call returns -2 only when every frame of the page
  allocator is in use. Afterwards \<open>vm_walk\<close> reads exactly the resulting map, and every other address
  space with tables of its own translates as before.
\<close>

theorem vm_ops_refine_map:
  assumes "tables_wf s l1" "vm_ops (vm_exec l1) ps s = (rs, s')"
  shows "tables_wf s' l1 \<and> (\<exists>m'. vm_allows ps rs (xlate s l1) m' \<and>
    (-2 \<in> set rs \<longrightarrow> (\<forall>i < unat (num_pages s'). bit_get (of_nat i) s')) \<and>
    (\<forall>va. vm_walk l1 va s = (case xlate s l1 (pg va) of None \<Rightarrow> 0 | Some f \<Rightarrow> f OR (va AND 0xFFF))) \<and>
    (\<forall>va. vm_walk l1 va s' = (case m' (pg va) of None \<Rightarrow> 0 | Some f \<Rightarrow> f OR (va AND 0xFFF))) \<and>
    (\<forall>k va. tables_wf s k \<and> vm_disj s l1 k \<longrightarrow> vm_walk k va s' = vm_walk k va s))"
proof -
  note o = vspace.ops_own [OF assms]
  have "vm_walk k va s' = vm_walk k va s" if "tables_wf s k" "vm_disj s l1 k" for k va
    using vspace.ops_other [OF assms(1) that assms(2)] that by (simp add: vm_walk_xlate)
  then show ?thesis using o assms(1) by (intro conjI exI [of _ "xlate s' l1"]) (simp_all add: vm_walk_xlate pool_full_def)
qed


definition vm_example :: vm where
  "vm_example = \<lparr>mem = (\<lambda>_. 0), bitmap = (\<lambda>i. if i = 0 then 0x0F else 0), base_pa = 0x40004000,
     num_pages = 16, used_pages = 4, head = 0, tail = 0, used_bytes = 0, kernel_l1 = 0x40004000, hw = []\<rparr>"

lemma vm_example_used: "used_set vm_example = {0..<4}"
proof -
  have "i < 16 \<Longrightarrow> bit_get (of_nat i) vm_example \<longleftrightarrow> i < 4" for i :: nat
  proof -
    assume "i < 16"
    then have "i \<in> {0, 1, 2, 3, 4, 5, 6, 7, 8, 9, 10, 11, 12, 13, 14, 15}" unfolding insert_iff empty_iff by presburger
    then show ?thesis by (auto simp: bit_get_def vm_example_def)
  qed
  moreover have "unat (num_pages vm_example) = 16" by (simp add: vm_example_def)
  ultimately show ?thesis by (auto simp: used_set_def)
qed

lemma vm_example_ok: "tables_wf vm_example 0x40004000" "kernel_table_ok vm_example"
proof -
  have inv: "pmm_inv vm_example"
    using vm_example_used unfolding pmm_inv_def by (simp, simp add: vm_example_def page_aligned_def MAX_PAGES_def)
  have e: "l1e vm_example 0x40004000 i = 0" for i
    by (simp add: l1e_def rd32_def vm_example_def ld32_def)
  have sl: "l2_slots vm_example 0x40004000 = {}"
    by (simp add: l2_slots_def e coarse_def L1_TYPE_COARSE_def)
  have u: "used_pgs vm_example = {pg 0x40004000..<pg 0x40004000 + 4}"
  proof -
    have "base_pa vm_example = 0x40004000" by (simp add: vm_example_def)
    then show ?thesis by (simp add: used_pgs_def vm_example_used add.commute)
  qed
  show "tables_wf vm_example 0x40004000" using inv sl u by (simp add: tables_wf_def table_pgs_def)
  have "kernel_l1 vm_example = 0x40004000" by (simp add: vm_example_def)
  then show "kernel_table_ok vm_example" using inv sl u by (simp add: kernel_table_ok_def)
qed

theorem vm_ops_refine_map_witness:
  "\<exists>rs s' r. vm_ops (vm_exec 0x40004000) [Map 0x10000 0x40008000, Unmap 0x10abc, Map 0x800 0x40008000, Unmap 0x10000] vm_example = (rs, s') \<and>
     r \<in> {0, -2} \<and> rs = [r, if r = 0 then 0 else -1, -1, -1] \<and>
     (r = -2 \<longrightarrow> (\<forall>i < unat (num_pages s'). bit_get (of_nat i) s')) \<and> vm_walk 0x40004000 0x10123 s' = 0"
proof -
  let ?ps = "[Map 0x10000 0x40008000, Unmap 0x10abc, Map 0x800 0x40008000, Unmap 0x10000]"
  obtain rs s' where run: "vm_ops (vm_exec 0x40004000) ?ps vm_example = (rs, s')" by fastforce
  have e: "l1e vm_example 0x40004000 i = 0" for i
    by (simp add: l1e_def rd32_def vm_example_def ld32_def)
  have x: "xlate vm_example 0x40004000 n = None" for n
    by (simp add: xlate_slots l2_slots_def e coarse_def L1_TYPE_COARSE_def)
  have pg: "pg 0x10000 = 16" "pg 0x10abc = 16" "pg 0x10123 = 16" "pg 0x800 = 0" by (simp_all add: pg_def)
  obtain m where m: "vm_allows ?ps rs (xlate vm_example 0x40004000) m"
      "-2 \<in> set rs \<longrightarrow> (\<forall>i < unat (num_pages s'). bit_get (of_nat i) s')"
      "\<forall>va. vm_walk 0x40004000 va s' = (case m (pg va) of None \<Rightarrow> 0 | Some f \<Rightarrow> f OR (va AND 0xFFF))"
    using vm_ops_refine_map [OF vm_example_ok(1) run] by blast
  obtain r1 r2 r3 r4 where rs: "rs = [r1, r2, r3, r4]"
    using m(1) by (auto elim!: vm_allows.elims(2))
  have "r1 \<in> {0, -2} \<and> rs = [r1, if r1 = 0 then 0 else -1, -1, -1] \<and> m 16 = None"
    using m(1) by (auto simp: rs pg x split: if_splits)
  then show ?thesis using run m(2,3) pg by (intro exI [of _ rs] exI [of _ s'] exI [of _ r1]) auto
qed

text \<open>
  C23. A new address space is either refused (0, no effect) or maps no user page, carries the kernel's
  section entries, and sits in frames that were free, so every existing address space keeps its
  tables and its translations.
\<close>

theorem vm_create_fresh:
  assumes "kernel_table_ok s" "vm_create s = (l1, s')"
  shows "(l1 = 0 \<and> s' = s) \<or>
    (tables_wf s' l1 \<and> (\<forall>va. vm_walk l1 va s' = 0) \<and>
     (\<forall>i < 4096. l1e s' l1 i = l1e s (kernel_l1 s) i) \<and> table_pgs s' l1 \<inter> used_pgs s = {} \<and>
     (\<forall>k va. tables_wf s k \<longrightarrow> tables_wf s' k \<and> vm_disj s' l1 k \<and> vm_walk k va s' = vm_walk k va s))"
  using assms(1)
proof (cases rule: vm_create_cases)
  case oom
  then show ?thesis using assms(2) by simp
next
  case (ok l t)
  then have t: "l = l1" "t = s'" using assms(2) by simp_all
  note ok = ok [unfolded t]
  have "tables_wf s' k \<and> vm_disj s' l1 k \<and> vm_walk k va s' = vm_walk k va s" if k: "tables_wf s k" for k va
  proof -
    have ku: "table_pgs s k \<subseteq> used_pgs s" using k by (simp add: tables_wf_def)
    then have eq: "mem s' x = mem s x" if "pg x \<in> table_pgs s k" for x using ok(5,9) that by blast
    have "tables_wf s' k"
      using ok(3,6) ku by (intro tables_wf_frame [OF k eq]) (auto simp: tables_wf_def)
    then show ?thesis
      using tables_frame(5,6) [OF k eq] k ok(5) ku by (auto simp: vm_disj_def vm_walk_xlate)
  qed
  moreover have "vm_walk l1 va s' = 0" for va using ok(3,7) by (simp add: vm_walk_xlate)
  ultimately show ?thesis using ok(3,5,8) by blast
qed

theorem vm_create_fresh_witness:
  "let l1 = fst (vm_create vm_example); s' = snd (vm_create vm_example); s = vm_example
   in (l1 = 0 \<and> s' = s) \<or>
    (tables_wf s' l1 \<and> (\<forall>va. vm_walk l1 va s' = 0) \<and>
     (\<forall>i < 4096. l1e s' l1 i = l1e s (kernel_l1 s) i) \<and> table_pgs s' l1 \<inter> used_pgs s = {} \<and>
     (\<forall>k va. tables_wf s k \<longrightarrow> tables_wf s' k \<and> vm_disj s' l1 k \<and> vm_walk k va s' = vm_walk k va s))"
  unfolding Let_def by (rule vm_create_fresh [OF vm_example_ok(2)]) simp

end
