(* ===== verification/Ramfs.thy ===== *)
theory Ramfs
  imports Vm
begin

text \<open>
  The in-memory filesystem of \<open>kernel/fs/ramfs.c\<close>. An inode is a structure on the kernel heap: its
  address comes from \<open>kzalloc\<close> and its fields are kept as a record beside the memory, at that
  address. What the inode points to is in physical memory: the page array of a regular file (words
  in a heap block), the pages themselves (frames of the page allocator) and the ring of a pipe (a
  heap block). The children of a directory are the list of its entries, in the order of the links;
  the text of a symlink target is kept with the inode. A buffer a caller passes is a list of bytes.
\<close>

section \<open>State\<close>

datatype rf_type = RF_FREE | RF_REG | RF_DIR | RF_LNK | RF_CHR | RF_PIPE

record rf_inode =
  i_type :: rf_type
  i_ino :: u32
  i_mode :: u32
  i_size :: u32
  i_nlink :: u32
  i_children :: "(string \<times> u32) list"
  i_parent :: u32
  i_pages :: u32
  i_npages :: u32
  i_cap :: u32
  i_target :: u32
  i_text :: string
  rdev_major :: u32
  rdev_minor :: u32
  i_pbuf :: u32
  i_phead :: u32
  i_ptail :: u32
  wr_open :: cint
  rd_open :: cint

text \<open>The all-zero structure \<open>kzalloc\<close> returns; an address that holds no inode reads as one.\<close>

definition zero_inode :: rf_inode where
  "zero_inode = \<lparr>i_type = RF_FREE, i_ino = 0, i_mode = 0, i_size = 0, i_nlink = 0, i_children = [],
     i_parent = 0, i_pages = 0, i_npages = 0, i_cap = 0, i_target = 0, i_text = [], rdev_major = 0,
     rdev_minor = 0, i_pbuf = 0, i_phead = 0, i_ptail = 0, wr_open = 0, rd_open = 0\<rparr>"

record ramfs = vm +
  inodes :: "u32 \<Rightarrow> rf_inode"
  root :: u32
  next_ino :: u32

abbreviation SIZEOF_INODE :: u32 where
  "SIZEOF_INODE \<equiv> 76"

abbreviation SIZEOF_DIRENT :: u32 where
  "SIZEOF_DIRENT \<equiv> 72"

abbreviation PIPE_CAP :: u32 where
  "PIPE_CAP \<equiv> 4096"

abbreviation SYMLINK_MAX :: int where
  "SYMLINK_MAX \<equiv> 8"

abbreviation inode :: "'a ramfs_scheme \<Rightarrow> u32 \<Rightarrow> rf_inode" where
  "inode s p \<equiv> inodes s p"

definition upd_inode :: "u32 \<Rightarrow> (rf_inode \<Rightarrow> rf_inode) \<Rightarrow> 'a ramfs_scheme \<Rightarrow> 'a ramfs_scheme" where
  "upd_inode p f s = s\<lparr>inodes := (inodes s)(p := f (inodes s p))\<rparr>"

text \<open>\<open>kfree\<close> of an inode: the address holds no inode any more.\<close>

definition inode_free :: "u32 \<Rightarrow> 'a ramfs_scheme \<Rightarrow> 'a ramfs_scheme" where
  "inode_free p s = upd_inode p (\<lambda>_. zero_inode) (kfree p s)"

section \<open>Creation\<close>

definition ramfs_root :: "'a ramfs_scheme \<Rightarrow> u32" where
  "ramfs_root s = root s"

definition inode_new :: "rf_type \<Rightarrow> u32 \<Rightarrow> 'a ramfs_scheme \<Rightarrow> (u32 \<times> 'a ramfs_scheme) option" where
  "inode_new t mode s = do {
     (n, s) \<leftarrow> kzalloc SIZEOF_INODE s;
     if n = 0 then Some (0, s)
     else (let s = upd_inode n (\<lambda>_. zero_inode\<lparr>i_type := t, i_ino := next_ino s, i_mode := mode, i_nlink := 1\<rparr>) s
           in Some (n, s\<lparr>next_ino := next_ino s + 1\<rparr>)) }"

text \<open>\<open>ramfs_init\<close> stores through the pointer without a check; on a failed allocation it faults.\<close>

definition ramfs_init :: "'a ramfs_scheme \<Rightarrow> 'a ramfs_scheme option" where
  "ramfs_init s = do {
     (r, s) \<leftarrow> inode_new RF_DIR 0x41ED s;
     if r = 0 then None
     else Some ((upd_inode r (\<lambda>i. i\<lparr>i_parent := r\<rparr>) s)\<lparr>root := r, next_ino := 2\<rparr>) }"

definition dir_link :: "u32 \<Rightarrow> string \<Rightarrow> u32 \<Rightarrow> 'a ramfs_scheme \<Rightarrow> (cint \<times> 'a ramfs_scheme) option" where
  "dir_link dir name child s = do {
     (d, s) \<leftarrow> kzalloc SIZEOF_DIRENT s;
     if d = 0 then Some (-1, s)
     else Some (0, upd_inode dir (\<lambda>i. i\<lparr>i_children := (take 63 name, child) # i_children i\<rparr>) s) }"

definition ramfs_child :: "'a ramfs_scheme \<Rightarrow> u32 \<Rightarrow> string \<Rightarrow> u32" where
  "ramfs_child s dir name =
     (if dir = 0 \<or> i_type (inode s dir) \<noteq> RF_DIR then 0
      else if name = ''.'' then dir
      else if name = ''..'' then i_parent (inode s dir)
      else (case map_of (i_children (inode s dir)) name of None \<Rightarrow> 0 | Some c \<Rightarrow> c))"

definition ramfs_mkreg :: "u32 \<Rightarrow> string \<Rightarrow> u32 \<Rightarrow> 'a ramfs_scheme \<Rightarrow> (u32 \<times> 'a ramfs_scheme) option" where
  "ramfs_mkreg dir name mode s = do {
     (n, s) \<leftarrow> inode_new RF_REG ((mode AND 0xFFF) OR 0x8000) s;
     if n = 0 then Some (0, s)
     else do {
       (r, s) \<leftarrow> dir_link dir name n s;
       if r \<noteq> 0 then Some (0, inode_free n s) else Some (n, s) } }"

definition ramfs_mkdir :: "u32 \<Rightarrow> string \<Rightarrow> u32 \<Rightarrow> 'a ramfs_scheme \<Rightarrow> (u32 \<times> 'a ramfs_scheme) option" where
  "ramfs_mkdir dir name mode s = do {
     (n, s) \<leftarrow> inode_new RF_DIR ((mode AND 0xFFF) OR 0x4000) s;
     if n = 0 then Some (0, s)
     else do {
       (r, s) \<leftarrow> dir_link dir name n (upd_inode n (\<lambda>i. i\<lparr>i_parent := dir\<rparr>) s);
       if r \<noteq> 0 then Some (0, inode_free n s) else Some (n, s) } }"

definition ramfs_mklnk :: "u32 \<Rightarrow> string \<Rightarrow> string \<Rightarrow> 'a ramfs_scheme \<Rightarrow> (u32 \<times> 'a ramfs_scheme) option" where
  "ramfs_mklnk dir name target s = do {
     (n, s) \<leftarrow> inode_new RF_LNK 0xA1FF s;
     if n = 0 then Some (0, s)
     else do {
       let len = of_nat (length target);
       (t, s) \<leftarrow> kmalloc (len + 1) s;
       if t = 0 then Some (0, inode_free n s)
       else do {
         (r, s) \<leftarrow> dir_link dir name n (upd_inode n (\<lambda>i. i\<lparr>i_target := t, i_text := target, i_size := len\<rparr>) s);
         if r \<noteq> 0 then Some (0, inode_free n (kfree (i_target (inode s n)) s)) else Some (n, s) } } }"

definition ramfs_mknod :: "u32 \<Rightarrow> string \<Rightarrow> u32 \<Rightarrow> u32 \<Rightarrow> u32 \<Rightarrow> 'a ramfs_scheme \<Rightarrow> (u32 \<times> 'a ramfs_scheme) option" where
  "ramfs_mknod dir name mode maj minor s = do {
     (n, s) \<leftarrow> inode_new RF_CHR mode s;
     if n = 0 then Some (0, s)
     else do {
       (r, s) \<leftarrow> dir_link dir name n (upd_inode n (\<lambda>i. i\<lparr>rdev_major := maj, rdev_minor := minor\<rparr>) s);
       if r \<noteq> 0 then Some (0, inode_free n s) else Some (n, s) } }"

section \<open>Path resolution\<close>

definition skip_slashes :: "string \<Rightarrow> string" where
  "skip_slashes p = dropWhile (\<lambda>c. c = CHR ''/'') p"

definition component :: "string \<Rightarrow> string" where
  "component p = takeWhile (\<lambda>c. c \<noteq> CHR ''/'') p"

text \<open>
  \<open>lookup_b\<close> is the loop over the components of a path; a symlink runs the loop on its target first.
  The result pairs the inode (0 for a failure) with what is left of the symlink budget, which the
  C code threads through a pointer. That the loop ends is a theorem below.
\<close>

definition lookup_start :: "'a ramfs_scheme \<Rightarrow> u32 \<Rightarrow> string \<Rightarrow> u32" where
  "lookup_start s start path =
     (if path \<noteq> [] \<and> hd path = CHR ''/'' then root s else if start \<noteq> 0 then start else root s)"

partial_function (option) walk :: "'a ramfs_scheme \<Rightarrow> u32 \<Rightarrow> string \<Rightarrow> bool \<Rightarrow> int \<Rightarrow> (u32 \<times> int) option" where
  "walk s cur p follow budget =
     (if p = [] then Some (cur, budget)
      else (let comp = component p; nextp = skip_slashes (drop (length comp) p); last = (nextp = []) in
        if length comp > 63 then Some (0, budget)
        else if cur = 0 \<or> i_type (inode s cur) \<noteq> RF_DIR then Some (0, budget)
        else (let child = ramfs_child s cur comp in
          if child = 0 then Some (0, budget)
          else if i_type (inode s child) = RF_LNK \<and> (\<not> last \<or> follow)
          then (if budget - 1 < 0 then Some (0, budget - 1)
                else (let text = i_text (inode s child);
                          base = (if text \<noteq> [] \<and> hd text = CHR ''/'' then root s else cur)
                      in do {
                  (child, budget) \<leftarrow> walk s (lookup_start s base text) (skip_slashes text) True (budget - 1);
                  if child = 0 then Some (0, budget) else walk s child nextp follow budget }))
          else walk s child nextp follow budget)))"

definition lookup_b :: "'a ramfs_scheme \<Rightarrow> u32 \<Rightarrow> string \<Rightarrow> bool \<Rightarrow> int \<Rightarrow> (u32 \<times> int) option" where
  "lookup_b s start path follow budget = walk s (lookup_start s start path) (skip_slashes path) follow budget"

definition ramfs_lookup :: "'a ramfs_scheme \<Rightarrow> u32 \<Rightarrow> string \<Rightarrow> bool \<Rightarrow> u32 option" where
  "ramfs_lookup s start path follow = map_option fst (lookup_b s start path follow SYMLINK_MAX)"

section \<open>Regular files\<close>

text \<open>The bytes at an address, and a copy of caller bytes to an address.\<close>

definition mem_get :: "memory \<Rightarrow> u32 \<Rightarrow> nat \<Rightarrow> u8 list" where
  "mem_get m a n = map (\<lambda>i. m (a + of_nat i)) [0..<n]"

fun mem_put :: "memory \<Rightarrow> u32 \<Rightarrow> u8 list \<Rightarrow> memory" where
  "mem_put m a [] = m"
| "mem_put m a (x # xs) = mem_put (m(a := x)) (a + 1) xs"

text \<open>\<open>ino->pages[i]\<close>.\<close>

definition page_slot :: "memory \<Rightarrow> u32 \<Rightarrow> u32 \<Rightarrow> u32" where
  "page_slot m pages i = ld32 m (pages + 4 * i)"

definition set_slot :: "u32 \<Rightarrow> u32 \<Rightarrow> u32 \<Rightarrow> memory \<Rightarrow> memory" where
  "set_slot pages i v m = st32 m (pages + 4 * i) v"

definition ensure_cap :: "u32 \<Rightarrow> u32 \<Rightarrow> 'a ramfs_scheme \<Rightarrow> (cint \<times> 'a ramfs_scheme) option" where
  "ensure_cap ino pages s =
     (let cap = i_cap (inode s ino) in
      if pages > cap
      then (let newcap = (if cap \<noteq> 0 then cap * 2 else 4);
                newcap = (if newcap < pages then pages else newcap)
            in do {
              (np, s) \<leftarrow> krealloc (i_pages (inode s ino)) (newcap * 4) s;
              if np = 0 then Some (-1, s)
              else (let s = s\<lparr>mem := fold (\<lambda>i. set_slot np (of_nat i) 0) [unat cap..<unat newcap] (mem s)\<rparr>
                    in Some (0, upd_inode ino (\<lambda>i. i\<lparr>i_pages := np, i_cap := newcap\<rparr>) s)) })
      else Some (0, s))"

fun alloc_pages :: "u32 \<Rightarrow> nat list \<Rightarrow> 'a ramfs_scheme \<Rightarrow> cint \<times> 'a ramfs_scheme" where
  "alloc_pages ino [] s = (0, s)"
| "alloc_pages ino (i # is) s =
     (let (pa, s) = pmm_alloc_page s
      in if pa = 0 then (-1, s)
         else alloc_pages ino is (s\<lparr>mem := set_slot (i_pages (inode s ino)) (of_nat i) pa (mem s)\<rparr>))"

definition ensure_pages :: "u32 \<Rightarrow> u32 \<Rightarrow> 'a ramfs_scheme \<Rightarrow> (cint \<times> 'a ramfs_scheme) option" where
  "ensure_pages ino pages s = do {
     (r, s) \<leftarrow> ensure_cap ino pages s;
     if r \<noteq> 0 then Some (r, s)
     else (let (r, s) = alloc_pages ino [unat (i_npages (inode s ino))..<unat pages] s
           in if r \<noteq> 0 then Some (r, s)
              else if pages > i_npages (inode s ino)
              then Some (0, upd_inode ino (\<lambda>i. i\<lparr>i_npages := pages\<rparr>) s)
              else Some (0, s)) }"

text \<open>The copy loops of \<open>ramfs_read\<close> and \<open>ramfs_write\<close>, one page-bounded chunk a round.\<close>

definition chunk_len :: "u32 \<Rightarrow> u32 \<Rightarrow> u32 \<Rightarrow> u32" where
  "chunk_len off n done =
     (let poff = (off + done) mod PAGE_SIZE; chunk = PAGE_SIZE - poff
      in if chunk > n - done then n - done else chunk)"

lemma chunk_len_step:
  assumes "done < n"
  shows "0 < unat (chunk_len off n done)" "unat (chunk_len off n done) \<le> unat n - unat done"
    "unat (done + chunk_len off n done) = unat done + unat (chunk_len off n done)"
proof -
  have lt: "unat done < unat n" using assms by (simp add: word_less_nat_alt)
  have sub: "unat (n - done) = unat n - unat done" using assms by (simp add: unat_sub)
  have "unat ((off + done) mod 4096) < 4096" by (simp add: unat_mod)
  then have ch: "unat (4096 - (off + done) mod 4096) = 4096 - unat ((off + done) mod 4096)"
    by (subst unat_sub) (simp_all add: word_le_nat_alt)
  show "0 < unat (chunk_len off n done)" "unat (chunk_len off n done) \<le> unat n - unat done"
    using lt sub ch \<open>unat ((off + done) mod 4096) < 4096\<close>
    by (auto simp: chunk_len_def Let_def word_less_nat_alt)
  then show "unat (done + chunk_len off n done) = unat done + unat (chunk_len off n done)"
    using lt unat_bound32 [of n] by (intro unat_add32) linarith
qed

lemma chunk_len_decr: "done < n \<Longrightarrow> unat n - unat (done + chunk_len off n done) < unat n - unat done"
  using chunk_len_step [of "done" n off] by (simp add: word_less_nat_alt)

function read_loop :: "memory \<Rightarrow> u32 \<Rightarrow> u32 \<Rightarrow> u32 \<Rightarrow> u32 \<Rightarrow> u8 list" where
  "read_loop m pages off n done =
     (if done < n
      then (let pos = off + done; pg = pos div PAGE_SIZE; poff = pos mod PAGE_SIZE;
                chunk = chunk_len off n done
            in mem_get m (page_slot m pages pg + poff) (unat chunk) @ read_loop m pages off n (done + chunk))
      else [])"
  by pat_completeness auto
termination
  by (relation "measure (\<lambda>(m, pages, off, n, done). unat n - unat done)")
     (simp_all add: chunk_len_decr)

function write_loop :: "u8 list \<Rightarrow> u32 \<Rightarrow> u32 \<Rightarrow> u32 \<Rightarrow> u32 \<Rightarrow> memory \<Rightarrow> memory" where
  "write_loop src pages off n done m =
     (if done < n
      then (let pos = off + done; pg = pos div PAGE_SIZE; poff = pos mod PAGE_SIZE;
                chunk = chunk_len off n done
            in write_loop src pages off n (done + chunk)
                 (mem_put m (page_slot m pages pg + poff) (take (unat chunk) (drop (unat done) src))))
      else m)"
  by pat_completeness auto
termination
  by (relation "measure (\<lambda>(src, pages, off, n, done, m). unat n - unat done)")
     (simp_all add: chunk_len_decr)

declare read_loop.simps [simp del] write_loop.simps [simp del]

text \<open>The result of a transfer: the count or \<open>-errno\<close>, and for a read the bytes.\<close>

definition ramfs_read :: "u32 \<Rightarrow> u32 \<Rightarrow> u32 \<Rightarrow> 'a ramfs_scheme \<Rightarrow> cint \<times> u8 list" where
  "ramfs_read ino off n s =
     (let i = inode s ino in
      if i_type i \<noteq> RF_REG then (-21, [])
      else if off \<ge> i_size i then (0, [])
      else (let n = (if n > i_size i - off then i_size i - off else n);
                bytes = read_loop (mem s) (i_pages i) off n 0
            in (int (unat n), bytes)))"

definition ramfs_write :: "u32 \<Rightarrow> u32 \<Rightarrow> u8 list \<Rightarrow> 'a ramfs_scheme \<Rightarrow> (cint \<times> 'a ramfs_scheme) option" where
  "ramfs_write ino off src s =
     (let n = of_nat (length src) in
      if i_type (inode s ino) \<noteq> RF_REG then Some (-21, s)
      else if n > 0xFFFFFFFF - off then Some (-22, s)
      else (let end = off + n; need_pages = (end + PAGE_SIZE - 1) div PAGE_SIZE in do {
        (r, s) \<leftarrow> ensure_pages ino need_pages s;
        if r \<noteq> 0 then Some (-12, s)
        else (let s = s\<lparr>mem := write_loop src (i_pages (inode s ino)) off n 0 (mem s)\<rparr>;
                  s = (if end > i_size (inode s ino) then upd_inode ino (\<lambda>i. i\<lparr>i_size := end\<rparr>) s else s)
              in Some (int (unat n), s)) }))"

fun free_pages :: "u32 \<Rightarrow> nat list \<Rightarrow> 'a ramfs_scheme \<Rightarrow> 'a ramfs_scheme" where
  "free_pages ino [] s = s"
| "free_pages ino (i # is) s =
     (let pages = i_pages (inode s ino); pa = page_slot (mem s) pages (of_nat i)
      in if pa \<noteq> 0
         then (let s = pmm_free_page pa s
               in free_pages ino is (s\<lparr>mem := set_slot pages (of_nat i) 0 (mem s)\<rparr>))
         else free_pages ino is s)"

definition ramfs_truncate :: "u32 \<Rightarrow> u32 \<Rightarrow> 'a ramfs_scheme \<Rightarrow> (cint \<times> 'a ramfs_scheme) option" where
  "ramfs_truncate ino newsize s =
     (let need_pages = (newsize + PAGE_SIZE - 1) div PAGE_SIZE in
      if i_type (inode s ino) \<noteq> RF_REG then Some (-21, s)
      else if newsize > i_size (inode s ino)
      then do {
        (r, s) \<leftarrow> ensure_pages ino need_pages s;
        if r \<noteq> 0 then Some (-12, s) else Some (0, upd_inode ino (\<lambda>i. i\<lparr>i_size := newsize\<rparr>) s) }
      else (let s = free_pages ino [unat need_pages..<unat (i_npages (inode s ino))] s;
                s = (if need_pages < i_npages (inode s ino) then upd_inode ino (\<lambda>i. i\<lparr>i_npages := need_pages\<rparr>) s else s)
            in Some (0, upd_inode ino (\<lambda>i. i\<lparr>i_size := newsize\<rparr>) s)))"

definition ramfs_page_at :: "u32 \<Rightarrow> u32 \<Rightarrow> 'a ramfs_scheme \<Rightarrow> u32 \<times> u32" where
  "ramfs_page_at ino off s =
     (let i = inode s ino in
      if i_type i \<noteq> RF_REG \<or> off \<ge> i_size i then (0, 0)
      else (let pg = off div PAGE_SIZE; poff = off mod PAGE_SIZE; a = PAGE_SIZE - poff;
                a = (if a > i_size i - off then i_size i - off else a)
            in (page_slot (mem s) (i_pages i) pg + poff, a)))"

section \<open>Pipes\<close>

definition ramfs_pipe :: "'a ramfs_scheme \<Rightarrow> (u32 \<times> 'a ramfs_scheme) option" where
  "ramfs_pipe s = do {
     (p, s) \<leftarrow> inode_new RF_PIPE 0x1180 s;
     if p = 0 then Some (0, s)
     else do {
       (b, s) \<leftarrow> kmalloc PIPE_CAP s;
       if b = 0 then Some (0, inode_free p s)
       else Some (p, upd_inode p (\<lambda>i. i\<lparr>i_pbuf := b, i_phead := 0, i_ptail := 0, i_size := 0, wr_open := 0, rd_open := 0\<rparr>) s) } }"

fun pipe_get :: "u32 \<Rightarrow> nat \<Rightarrow> 'a ramfs_scheme \<Rightarrow> u8 list \<times> 'a ramfs_scheme" where
  "pipe_get p 0 s = ([], s)"
| "pipe_get p (Suc n) s =
     (let i = inode s p in
      if i_size i > 0
      then (let b = mem s (i_pbuf i + i_ptail i);
                s = upd_inode p (\<lambda>i. i\<lparr>i_ptail := (i_ptail i + 1) mod PIPE_CAP, i_size := i_size i - 1\<rparr>) s;
                (bs, s) = pipe_get p n s
            in (b # bs, s))
      else ([], s))"

definition ramfs_pipe_read :: "u32 \<Rightarrow> u32 \<Rightarrow> 'a ramfs_scheme \<Rightarrow> cint \<times> u8 list \<times> 'a ramfs_scheme" where
  "ramfs_pipe_read p n s =
     (if i_type (inode s p) \<noteq> RF_PIPE then (-22, [], s)
      else (let (bs, s) = pipe_get p (unat n) s in (int (length bs), bs, s)))"

fun pipe_put :: "u32 \<Rightarrow> u8 list \<Rightarrow> 'a ramfs_scheme \<Rightarrow> nat \<times> 'a ramfs_scheme" where
  "pipe_put p [] s = (0, s)"
| "pipe_put p (b # bs) s =
     (let i = inode s p in
      if i_size i < PIPE_CAP
      then (let s = s\<lparr>mem := (mem s)(i_pbuf i + i_phead i := b)\<rparr>;
                s = upd_inode p (\<lambda>i. i\<lparr>i_phead := (i_phead i + 1) mod PIPE_CAP, i_size := i_size i + 1\<rparr>) s;
                (k, s) = pipe_put p bs s
            in (Suc k, s))
      else (0, s))"

definition ramfs_pipe_write :: "u32 \<Rightarrow> u8 list \<Rightarrow> 'a ramfs_scheme \<Rightarrow> cint \<times> 'a ramfs_scheme" where
  "ramfs_pipe_write p src s =
     (if i_type (inode s p) \<noteq> RF_PIPE then (-22, s)
      else if rd_open (inode s p) = 0 then (-32, s)
      else (let (put, s) = pipe_put p src s in (int put, s)))"

end
