(* ===== verification/Sched.thy ===== *)
theory Sched
  imports Prelude
begin

text \<open>
  The preemptive scheduler of the small kernel, \<open>rtos/kernel/sched.c\<close>: task control blocks, task
  creation with the initial stack frame, the priority scan of \<open>pick_next\<close>, the context switch
  \<open>sched_preempt\<close> and the operations that change the state of a task. An operation runs inside one
  critical section (\<open>spin_lock\<close> of \<open>spinlock.h\<close>, single-core variant: save and set \<open>PRIMASK\<close>), so
  it is one step; \<open>sched_yield\<close> only sets the pending bit of PendSV and the switch happens when the
  exception is taken. The CPU number is an argument, as the code reads it from \<open>get_cpu_id\<close>, and so
  is the tick counter read from \<open>systick_get_ticks\<close>. Tracing and the MPU hook are left out.
\<close>

section \<open>State\<close>

datatype task_state = TASK_READY | TASK_RUNNING | TASK_BLOCKED | TASK_SLEEPING | TASK_DEAD

definition MAX_TASKS :: nat where "MAX_TASKS = 8"
definition TASK_STACK_SIZE :: u32 where "TASK_STACK_SIZE = 4096"

record task_tcb =
  sp :: u32
  tname :: string
  state :: task_state
  wake_tick :: u32
  running_on_cpu :: int
  priority :: u8
  fn :: u32
  total_ticks :: u32
  last_switch_in :: u32

record wait_queue =
  waiters :: u32

text \<open>
  The statics of \<open>sched.c\<close>, with the interrupt mask and the PendSV bit of the processor, the bytes of
  the task stacks, and the link-time addresses of \<open>task_stacks\<close>, \<open>task_entry\<close> and
  \<open>sched_task_exit\<close>.
\<close>

record sched =
  tasks :: "nat \<Rightarrow> task_tcb"
  num_tasks :: nat
  current_task_per_cpu :: "nat \<Rightarrow> nat"
  primask :: u32
  pendsv :: bool
  smem :: memory
  task_stacks :: u32
  task_entry_at :: u32
  task_exit_at :: u32

definition upd_task :: "nat \<Rightarrow> (task_tcb \<Rightarrow> task_tcb) \<Rightarrow> 'a sched_scheme \<Rightarrow> 'a sched_scheme" where
  "upd_task i f s = s\<lparr>tasks := (tasks s)(i := f (tasks s i))\<rparr>"

definition spin_lock :: "'a sched_scheme \<Rightarrow> u32 \<times> 'a sched_scheme" where
  "spin_lock s = (primask s, s\<lparr>primask := 1\<rparr>)"

definition spin_unlock :: "u32 \<Rightarrow> 'a sched_scheme \<Rightarrow> 'a sched_scheme" where
  "spin_unlock key s = s\<lparr>primask := key\<rparr>"

section \<open>Operations\<close>

definition sched_yield :: "'a sched_scheme \<Rightarrow> 'a sched_scheme" where
  "sched_yield s = s\<lparr>pendsv := True\<rparr>"

text \<open>\<open>sched_task_exit\<close> never returns; this is the state in which it yields for ever.\<close>

definition sched_task_exit :: "nat \<Rightarrow> 'a sched_scheme \<Rightarrow> 'a sched_scheme" where
  "sched_task_exit cpu s =
     (let (key, s) = spin_lock s;
          s = upd_task (current_task_per_cpu s cpu) (\<lambda>t. t\<lparr>state := TASK_DEAD\<rparr>) s;
          s = upd_task (current_task_per_cpu s cpu) (\<lambda>t. t\<lparr>running_on_cpu := -1\<rparr>) s;
          s = spin_unlock key s
      in sched_yield s)"

fun push_words :: "u32 list \<Rightarrow> u32 \<times> memory \<Rightarrow> u32 \<times> memory" where
  "push_words [] p = p"
| "push_words (v # vs) (a, m) = push_words vs (a - 4, st32 m (a - 4) v)"

definition initial_frame :: "'a sched_scheme \<Rightarrow> u32 list" where
  "initial_frame s =
     [push_bit 24 1, task_entry_at s, task_exit_at s OR 1, 0,
      0, 0, 0, 0,
      0, 0, 0, 0,
      0, 0, 0, 0]"

definition task_stack_init :: "u32 \<Rightarrow> 'a sched_scheme \<Rightarrow> u32 \<times> 'a sched_scheme" where
  "task_stack_init stack_base s =
     (let (a, m) = push_words (initial_frame s) (stack_base + TASK_STACK_SIZE, smem s)
      in (a, s\<lparr>smem := m\<rparr>))"

definition sched_create_task :: "u32 \<Rightarrow> string \<Rightarrow> u8 \<Rightarrow> 'a sched_scheme \<Rightarrow> int \<times> 'a sched_scheme" where
  "sched_create_task f name prio s =
     (let (key, s) = spin_lock s
      in if num_tasks s \<ge> MAX_TASKS then (-1, spin_unlock key s)
         else (let i = num_tasks s;
                   s = s\<lparr>num_tasks := num_tasks s + 1\<rparr>;
                   s = upd_task i (\<lambda>t. t\<lparr>fn := f\<rparr>) s;
                   (a, s) = task_stack_init (task_stacks s + of_nat i * TASK_STACK_SIZE) s;
                   s = upd_task i (\<lambda>t. t\<lparr>sp := a, tname := name, state := TASK_READY, wake_tick := 0,
                                         running_on_cpu := -1, priority := prio\<rparr>) s
               in (int i, spin_unlock key s)))"

definition sched_current_name :: "nat \<Rightarrow> 'a sched_scheme \<Rightarrow> string" where
  "sched_current_name cpu s = tname (tasks s (current_task_per_cpu s cpu))"

definition sched_current_id :: "nat \<Rightarrow> 'a sched_scheme \<Rightarrow> int" where
  "sched_current_id cpu s = int (current_task_per_cpu s cpu)"

definition sched_get_task_count :: "'a sched_scheme \<Rightarrow> int" where
  "sched_get_task_count s = int (num_tasks s)"

record task_stats =
  st_name :: string
  st_priority :: u8
  st_state :: task_state
  st_total_ticks :: u32

definition sched_get_task_stats :: "int \<Rightarrow> 'a sched_scheme \<Rightarrow> task_stats option" where
  "sched_get_task_stats i s =
     (if i < 0 \<or> i \<ge> int (num_tasks s) then None
      else (let t = tasks s (nat i)
            in Some \<lparr>st_name = tname t, st_priority = priority t, st_state = state t,
                     st_total_ticks = total_ticks t\<rparr>))"

text \<open>
  One turn of the scan of \<open>pick_next\<close>: \<open>best\<close> is the candidate so far (none for the code's -1) and
  \<open>best_prio\<close> its priority.
\<close>

definition scan_task ::
  "nat \<Rightarrow> u32 \<Rightarrow> nat \<Rightarrow> nat option \<times> u8 \<times> 'a sched_scheme \<Rightarrow> nat option \<times> u8 \<times> 'a sched_scheme" where
  "scan_task cpu now i =
     (\<lambda>(best, best_prio, s).
       let c = (current_task_per_cpu s cpu + 1 + i) mod num_tasks s;
           s = (if state (tasks s c) = TASK_SLEEPING \<and> now \<ge> wake_tick (tasks s c)
                then upd_task c (\<lambda>t. t\<lparr>state := TASK_READY, wake_tick := 0\<rparr>) s else s);
           t = tasks s c
       in if running_on_cpu t \<ge> 0 \<and> running_on_cpu t \<noteq> int cpu then (best, best_prio, s)
          else if state t = TASK_READY \<and> priority t \<le> best_prio then (Some c, priority t, s)
          else (best, best_prio, s))"

definition pick_next :: "nat \<Rightarrow> u32 \<Rightarrow> 'a sched_scheme \<Rightarrow> nat \<times> 'a sched_scheme" where
  "pick_next cpu now s =
     (let (best, best_prio, s) = fold (scan_task cpu now) [0..<num_tasks s] (None, 255, s)
      in case best of Some b \<Rightarrow> (b, s)
         | None \<Rightarrow>
             (let cur = current_task_per_cpu s cpu
              in if state (tasks s cur) = TASK_RUNNING \<or> state (tasks s cur) = TASK_READY then (cur, s)
                 else (case find (\<lambda>i. state (tasks s i) = TASK_READY \<and> running_on_cpu (tasks s i) < 0)
                              [0..<num_tasks s] of
                         Some i \<Rightarrow> (i, s) | None \<Rightarrow> (cur, s))))"

definition sched_preempt :: "nat \<Rightarrow> u32 \<Rightarrow> u32 \<Rightarrow> 'a sched_scheme \<Rightarrow> u32 \<times> 'a sched_scheme" where
  "sched_preempt cpu now old_sp s =
     (let old_task = current_task_per_cpu s cpu;
          (key, s) = spin_lock s;
          s = upd_task old_task (\<lambda>t. t\<lparr>total_ticks := total_ticks t + (now - last_switch_in t)\<rparr>) s;
          s = upd_task old_task (\<lambda>t. t\<lparr>sp := old_sp\<rparr>) s;
          s = (if state (tasks s old_task) = TASK_RUNNING
               then upd_task old_task (\<lambda>t. t\<lparr>state := TASK_READY, running_on_cpu := -1\<rparr>) s else s);
          (next, s) = pick_next cpu now s;
          s = s\<lparr>current_task_per_cpu := (current_task_per_cpu s)(cpu := next)\<rparr>;
          s = upd_task next (\<lambda>t. t\<lparr>state := TASK_RUNNING, running_on_cpu := int cpu,
                                   last_switch_in := now\<rparr>) s;
          s = spin_unlock key s
      in (sp (tasks s next), s))"

definition sched_sleep_ms :: "nat \<Rightarrow> u32 \<Rightarrow> u32 \<Rightarrow> 'a sched_scheme \<Rightarrow> 'a sched_scheme" where
  "sched_sleep_ms cpu now ms s =
     (let (key, s) = spin_lock s;
          i = current_task_per_cpu s cpu;
          s = upd_task i (\<lambda>t. t\<lparr>wake_tick := now + ms, state := TASK_SLEEPING, running_on_cpu := -1\<rparr>) s;
          s = spin_unlock key s
      in sched_yield s)"

definition sched_block :: "nat \<Rightarrow> wait_queue \<Rightarrow> 'a sched_scheme \<Rightarrow> wait_queue \<times> 'a sched_scheme" where
  "sched_block cpu wq s =
     (let i = current_task_per_cpu s cpu;
          s = upd_task i (\<lambda>t. t\<lparr>state := TASK_BLOCKED, running_on_cpu := -1\<rparr>) s
      in (wq\<lparr>waiters := waiters wq OR push_bit i 1\<rparr>, s))"

definition sched_wake :: "wait_queue \<Rightarrow> 'a sched_scheme \<Rightarrow> wait_queue \<times> 'a sched_scheme" where
  "sched_wake wq s =
     (if waiters wq = 0 then (wq, s)
      else (case find (\<lambda>i. waiters wq AND push_bit i 1 \<noteq> 0) [0..<num_tasks s] of
              None \<Rightarrow> (wq, s)
            | Some i \<Rightarrow> (wq\<lparr>waiters := waiters wq AND NOT (push_bit i 1)\<rparr>,
                         upd_task i (\<lambda>t. t\<lparr>state := TASK_READY\<rparr>) s)))"

definition sched_wake_all :: "wait_queue \<Rightarrow> 'a sched_scheme \<Rightarrow> wait_queue \<times> 'a sched_scheme" where
  "sched_wake_all wq s =
     (wq\<lparr>waiters := 0\<rparr>,
      fold (\<lambda>i s. if waiters wq AND push_bit i 1 \<noteq> 0 then upd_task i (\<lambda>t. t\<lparr>state := TASK_READY\<rparr>) s else s)
        [0..<num_tasks s] s)"

text \<open>
  \<open>sched_start\<close> up to the assembly that loads the first context: it returns the stack pointer the
  assembly pops, or none when there is no task and the function returns.
\<close>

definition sched_start :: "nat \<Rightarrow> 'a sched_scheme \<Rightarrow> u32 option \<times> 'a sched_scheme" where
  "sched_start cpu s =
     (if num_tasks s = 0 then (None, s)
      else (let s = s\<lparr>current_task_per_cpu := (current_task_per_cpu s)(cpu := 0)\<rparr>;
                s = upd_task 0 (\<lambda>t. t\<lparr>state := TASK_RUNNING, running_on_cpu := int cpu\<rparr>) s
            in (Some (sp (tasks s 0)), s)))"

section \<open>What the scan picks\<close>

definition woken :: "u32 \<Rightarrow> task_tcb \<Rightarrow> task_tcb" where
  "woken now t = (if state t = TASK_SLEEPING \<and> now \<ge> wake_tick t
                  then t\<lparr>state := TASK_READY, wake_tick := 0\<rparr> else t)"

lemma woken_simps [simp]:
  "running_on_cpu (woken now t) = running_on_cpu t" "priority (woken now t) = priority t"
  "sp (woken now t) = sp t" "fn (woken now t) = fn t" "total_ticks (woken now t) = total_ticks t"
  "last_switch_in (woken now t) = last_switch_in t" "woken now (woken now t) = woken now t"
  by (simp_all add: woken_def)

lemma state_woken:
  "state (woken now t) = TASK_READY \<longleftrightarrow> state t = TASK_READY \<or> state t = TASK_SLEEPING \<and> wake_tick t \<le> now"
  "state (woken now t) = TASK_RUNNING \<longleftrightarrow> state t = TASK_RUNNING"
  "state (woken now t) = TASK_BLOCKED \<longleftrightarrow> state t = TASK_BLOCKED"
  "state (woken now t) = TASK_DEAD \<longleftrightarrow> state t = TASK_DEAD"
  by (auto simp: woken_def)

definition eligible :: "nat \<Rightarrow> u32 \<Rightarrow> task_tcb \<Rightarrow> bool" where
  "eligible cpu now t \<longleftrightarrow> state (woken now t) = TASK_READY \<and> (running_on_cpu t < 0 \<or> running_on_cpu t = int cpu)"

abbreviation slot :: "nat \<Rightarrow> nat \<Rightarrow> 'a sched_scheme \<Rightarrow> nat \<Rightarrow> nat" where
  "slot cpu n s i \<equiv> (current_task_per_cpu s cpu + 1 + i) mod n"

definition visit :: "u32 \<Rightarrow> nat set \<Rightarrow> 'a sched_scheme \<Rightarrow> 'a sched_scheme" where
  "visit now V s = s\<lparr>tasks := \<lambda>c. if c \<in> V then woken now (tasks s c) else tasks s c\<rparr>"

lemma visit_simps [simp]:
  "num_tasks (visit now V s) = num_tasks s" "current_task_per_cpu (visit now V s) = current_task_per_cpu s"
  "tasks (visit now V s) c = (if c \<in> V then woken now (tasks s c) else tasks s c)"
  by (simp_all add: visit_def)

lemma scan_task_visit:
  assumes "c = slot cpu (num_tasks s) s i" "c \<notin> V"
  shows "scan_task cpu now i (b, bp, visit now V s) =
    (if eligible cpu now (tasks s c) \<and> priority (tasks s c) \<le> bp then (Some c, priority (tasks s c), visit now (insert c V) s)
     else (b, bp, visit now (insert c V) s))"
proof -
  have v: "visit now (insert c V) s =
    (if state (tasks s c) = TASK_SLEEPING \<and> now \<ge> wake_tick (tasks s c)
     then upd_task c (\<lambda>t. t\<lparr>state := TASK_READY, wake_tick := 0\<rparr>) (visit now V s) else visit now V s)"
    using assms(2) by (auto simp: visit_def upd_task_def woken_def fun_eq_iff)
  show ?thesis
    unfolding scan_task_def Let_def prod.case visit_simps assms(1) [symmetric]
    using assms(2) by (auto simp: v [symmetric] eligible_def)
qed


lemma u8_le_255: "(x :: u8) \<le> 255"
  using unsigned_less [of x, where ?'a = nat] by (simp add: word_le_nat_alt)

lemma visit_empty [simp]: "visit now {} s = s"
  by (simp add: visit_def)

lemma scan_spec:
  fixes s :: "'a sched_scheme"
  defines "n \<equiv> num_tasks s"
  assumes "k \<le> n"
  shows "\<exists>b bp. fold (scan_task cpu now) [0..<k] (None, 255, s) = (b, bp, visit now (slot cpu n s ` {0..<k}) s) \<and>
    (case b of None \<Rightarrow> bp = 255 \<and> (\<forall>j < k. \<not> eligible cpu now (tasks s (slot cpu n s j)))
     | Some x \<Rightarrow> \<exists>i < k. x = slot cpu n s i \<and> eligible cpu now (tasks s x) \<and> bp = priority (tasks s x) \<and>
         (\<forall>j < k. eligible cpu now (tasks s (slot cpu n s j)) \<longrightarrow>
            bp \<le> priority (tasks s (slot cpu n s j)) \<and> (priority (tasks s (slot cpu n s j)) = bp \<longrightarrow> j \<le> i)))"
  using assms(2)
proof (induction k)
  case (Suc k)
  let ?c = "slot cpu n s" and ?e = "\<lambda>c. eligible cpu now (tasks s c)"
  obtain b bp where f: "fold (scan_task cpu now) [0..<k] (None, 255, s) = (b, bp, visit now (?c ` {0..<k}) s)"
    and b: "case b of None \<Rightarrow> bp = 255 \<and> (\<forall>j < k. \<not> ?e (?c j))
     | Some x \<Rightarrow> \<exists>i < k. x = ?c i \<and> ?e x \<and> bp = priority (tasks s x) \<and>
         (\<forall>j < k. ?e (?c j) \<longrightarrow> bp \<le> priority (tasks s (?c j)) \<and> (priority (tasks s (?c j)) = bp \<longrightarrow> j \<le> i))"
    using Suc by auto
  have k: "k < n" using Suc.prems by simp
  have new: "?c k \<notin> ?c ` {0..<k}"
  proof
    assume "?c k \<in> ?c ` {0..<k}"
    then obtain j where "j < k" "?c j = ?c k" by auto
    then show False using shift_mod_inj [of j n k "current_task_per_cpu s cpu + 1"] k by simp
  qed
  have V: "insert (?c k) (?c ` {0..<k}) = ?c ` {0..<Suc k}" by (simp add: atLeast0_lessThan_Suc)
  have st: "fold (scan_task cpu now) [0..<Suc k] (None, 255, s) =
    (if ?e (?c k) \<and> priority (tasks s (?c k)) \<le> bp then (Some (?c k), priority (tasks s (?c k)), visit now (?c ` {0..<Suc k}) s)
     else (b, bp, visit now (?c ` {0..<Suc k}) s))"
  proof -
    have "fold (scan_task cpu now) [0..<Suc k] (None, 255, s) = scan_task cpu now k (b, bp, visit now (?c ` {0..<k}) s)"
      using f by simp
    also have "\<dots> = (if ?e (?c k) \<and> priority (tasks s (?c k)) \<le> bp
        then (Some (?c k), priority (tasks s (?c k)), visit now (insert (?c k) (?c ` {0..<k})) s)
        else (b, bp, visit now (insert (?c k) (?c ` {0..<k})) s))"
      by (rule scan_task_visit [OF _ new]) (simp only: n_def)
    finally show ?thesis unfolding V .
  qed
  show ?case
  proof (cases "?e (?c k) \<and> priority (tasks s (?c k)) \<le> bp")
    case True
    have "bp \<le> priority (tasks s (?c j))" if "j < k" "?e (?c j)" for j
      using b that by (cases b) auto
    then have "\<forall>j < Suc k. ?e (?c j) \<longrightarrow> priority (tasks s (?c k)) \<le> priority (tasks s (?c j)) \<and>
        (priority (tasks s (?c j)) = priority (tasks s (?c k)) \<longrightarrow> j \<le> k)"
      using True by (auto simp: less_Suc_eq intro: order_trans)
    then have "\<exists>i < Suc k. ?c k = ?c i \<and> ?e (?c k) \<and> priority (tasks s (?c k)) = priority (tasks s (?c k)) \<and>
        (\<forall>j < Suc k. ?e (?c j) \<longrightarrow> priority (tasks s (?c k)) \<le> priority (tasks s (?c j)) \<and>
          (priority (tasks s (?c j)) = priority (tasks s (?c k)) \<longrightarrow> j \<le> i))"
      using True by (intro exI [of _ k]) simp
    then show ?thesis unfolding st using True by simp
  next
    case False
    have "case b of None \<Rightarrow> bp = 255 \<and> (\<forall>j < Suc k. \<not> ?e (?c j))
     | Some x \<Rightarrow> \<exists>i < Suc k. x = ?c i \<and> ?e x \<and> bp = priority (tasks s x) \<and>
         (\<forall>j < Suc k. ?e (?c j) \<longrightarrow> bp \<le> priority (tasks s (?c j)) \<and> (priority (tasks s (?c j)) = bp \<longrightarrow> j \<le> i))"
    proof (cases b)
      case None
      then have "bp = 255" using b by simp
      moreover have "priority (tasks s (?c k)) \<le> 255" by (rule u8_le_255)
      ultimately show ?thesis using b None False by (auto simp: less_Suc_eq)
    next
      case (Some x)
      then obtain i where i: "i < k" "x = ?c i" "?e x" "bp = priority (tasks s x)"
        "\<forall>j < k. ?e (?c j) \<longrightarrow> bp \<le> priority (tasks s (?c j)) \<and> (priority (tasks s (?c j)) = bp \<longrightarrow> j \<le> i)"
        using b by auto
      have "\<forall>j < Suc k. ?e (?c j) \<longrightarrow> bp \<le> priority (tasks s (?c j)) \<and> (priority (tasks s (?c j)) = bp \<longrightarrow> j \<le> i)"
        using i(5) False by (auto simp: less_Suc_eq)
      then have "\<exists>i < Suc k. x = ?c i \<and> ?e x \<and> bp = priority (tasks s x) \<and>
         (\<forall>j < Suc k. ?e (?c j) \<longrightarrow> bp \<le> priority (tasks s (?c j)) \<and> (priority (tasks s (?c j)) = bp \<longrightarrow> j \<le> i))"
        using i(1-4) by (intro exI [of _ i]) simp
      then show ?thesis using Some by simp
    qed
    then show ?thesis unfolding st if_not_P [OF False] by blast
  qed
qed simp

text \<open>
  The priority scan in one statement. With no eligible task the code stays on the current task: its
  last-resort loop can find nothing the scan did not.
\<close>

lemma pick_next_cases:
  fixes s :: "'a sched_scheme"
  defines "n \<equiv> num_tasks s"
  assumes n: "current_task_per_cpu s cpu < n"
  obtains (none) "\<And>c. c < n \<Longrightarrow> \<not> eligible cpu now (tasks s c)"
      "pick_next cpu now s = (current_task_per_cpu s cpu, visit now {0..<n} s)"
  | (best) i where "i < n" "eligible cpu now (tasks s (slot cpu n s i))"
      "pick_next cpu now s = (slot cpu n s i, visit now {0..<n} s)"
      "\<And>j. j < n \<Longrightarrow> eligible cpu now (tasks s (slot cpu n s j)) \<Longrightarrow>
        priority (tasks s (slot cpu n s i)) < priority (tasks s (slot cpu n s j)) \<or>
        priority (tasks s (slot cpu n s i)) = priority (tasks s (slot cpu n s j)) \<and> j \<le> i"
proof -
  let ?c = "slot cpu n s" and ?e = "\<lambda>c. eligible cpu now (tasks s c)"
  have surj: "\<exists>i < n. ?c i = c" if "c < n" for c
    using shift_mod_surj [OF that, of "current_task_per_cpu s cpu + 1"] by metis
  have im: "?c ` {0..<n} = {0..<n}"
    using surj n by fastforce
  obtain b bp where f: "fold (scan_task cpu now) [0..<n] (None, 255, s) = (b, bp, visit now {0..<n} s)"
    and b: "case b of None \<Rightarrow> bp = 255 \<and> (\<forall>j < n. \<not> ?e (?c j))
     | Some x \<Rightarrow> \<exists>i < n. x = ?c i \<and> ?e x \<and> bp = priority (tasks s x) \<and>
         (\<forall>j < n. ?e (?c j) \<longrightarrow> bp \<le> priority (tasks s (?c j)) \<and> (priority (tasks s (?c j)) = bp \<longrightarrow> j \<le> i))"
    using scan_spec [of n s cpu now] im unfolding n_def by auto
  show thesis
  proof (cases b)
    case None
    then have no: "\<not> ?e c" if "c < n" for c using b surj [OF that] by auto
    let ?v = "visit now {0..<n} s"
    have "find (\<lambda>i. state (tasks ?v i) = TASK_READY \<and> running_on_cpu (tasks ?v i) < 0) [0..<n] = None"
      unfolding find_upt_None using no by (auto simp: eligible_def)
    then have "pick_next cpu now s = (current_task_per_cpu s cpu, ?v)"
      using f None by (simp add: pick_next_def n_def Let_def)
    then show thesis using none no by blast
  next
    case (Some x)
    then obtain i where i: "i < n" "x = ?c i" "?e x" "bp = priority (tasks s x)"
      "\<forall>j < n. ?e (?c j) \<longrightarrow> bp \<le> priority (tasks s (?c j)) \<and> (priority (tasks s (?c j)) = bp \<longrightarrow> j \<le> i)"
      using b by auto
    have "pick_next cpu now s = (?c i, visit now {0..<n} s)"
      using f Some i(2) by (simp add: pick_next_def n_def)
    then show thesis using i(5) unfolding i(2,4) by (intro best [OF i(1) i(3) [unfolded i(2)]]) (auto simp: order_less_le)
  qed
qed

section \<open>The context switch\<close>

definition out_task :: "u32 \<Rightarrow> u32 \<Rightarrow> task_tcb \<Rightarrow> task_tcb" where
  "out_task now osp t =
     (let t = t\<lparr>total_ticks := total_ticks t + (now - last_switch_in t), sp := osp\<rparr>
      in if state t = TASK_RUNNING then t\<lparr>state := TASK_READY, running_on_cpu := -1\<rparr> else t)"

definition in_task :: "nat \<Rightarrow> u32 \<Rightarrow> task_tcb \<Rightarrow> task_tcb" where
  "in_task cpu now t = t\<lparr>state := TASK_RUNNING, running_on_cpu := int cpu, last_switch_in := now\<rparr>"

lemma in_out_simps [simp]:
  "priority (out_task now osp t) = priority t" "sp (out_task now osp t) = osp"
  "total_ticks (out_task now osp t) = total_ticks t + (now - last_switch_in t)"
  "priority (in_task cpu now t) = priority t" "sp (in_task cpu now t) = sp t"
  "total_ticks (in_task cpu now t) = total_ticks t"
  "state (in_task cpu now t) = TASK_RUNNING" "running_on_cpu (in_task cpu now t) = int cpu"
  by (simp_all add: out_task_def in_task_def Let_def)

definition prep :: "nat \<Rightarrow> u32 \<Rightarrow> u32 \<Rightarrow> 'a sched_scheme \<Rightarrow> 'a sched_scheme" where
  "prep cpu now osp s =
     (let old = current_task_per_cpu s cpu
      in s\<lparr>primask := 1, tasks := (tasks s)(old := out_task now osp (tasks s old))\<rparr>)"

lemma prep_simps [simp]:
  "num_tasks (prep cpu now osp s) = num_tasks s"
  "current_task_per_cpu (prep cpu now osp s) = current_task_per_cpu s"
  "tasks (prep cpu now osp s) c =
    (if c = current_task_per_cpu s cpu then out_task now osp (tasks s c) else tasks s c)"
  by (simp_all add: prep_def Let_def)

lemma sched_preempt_eq:
  "sched_preempt cpu now osp s =
     (let (next, t) = pick_next cpu now (prep cpu now osp s)
      in (sp (tasks t next),
          t\<lparr>primask := primask s, current_task_per_cpu := (current_task_per_cpu t)(cpu := next),
            tasks := (tasks t)(next := in_task cpu now (tasks t next))\<rparr>))"
proof -
  have "(if state (tasks (upd_task i (\<lambda>t. t\<lparr>sp := osp\<rparr>)
            (upd_task i (\<lambda>t. t\<lparr>total_ticks := total_ticks t + (now - last_switch_in t)\<rparr>) (s\<lparr>primask := 1\<rparr>))) i) = TASK_RUNNING
         then upd_task i (\<lambda>t. t\<lparr>state := TASK_READY, running_on_cpu := -1\<rparr>) (upd_task i (\<lambda>t. t\<lparr>sp := osp\<rparr>)
            (upd_task i (\<lambda>t. t\<lparr>total_ticks := total_ticks t + (now - last_switch_in t)\<rparr>) (s\<lparr>primask := 1\<rparr>)))
         else upd_task i (\<lambda>t. t\<lparr>sp := osp\<rparr>)
            (upd_task i (\<lambda>t. t\<lparr>total_ticks := total_ticks t + (now - last_switch_in t)\<rparr>) (s\<lparr>primask := 1\<rparr>)))
      = prep cpu now osp s" if "i = current_task_per_cpu s cpu" for i
    using that by (simp add: prep_def out_task_def upd_task_def Let_def)
  from this [OF refl] show ?thesis
    unfolding sched_preempt_def spin_lock_def Let_def prod.case
    by (simp add: upd_task_def spin_unlock_def in_task_def split: prod.splits)
qed

text \<open>A task the switch may choose: the one being switched away from, or one ready for this CPU.\<close>

definition runnable :: "nat \<Rightarrow> u32 \<Rightarrow> 'a sched_scheme \<Rightarrow> nat \<Rightarrow> bool" where
  "runnable cpu now s c \<longleftrightarrow> c < num_tasks s \<and>
     (c = current_task_per_cpu s cpu \<and> state (tasks s c) = TASK_RUNNING \<or> eligible cpu now (tasks s c))"

lemma eligible_out:
  "eligible cpu now (out_task now osp t) \<longleftrightarrow> state t = TASK_RUNNING \<or> eligible cpu now t"
  by (auto simp: eligible_def out_task_def Let_def woken_def)

lemma runnable_prep:
  "runnable cpu now s c \<longleftrightarrow> c < num_tasks s \<and> eligible cpu now (tasks (prep cpu now osp s) c)"
  by (auto simp: runnable_def eligible_out)

definition switched :: "nat \<Rightarrow> u32 \<Rightarrow> u32 \<Rightarrow> 'a sched_scheme \<Rightarrow> nat \<Rightarrow> 'a sched_scheme \<Rightarrow> bool" where
  "switched cpu now osp s next s' \<longleftrightarrow>
     s' = s\<lparr>current_task_per_cpu := (current_task_per_cpu s)(cpu := next),
            tasks := \<lambda>c. let t = tasks (prep cpu now osp s) c; t = (if c < num_tasks s then woken now t else t)
                         in if c = next then in_task cpu now t else t\<rparr>"

lemma sched_preempt_cases:
  assumes cur: "current_task_per_cpu s cpu < num_tasks s"
  obtains (stuck) s' where "sched_preempt cpu now osp s = (osp, s')" "\<And>c. \<not> runnable cpu now s c"
      "switched cpu now osp s (current_task_per_cpu s cpu) s'"
  | (chosen) i s' where "i < num_tasks s" "runnable cpu now s (slot cpu (num_tasks s) s i)"
      "sched_preempt cpu now osp s = (sp (tasks (prep cpu now osp s) (slot cpu (num_tasks s) s i)), s')"
      "switched cpu now osp s (slot cpu (num_tasks s) s i) s'"
      "\<And>j. j < num_tasks s \<Longrightarrow> runnable cpu now s (slot cpu (num_tasks s) s j) \<Longrightarrow>
        priority (tasks s (slot cpu (num_tasks s) s i)) < priority (tasks s (slot cpu (num_tasks s) s j)) \<or>
        priority (tasks s (slot cpu (num_tasks s) s i)) = priority (tasks s (slot cpu (num_tasks s) s j)) \<and> j \<le> i"
proof -
  let ?p = "prep cpu now osp s" and ?n = "num_tasks s"
  have prio: "priority (tasks ?p c) = priority (tasks s c)" for c by simp
  have sw: "sched_preempt cpu now osp s = (sp (tasks ?p nx), s')" "switched cpu now osp s nx s'"
    if "pick_next cpu now ?p = (nx, visit now {0..<?n} ?p)"
      "s' = snd (sched_preempt cpu now osp s)" for nx s'
    using that by (auto simp: sched_preempt_eq switched_def visit_def prep_def Let_def fun_eq_iff)
  have p: "current_task_per_cpu ?p cpu < num_tasks ?p" using cur by simp
  show thesis
  proof (cases rule: pick_next_cases [OF p, of now, case_names none best])
    case none
    have no: "\<not> runnable cpu now s c" for c
      using none(1) [of c] by (auto simp: runnable_prep [where osp = osp])
    have pk: "pick_next cpu now ?p = (current_task_per_cpu s cpu, visit now {0..<?n} ?p)"
      using none(2) by simp
    show thesis using sw [OF pk refl] by (intro stuck [OF _ no]) simp_all
  next
    case (best i)
    have pk: "pick_next cpu now ?p = (slot cpu ?n s i, visit now {0..<?n} ?p)"
      using best(3) by simp
    have lt: "slot cpu ?n s j < ?n" for j using cur by simp
    show thesis
    proof (rule chosen [OF _ _ sw [OF pk refl]])
      show "i < ?n" using best(1) by simp
      show "runnable cpu now s (slot cpu ?n s i)"
        using best(2) lt by (simp add: runnable_prep [where osp = osp])
      fix j assume "j < ?n" "runnable cpu now s (slot cpu ?n s j)"
      then show "priority (tasks s (slot cpu ?n s i)) < priority (tasks s (slot cpu ?n s j)) \<or>
        priority (tasks s (slot cpu ?n s i)) = priority (tasks s (slot cpu ?n s j)) \<and> j \<le> i"
        using best(4) [of j] unfolding prio by (simp add: runnable_prep [where osp = osp])
    qed
  qed
qed

section \<open>Reachable states of the single-core build\<close>

definition zero_tcb :: task_tcb where
  "zero_tcb = \<lparr>sp = 0, tname = [], state = TASK_READY, wake_tick = 0, running_on_cpu = 0, priority = 0,
     fn = 0, total_ticks = 0, last_switch_in = 0\<rparr>"

inductive sched_reach :: "sched \<Rightarrow> bool" where
  boot: "tasks s = (\<lambda>_. zero_tcb) \<Longrightarrow> num_tasks s = 0 \<Longrightarrow> current_task_per_cpu s = (\<lambda>_. 0) \<Longrightarrow> sched_reach s"
| create: "sched_reach s \<Longrightarrow> sched_reach (snd (sched_create_task f nm pr s))"
| start: "sched_reach s \<Longrightarrow> \<forall>i < num_tasks s. state (tasks s i) \<noteq> TASK_RUNNING \<Longrightarrow> sched_reach (snd (sched_start 0 s))"
| preempt: "sched_reach s \<Longrightarrow> 0 < num_tasks s \<Longrightarrow> sched_reach (snd (sched_preempt 0 now osp s))"
| sleep: "sched_reach s \<Longrightarrow> 0 < num_tasks s \<Longrightarrow> sched_reach (sched_sleep_ms 0 now ms s)"
| block: "sched_reach s \<Longrightarrow> 0 < num_tasks s \<Longrightarrow> sched_reach (snd (sched_block 0 wq s))"
| wake: "sched_reach s \<Longrightarrow> sched_reach (snd (sched_wake wq s))"
| wake_all: "sched_reach s \<Longrightarrow> sched_reach (snd (sched_wake_all wq s))"
| exit: "sched_reach s \<Longrightarrow> 0 < num_tasks s \<Longrightarrow> sched_reach (sched_task_exit 0 s)"

definition sched_inv :: "'a sched_scheme \<Rightarrow> bool" where
  "sched_inv s \<longleftrightarrow> num_tasks s \<le> MAX_TASKS \<and> (0 < num_tasks s \<longrightarrow> current_task_per_cpu s 0 < num_tasks s) \<and>
     (num_tasks s = 0 \<longrightarrow> current_task_per_cpu s 0 = 0) \<and>
     (\<forall>i < num_tasks s. running_on_cpu (tasks s i) \<in> {-1, 0} \<and>
        (state (tasks s i) = TASK_RUNNING \<longrightarrow> i = current_task_per_cpu s 0 \<and> running_on_cpu (tasks s i) = 0))"

lemma upd_task_simps [simp]:
  "tasks (upd_task i f s) c = (if c = i then f (tasks s i) else tasks s c)"
  "num_tasks (upd_task i f s) = num_tasks s" "current_task_per_cpu (upd_task i f s) = current_task_per_cpu s"
  "primask (upd_task i f s) = primask s" "smem (upd_task i f s) = smem s"
  by (auto simp: upd_task_def)

lemma lock_simps [simp]:
  "tasks (spin_unlock k s) = tasks s" "num_tasks (spin_unlock k s) = num_tasks s"
  "current_task_per_cpu (spin_unlock k s) = current_task_per_cpu s" "smem (spin_unlock k s) = smem s"
  "tasks (sched_yield s) = tasks s" "num_tasks (sched_yield s) = num_tasks s"
  "current_task_per_cpu (sched_yield s) = current_task_per_cpu s"
  by (simp_all add: spin_unlock_def sched_yield_def)

lemma fold_upd_tasks:
  "num_tasks (fold (\<lambda>i s. if P i then upd_task i f s else s) xs s) = num_tasks s"
  "current_task_per_cpu (fold (\<lambda>i s. if P i then upd_task i f s else s) xs s) = current_task_per_cpu s"
  "distinct xs \<Longrightarrow> tasks (fold (\<lambda>i s. if P i then upd_task i f s else s) xs s) c =
     (if c \<in> set xs \<and> P c then f (tasks s c) else tasks s c)"
  by (induction xs arbitrary: s) auto

lemma switched_simps:
  assumes "switched cpu now osp s nx s'"
  shows "num_tasks s' = num_tasks s" "current_task_per_cpu s' = (current_task_per_cpu s)(cpu := nx)"
    "primask s' = primask s"
    "tasks s' c = (let t = tasks (prep cpu now osp s) c; t = (if c < num_tasks s then woken now t else t)
                   in if c = nx then in_task cpu now t else t)"
  using assms unfolding switched_def by (simp_all del: prep_simps)

lemma out_task_facts:
  "state (out_task now osp t) \<noteq> TASK_RUNNING"
  "running_on_cpu (out_task now osp t) = (if state t = TASK_RUNNING then -1 else running_on_cpu t)"
  by (auto simp: out_task_def Let_def)

lemma sched_preempt_inv:
  assumes inv: "sched_inv s" and n: "0 < num_tasks s"
  shows "sched_inv (snd (sched_preempt 0 now osp s))"
proof -
  have cur: "current_task_per_cpu s 0 < num_tasks s" using inv n by (simp add: sched_inv_def)
  have main: "sched_inv s'" if "switched 0 now osp s nx s'" "nx < num_tasks s" for nx s'
    using inv that(2) n
    by (auto simp: sched_inv_def switched_simps [OF that(1)] Let_def state_woken out_task_facts)
  from cur show ?thesis
  proof (cases rule: sched_preempt_cases [where now = now and osp = osp])
    case (stuck s')
    then show ?thesis using main cur by simp
  next
    case (chosen i s')
    then show ?thesis using main [OF chosen(4)] cur by simp
  qed
qed

lemma sched_reach_inv: "sched_reach s \<Longrightarrow> sched_inv s"
proof (induction rule: sched_reach.induct)
  case (boot s)
  then show ?case by (simp add: sched_inv_def)
next
  case (create s f nm pr)
  then show ?case
    by (auto simp: sched_create_task_def spin_lock_def task_stack_init_def sched_inv_def Let_def less_Suc_eq
        split: prod.splits)
next
  case (start s)
  then show ?case by (auto simp: sched_start_def sched_inv_def Let_def)
next
  case (preempt s now osp)
  then show ?case by (simp add: sched_preempt_inv)
next
  case (sleep s now ms)
  then show ?case by (auto simp: sched_sleep_ms_def spin_lock_def sched_inv_def Let_def)
next
  case (block s wq)
  then show ?case by (auto simp: sched_block_def sched_inv_def Let_def)
next
  case (wake s wq)
  then show ?case by (auto simp: sched_wake_def sched_inv_def split: option.splits)
next
  case (wake_all s wq)
  then show ?case by (auto simp: sched_wake_all_def sched_inv_def fold_upd_tasks)
next
  case (exit s)
  then show ?case by (auto simp: sched_task_exit_def spin_lock_def sched_inv_def Let_def)
qed

lemma slot_last:
  assumes "current_task_per_cpu s cpu < n"
  shows "slot cpu n s (n - 1) = current_task_per_cpu s cpu"
  using assms by simp

lemma sched_preempt_result:
  assumes cur: "current_task_per_cpu s cpu < num_tasks s"
  obtains nx s' where "sched_preempt cpu now osp s = (sp (tasks (prep cpu now osp s) nx), s')"
    "switched cpu now osp s nx s'" "nx < num_tasks s"
    "(\<exists>c. runnable cpu now s c) \<longrightarrow> runnable cpu now s nx"
    "\<And>c. runnable cpu now s c \<Longrightarrow> priority (tasks s nx) \<le> priority (tasks s c)"
    "runnable cpu now s (current_task_per_cpu s cpu) \<Longrightarrow>
      priority (tasks s nx) = priority (tasks s (current_task_per_cpu s cpu)) \<Longrightarrow> nx = current_task_per_cpu s cpu"
  using cur
proof (cases rule: sched_preempt_cases [where now = now and osp = osp])
  case (stuck s')
  then show thesis using that [of "current_task_per_cpu s cpu" s'] cur by simp
next
  case (chosen i s')
  let ?n = "num_tasks s" and ?c = "slot cpu (num_tasks s) s"
  show thesis
  proof (rule that [OF chosen(3,4)])
    show "?c i < ?n" using cur by simp
    show "(\<exists>c. runnable cpu now s c) \<longrightarrow> runnable cpu now s (?c i)" using chosen(2) by simp
    show "priority (tasks s (?c i)) \<le> priority (tasks s c)" if r: "runnable cpu now s c" for c
    proof -
      have "c < ?n" using r by (simp add: runnable_def)
      then obtain j where "j < ?n" "?c j = c"
        using shift_mod_surj [of c ?n "current_task_per_cpu s cpu + 1"] by metis
      then show ?thesis using chosen(5) [of j] r by auto
    qed
    assume r: "runnable cpu now s (current_task_per_cpu s cpu)"
      and p: "priority (tasks s (?c i)) = priority (tasks s (current_task_per_cpu s cpu))"
    have "?n - 1 \<le> i" using chosen(5) [of "?n - 1"] r p cur unfolding slot_last [OF cur] by auto
    then have "i = ?n - 1" using chosen(1) by simp
    then show "?c i = current_task_per_cpu s cpu" using slot_last [OF cur] by simp
  qed
qed

section \<open>Properties\<close>

text \<open>
  C7. A context switch runs the most urgent task: if any task is runnable on this CPU (the outgoing
  one if it was running, a ready one, or a sleeper whose time has come, and not on another CPU), the
  chosen task is runnable and no runnable task has a smaller priority number. The switch returns
  the chosen task's saved stack pointer, saves the outgoing one, charges the outgoing task for its
  time, and leaves every other task alone except for waking sleepers.
\<close>

theorem sched_preempt_most_urgent:
  assumes "current_task_per_cpu s cpu < num_tasks s" "sched_preempt cpu now osp s = (r, s')"
  defines "old \<equiv> current_task_per_cpu s cpu" and "nx \<equiv> current_task_per_cpu s' cpu"
  shows "nx < num_tasks s \<and> ((\<exists>c. runnable cpu now s c) \<longrightarrow> runnable cpu now s nx) \<and>
    (\<forall>c. runnable cpu now s c \<longrightarrow> priority (tasks s nx) \<le> priority (tasks s c)) \<and>
    state (tasks s' nx) = TASK_RUNNING \<and> running_on_cpu (tasks s' nx) = int cpu \<and>
    r = sp (tasks s' nx) \<and> sp (tasks s' old) = osp \<and>
    total_ticks (tasks s' old) = total_ticks (tasks s old) + (now - last_switch_in (tasks s old)) \<and>
    (\<forall>c < num_tasks s. c \<noteq> old \<and> c \<noteq> nx \<longrightarrow> tasks s' c = woken now (tasks s c)) \<and>
    primask s' = primask s"
proof (rule sched_preempt_result [OF assms(1), of now osp])
  fix m t
  assume pre: "sched_preempt cpu now osp s = (sp (tasks (prep cpu now osp s) m), t)" and sw: "switched cpu now osp s m t"
    and m: "m < num_tasks s" "(\<exists>c. runnable cpu now s c) \<longrightarrow> runnable cpu now s m"
      "\<And>c. runnable cpu now s c \<Longrightarrow> priority (tasks s m) \<le> priority (tasks s c)"
  have t: "t = s'" "r = sp (tasks (prep cpu now osp s) m)" using pre assms(2) by simp_all
  note sw = switched_simps [OF sw [unfolded t(1)]]
  have nx: "nx = m" by (simp add: nx_def sw)
  show ?thesis
    using m assms(1) by (auto simp: nx sw(3) sw(4) Let_def t(2) old_def)
qed

definition sched_example :: sched where
  "sched_example = \<lparr>tasks = (\<lambda>_. zero_tcb)(0 := zero_tcb\<lparr>state := TASK_RUNNING, priority := 7\<rparr>,
       1 := zero_tcb\<lparr>running_on_cpu := -1, priority := 7\<rparr>,
       2 := zero_tcb\<lparr>state := TASK_SLEEPING, wake_tick := 50, running_on_cpu := -1, priority := 2\<rparr>),
     num_tasks = 3, current_task_per_cpu = (\<lambda>_. 0), primask = 0, pendsv = False, smem = (\<lambda>_. 0),
     task_stacks = 0x20000000, task_entry_at = 0x08000100, task_exit_at = 0x08000200\<rparr>"

theorem sched_preempt_most_urgent_witness:
  "let s = sched_example; s' = snd (sched_preempt 0 60 0x20000F00 s); r = fst (sched_preempt 0 60 0x20000F00 s);
       old = current_task_per_cpu s 0; nx = current_task_per_cpu s' 0
   in nx < num_tasks s \<and> ((\<exists>c. runnable 0 60 s c) \<longrightarrow> runnable 0 60 s nx) \<and>
    (\<forall>c. runnable 0 60 s c \<longrightarrow> priority (tasks s nx) \<le> priority (tasks s c)) \<and>
    state (tasks s' nx) = TASK_RUNNING \<and> running_on_cpu (tasks s' nx) = int 0 \<and>
    r = sp (tasks s' nx) \<and> sp (tasks s' old) = 0x20000F00 \<and>
    total_ticks (tasks s' old) = total_ticks (tasks s old) + (60 - last_switch_in (tasks s old)) \<and>
    (\<forall>c < num_tasks s. c \<noteq> old \<and> c \<noteq> nx \<longrightarrow> tasks s' c = woken 60 (tasks s c)) \<and>
    primask s' = primask s"
proof -
  have "current_task_per_cpu sched_example 0 < num_tasks sched_example" by (simp add: sched_example_def)
  from sched_preempt_most_urgent [OF this prod.collapse [symmetric], of 60 "0x20000F00"]
  show ?thesis unfolding Let_def .
qed

definition run_preempts :: "nat \<Rightarrow> (u32 \<times> u32) list \<Rightarrow> 'a sched_scheme \<Rightarrow> 'a sched_scheme" where
  "run_preempts cpu ps s = fold (\<lambda>(now, osp) s. snd (sched_preempt cpu now osp s)) ps s"

lemma sched_preempt_keeps_current:
  fixes s :: "'a sched_scheme"
  assumes cur: "current_task_per_cpu s cpu < num_tasks s" "state (tasks s (current_task_per_cpu s cpu)) = TASK_RUNNING"
    and min: "\<forall>c < num_tasks s. priority (tasks s (current_task_per_cpu s cpu)) \<le> priority (tasks s c)"
  shows "\<exists>s' :: 'a sched_scheme. sched_preempt cpu now osp s = (osp, s') \<and> num_tasks s' = num_tasks s \<and>
    current_task_per_cpu s' cpu = current_task_per_cpu s cpu \<and>
    state (tasks s' (current_task_per_cpu s cpu)) = TASK_RUNNING \<and> (\<forall>c. priority (tasks s' c) = priority (tasks s c))"
proof (rule sched_preempt_result [OF cur(1), of now osp])
  fix m t
  assume pre: "sched_preempt cpu now osp s = (sp (tasks (prep cpu now osp s) m), t)" and sw: "switched cpu now osp s m t"
    and m: "m < num_tasks s" "\<And>c. runnable cpu now s c \<Longrightarrow> priority (tasks s m) \<le> priority (tasks s c)"
      "runnable cpu now s (current_task_per_cpu s cpu) \<Longrightarrow>
        priority (tasks s m) = priority (tasks s (current_task_per_cpu s cpu)) \<Longrightarrow> m = current_task_per_cpu s cpu"
  have r: "runnable cpu now s (current_task_per_cpu s cpu)" using cur by (simp add: runnable_def)
  then have "m = current_task_per_cpu s cpu" using m(2) [OF r] m(3) min m(1) by (simp add: order_antisym)
  then show ?thesis using pre switched_simps [OF sw] by (simp add: Let_def)
qed

text \<open>
  C34. Ties do not rotate: while the current task runs and no task has a smaller priority number, every
  context switch resumes the current task, however many tasks of the same priority are ready. The
  scan starts behind the current task and accepts equal priorities, so the current task, visited
  last, always wins.
\<close>

theorem sched_equal_priority_never_rotates:
  fixes s :: "'a sched_scheme"
  assumes "current_task_per_cpu s cpu < num_tasks s" "state (tasks s (current_task_per_cpu s cpu)) = TASK_RUNNING"
    and "\<forall>c < num_tasks s. priority (tasks s (current_task_per_cpu s cpu)) \<le> priority (tasks s c)"
  shows "current_task_per_cpu (run_preempts cpu ps s) cpu = current_task_per_cpu s cpu"
  using assms
proof (induction ps arbitrary: s)
  case Nil
  then show ?case by (simp add: run_preempts_def)
next
  case (Cons p ps)
  obtain now osp where p: "p = (now, osp)" by fastforce
  obtain s' where s': "sched_preempt cpu now osp s = (osp, s')" "num_tasks s' = num_tasks s"
    "current_task_per_cpu s' cpu = current_task_per_cpu s cpu"
    "state (tasks s' (current_task_per_cpu s cpu)) = TASK_RUNNING" "\<forall>c. priority (tasks s' c) = priority (tasks s c)"
    using sched_preempt_keeps_current [OF Cons.prems, of now osp] by auto
  have "current_task_per_cpu (run_preempts cpu ps s') cpu = current_task_per_cpu s' cpu"
    using Cons.prems s' by (intro Cons.IH) simp_all
  then show ?case using s'(1,3) by (simp add: run_preempts_def p)
qed

theorem sched_equal_priority_never_rotates_witness:
  "current_task_per_cpu (run_preempts 0 [(10, 0x20000F00), (20, 0x20000F00), (30, 0x20000F00)]
     (sched_example\<lparr>num_tasks := 2\<rparr>)) 0 = 0"
  using sched_equal_priority_never_rotates [of "sched_example\<lparr>num_tasks := 2\<rparr>" 0
      "[(10, 0x20000F00), (20, 0x20000F00), (30, 0x20000F00)]"]
  by (simp add: sched_example_def zero_tcb_def less_Suc_eq numeral_2_eq_2)

text \<open>
  C26. In every reachable state of the single-core scheduler there are at most \<open>MAX_TASKS\<close> tasks, the
  current task exists, and at most one task is running: the current one.
\<close>

theorem sched_single_running:
  assumes "sched_reach s" "0 < num_tasks s"
  shows "num_tasks s \<le> MAX_TASKS \<and> current_task_per_cpu s 0 < num_tasks s \<and>
    (\<forall>i < num_tasks s. state (tasks s i) = TASK_RUNNING \<longrightarrow> i = current_task_per_cpu s 0 \<and> running_on_cpu (tasks s i) = 0)"
  using sched_reach_inv [OF assms(1)] assms(2) by (simp add: sched_inv_def)

definition sched_boot :: sched where
  "sched_boot = \<lparr>tasks = (\<lambda>_. zero_tcb), num_tasks = 0, current_task_per_cpu = (\<lambda>_. 0), primask = 0, pendsv = False,
     smem = (\<lambda>_. 0), task_stacks = 0x20000000, task_entry_at = 0x08000100, task_exit_at = 0x08000200\<rparr>"

lemma sched_boot_reach: "sched_reach sched_boot"
  by (rule sched_reach.boot) (simp_all add: sched_boot_def)

theorem sched_single_running_witness:
  "let s = sched_sleep_ms 0 5 10 (snd (sched_start 0 (snd (sched_create_task 0x08001000 ''idle'' 7 sched_boot))))
   in num_tasks s \<le> MAX_TASKS \<and> current_task_per_cpu s 0 < num_tasks s \<and>
    (\<forall>i < num_tasks s. state (tasks s i) = TASK_RUNNING \<longrightarrow> i = current_task_per_cpu s 0 \<and> running_on_cpu (tasks s i) = 0)"
proof -
  let ?a = "snd (sched_create_task 0x08001000 ''idle'' 7 sched_boot)"
  have n: "num_tasks ?a = 1" "state (tasks ?a 0) = TASK_READY"
    by (simp_all add: sched_create_task_def spin_lock_def task_stack_init_def sched_boot_def MAX_TASKS_def Let_def split: prod.splits)
  have "sched_reach (snd (sched_start 0 ?a))"
    using n by (intro sched_reach.start sched_reach.create sched_boot_reach) simp
  moreover have n': "num_tasks (snd (sched_start 0 ?a)) = 1" using n by (simp add: sched_start_def Let_def)
  ultimately have "sched_reach (sched_sleep_ms 0 5 10 (snd (sched_start 0 ?a)))"
    by (intro sched_reach.sleep) simp_all
  moreover have "0 < num_tasks (sched_sleep_ms 0 5 10 (snd (sched_start 0 ?a)))"
    using n' by (simp add: sched_sleep_ms_def spin_lock_def)
  ultimately show ?thesis unfolding Let_def by (rule sched_single_running)
qed


text \<open>
  A task \<open>d\<close> that keeps the CPU busy, such as the idle task: ready, or the one that runs. While only
  context switches happen it stays so, and the switch always has a task to choose.
\<close>

definition busy :: "nat \<Rightarrow> nat \<Rightarrow> 'a sched_scheme \<Rightarrow> bool" where
  "busy cpu d s \<longleftrightarrow> current_task_per_cpu s cpu < num_tasks s \<and> d < num_tasks s \<and>
     (state (tasks s d) = TASK_READY \<and> running_on_cpu (tasks s d) < 0 \<or>
      state (tasks s d) = TASK_RUNNING \<and> d = current_task_per_cpu s cpu)"

lemma busy_switch:
  fixes now osp :: u32
  assumes b: "busy cpu d s" and ne: "c \<noteq> d"
  defines "s' \<equiv> snd (sched_preempt cpu now osp s)"
  shows "busy cpu d s'"
    "state (tasks s c) = TASK_SLEEPING \<Longrightarrow> c < num_tasks s \<Longrightarrow>
       (if now < wake_tick (tasks s c) then state (tasks s' c) = TASK_SLEEPING \<and> wake_tick (tasks s' c) = wake_tick (tasks s c)
        else state (tasks s' c) \<in> {TASK_READY, TASK_RUNNING})"
    "state (tasks s c) \<in> {TASK_READY, TASK_RUNNING} \<Longrightarrow> state (tasks s' c) \<in> {TASK_READY, TASK_RUNNING}"
    "num_tasks s' = num_tasks s"
proof -
  have cur: "current_task_per_cpu s cpu < num_tasks s" and r: "runnable cpu now s d"
    using b by (auto simp: busy_def runnable_def eligible_def state_woken)
  obtain nx t where pre: "sched_preempt cpu now osp s = (sp (tasks (prep cpu now osp s) nx), t)"
    "switched cpu now osp s nx t" "nx < num_tasks s" "runnable cpu now s nx"
    using sched_preempt_result [OF cur, of now osp] r by metis
  have t: "s' = t" using pre(1) by (simp add: s'_def)
  note sw = switched_simps [OF pre(2), folded t]
  show "num_tasks s' = num_tasks s" by (rule sw(1))
  show "busy cpu d s'"
    using b pre(3) by (auto simp: busy_def sw Let_def woken_def out_task_def)
  show "state (tasks s' c) \<in> {TASK_READY, TASK_RUNNING}" if "state (tasks s c) \<in> {TASK_READY, TASK_RUNNING}"
    using that by (auto simp: sw(4) Let_def woken_def out_task_def)
  assume c: "state (tasks s c) = TASK_SLEEPING" "c < num_tasks s"
  have "c \<noteq> nx" if "now < wake_tick (tasks s c)"
    using pre(4) c that by (auto simp: runnable_def eligible_def state_woken)
  then show "if now < wake_tick (tasks s c) then state (tasks s' c) = TASK_SLEEPING \<and> wake_tick (tasks s' c) = wake_tick (tasks s c)
        else state (tasks s' c) \<in> {TASK_READY, TASK_RUNNING}"
    using c by (auto simp: sw(4) Let_def woken_def out_task_def)
qed

lemma busy_run:
  fixes s :: "'a sched_scheme" and ks :: "(u32 \<times> u32) list"
  assumes "busy cpu d s" "c \<noteq> d" "c < num_tasks s"
  defines "t \<equiv> run_preempts cpu ks s"
  shows "state (tasks s c) \<in> {TASK_READY, TASK_RUNNING} \<Longrightarrow> state (tasks t c) \<in> {TASK_READY, TASK_RUNNING}"
    "state (tasks s c) = TASK_SLEEPING \<Longrightarrow>
       (if \<forall>(k, osp) \<in> set ks. k < wake_tick (tasks s c) then state (tasks t c) = TASK_SLEEPING
        else state (tasks t c) \<in> {TASK_READY, TASK_RUNNING})"
  unfolding t_def using assms(1,3)
proof (induction ks arbitrary: s)
  case Nil
  { case 1 then show ?case by (simp add: run_preempts_def) }
  { case 2 then show ?case by (simp add: run_preempts_def) }
next
  case (Cons p ks)
  obtain now osp where p: "p = (now, osp)" by fastforce
  have step: "run_preempts cpu (p # ks) s = run_preempts cpu ks (snd (sched_preempt cpu now osp s))" for s :: "'a sched_scheme"
    by (simp add: run_preempts_def p)
  { case 1
    note b = busy_switch [OF this(2) assms(2), of now osp]
    show ?case unfolding step using Cons.IH(1) b 1 by simp }
  { case 2
    note b = busy_switch [OF this(2) assms(2), of now osp]
    have n: "c < num_tasks (snd (sched_preempt cpu now osp s))" using b(4) 2(3) by simp
    show ?case
    proof (cases "now < wake_tick (tasks s c)")
      case True
      then show ?thesis unfolding step using Cons.IH(2) [OF _ b(1) n] b(2) [OF 2(1,3)] by (simp add: p)
    next
      case False
      then show ?thesis unfolding step using Cons.IH(1) [OF _ b(1) n] b(2) [OF 2(1,3)] by (auto simp: p)
    qed }
qed

text \<open>
  C36. Let the current task sleep for \<open>ms\<close> ticks at tick \<open>now\<close> while some other task keeps the CPU busy,
  and let any sequence of context switches follow. If \<open>now + ms\<close> fits the 32-bit counter, the task is
  still asleep exactly when every switch happened before tick \<open>now + ms\<close>; once a switch happens at or
  after that tick, the task is ready or running. If the sum does not fit, the comparison with the
  wrapped sum ends the sleep at the first switch.
\<close>

theorem sched_sleep_wakes_exactly:
  fixes ks :: "(u32 \<times> u32) list" and now ms :: u32
  assumes "c = current_task_per_cpu s cpu" "c < num_tasks s" "d < num_tasks s" "d \<noteq> c"
    and "state (tasks s d) = TASK_READY" "running_on_cpu (tasks s d) < 0"
  defines "t \<equiv> run_preempts cpu ks (sched_sleep_ms cpu now ms s)"
  shows "(unat now + unat ms < 2 ^ 32 \<longrightarrow>
      (if \<forall>(k, osp) \<in> set ks. unat k < unat now + unat ms then state (tasks t c) = TASK_SLEEPING
       else state (tasks t c) = TASK_READY \<or> state (tasks t c) = TASK_RUNNING)) \<and>
    (2 ^ 32 \<le> unat now + unat ms \<and> ks \<noteq> [] \<and> now \<le> fst (hd ks) \<longrightarrow>
      state (tasks t c) = TASK_READY \<or> state (tasks t c) = TASK_RUNNING)"
proof -
  let ?s = "sched_sleep_ms cpu now ms s"
  have two32: "(2 :: nat) ^ 32 = 4294967296" by simp
  have s: "busy cpu d ?s" "c < num_tasks ?s" "state (tasks ?s c) = TASK_SLEEPING" "wake_tick (tasks ?s c) = now + ms"
    using assms by (simp_all add: busy_def sched_sleep_ms_def spin_lock_def Let_def)
  note r = busy_run(2) [OF s(1) _ s(2,3), of ks, folded t_def, unfolded s(4)]
  have eq: "(k < now + ms) = (unat k < unat now + unat ms)" if "unat now + unat ms < 2 ^ 32" for k
    using that by (simp add: word_less_nat_alt unat_add32)
  have wrap: "\<not> k < now + ms" if "2 ^ 32 \<le> unat now + unat ms" "now \<le> k" for k
  proof -
    have "unat (now + ms) = (unat now + unat ms) mod 2 ^ 32" by (simp add: unat_word_ariths(1))
    moreover have "unat now + unat ms < 2 ^ 32 + 2 ^ 32" using unat_bound32 [of now] unat_bound32 [of ms] unfolding two32 by linarith
    ultimately have "unat (now + ms) = unat now + unat ms - 2 ^ 32" using that(1) by (simp add: le_mod_geq)
    then have "unat (now + ms) \<le> unat now" using unat_bound32 [of ms] unfolding two32 by linarith
    then show ?thesis using that(2) by (simp add: word_le_nat_alt word_less_nat_alt)
  qed
  have "\<not> (\<forall>(k, osp) \<in> set ks. k < now + ms)" if "2 ^ 32 \<le> unat now + unat ms" "ks \<noteq> []" "now \<le> fst (hd ks)"
    using wrap [OF that(1,3)] hd_in_set [OF that(2)] by force
  moreover have "(\<forall>(k, osp) \<in> set ks. k < now + ms) = (\<forall>(k, osp) \<in> set ks. unat k < unat now + unat ms)"
    if "unat now + unat ms < 2 ^ 32"
    using eq [OF that] by auto
  ultimately show ?thesis using r assms(4) by (auto split: if_splits)
qed

theorem sched_sleep_wakes_exactly_witness:
  "let t = run_preempts 0 [(15, 0x20000F00), (19, 0x20001F00)] (sched_sleep_ms 0 10 10 sched_example);
       u = run_preempts 0 [(15, 0x20000F00), (20, 0x20001F00)] (sched_sleep_ms 0 10 10 sched_example)
   in state (tasks t 0) = TASK_SLEEPING \<and> (state (tasks u 0) = TASK_READY \<or> state (tasks u 0) = TASK_RUNNING)"
proof -
  have h: "0 = current_task_per_cpu sched_example 0" "0 < num_tasks sched_example" "1 < num_tasks sched_example"
    "state (tasks sched_example 1) = TASK_READY" "running_on_cpu (tasks sched_example 1) < 0"
    by (simp_all add: sched_example_def zero_tcb_def)
  show ?thesis
    using sched_sleep_wakes_exactly [OF h(1-3) one_neq_zero h(4,5), where now = 10 and ms = 10
        and ks = "[(15, 0x20000F00), (19, 0x20001F00)]"]
      sched_sleep_wakes_exactly [OF h(1-3) one_neq_zero h(4,5), where now = 10 and ms = 10
        and ks = "[(15, 0x20000F00), (20, 0x20001F00)]"]
    by (simp add: Let_def)
qed

text \<open>The initial stack frame.\<close>

lemma push_words_spec:
  assumes "4 * length vs \<le> unat a" "unat a mod 4 = 0"
  shows "fst (push_words vs (a, m)) = a - 4 * of_nat (length vs) \<and>
    (\<forall>k < length vs. ld32 (snd (push_words vs (a, m))) (a - 4 * of_nat (k + 1)) = vs ! k) \<and>
    (\<forall>x. unat x + 4 * length vs < unat a \<or> unat a \<le> unat x \<longrightarrow> snd (push_words vs (a, m)) x = m x)"
  using assms
proof (induction vs arbitrary: a m)
  case (Cons v vs)
  have le: "(4 :: u32) \<le> a" using Cons.prems by (simp add: word_le_nat_alt)
  have u: "unat (a - 4) = unat a - 4" using unat_sub [OF le] by simp
  have al: "unat (a - 4) mod 4 = 0" using Cons.prems u by (simp add: le_mod_geq [symmetric])
  note IH = Cons.IH [of "a - 4" "st32 m (a - 4) v"]
  have IH: "fst (push_words vs (a - 4, st32 m (a - 4) v)) = a - 4 - 4 * of_nat (length vs)"
    "\<And>k. k < length vs \<Longrightarrow> ld32 (snd (push_words vs (a - 4, st32 m (a - 4) v))) (a - 4 - 4 * of_nat (k + 1)) = vs ! k"
    "\<And>x. unat x + 4 * length vs < unat (a - 4) \<or> unat (a - 4) \<le> unat x \<Longrightarrow>
      snd (push_words vs (a - 4, st32 m (a - 4) v)) x = st32 m (a - 4) v x"
    using IH Cons.prems u al by auto
  let ?m = "snd (push_words vs (a - 4, st32 m (a - 4) v))"
  have hd: "ld32 ?m (a - 4) = v"
  proof -
    have b: "?m (a - 4 + of_nat j) = st32 m (a - 4) v (a - 4 + of_nat j)" if "j < 4" for j
      by (rule IH(3)) (simp add: word_aligned_nowrap [OF al that])
    have "ld32 ?m (a - 4) = ld32 (st32 m (a - 4) v) (a - 4)"
      using b [of 0] b [of 1] b [of 2] b [of 3] by (intro ld32_cong) simp_all
    then show ?thesis by simp
  qed
  have "ld32 ?m (a - 4 * of_nat (k + 1)) = (v # vs) ! k" if "k < length (v # vs)" for k
    using that hd IH(2) [of "k - 1"] by (cases k) (simp_all add: algebra_simps)
  moreover have "?m x = m x" if "unat x + 4 * length (v # vs) < unat a \<or> unat a \<le> unat x" for x
  proof -
    have "?m x = st32 m (a - 4) v x" using that u le by (intro IH(3)) (auto simp: word_le_nat_alt)
    moreover have "unat x div 4 \<noteq> unat (a - 4) div 4"
    proof
      assume "unat x div 4 = unat (a - 4) div 4"
      then have "unat x div 4 * 4 + 4 = unat a" using al u le by (auto simp: word_le_nat_alt)
      then show False using that by (auto simp: div_mult_mod_eq)
    qed
    ultimately show ?thesis by (simp add: st32_apply [OF al])
  qed
  moreover have "fst (push_words (v # vs) (a, m)) = a - 4 * of_nat (length (v # vs))"
    using IH(1) by (simp add: algebra_simps)
  ultimately show ?case by simp
qed simp


text \<open>
  Creating a task below the limit returns its id, makes it ready with the given entry and
  priority, and puts the 16-word exception frame at the top of the task's own stack: popping from
  the saved stack pointer gives zeroed registers, the exit trap, the entry wrapper and the Thumb
  bit. No byte outside that frame changes. At the limit it returns -1 and changes nothing.
\<close>

lemma sched_create_task_frame:
  assumes "unat (task_stacks s) mod 4 = 0" "unat (task_stacks s) + 4096 * MAX_TASKS < 2 ^ 32"
    and "sched_create_task f nm pr s = (r, s')"
  shows "if num_tasks s \<ge> MAX_TASKS then r = -1 \<and> s' = s
    else (let i = num_tasks s; a = sp (tasks s' i) in
      r = int i \<and> num_tasks s' = i + 1 \<and> state (tasks s' i) = TASK_READY \<and> running_on_cpu (tasks s' i) = -1 \<and>
      fn (tasks s' i) = f \<and> priority (tasks s' i) = pr \<and> (\<forall>c. c \<noteq> i \<longrightarrow> tasks s' c = tasks s c) \<and>
      unat a + 64 = unat (task_stacks s) + 4096 * (i + 1) \<and>
      (\<forall>k < 16. ld32 (smem s') (a + 4 * of_nat k) = rev (initial_frame s) ! k) \<and>
      (\<forall>x. unat x < unat a \<or> unat a + 64 \<le> unat x \<longrightarrow> smem s' x = smem s x))"
proof (cases "num_tasks s \<ge> MAX_TASKS")
  case True
  then show ?thesis using assms(3) by (simp add: sched_create_task_def spin_lock_def spin_unlock_def)
next
  case False
  let ?i = "num_tasks s" and ?fr = "initial_frame s"
  define top where "top = task_stacks s + of_nat ?i * TASK_STACK_SIZE + TASK_STACK_SIZE"
  have i: "?i < 8" using False by (simp add: MAX_TASKS_def)
  have top: "top = task_stacks s + of_nat (4096 * (?i + 1))" by (simp add: top_def TASK_STACK_SIZE_def algebra_simps)
  have ut: "unat top = unat (task_stacks s) + 4096 * (?i + 1)"
  proof -
    have "unat (of_nat (4096 * (?i + 1)) :: u32) = 4096 * (?i + 1)" using i by (intro unat_of_nat32) simp
    moreover have "unat (task_stacks s) + 4096 * (?i + 1) < 4294967296"
      using i assms(2) by (simp add: MAX_TASKS_def)
    ultimately show ?thesis unfolding top using unat_add32 [of "task_stacks s"] by metis
  qed
  have len: "length ?fr = 16" by (simp add: initial_frame_def)
  obtain a m where pw: "push_words ?fr (top, smem s) = (a, m)" by fastforce
  have fr: "initial_frame (s\<lparr>primask := 1, num_tasks := Suc ?i, tasks := g\<rparr>) = ?fr" for g
    by (simp add: initial_frame_def)
  have s': "r = int ?i" "smem s' = m" "num_tasks s' = ?i + 1" "sp (tasks s' ?i) = a"
    "state (tasks s' ?i) = TASK_READY" "running_on_cpu (tasks s' ?i) = -1" "fn (tasks s' ?i) = f"
    "priority (tasks s' ?i) = pr" "\<forall>c. c \<noteq> ?i \<longrightarrow> tasks s' c = tasks s c"
    using assms(3) False pw
    by (auto simp: sched_create_task_def spin_lock_def spin_unlock_def task_stack_init_def Let_def upd_task_def fr top_def
        split: prod.splits)
  have sp: "a = top - 64" "\<And>k. k < 16 \<Longrightarrow> ld32 m (top - 4 * of_nat (k + 1)) = ?fr ! k"
    "\<And>x. unat x + 64 < unat top \<or> unat top \<le> unat x \<Longrightarrow> m x = smem s x"
    using push_words_spec [of ?fr top "smem s"] pw ut i assms(1) len by auto
  have ua: "unat a + 64 = unat top"
    using sp(1) ut i by (simp add: unat_sub word_le_nat_alt)
  have "ld32 m (a + 4 * of_nat k) = rev ?fr ! k" if "k < 16" for k
    using sp(2) [of "15 - k"] that len unfolding sp(1) by (simp add: rev_nth of_nat_diff algebra_simps)
  then show ?thesis using False s' sp(3) ua ut by (simp add: Let_def)
qed

end
