(* ===== verification/Sync.thy ===== *)
theory Sync
  imports Sched
begin

text \<open>
  Mutexes and semaphores of \<open>rtos/kernel/sync.c\<close>. Each operation holds \<open>sync_lock\<close> for its whole
  critical section; the loops of \<open>mutex_lock\<close> and \<open>sem_take\<close> give it up between two turns, so a turn
  is the atomic step: it either takes the resource and leaves the loop, or blocks the task on the
  wait queue and yields. What the tasks then do is the step relation \<open>wait_step\<close>, any interleaving of
  turns, releases, sleeps and context switches.
\<close>

section \<open>Operations\<close>

record mutex =
  owner :: "8 word"
  mutex_wq :: wait_queue

record semaphore =
  count :: "16 word"
  sem_wq :: wait_queue

definition MUTEX_INIT :: mutex where
  "MUTEX_INIT = \<lparr>owner = -1, mutex_wq = \<lparr>waiters = 0\<rparr>\<rparr>"

definition SEM_INIT :: "16 word \<Rightarrow> semaphore" where
  "SEM_INIT n = \<lparr>count = n, sem_wq = \<lparr>waiters = 0\<rparr>\<rparr>"

definition mutex_lock :: "nat \<Rightarrow> mutex \<Rightarrow> 'a sched_scheme \<Rightarrow> bool \<times> mutex \<times> 'a sched_scheme" where
  "mutex_lock cpu m s =
     (let (key, s) = spin_lock s
      in if sint (owner m) < 0
         then (True, m\<lparr>owner := of_int (sched_current_id cpu s)\<rparr>, spin_unlock key s)
         else (let (wq, s) = sched_block cpu (mutex_wq m) s;
                   s = spin_unlock key s
               in (False, m\<lparr>mutex_wq := wq\<rparr>, sched_yield s)))"

definition mutex_unlock :: "mutex \<Rightarrow> 'a sched_scheme \<Rightarrow> mutex \<times> 'a sched_scheme" where
  "mutex_unlock m s =
     (let (key, s) = spin_lock s;
          m = m\<lparr>owner := -1\<rparr>;
          (wq, s) = sched_wake (mutex_wq m) s
      in (m\<lparr>mutex_wq := wq\<rparr>, spin_unlock key s))"

definition sem_give :: "semaphore \<Rightarrow> 'a sched_scheme \<Rightarrow> semaphore \<times> 'a sched_scheme" where
  "sem_give m s =
     (let (key, s) = spin_lock s;
          m = m\<lparr>count := count m + 1\<rparr>;
          (wq, s) = sched_wake (sem_wq m) s
      in (m\<lparr>sem_wq := wq\<rparr>, spin_unlock key s))"

definition sem_take :: "nat \<Rightarrow> semaphore \<Rightarrow> 'a sched_scheme \<Rightarrow> bool \<times> semaphore \<times> 'a sched_scheme" where
  "sem_take cpu m s =
     (let (key, s) = spin_lock s
      in if sint (count m) > 0
         then (True, m\<lparr>count := count m - 1\<rparr>, spin_unlock key s)
         else (let (wq, s) = sched_block cpu (sem_wq m) s;
                   s = spin_unlock key s
               in (False, m\<lparr>sem_wq := wq\<rparr>, sched_yield s)))"

definition sem_try_take :: "semaphore \<Rightarrow> 'a sched_scheme \<Rightarrow> int \<times> semaphore \<times> 'a sched_scheme" where
  "sem_try_take m s =
     (let (key, s) = spin_lock s
      in if sint (count m) > 0
         then (0, m\<lparr>count := count m - 1\<rparr>, spin_unlock key s)
         else (-1, m, spin_unlock key s))"

section \<open>Tasks that wait\<close>

text \<open>
  Where a task stands with respect to the resource: outside, inside the waiting loop after a turn
  that blocked, or holding it.
\<close>

datatype phase = Outside | Waiting | Holding

type_synonym 'r config = "sched \<times> 'r \<times> (nat \<Rightarrow> phase)"

inductive wait_step ::
  "('r \<Rightarrow> sched \<Rightarrow> bool \<times> 'r \<times> sched) \<Rightarrow> ('r \<Rightarrow> sched \<Rightarrow> 'r \<times> sched) \<Rightarrow> (phase \<Rightarrow> bool) \<Rightarrow>
   'r config \<Rightarrow> 'r config \<Rightarrow> bool"
  for turn release may where
  take: "state (tasks s (current_task_per_cpu s 0)) = TASK_RUNNING \<Longrightarrow> ph (current_task_per_cpu s 0) \<noteq> Holding \<Longrightarrow>
    turn r s = (ok, r', s') \<Longrightarrow>
    wait_step turn release may (s, r, ph) (s', r', ph(current_task_per_cpu s 0 := if ok then Holding else Waiting))"
| give: "may (ph (current_task_per_cpu s 0)) \<Longrightarrow> release r s = (r', s') \<Longrightarrow>
    ph' = (if ph (current_task_per_cpu s 0) = Holding then ph(current_task_per_cpu s 0 := Outside) else ph) \<Longrightarrow>
    wait_step turn release may (s, r, ph) (s', r', ph')"
| sleep: "state (tasks s (current_task_per_cpu s 0)) = TASK_RUNNING \<Longrightarrow> ph (current_task_per_cpu s 0) \<noteq> Waiting \<Longrightarrow>
    wait_step turn release may (s, r, ph) (sched_sleep_ms 0 now ms s, r, ph)"
| switch: "runnable 0 now s c \<Longrightarrow> wait_step turn release may (s, r, ph) (snd (sched_preempt 0 now osp s), r, ph)"

section \<open>Blocking and waking\<close>

definition bits_below :: "u32 \<Rightarrow> nat \<Rightarrow> bool" where
  "bits_below w n \<longleftrightarrow> (\<forall>i. bit w i \<longrightarrow> i < n)"

lemma and_push_bit_ne: "(w :: u32) AND push_bit i 1 \<noteq> 0 \<longleftrightarrow> bit w i"
proof (cases "i < 32")
  case True
  have "w AND push_bit i 1 = (if bit w i then push_bit i 1 else 0)"
    by (rule bit_word_eqI) (auto simp: bit_simps)
  moreover have "bit (push_bit i 1 :: u32) i" using True by (simp add: bit_simps)
  then have "push_bit i 1 \<noteq> (0 :: u32)" by (metis bit_0_eq bot_apply bot_bool_def)
  ultimately show ?thesis by simp
next
  case False
  then have "w AND push_bit i 1 = 0" by (intro bit_word_eqI) (simp add: bit_simps)
  moreover have "\<not> bit w i" using False bit_imp_le_length [of w i] by auto
  ultimately show ?thesis by blast
qed

text \<open>The tasks in the middle of waiting that can run: woken, and yet to take their turn.\<close>

definition contenders :: "sched \<Rightarrow> (nat \<Rightarrow> phase) \<Rightarrow> nat set" where
  "contenders s ph = {i. i < num_tasks s \<and> ph i = Waiting \<and> state (tasks s i) \<in> {TASK_READY, TASK_RUNNING}}"

lemma finite_contenders [simp]: "finite (contenders s ph)"
  by (rule finite_subset [of _ "{..<num_tasks s}"]) (auto simp: contenders_def)

definition queue_inv :: "sched \<Rightarrow> wait_queue \<Rightarrow> (nat \<Rightarrow> phase) \<Rightarrow> bool" where
  "queue_inv s wq ph \<longleftrightarrow> sched_inv s \<and> 0 < num_tasks s \<and> bits_below (waiters wq) (num_tasks s) \<and>
     (\<forall>i < num_tasks s. bit (waiters wq) i \<longleftrightarrow> state (tasks s i) = TASK_BLOCKED) \<and>
     (\<forall>i < num_tasks s. state (tasks s i) = TASK_BLOCKED \<longrightarrow> ph i = Waiting) \<and>
     (\<forall>i < num_tasks s. ph i = Waiting \<longrightarrow> state (tasks s i) \<in> {TASK_READY, TASK_RUNNING, TASK_BLOCKED})"

lemma word_ne_0_bit: "(w :: u32) \<noteq> 0 \<longleftrightarrow> (\<exists>i. bit w i)"
  by (metis bit_eq_iff bit_0_eq bot_apply bot_bool_def)

lemma sched_block_effect:
  assumes q: "queue_inv s wq ph" and n: "state (tasks s (current_task_per_cpu s 0)) = TASK_RUNNING"
    and b: "sched_block 0 wq s = (wq', s')"
  defines "c \<equiv> current_task_per_cpu s 0"
  shows "queue_inv s' wq' (ph(c := Waiting))"
    "contenders s' (ph(c := Waiting)) = contenders s ph - {c}" "num_tasks s' = num_tasks s"
proof -
  have c: "c < num_tasks s" using q by (simp add: queue_inv_def sched_inv_def c_def)
  have "num_tasks s \<le> 8" using q by (simp add: queue_inv_def sched_inv_def MAX_TASKS_def)
  then have c32: "c < 32" using c by simp
  have wq': "bit (waiters wq') i \<longleftrightarrow> bit (waiters wq) i \<or> i = c" for i
    using b c32 by (auto simp: sched_block_def Let_def c_def bit_simps)
  have s': "tasks s' i = (if i = c then (tasks s c)\<lparr>state := TASK_BLOCKED, running_on_cpu := -1\<rparr> else tasks s i)"
    "num_tasks s' = num_tasks s" "current_task_per_cpu s' = current_task_per_cpu s" for i
    using b by (auto simp: sched_block_def Let_def c_def)
  show "num_tasks s' = num_tasks s" by (rule s')
  have "sched_inv s'" using q s' by (auto simp: queue_inv_def sched_inv_def c_def)
  then show "queue_inv s' wq' (ph(c := Waiting))"
    using q wq' s' c by (auto simp: queue_inv_def bits_below_def)
  show "contenders s' (ph(c := Waiting)) = contenders s ph - {c}" by (auto simp: contenders_def s')
qed

lemma sched_wake_effect:
  assumes q: "queue_inv s wq ph" and b: "sched_wake wq s = (wq', s')"
  shows "queue_inv s' wq' ph" "num_tasks s' = num_tasks s" "current_task_per_cpu s' = current_task_per_cpu s"
    "waiters wq = 0 \<longrightarrow> wq' = wq \<and> s' = s"
    "waiters wq \<noteq> 0 \<longrightarrow> card (contenders s' ph) = card (contenders s ph) + 1"
proof -
  consider "waiters wq = 0" | i where "i < num_tasks s" "bit (waiters wq) i"
      "wq' = wq\<lparr>waiters := waiters wq AND NOT (push_bit i 1)\<rparr>" "s' = upd_task i (\<lambda>t. t\<lparr>state := TASK_READY\<rparr>) s"
  proof (cases "waiters wq = 0")
    case False
    then obtain k where "bit (waiters wq) k" using word_ne_0_bit by blast
    then have "k < num_tasks s" using q by (auto simp: queue_inv_def bits_below_def)
    then have "find (\<lambda>i. waiters wq AND push_bit i 1 \<noteq> 0) [0..<num_tasks s] \<noteq> None"
      unfolding find_upt_None and_push_bit_ne using \<open>bit (waiters wq) k\<close> by blast
    then obtain i where i: "find (\<lambda>i. waiters wq AND push_bit i 1 \<noteq> 0) [0..<num_tasks s] = Some i" by blast
    then have "i < num_tasks s" "bit (waiters wq) i" unfolding find_upt_Some and_push_bit_ne by blast+
    then show thesis using that(2) [of i] b False i by (simp add: sched_wake_def)
  qed simp
  then have "queue_inv s' wq' ph \<and> num_tasks s' = num_tasks s \<and> current_task_per_cpu s' = current_task_per_cpu s \<and>
    (waiters wq = 0 \<longrightarrow> wq' = wq \<and> s' = s) \<and> (waiters wq \<noteq> 0 \<longrightarrow> card (contenders s' ph) = card (contenders s ph) + 1)"
  proof cases
    case 1
    then show ?thesis using b q by (auto simp: sched_wake_def)
  next
    case (2 i)
    have bl: "state (tasks s i) = TASK_BLOCKED" "ph i = Waiting" using 2 q by (auto simp: queue_inv_def)
    have "num_tasks s \<le> 8" using q by (simp add: queue_inv_def sched_inv_def MAX_TASKS_def)
    then have i32: "i < 32" using 2 by simp
    have wq': "bit (waiters wq') j \<longleftrightarrow> bit (waiters wq) j \<and> j \<noteq> i" for j
      using 2(3) bit_imp_le_length [of "waiters wq" j] by (auto simp: bit_simps)
    have "sched_inv s'" using q bl 2(4) by (auto simp: queue_inv_def sched_inv_def)
    then have "queue_inv s' wq' ph"
      using q wq' 2(1,4) by (auto simp: queue_inv_def bits_below_def)
    moreover have "contenders s' ph = insert i (contenders s ph)"
      using bl 2 by (auto simp: contenders_def)
    moreover have "i \<notin> contenders s ph" using bl by (simp add: contenders_def)
    moreover have "waiters wq \<noteq> 0" using 2(2) word_ne_0_bit by blast
    ultimately show ?thesis using 2(4) by simp
  qed
  then show "queue_inv s' wq' ph" "num_tasks s' = num_tasks s" "current_task_per_cpu s' = current_task_per_cpu s"
    "waiters wq = 0 \<longrightarrow> wq' = wq \<and> s' = s"
    "waiters wq \<noteq> 0 \<longrightarrow> card (contenders s' ph) = card (contenders s ph) + 1" by blast+
qed

lemma sched_switch_effect:
  fixes osp :: u32
  assumes q: "queue_inv s wq ph" and r: "runnable 0 now s c"
  defines "s' \<equiv> snd (sched_preempt 0 now osp s)"
  shows "queue_inv s' wq ph" "contenders s' ph = contenders s ph" "num_tasks s' = num_tasks s"
proof -
  have cur: "current_task_per_cpu s 0 < num_tasks s" and inv: "sched_inv s" "0 < num_tasks s"
    using q by (auto simp: queue_inv_def sched_inv_def)
  obtain nx t where pre: "snd (sched_preempt 0 now osp s) = t" "switched 0 now osp s nx t" "nx < num_tasks s"
    "runnable 0 now s nx"
    using sched_preempt_result [OF cur, of now osp] r by (metis snd_conv)
  have t: "s' = t" using pre(1) by (simp add: s'_def)
  note sw = switched_simps [OF pre(2), folded t]
  have nb: "state (tasks s nx) \<noteq> TASK_BLOCKED" using pre(4) by (auto simp: runnable_def eligible_def state_woken)
  have out: "state (out_task now osp x) = TASK_BLOCKED \<longleftrightarrow> state x = TASK_BLOCKED" for x
    by (auto simp: out_task_def Let_def)
  have bl: "state (tasks s' i) = TASK_BLOCKED \<longleftrightarrow> state (tasks s i) = TASK_BLOCKED" if "i < num_tasks s" for i
    using nb that by (auto simp: sw(4) Let_def state_woken out)
  have up: "state (tasks s' i) \<in> {TASK_READY, TASK_RUNNING}" if "state (tasks s i) \<in> {TASK_READY, TASK_RUNNING}" for i
  proof -
    have "state (out_task now osp (tasks s i)) = TASK_READY" using that by (auto simp: out_task_def Let_def)
    then show ?thesis using that by (auto simp: sw(4) Let_def state_woken woken_def)
  qed
  have wt: "state (tasks s i) \<in> {TASK_READY, TASK_RUNNING, TASK_BLOCKED}" if "i < num_tasks s" "ph i = Waiting" for i
    using q that by (simp add: queue_inv_def)
  have "sched_inv s'" unfolding s'_def by (rule sched_preempt_inv [OF inv])
  moreover have "state (tasks s' i) \<in> {TASK_READY, TASK_RUNNING, TASK_BLOCKED}" if "i < num_tasks s" "ph i = Waiting" for i
    using wt [OF that] up [of i] bl [OF that(1)] by auto
  ultimately show "queue_inv s' wq ph" using q bl sw(1) by (simp add: queue_inv_def)
  have "state (tasks s' i) \<in> {TASK_READY, TASK_RUNNING} \<longleftrightarrow> state (tasks s i) \<in> {TASK_READY, TASK_RUNNING}"
    if "i < num_tasks s" "ph i = Waiting" for i
    using wt [OF that] up [of i] bl [OF that(1)] by auto
  then show "contenders s' ph = contenders s ph" using sw(1) unfolding contenders_def by auto
  show "num_tasks s' = num_tasks s" by (rule sw(1))
qed

lemma sched_sleep_effect:
  fixes now ms :: u32
  assumes q: "queue_inv s wq ph" and r: "state (tasks s (current_task_per_cpu s 0)) = TASK_RUNNING"
    "ph (current_task_per_cpu s 0) \<noteq> Waiting"
  defines "s' \<equiv> sched_sleep_ms 0 now ms s"
  shows "queue_inv s' wq ph" "contenders s' ph = contenders s ph" "num_tasks s' = num_tasks s"
proof -
  let ?c = "current_task_per_cpu s 0"
  have s': "tasks s' i = (if i = ?c then (tasks s ?c)\<lparr>wake_tick := now + ms, state := TASK_SLEEPING, running_on_cpu := -1\<rparr> else tasks s i)"
    "num_tasks s' = num_tasks s" "current_task_per_cpu s' = current_task_per_cpu s" for i
    by (simp_all add: s'_def sched_sleep_ms_def spin_lock_def Let_def)
  have "sched_inv s'" using q by (auto simp: queue_inv_def sched_inv_def s')
  then show "queue_inv s' wq ph" using q r by (auto simp: queue_inv_def s')
  show "contenders s' ph = contenders s ph" using r by (auto simp: contenders_def s')
  show "num_tasks s' = num_tasks s" by (rule s')
qed

lemma same_tasks:
  assumes "tasks s' = tasks s" "num_tasks s' = num_tasks s" "current_task_per_cpu s' = current_task_per_cpu s"
  shows "queue_inv s' wq ph = queue_inv s wq ph" "contenders s' ph = contenders s ph"
  using assms by (simp_all add: queue_inv_def sched_inv_def contenders_def)

section \<open>No lost wake-ups\<close>

text \<open>
  What a mutex and a semaphore have in common: a number of free units, a turn that takes a unit or
  blocks when there is none, and a release that adds at most one unit and wakes one waiter. The
  wake-up argument needs nothing else.
\<close>

locale blocking_resource =
  fixes units :: "'r \<Rightarrow> nat" and wq :: "'r \<Rightarrow> wait_queue"
    and turn :: "'r \<Rightarrow> sched \<Rightarrow> bool \<times> 'r \<times> sched" and release :: "'r \<Rightarrow> sched \<Rightarrow> 'r \<times> sched"
  assumes turn_take: "current_task_per_cpu s 0 < MAX_TASKS \<Longrightarrow> turn r s = (True, r', s') \<Longrightarrow> 0 < units r \<and> units r' = units r - 1 \<and> wq r' = wq r \<and>
      tasks s' = tasks s \<and> num_tasks s' = num_tasks s \<and> current_task_per_cpu s' = current_task_per_cpu s"
    and turn_block: "turn r s = (False, r', s') \<Longrightarrow> units r = 0 \<and> units r' = 0 \<and>
      fst (sched_block 0 (wq r) s) = wq r' \<and> tasks s' = tasks (snd (sched_block 0 (wq r) s)) \<and>
      num_tasks s' = num_tasks (snd (sched_block 0 (wq r) s)) \<and> current_task_per_cpu s' = current_task_per_cpu (snd (sched_block 0 (wq r) s))"
    and release_wake: "release r s = (r', s') \<Longrightarrow> units r' \<le> units r + 1 \<and>
      fst (sched_wake (wq r) s) = wq r' \<and> tasks s' = tasks (snd (sched_wake (wq r) s)) \<and>
      num_tasks s' = num_tasks (snd (sched_wake (wq r) s)) \<and> current_task_per_cpu s' = current_task_per_cpu (snd (sched_wake (wq r) s))"
begin

definition live_inv :: "'r config \<Rightarrow> bool" where
  "live_inv cf \<longleftrightarrow> (case cf of (s, r, ph) \<Rightarrow>
     queue_inv s (wq r) ph \<and> (waiters (wq r) \<noteq> 0 \<longrightarrow> units r \<le> card (contenders s ph)))"

lemma live_step:
  assumes "wait_step turn release may cf cf'" "live_inv cf"
  shows "live_inv cf'"
  using assms
proof cases
  case (take s ph r ok r' s')
  let ?c = "current_task_per_cpu s 0"
  have q: "queue_inv s (wq r) ph" and u: "waiters (wq r) \<noteq> 0 \<Longrightarrow> units r \<le> card (contenders s ph)"
    using assms(2) take by (auto simp: live_inv_def)
  show ?thesis
  proof (cases ok)
    case True
    have tr: "turn r s = (True, r', s')" using take(5) True by simp
    have "?c < MAX_TASKS" using q by (auto simp: queue_inv_def sched_inv_def)
    note t = turn_take [OF this tr]
    have "queue_inv s (wq r) (ph(?c := Holding))"
      using q take(3) by (auto simp: queue_inv_def)
    then have q': "queue_inv s' (wq r') (ph(?c := Holding))" using t same_tasks(1) [of s' s] by simp
    have "contenders s' (ph(?c := Holding)) = contenders s ph - {?c}"
      using t same_tasks(2) [of s' s] by (auto simp: contenders_def)
    then have "card (contenders s ph) \<le> card (contenders s' (ph(?c := Holding))) + 1"
      by (cases "card (contenders s ph)") (simp_all add: card_Diff_singleton_if)
    then show ?thesis using q' u t True by (auto simp: live_inv_def take(2))
  next
    case False
    obtain t where t: "units r = 0" "units r' = 0" "sched_block 0 (wq r) s = (wq r', t)" "tasks s' = tasks t"
      "num_tasks s' = num_tasks t" "current_task_per_cpu s' = current_task_per_cpu t"
      using turn_block [of r s r' s'] take(5) False by (metis prod.collapse)
    show ?thesis
      using sched_block_effect(1) [OF q take(3) t(3)] same_tasks(1) [OF t(4-6)] t(2) False
      by (simp add: live_inv_def take(2))
  qed
next
  case (give ph s r r' s' ph')
  have q: "queue_inv s (wq r) ph" and u: "waiters (wq r) \<noteq> 0 \<Longrightarrow> units r \<le> card (contenders s ph)"
    using assms(2) give by (auto simp: live_inv_def)
  obtain t where t: "units r' \<le> units r + 1" "sched_wake (wq r) s = (wq r', t)" "tasks s' = tasks t"
    "num_tasks s' = num_tasks t" "current_task_per_cpu s' = current_task_per_cpu t"
    using release_wake [OF give(4)] by (metis prod.collapse)
  note w = sched_wake_effect [OF q t(2)]
  have ph': "ph' i = Waiting \<longleftrightarrow> ph i = Waiting" for i using give(5) by simp
  have "queue_inv s' (wq r') ph' \<and> contenders s' ph' = contenders t ph"
    using w(1) same_tasks [OF t(3-5)] ph' by (simp add: queue_inv_def contenders_def)
  moreover have "units r' \<le> card (contenders t ph)" if "waiters (wq r') \<noteq> 0"
    using that t(1) w(4,5) u by (cases "waiters (wq r) = 0") auto
  ultimately show ?thesis by (simp add: live_inv_def give(2))
next
  case (sleep s ph r now ms)
  then show ?thesis using assms(2) sched_sleep_effect [of s "wq r" ph now ms] by (simp add: live_inv_def)
next
  case (switch now s c r ph osp)
  then show ?thesis using assms(2) sched_switch_effect [of s "wq r" ph now c osp] by (simp add: live_inv_def)
qed

lemma live_run:
  assumes "(wait_step turn release may)\<^sup>*\<^sup>* cf cf'" "live_inv cf"
  shows "live_inv cf'"
  using assms by (induction rule: rtranclp_induct) (auto intro: live_step)

lemma live_contender:
  assumes "live_inv (s, r, ph)" "0 < units r" "waiters (wq r) \<noteq> 0"
  shows "\<exists>i < num_tasks s. ph i = Waiting \<and> state (tasks s i) \<in> {TASK_READY, TASK_RUNNING}"
proof -
  have "0 < card (contenders s ph)" using assms by (auto simp: live_inv_def)
  then have "contenders s ph \<noteq> {}" by auto
  then show ?thesis by (auto simp: contenders_def)
qed

end


section \<open>The mutex and the semaphore\<close>

definition mutex_units :: "mutex \<Rightarrow> nat" where
  "mutex_units m = (if sint (owner m) < 0 then 1 else 0)"

definition sem_units :: "semaphore \<Rightarrow> nat" where
  "sem_units m = nat (sint (count m))"

lemma block_primask:
  "sched_block cpu q (s\<lparr>primask := k\<rparr>) = (fst (sched_block cpu q s), (snd (sched_block cpu q s))\<lparr>primask := k\<rparr>)"
  by (simp add: sched_block_def Let_def upd_task_def)

lemma wake_primask:
  "sched_wake q (s\<lparr>primask := k\<rparr>) = (fst (sched_wake q s), (snd (sched_wake q s))\<lparr>primask := k\<rparr>)"
  by (simp add: sched_wake_def upd_task_def split: option.splits)

lemma sint_dec16: "0 < sint (c :: 16 word) \<Longrightarrow> sint (c - 1) = sint c - 1"
  using sint_ge [of c] sint_lt [of c] by (simp add: sint_word_ariths signed_take_bit_int_eq_self)

lemma sint_inc16: "sint (c + 1 :: 16 word) \<le> sint c + 1"
proof (cases "sint c + 1 < 2 ^ 15")
  case True
  then show ?thesis using sint_ge [of c] sint_lt [of c] by (simp add: sint_word_ariths signed_take_bit_int_eq_self)
next
  case False
  then show ?thesis using sint_lt [of "c + 1"] by simp
qed

lemma owner_of_nat: "i < 8 \<Longrightarrow> sint (of_nat i :: 8 word) = int i"
  by (simp add: sint_uint signed_take_bit_int_eq_self take_bit_nat_eq_self uint_nat unat_of_nat)

interpretation mtx: blocking_resource mutex_units mutex_wq "mutex_lock 0" mutex_unlock
proof
  fix r r' and s s' :: sched
  show "current_task_per_cpu s 0 < MAX_TASKS \<Longrightarrow> mutex_lock 0 r s = (True, r', s') \<Longrightarrow>
      0 < mutex_units r \<and> mutex_units r' = mutex_units r - 1 \<and> mutex_wq r' = mutex_wq r \<and>
      tasks s' = tasks s \<and> num_tasks s' = num_tasks s \<and> current_task_per_cpu s' = current_task_per_cpu s"
    by (auto simp: mutex_lock_def spin_lock_def spin_unlock_def mutex_units_def sched_current_id_def MAX_TASKS_def
        owner_of_nat split: if_splits prod.splits)
  show "mutex_lock 0 r s = (False, r', s') \<Longrightarrow> mutex_units r = 0 \<and> mutex_units r' = 0 \<and>
      fst (sched_block 0 (mutex_wq r) s) = mutex_wq r' \<and> tasks s' = tasks (snd (sched_block 0 (mutex_wq r) s)) \<and>
      num_tasks s' = num_tasks (snd (sched_block 0 (mutex_wq r) s)) \<and> current_task_per_cpu s' = current_task_per_cpu (snd (sched_block 0 (mutex_wq r) s))"
    by (auto simp: mutex_lock_def spin_lock_def spin_unlock_def sched_yield_def block_primask mutex_units_def
        split: if_splits prod.splits)
  show "mutex_unlock r s = (r', s') \<Longrightarrow> mutex_units r' \<le> mutex_units r + 1 \<and>
      fst (sched_wake (mutex_wq r) s) = mutex_wq r' \<and> tasks s' = tasks (snd (sched_wake (mutex_wq r) s)) \<and>
      num_tasks s' = num_tasks (snd (sched_wake (mutex_wq r) s)) \<and> current_task_per_cpu s' = current_task_per_cpu (snd (sched_wake (mutex_wq r) s))"
    by (auto simp: mutex_unlock_def spin_lock_def spin_unlock_def wake_primask mutex_units_def split: prod.splits)
qed

interpretation sem: blocking_resource sem_units sem_wq "sem_take 0" sem_give
proof
  fix r r' and s s' :: sched
  show "current_task_per_cpu s 0 < MAX_TASKS \<Longrightarrow> sem_take 0 r s = (True, r', s') \<Longrightarrow> 0 < sem_units r \<and> sem_units r' = sem_units r - 1 \<and> sem_wq r' = sem_wq r \<and>
      tasks s' = tasks s \<and> num_tasks s' = num_tasks s \<and> current_task_per_cpu s' = current_task_per_cpu s"
    by (auto simp: sem_take_def spin_lock_def spin_unlock_def sem_units_def sint_dec16 split: if_splits prod.splits)
  show "sem_take 0 r s = (False, r', s') \<Longrightarrow> sem_units r = 0 \<and> sem_units r' = 0 \<and>
      fst (sched_block 0 (sem_wq r) s) = sem_wq r' \<and> tasks s' = tasks (snd (sched_block 0 (sem_wq r) s)) \<and>
      num_tasks s' = num_tasks (snd (sched_block 0 (sem_wq r) s)) \<and> current_task_per_cpu s' = current_task_per_cpu (snd (sched_block 0 (sem_wq r) s))"
    by (auto simp: sem_take_def spin_lock_def spin_unlock_def sched_yield_def block_primask sem_units_def
        split: if_splits prod.splits)
  show "sem_give r s = (r', s') \<Longrightarrow> sem_units r' \<le> sem_units r + 1 \<and>
      fst (sched_wake (sem_wq r) s) = sem_wq r' \<and> tasks s' = tasks (snd (sched_wake (sem_wq r) s)) \<and>
      num_tasks s' = num_tasks (snd (sched_wake (sem_wq r) s)) \<and> current_task_per_cpu s' = current_task_per_cpu (snd (sched_wake (sem_wq r) s))"
    using sint_inc16 [of "count r"]
    by (auto simp: sem_give_def spin_lock_def spin_unlock_def wake_primask sem_units_def split: prod.splits)
qed

definition excl_inv :: "mutex config \<Rightarrow> bool" where
  "excl_inv cf \<longleftrightarrow> (case cf of (s, m, ph) \<Rightarrow>
     queue_inv s (mutex_wq m) ph \<and> (\<forall>i < num_tasks s. ph i = Holding \<longleftrightarrow> sint (owner m) = int i))"

lemma mutex_lock_owner:
  "mutex_lock 0 m s = (ok, m', s') \<Longrightarrow> ok = (sint (owner m) < 0)"
  "mutex_lock 0 m s = (True, m', s') \<Longrightarrow> owner m' = of_nat (current_task_per_cpu s 0)"
  "mutex_lock 0 m s = (False, m', s') \<Longrightarrow> owner m' = owner m"
  by (auto simp: mutex_lock_def spin_lock_def sched_current_id_def split: if_splits prod.splits)

lemma mutex_unlock_owner: "mutex_unlock m s = (m', s') \<Longrightarrow> sint (owner m') = -1"
  by (auto simp: mutex_unlock_def spin_lock_def split: prod.splits)

lemma excl_step:
  assumes st: "wait_step (mutex_lock 0) mutex_unlock (\<lambda>p. p = Holding) cf cf'" and inv: "excl_inv cf" "mtx.live_inv cf"
  shows "excl_inv cf'"
proof -
  have live: "mtx.live_inv cf'" by (rule mtx.live_step [OF st inv(2)])
  from st show ?thesis
  proof cases
    case (take s ph r ok r' s')
    let ?c = "current_task_per_cpu s 0"
    have q: "queue_inv s (mutex_wq r) ph" and h: "\<And>i. i < num_tasks s \<Longrightarrow> ph i = Holding \<longleftrightarrow> sint (owner r) = int i"
      using inv(1) take(1) by (auto simp: excl_inv_def)
    have q': "queue_inv s' (mutex_wq r') (ph(?c := if ok then Holding else Waiting))"
      using live take(2) by (simp add: mtx.live_inv_def)
    have c: "?c < MAX_TASKS" "?c < num_tasks s" using q by (auto simp: queue_inv_def sched_inv_def)
    show ?thesis
    proof (cases ok)
      case True
      have tr: "mutex_lock 0 r s = (True, r', s')" using take(5) True by simp
      have "sint (owner r') = int ?c"
        using mutex_lock_owner(2) [OF tr] c by (simp add: owner_of_nat MAX_TASKS_def)
      moreover have "sint (owner r) < 0" using mutex_lock_owner(1) [OF tr] by simp
      ultimately show ?thesis
        using mtx.turn_take [OF c(1) tr] h q' True by (auto simp: excl_inv_def take(2))
    next
      case False
      have tr: "mutex_lock 0 r s = (False, r', s')" using take(5) False by simp
      have "num_tasks s' = num_tasks s"
        using mtx.turn_block [OF tr] by (simp add: sched_block_def Let_def)
      then show ?thesis
        using mutex_lock_owner(3) [OF tr] h [of ?c] h q' take(4) c False by (auto simp: excl_inv_def take(2))
    qed
  next
    case (give ph s r r' s' ph')
    let ?c = "current_task_per_cpu s 0"
    have q: "queue_inv s (mutex_wq r) ph" and h: "\<And>i. i < num_tasks s \<Longrightarrow> ph i = Holding \<longleftrightarrow> sint (owner r) = int i"
      using inv(1) give(1) by (auto simp: excl_inv_def)
    have c: "?c < num_tasks s" using q by (auto simp: queue_inv_def sched_inv_def)
    have n: "num_tasks s' = num_tasks s"
      using mtx.release_wake [OF give(4)] by (simp add: sched_wake_def split: option.splits)
    have "queue_inv s' (mutex_wq r') ph'" using live give(2) by (simp add: mtx.live_inv_def)
    then show ?thesis
      using mutex_unlock_owner [OF give(4)] n h [OF c] h give(3,5) by (auto simp: excl_inv_def give(2))
  next
    case (sleep s ph r now ms)
    then show ?thesis using inv(1) sched_sleep_effect [of s "mutex_wq r" ph now ms] by (simp add: excl_inv_def)
  next
    case (switch now s c r ph osp)
    then show ?thesis using inv(1) sched_switch_effect [of s "mutex_wq r" ph now c osp] by (simp add: excl_inv_def)
  qed
qed

lemma excl_run:
  assumes "(wait_step (mutex_lock 0) mutex_unlock (\<lambda>p. p = Holding))\<^sup>*\<^sup>* cf cf'" "excl_inv cf" "mtx.live_inv cf"
  shows "excl_inv cf' \<and> mtx.live_inv cf'"
  using assms by (induction rule: rtranclp_induct) (auto intro: excl_step mtx.live_step)

text \<open>Tasks about to run, none of them blocked, none near the resource yet.\<close>

definition wait_boot :: "sched \<Rightarrow> bool" where
  "wait_boot s \<longleftrightarrow> sched_inv s \<and> 0 < num_tasks s \<and> (\<forall>i < num_tasks s. state (tasks s i) \<noteq> TASK_BLOCKED)"

lemma wait_boot_queue: "wait_boot s \<Longrightarrow> waiters wq = 0 \<Longrightarrow> queue_inv s wq (\<lambda>_. Outside)"
  by (simp add: wait_boot_def queue_inv_def bits_below_def)

definition wait_example :: sched where
  "wait_example = sched_example\<lparr>primask := 0\<rparr>"

lemma wait_example_boot: "wait_boot wait_example"
proof -
  have "i < 3 \<Longrightarrow> i = 0 \<or> i = 1 \<or> i = 2" for i :: nat by linarith
  then show ?thesis
    by (auto simp: wait_boot_def sched_inv_def wait_example_def sched_example_def zero_tcb_def MAX_TASKS_def)
qed

section \<open>Properties\<close>

text \<open>
  C8. In every interleaving of tasks that lock a mutex, unlock it while they hold it (\<open>mutex_unlock\<close>
  itself does not check the caller), sleep and are switched (with some runnable task at each switch),
  at most one task holds the mutex and it is the recorded owner; and no wake-up is lost: whenever the
  mutex is free while tasks are queued on it, some waiting task is ready or running, so that the
  scheduler can let it take its turn.
\<close>

theorem mutex_exclusive_and_live:
  assumes "wait_boot s0"
    and "(wait_step (mutex_lock 0) mutex_unlock (\<lambda>p. p = Holding))\<^sup>*\<^sup>* (s0, MUTEX_INIT, \<lambda>_. Outside) (s, m, ph)"
  shows "(\<forall>i < num_tasks s. ph i = Holding \<longleftrightarrow> sint (owner m) = int i) \<and>
    (\<forall>i < num_tasks s. \<forall>j < num_tasks s. ph i = Holding \<and> ph j = Holding \<longrightarrow> i = j) \<and>
    (sint (owner m) < 0 \<and> waiters (mutex_wq m) \<noteq> 0 \<longrightarrow>
       (\<exists>i < num_tasks s. ph i = Waiting \<and> state (tasks s i) \<in> {TASK_READY, TASK_RUNNING}))"
proof -
  have q: "queue_inv s0 (mutex_wq MUTEX_INIT) (\<lambda>_. Outside)"
    using assms(1) by (simp add: wait_boot_queue MUTEX_INIT_def)
  have "excl_inv (s0, MUTEX_INIT, \<lambda>_. Outside)" "mtx.live_inv (s0, MUTEX_INIT, \<lambda>_. Outside)"
    using q by (auto simp: excl_inv_def mtx.live_inv_def MUTEX_INIT_def)
  from excl_run [OF assms(2) this]
  have e: "excl_inv (s, m, ph)" and l: "mtx.live_inv (s, m, ph)" by simp_all
  have "\<exists>i < num_tasks s. ph i = Waiting \<and> state (tasks s i) \<in> {TASK_READY, TASK_RUNNING}"
    if "sint (owner m) < 0" "waiters (mutex_wq m) \<noteq> 0"
    using mtx.live_contender [OF l _ that(2)] that(1) by (simp add: mutex_units_def)
  moreover have "\<forall>i < num_tasks s. ph i = Holding \<longleftrightarrow> sint (owner m) = int i" using e by (simp add: excl_inv_def)
  ultimately show ?thesis by auto
qed

theorem mutex_exclusive_and_live_witness:
  "let m = fst (snd (mutex_lock 0 MUTEX_INIT wait_example)); s = snd (snd (mutex_lock 0 MUTEX_INIT wait_example));
       ph = (\<lambda>_. Outside)(0 := Holding)
   in (\<forall>i < num_tasks s. ph i = Holding \<longleftrightarrow> sint (owner m) = int i) \<and>
    (\<forall>i < num_tasks s. \<forall>j < num_tasks s. ph i = Holding \<and> ph j = Holding \<longrightarrow> i = j) \<and>
    (sint (owner m) < 0 \<and> waiters (mutex_wq m) \<noteq> 0 \<longrightarrow>
       (\<exists>i < num_tasks s. ph i = Waiting \<and> state (tasks s i) \<in> {TASK_READY, TASK_RUNNING}))"
proof -
  let ?m = "fst (snd (mutex_lock 0 MUTEX_INIT wait_example))" and ?s = "snd (snd (mutex_lock 0 MUTEX_INIT wait_example))"
  have e: "mutex_lock 0 MUTEX_INIT wait_example = (True, ?m, ?s)"
    by (simp add: mutex_lock_def MUTEX_INIT_def spin_lock_def)
  have r: "state (tasks wait_example (current_task_per_cpu wait_example 0)) = TASK_RUNNING"
    "current_task_per_cpu wait_example 0 = 0"
    by (simp_all add: wait_example_def sched_example_def)
  have "wait_step (mutex_lock 0) mutex_unlock (\<lambda>p. p = Holding) (wait_example, MUTEX_INIT, \<lambda>_. Outside)
      (?s, ?m, (\<lambda>_. Outside)(0 := Holding))"
    using wait_step.take [where s = wait_example and ph = "\<lambda>_. Outside" and turn = "mutex_lock 0" and
        release = mutex_unlock and may = "\<lambda>p. p = Holding", OF r(1) _ e] r(2) by simp
  from mutex_exclusive_and_live [OF wait_example_boot r_into_rtranclp, OF this] show ?thesis unfolding Let_def .
qed

text \<open>
  C27. A semaphore loses no wake-up either: in every interleaving of takes and gives (from any task or
  interrupt), whenever the count is positive while tasks are queued, at least \<open>count\<close> waiting tasks
  are ready or running. The count may wrap at the 16-bit limit; the statement holds regardless.
\<close>

theorem sem_no_lost_wakeup:
  assumes "wait_boot s0"
    and "(wait_step (sem_take 0) sem_give (\<lambda>_. True))\<^sup>*\<^sup>* (s0, SEM_INIT n, \<lambda>_. Outside) (s, m, ph)"
    and "waiters (sem_wq m) \<noteq> 0"
  shows "sint (count m) \<le> int (card {i. i < num_tasks s \<and> ph i = Waiting \<and> state (tasks s i) \<in> {TASK_READY, TASK_RUNNING}})"
proof -
  have "queue_inv s0 (sem_wq (SEM_INIT n)) (\<lambda>_. Outside)"
    using assms(1) by (simp add: wait_boot_queue SEM_INIT_def)
  then have "sem.live_inv (s0, SEM_INIT n, \<lambda>_. Outside)" by (simp add: sem.live_inv_def SEM_INIT_def)
  from sem.live_run [OF assms(2) this] assms(3)
  have "sem_units m \<le> card (contenders s ph)" by (simp add: sem.live_inv_def)
  then show ?thesis by (simp add: sem_units_def contenders_def)
qed

theorem sem_no_lost_wakeup_witness:
  "let m = fst (snd (sem_take 0 (SEM_INIT 0) wait_example)); s = snd (snd (sem_take 0 (SEM_INIT 0) wait_example));
       ph = (\<lambda>_. Outside)(0 := Waiting)
   in waiters (sem_wq m) = 1 \<and>
     sint (count m) \<le> int (card {i. i < num_tasks s \<and> ph i = Waiting \<and> state (tasks s i) \<in> {TASK_READY, TASK_RUNNING}})"
proof -
  let ?m = "fst (snd (sem_take 0 (SEM_INIT 0) wait_example))" and ?s = "snd (snd (sem_take 0 (SEM_INIT 0) wait_example))"
  have r: "state (tasks wait_example (current_task_per_cpu wait_example 0)) = TASK_RUNNING"
    "current_task_per_cpu wait_example 0 = 0"
    by (simp_all add: wait_example_def sched_example_def)
  have e: "sem_take 0 (SEM_INIT 0) wait_example = (False, ?m, ?s)" and w: "waiters (sem_wq ?m) = 1"
    using r(2) by (simp_all add: sem_take_def SEM_INIT_def spin_lock_def sched_block_def Let_def)
  have "wait_step (sem_take 0) sem_give (\<lambda>_. True) (wait_example, SEM_INIT 0, \<lambda>_. Outside)
      (?s, ?m, (\<lambda>_. Outside)(0 := Waiting))"
    using wait_step.take [where s = wait_example and ph = "\<lambda>_. Outside" and turn = "sem_take 0" and
        release = sem_give and may = "\<lambda>_. True", OF r(1) _ e] r(2) by simp
  from sem_no_lost_wakeup [OF wait_example_boot r_into_rtranclp, OF this] w show ?thesis unfolding Let_def by simp
qed

end
