(* ===== verification/Msgq.thy ===== *)
theory Msgq
  imports Prelude
begin

text \<open>
  The message queue of \<open>rtos/kernel/msgq.c\<close>: a ring of eight slots of 32 bytes. The critical sections
  run with interrupts masked, so a turn of the loops of \<open>msgq_put\<close> and \<open>msgq_get\<close> is atomic: it moves
  one message, or finds the queue full or empty and yields. The ring is one array of bytes, as C
  lays out \<open>buf[8][32]\<close>; a message is the bytes at the caller's pointer.
\<close>

section \<open>State and operations\<close>

definition MSGQ_MAX_MSGS :: u8 where "MSGQ_MAX_MSGS = 8"
definition MSGQ_MAX_MSG_SIZE :: nat where "MSGQ_MAX_MSG_SIZE = 32"

record msgq =
  buf :: "nat \<Rightarrow> u8"
  q_head :: u8
  q_tail :: u8
  q_count :: u8
  msg_size :: u8

definition MSGQ_INIT :: "u8 \<Rightarrow> msgq" where
  "MSGQ_INIT msize = \<lparr>buf = (\<lambda>_. 0), q_head = 0, q_tail = 0, q_count = 0, msg_size = msize\<rparr>"

fun memcpy_small :: "(nat \<Rightarrow> u8) \<Rightarrow> nat \<Rightarrow> (nat \<Rightarrow> u8) \<Rightarrow> nat \<Rightarrow> nat \<Rightarrow> nat \<Rightarrow> u8" where
  "memcpy_small d dp s sp 0 = d"
| "memcpy_small d dp s sp (Suc n) = memcpy_small (d(dp := s sp)) (dp + 1) s (sp + 1) n"

definition slot_at :: "u8 \<Rightarrow> nat" where
  "slot_at i = unat i * MSGQ_MAX_MSG_SIZE"

text \<open>A turn of \<open>msgq_put\<close>; the result says whether the loop returns.\<close>

definition msgq_put :: "msgq \<Rightarrow> (nat \<Rightarrow> u8) \<Rightarrow> bool \<times> msgq" where
  "msgq_put q msg =
     (if q_count q < MSGQ_MAX_MSGS
      then (let q = q\<lparr>buf := memcpy_small (buf q) (slot_at (q_head q)) msg 0 (unat (msg_size q))\<rparr>;
                q = q\<lparr>q_head := (q_head q + 1) mod MSGQ_MAX_MSGS\<rparr>;
                q = q\<lparr>q_count := q_count q + 1\<rparr>
            in (True, q))
      else (False, q))"

text \<open>A turn of \<open>msgq_get\<close>: the caller's buffer is an argument and is returned filled.\<close>

definition msgq_get :: "msgq \<Rightarrow> (nat \<Rightarrow> u8) \<Rightarrow> bool \<times> (nat \<Rightarrow> u8) \<times> msgq" where
  "msgq_get q msg =
     (if q_count q > 0
      then (let msg = memcpy_small msg 0 (buf q) (slot_at (q_tail q)) (unat (msg_size q));
                q = q\<lparr>q_tail := (q_tail q + 1) mod MSGQ_MAX_MSGS\<rparr>;
                q = q\<lparr>q_count := q_count q - 1\<rparr>
            in (True, msg, q))
      else (False, msg, q))"

definition msgq_try_get :: "msgq \<Rightarrow> (nat \<Rightarrow> u8) \<Rightarrow> int \<times> (nat \<Rightarrow> u8) \<times> msgq" where
  "msgq_try_get q msg =
     (if q_count q > 0
      then (let msg = memcpy_small msg 0 (buf q) (slot_at (q_tail q)) (unat (msg_size q));
                q = q\<lparr>q_tail := (q_tail q + 1) mod MSGQ_MAX_MSGS\<rparr>;
                q = q\<lparr>q_count := q_count q - 1\<rparr>
            in (0, msg, q))
      else (-1, msg, q))"

section \<open>The contents of the ring\<close>

lemma memcpy_small_apply:
  "memcpy_small d dp s sp n x = (if dp \<le> x \<and> x < dp + n then s (sp + (x - dp)) else d x)"
proof (induction n arbitrary: d dp sp)
  case (Suc n)
  have "Suc (sp + x - Suc dp) = sp + x - dp" if "dp < x" using that by linarith
  then show ?case using Suc by auto
qed auto

definition msg_bytes :: "(nat \<Rightarrow> u8) \<Rightarrow> nat \<Rightarrow> nat \<Rightarrow> u8 list" where
  "msg_bytes f a n = map (\<lambda>i. f (a + i)) [0..<n]"

definition msgq_inv :: "msgq \<Rightarrow> bool" where
  "msgq_inv q \<longleftrightarrow> unat (q_head q) < 8 \<and> unat (q_tail q) < 8 \<and> unat (q_count q) \<le> 8 \<and> unat (msg_size q) \<le> 32 \<and>
     unat (q_head q) = (unat (q_tail q) + unat (q_count q)) mod 8"

definition contents :: "msgq \<Rightarrow> u8 list list" where
  "contents q = map (\<lambda>j. msg_bytes (buf q) (32 * ((unat (q_tail q) + j) mod 8)) (unat (msg_size q))) [0..<unat (q_count q)]"

lemma step_mod8: "unat (x :: u8) < 8 \<Longrightarrow> unat ((x + 1) mod MSGQ_MAX_MSGS) = (unat x + 1) mod 8"
  by (simp add: MSGQ_MAX_MSGS_def unat_word_ariths)

lemma unat_inc8: "unat (x :: u8) < 8 \<Longrightarrow> unat (x + 1) = unat x + 1"
  by (simp add: unat_word_ariths)

lemma unat_dec8: "0 < (x :: u8) \<Longrightarrow> unat (x - 1) = unat x - 1"
  using unat_minus_one [of x] by (simp add: word_gt_0)

lemma contents_put:
  assumes inv: "msgq_inv q" and put: "msgq_put q msg = (ok, q')"
  shows "msgq_inv q' \<and> msg_size q' = msg_size q \<and> ok = (length (contents q) < 8) \<and>
    contents q' = (if ok then contents q @ [msg_bytes msg 0 (unat (msg_size q))] else contents q)"
proof (cases "q_count q < MSGQ_MAX_MSGS")
  case True
  let ?n = "unat (msg_size q)" and ?t = "unat (q_tail q)" and ?c = "unat (q_count q)"
  have c: "?c < 8" using True by (simp add: MSGQ_MAX_MSGS_def word_less_nat_alt)
  have q': "ok" "q_tail q' = q_tail q" "msg_size q' = msg_size q" "unat (q_count q') = ?c + 1"
    "unat (q_head q') = (unat (q_head q) + 1) mod 8"
    "buf q' = memcpy_small (buf q) (32 * ((?t + ?c) mod 8)) msg 0 ?n"
    using put True c inv step_mod8 [of "q_head q"] unat_inc8 [of "q_count q"]
    by (auto simp: msgq_put_def Let_def slot_at_def MSGQ_MAX_MSG_SIZE_def msgq_inv_def mult.commute)
  have inv': "msgq_inv q'" using inv c q' by (simp add: msgq_inv_def mod_Suc_eq)
  have old: "msg_bytes (buf q') (32 * ((?t + j) mod 8)) ?n = msg_bytes (buf q) (32 * ((?t + j) mod 8)) ?n" if "j < ?c" for j
  proof -
    have "(?t + j) mod 8 \<noteq> (?t + ?c) mod 8"
      using that c shift_mod_inj [of j 8 ?c ?t] by auto
    moreover have "?n \<le> 32" using inv by (simp add: msgq_inv_def)
    ultimately show ?thesis by (auto simp: msg_bytes_def q'(6) memcpy_small_apply)
  qed
  have new: "msg_bytes (buf q') (32 * ((?t + ?c) mod 8)) ?n = msg_bytes msg 0 ?n"
    by (simp add: msg_bytes_def q'(6) memcpy_small_apply)
  show ?thesis using inv' q' old new c by (simp add: contents_def)
next
  case False
  then show ?thesis using put inv by (auto simp: msgq_put_def MSGQ_MAX_MSGS_def word_less_nat_alt contents_def)
qed

lemma contents_get:
  assumes inv: "msgq_inv q" and get: "msgq_get q d = (ok, d', q')"
  shows "msgq_inv q' \<and> msg_size q' = msg_size q \<and> ok = (contents q \<noteq> []) \<and> contents q' = tl (contents q) \<and>
    (if ok then msg_bytes d' 0 (unat (msg_size q)) = hd (contents q) \<and> (\<forall>i \<ge> unat (msg_size q). d' i = d i) else d' = d)"
proof (cases "q_count q > 0")
  case True
  let ?n = "unat (msg_size q)" and ?t = "unat (q_tail q)" and ?c = "unat (q_count q)"
  have c: "0 < ?c" using True by (simp add: word_less_nat_alt)
  have t: "?t < 8" using inv by (simp add: msgq_inv_def)
  have q': "ok" "buf q' = buf q" "q_head q' = q_head q" "msg_size q' = msg_size q" "unat (q_count q') = ?c - 1"
    "unat (q_tail q') = (?t + 1) mod 8" "d' = memcpy_small d 0 (buf q) (32 * ?t) ?n"
    using get True t step_mod8 [of "q_tail q"] unat_dec8 [of "q_count q"]
    by (auto simp: msgq_get_def Let_def slot_at_def MSGQ_MAX_MSG_SIZE_def mult.commute)
  have "((?t + 1) mod 8 + (?c - 1)) mod 8 = (?t + 1 + (?c - 1)) mod 8" by (rule mod_add_left_eq)
  then have "((?t + 1) mod 8 + (?c - 1)) mod 8 = (?t + ?c) mod 8" using c by simp
  then have inv': "msgq_inv q'" using inv c q' by (auto simp: msgq_inv_def)
  obtain k where k: "?c = Suc k" using c by (cases ?c) auto
  have cs: "contents q = msg_bytes (buf q) (32 * ?t) ?n # contents q'"
  proof -
    have "contents q' = map (\<lambda>j. msg_bytes (buf q) (32 * ((?t + Suc j) mod 8)) ?n) [0..<k]"
      by (simp add: contents_def q' k mod_simps)
    moreover have "[0..<Suc k] = 0 # map Suc [0..<k]" by (simp add: map_Suc_upt upt_conv_Cons del: upt_Suc)
    ultimately show ?thesis using t unfolding contents_def k by (simp del: upt_Suc)
  qed
  have "msg_bytes d' 0 ?n = hd (contents q)" by (simp add: cs msg_bytes_def q'(7) memcpy_small_apply)
  then show ?thesis using inv' q' cs by (simp add: memcpy_small_apply)
next
  case False
  then have "q_count q = 0" by (simp add: word_gt_0)
  then show ?thesis using get inv by (simp add: msgq_get_def contents_def)
qed


section \<open>The interface of a bounded queue\<close>

text \<open>
  The operations of the clients as a sequence, and what an ideal queue of at most \<open>cap\<close> messages
  answers: whether a message was accepted, and the message taken out.
\<close>

datatype 'm qop = Put 'm | Get
datatype 'm qres = Accepted bool | Got "'m option"

fun ideal :: "nat \<Rightarrow> 'm qop list \<Rightarrow> 'm list \<Rightarrow> 'm qres list \<times> 'm list" where
  "ideal cap [] xs = ([], xs)"
| "ideal cap (Put m # ps) xs =
     (if length xs < cap then (let (rs, ys) = ideal cap ps (xs @ [m]) in (Accepted True # rs, ys))
      else (let (rs, ys) = ideal cap ps xs in (Accepted False # rs, ys)))"
| "ideal cap (Get # ps) xs =
     (case xs of [] \<Rightarrow> (let (rs, ys) = ideal cap ps xs in (Got None # rs, ys))
      | x # xs' \<Rightarrow> (let (rs, ys) = ideal cap ps xs' in (Got (Some x) # rs, ys)))"

fun run_queue :: "('q \<Rightarrow> 'm \<Rightarrow> bool \<times> 'q) \<Rightarrow> ('q \<Rightarrow> 'm option \<times> 'q) \<Rightarrow> 'm qop list \<Rightarrow> 'q \<Rightarrow> 'm qres list \<times> 'q" where
  "run_queue put get [] q = ([], q)"
| "run_queue put get (Put m # ps) q =
     (let (ok, q) = put q m; (rs, q) = run_queue put get ps q in (Accepted ok # rs, q))"
| "run_queue put get (Get # ps) q =
     (let (x, q) = get q; (rs, q) = run_queue put get ps q in (Got x # rs, q))"

locale bounded_queue =
  fixes good :: "'q \<Rightarrow> bool" and valid :: "'m \<Rightarrow> bool" and abs :: "'q \<Rightarrow> 'm list" and cap :: nat
    and put :: "'q \<Rightarrow> 'm \<Rightarrow> bool \<times> 'q" and get :: "'q \<Rightarrow> 'm option \<times> 'q"
  assumes put_spec: "good q \<Longrightarrow> valid m \<Longrightarrow> put q m = (ok, q') \<Longrightarrow>
      good q' \<and> ok = (length (abs q) < cap) \<and> abs q' = (if ok then abs q @ [m] else abs q)"
    and get_spec: "good q \<Longrightarrow> get q = (x, q') \<Longrightarrow>
      good q' \<and> x = (case abs q of [] \<Rightarrow> None | y # ys \<Rightarrow> Some y) \<and> abs q' = tl (abs q)"
begin

definition valid_ops :: "'m qop list \<Rightarrow> bool" where
  "valid_ops ps \<longleftrightarrow> (\<forall>m. Put m \<in> set ps \<longrightarrow> valid m)"

lemma run_ideal:
  assumes "good q" "valid_ops ps"
  shows "good (snd (run_queue put get ps q)) \<and>
    ideal cap ps (abs q) = (fst (run_queue put get ps q), abs (snd (run_queue put get ps q)))"
  using assms
proof (induction ps arbitrary: q)
  case (Cons p ps)
  have v: "valid_ops ps" using Cons.prems by (auto simp: valid_ops_def)
  show ?case
  proof (cases p)
    case (Put m)
    obtain ok t where e: "put q m = (ok, t)" by fastforce
    have "valid m" using Cons.prems Put by (auto simp: valid_ops_def)
    from put_spec [OF Cons.prems(1) this e] Cons.IH [OF _ v, of t] e Put show ?thesis
      by (auto split: prod.splits)
  next
    case Get
    obtain x t where e: "get q = (x, t)" by fastforce
    from get_spec [OF Cons.prems(1) e] Cons.IH [OF _ v, of t] e Get show ?thesis
      by (auto split: prod.splits list.splits)
  qed
qed simp

end

text \<open>The queue as its clients see it: messages are the \<open>n\<close> bytes they pass and receive.\<close>

definition put_msg :: "msgq \<Rightarrow> u8 list \<Rightarrow> bool \<times> msgq" where
  "put_msg q m = msgq_put q (\<lambda>i. if i < length m then m ! i else 0)"

definition get_msg :: "msgq \<Rightarrow> u8 list option \<times> msgq" where
  "get_msg q = (case msgq_get q (\<lambda>_. 0) of (ok, d, q') \<Rightarrow> (if ok then Some (msg_bytes d 0 (unat (msg_size q))) else None, q'))"

lemma msg_bytes_list: "msg_bytes (\<lambda>i. if i < length m then m ! i else 0) 0 (length m) = m"
  by (auto simp: msg_bytes_def intro: nth_equalityI)

interpretation ring: bounded_queue
  "\<lambda>q. msgq_inv q \<and> msg_size q = n" "\<lambda>m. length m = unat n" contents 8 put_msg get_msg for n
proof
  fix q m ok q'
  assume q: "msgq_inv q \<and> msg_size q = n" and m: "length m = unat n" and p: "put_msg q m = (ok, q')"
  from contents_put [of q "\<lambda>i. if i < length m then m ! i else 0" ok q'] q p
  have "msgq_inv q' \<and> msg_size q' = msg_size q \<and> ok = (length (contents q) < 8) \<and>
    contents q' = (if ok then contents q @ [msg_bytes (\<lambda>i. if i < length m then m ! i else 0) 0 (unat (msg_size q))] else contents q)"
    by (simp add: put_msg_def)
  then show "(msgq_inv q' \<and> msg_size q' = n) \<and> ok = (length (contents q) < 8) \<and>
      contents q' = (if ok then contents q @ [m] else contents q)"
    using q m msg_bytes_list [of m] by simp
next
  fix q x q'
  assume q: "msgq_inv q \<and> msg_size q = n" and g: "get_msg q = (x, q')"
  obtain ok d where e: "msgq_get q (\<lambda>_. 0) = (ok, d, q')" "x = (if ok then Some (msg_bytes d 0 (unat (msg_size q))) else None)"
    using g by (auto simp: get_msg_def split: prod.splits)
  show "(msgq_inv q' \<and> msg_size q' = n) \<and> x = (case contents q of [] \<Rightarrow> None | y # ys \<Rightarrow> Some y) \<and> contents q' = tl (contents q)"
    using contents_get [OF _ e(1)] q e(2) by (cases "contents q") auto
qed

section \<open>Properties\<close>

text \<open>
  C9. For messages of the configured size (at most 32 bytes), every sequence of puts and gets on a
  fresh queue answers exactly what an ideal first-in first-out queue of capacity eight answers:
  messages come out unchanged and in order, a put is refused only when eight are queued and a get
  only when none is.
\<close>

theorem msgq_is_fifo:
  assumes "unat n \<le> 32" "\<forall>m. Put m \<in> set ps \<longrightarrow> length m = unat n"
  shows "fst (run_queue put_msg get_msg ps (MSGQ_INIT n)) = fst (ideal 8 ps [])"
proof -
  have "msgq_inv (MSGQ_INIT n) \<and> msg_size (MSGQ_INIT n) = n" "contents (MSGQ_INIT n) = []"
    using assms(1) by (simp_all add: msgq_inv_def MSGQ_INIT_def contents_def)
  then show ?thesis
    using ring.run_ideal [of "MSGQ_INIT n" n ps] assms(2) by (simp add: ring.valid_ops_def)
qed

theorem msgq_is_fifo_witness:
  "fst (run_queue put_msg get_msg [Put [1, 2], Put [3, 4], Get, Put [5, 6], Get, Get, Get] (MSGQ_INIT 2)) =
   [Accepted True, Accepted True, Got (Some [1, 2]), Accepted True, Got (Some [3, 4]), Got (Some [5, 6]), Got None]"
  using msgq_is_fifo [of 2 "[Put [1, 2], Put [3, 4], Get, Put [5, 6], Get, Get, Get]"] by auto

text \<open>The non-blocking get is the turn of the blocking one with the result as an error code.\<close>

lemma msgq_try_get_turn:
  "msgq_try_get q d = (case msgq_get q d of (ok, d', q') \<Rightarrow> (if ok then 0 else -1, d', q'))"
  by (simp add: msgq_try_get_def msgq_get_def Let_def)

end
