(* ===== verification/Memslab.thy ===== *)
theory Memslab
  imports Prelude
begin

text \<open>
  The fixed-size block allocator of \<open>rtos/lib/memslab.c\<close>. The free list is threaded through the
  first word of each free block, in the bytes of memory, so that clients writing to their blocks and
  the allocator writing its links share one memory. Each operation masks interrupts for its whole
  length and is one step.
\<close>

section \<open>State and operations\<close>

record memslab =
  free_list :: u32
  block_size :: u32
  num_blocks :: u32
  used :: u32

definition memslab_init :: "memslab \<Rightarrow> u32 \<Rightarrow> u32 \<Rightarrow> u32 \<Rightarrow> memory \<Rightarrow> memslab \<times> memory" where
  "memslab_init slab b bsize n m =
     (let slab = slab\<lparr>block_size := bsize, num_blocks := n, used := 0\<rparr>;
          p = b;
          slab = slab\<lparr>free_list := p\<rparr>;
          m = fold (\<lambda>i m. st32 m (p + of_nat i * bsize) (p + of_nat (i + 1) * bsize)) [0..<unat (n - 1)] m;
          m = st32 m (p + (n - 1) * bsize) 0
      in (slab, m))"

definition memslab_alloc :: "memslab \<Rightarrow> memory \<Rightarrow> u32 \<times> memslab" where
  "memslab_alloc slab m =
     (if free_list slab = 0 then (0, slab)
      else (let block = free_list slab;
                slab = slab\<lparr>free_list := ld32 m (free_list slab)\<rparr>;
                slab = slab\<lparr>used := used slab + 1\<rparr>
            in (block, slab)))"

definition memslab_free :: "memslab \<Rightarrow> u32 \<Rightarrow> memory \<Rightarrow> memslab \<times> memory" where
  "memslab_free slab block m =
     (if block = 0 then (slab, m)
      else (let m = st32 m block (free_list slab);
                slab = slab\<lparr>free_list := block\<rparr>
            in (slab\<lparr>used := used slab - 1\<rparr>, m)))"

section \<open>Blocks and the free list\<close>

text \<open>A slab over \<open>n\<close> blocks of \<open>bs\<close> bytes from \<open>b\<close>: word aligned, in one piece, not at address 0.\<close>

definition slab_area :: "u32 \<Rightarrow> u32 \<Rightarrow> u32 \<Rightarrow> bool" where
  "slab_area b bs n \<longleftrightarrow> 0 < b \<and> unat b mod 4 = 0 \<and> 4 \<le> bs \<and> unat bs mod 4 = 0 \<and> 0 < n \<and>
     unat b + unat n * unat bs \<le> 4294967296"

definition blk_at :: "u32 \<Rightarrow> u32 \<Rightarrow> nat \<Rightarrow> u32" where
  "blk_at b bs i = b + of_nat i * bs"

definition slab_blocks :: "u32 \<Rightarrow> u32 \<Rightarrow> u32 \<Rightarrow> u32 set" where
  "slab_blocks b bs n = blk_at b bs ` {..<unat n}"

fun chain :: "memory \<Rightarrow> u32 \<Rightarrow> u32 list \<Rightarrow> bool" where
  "chain m p [] \<longleftrightarrow> p = 0"
| "chain m p (x # xs) \<longleftrightarrow> p = x \<and> x \<noteq> 0 \<and> chain m (ld32 m x) xs"

lemma blk_at_unat:
  assumes "slab_area b bs n" "i < unat n"
  shows "unat (blk_at b bs i) = unat b + i * unat bs"
proof -
  have "i * unat bs + unat bs \<le> unat n * unat bs"
    using mult_le_mono1 [of "Suc i" "unat n" "unat bs"] assms(2) by simp
  moreover have "4 \<le> unat bs" using assms(1) by (simp add: slab_area_def word_le_nat_alt)
  ultimately have lt: "unat b + i * unat bs < 4294967296" using assms(1) by (simp add: slab_area_def)
  have i: "unat (of_nat i :: u32) = i" using assms(2) unat_bound32 [of n] by (intro unat_of_nat32) linarith
  have "unat (of_nat i * bs) = i * unat bs" using unat_mult32 [of "of_nat i" bs] lt i by simp
  then show ?thesis unfolding blk_at_def using unat_add32 [of b "of_nat i * bs"] lt by simp
qed

lemma blk_at_facts:
  assumes "slab_area b bs n" "i < unat n"
  shows "blk_at b bs i \<noteq> 0" "unat (blk_at b bs i) mod 4 = 0"
proof -
  have u: "unat (blk_at b bs i) = unat b + i * unat bs" by (rule blk_at_unat [OF assms])
  have "0 < unat b" using assms(1) by (simp add: slab_area_def word_less_nat_alt)
  then have "unat (blk_at b bs i) \<noteq> 0" using u by simp
  then show "blk_at b bs i \<noteq> 0" by auto
  have "i * unat bs mod 4 = 0" using assms(1) by (auto simp: slab_area_def mod_mult_right_eq [of i "unat bs", symmetric])
  then show "unat (blk_at b bs i) mod 4 = 0"
    using u assms(1) by (auto simp: slab_area_def mod_add_eq [of "unat b", symmetric])
qed

lemma blk_at_inj:
  assumes "slab_area b bs n" "i < unat n" "j < unat n" "blk_at b bs i = blk_at b bs j"
  shows "i = j"
proof -
  have "i * unat bs = j * unat bs"
    using blk_at_unat [OF assms(1,2)] blk_at_unat [OF assms(1,3)] unfolding assms(4) by linarith
  moreover have "0 < unat bs" using assms(1) by (simp add: slab_area_def word_le_nat_alt)
  ultimately show ?thesis by simp
qed

lemma card_slab_blocks: "slab_area b bs n \<Longrightarrow> card (slab_blocks b bs n) = unat n"
  unfolding slab_blocks_def by (subst card_image) (auto intro: inj_onI blk_at_inj)

lemma slab_block_facts:
  assumes "slab_area b bs n" "x \<in> slab_blocks b bs n"
  shows "x \<noteq> 0" "unat x mod 4 = 0"
  using assms blk_at_facts by (auto simp: slab_blocks_def)

lemma chain_cong:
  assumes "chain m p xs" "\<And>x. x \<in> set xs \<Longrightarrow> ld32 m' x = ld32 m x"
  shows "chain m' p xs"
  using assms by (induction xs arbitrary: p) auto

lemma chain_unique: "chain m p xs \<Longrightarrow> chain m p ys \<Longrightarrow> xs = ys"
proof (induction xs arbitrary: p ys)
  case Nil
  then show ?case by (cases ys) auto
next
  case (Cons x xs)
  then show ?case by (cases ys) auto
qed

text \<open>The first words of \<open>k\<close> blocks linked in order, from block \<open>i\<close>.\<close>

lemma init_links:
  assumes a: "slab_area b bs n" and k: "k < unat n"
  defines "f \<equiv> \<lambda>i m. st32 m (b + of_nat i * bs) (b + of_nat (i + 1) * bs)"
  shows "\<forall>i < k. ld32 (fold f [0..<k] m) (blk_at b bs i) = blk_at b bs (i + 1)"
  using k
proof (induction k)
  case (Suc k)
  let ?m = "fold f [0..<k] m"
  have e: "fold f [0..<Suc k] m = st32 ?m (blk_at b bs k) (blk_at b bs (k + 1))" by (simp add: f_def blk_at_def)
  have "ld32 (fold f [0..<Suc k] m) (blk_at b bs i) = blk_at b bs (i + 1)" if "i < Suc k" for i
  proof (cases "i = k")
    case False
    then have i: "i < k" using that by simp
    have "blk_at b bs k \<noteq> blk_at b bs i" using blk_at_inj [OF a, of k i] Suc.prems i by auto
    moreover have "unat (blk_at b bs k) mod 4 = 0" "unat (blk_at b bs i) mod 4 = 0"
      using blk_at_facts(2) [OF a] Suc.prems i by simp_all
    ultimately show ?thesis unfolding e using ld32_st32_other Suc.IH Suc.prems i by simp
  next
    case True
    then show ?thesis unfolding e by simp
  qed
  then show ?case by blast
qed simp

lemma chain_upto:
  assumes a: "slab_area b bs n" and "j \<le> unat n"
    and "\<And>i. j \<le> i \<Longrightarrow> i + 1 < unat n \<Longrightarrow> ld32 m (blk_at b bs i) = blk_at b bs (i + 1)"
    and "ld32 m (blk_at b bs (unat n - 1)) = 0" and "j < unat n"
  shows "chain m (blk_at b bs j) (map (blk_at b bs) [j..<unat n])"
  using assms(2-)
proof (induction "unat n - j" arbitrary: j)
  case (Suc d)
  have nz: "blk_at b bs j \<noteq> 0" using blk_at_facts(1) [OF a Suc.prems(4)] .
  show ?case
  proof (cases "j + 1 = unat n")
    case True
    then have "[j..<unat n] = [j]" "j = unat n - 1" by (simp_all add: upt_rec)
    then show ?thesis using nz Suc.prems(3) by simp
  next
    case False
    then have "chain m (blk_at b bs (Suc j)) (map (blk_at b bs) [Suc j..<unat n])"
      using Suc.prems Suc.hyps by (intro Suc.hyps(1)) auto
    moreover have "ld32 m (blk_at b bs j) = blk_at b bs (Suc j)" using Suc.prems(2) [of j] Suc.prems(4) False by simp
    ultimately show ?thesis using nz Suc.prems(4) by (simp add: upt_conv_Cons)
  qed
qed simp

lemma block_bytes_apart:
  assumes a: "slab_area b bs n" and x: "x \<in> slab_blocks b bs n" and p: "p \<in> slab_blocks b bs n" and "x \<noteq> p" "k < 4"
  shows "\<not> (unat p \<le> unat (x + of_nat k) \<and> unat (x + of_nat k) < unat p + unat bs)"
proof -
  obtain i j where ij: "i < unat n" "x = blk_at b bs i" "j < unat n" "p = blk_at b bs j"
    using x p by (auto simp: slab_blocks_def)
  have u: "unat x = unat b + i * unat bs" "unat p = unat b + j * unat bs" "unat (x + of_nat k) = unat x + k"
    using blk_at_unat [OF a] ij word_aligned_nowrap [OF slab_block_facts(2) [OF a x] \<open>k < 4\<close>] by simp_all
  have bs: "4 \<le> unat bs" using a by (simp add: slab_area_def word_le_nat_alt)
  have "i \<noteq> j" using ij \<open>x \<noteq> p\<close> by auto
  then consider "i + 1 \<le> j" | "j + 1 \<le> i" by linarith
  then show ?thesis
  proof cases
    case 1
    then have "(i + 1) * unat bs \<le> j * unat bs" by (rule mult_le_mono1)
    then show ?thesis using u bs \<open>k < 4\<close> by simp
  next
    case 2
    then have "(j + 1) * unat bs \<le> i * unat bs" by (rule mult_le_mono1)
    then show ?thesis using u by simp
  qed
qed

section \<open>Reachable slabs\<close>

text \<open>
  A slab in use, with the set of blocks its clients hold: they take blocks, give back blocks they
  hold, and write anything into blocks they hold.
\<close>

inductive slab_reach :: "u32 \<Rightarrow> u32 \<Rightarrow> u32 \<Rightarrow> memslab \<Rightarrow> memory \<Rightarrow> u32 set \<Rightarrow> bool" for b bs n where
  init: "memslab_init s0 b bs n m0 = (s, m) \<Longrightarrow> slab_reach b bs n s m {}"
| alloc: "slab_reach b bs n s m L \<Longrightarrow> memslab_alloc s m = (p, s') \<Longrightarrow>
    slab_reach b bs n s' m (if p = 0 then L else insert p L)"
| free: "slab_reach b bs n s m L \<Longrightarrow> p \<in> L \<Longrightarrow> memslab_free s p m = (s', m') \<Longrightarrow> slab_reach b bs n s' m' (L - {p})"
| client: "slab_reach b bs n s m L \<Longrightarrow>
    \<forall>x. (\<forall>p \<in> L. \<not> (unat p \<le> unat x \<and> unat x < unat p + unat bs)) \<longrightarrow> m' x = m x \<Longrightarrow> slab_reach b bs n s m' L"

definition slab_inv :: "u32 \<Rightarrow> u32 \<Rightarrow> u32 \<Rightarrow> memslab \<Rightarrow> memory \<Rightarrow> u32 set \<Rightarrow> u32 list \<Rightarrow> bool" where
  "slab_inv b bs n s m L fl \<longleftrightarrow> chain m (free_list s) fl \<and> distinct fl \<and> set fl \<union> L = slab_blocks b bs n \<and>
     set fl \<inter> L = {} \<and> used s = of_nat (card L)"

lemma memslab_init_inv:
  assumes a: "slab_area b bs n" and i: "memslab_init s0 b bs n m0 = (s, m)"
  shows "slab_inv b bs n s m {} (map (blk_at b bs) [0..<unat n])"
proof -
  let ?f = "\<lambda>i m. st32 m (b + of_nat i * bs) (b + of_nat (i + 1) * bs)"
  have n: "0 < unat n" using a by (simp add: slab_area_def word_less_nat_alt)
  have n1: "unat (n - 1) = unat n - 1" using a by (intro unat_minus_one32) (simp add: slab_area_def word_gt_0)
  have last: "b + (n - 1) * bs = blk_at b bs (unat n - 1)"
    unfolding blk_at_def n1 [symmetric] by simp
  have m: "m = st32 (fold ?f [0..<unat n - 1] m0) (blk_at b bs (unat n - 1)) 0" and s: "free_list s = b" "used s = 0"
    using i by (auto simp: memslab_init_def Let_def n1 last)
  have links: "ld32 m (blk_at b bs i) = blk_at b bs (i + 1)" if "i + 1 < unat n" for i
  proof -
    have "blk_at b bs (unat n - 1) \<noteq> blk_at b bs i" using blk_at_inj [OF a, of "unat n - 1" i] that by auto
    then show ?thesis
      unfolding m using blk_at_facts(2) [OF a] init_links [OF a, of "unat n - 1" m0] that n
      by (subst ld32_st32_other) simp_all
  qed
  have "chain m (blk_at b bs 0) (map (blk_at b bs) [0..<unat n])"
    by (rule chain_upto [OF a]) (use links n m in simp_all)
  moreover have "distinct (map (blk_at b bs) [0..<unat n])"
    unfolding distinct_map using blk_at_inj [OF a] by (auto intro: inj_onI)
  ultimately show ?thesis using s by (auto simp: slab_inv_def slab_blocks_def blk_at_def lessThan_atLeast0)
qed

lemma memslab_alloc_inv:
  assumes a: "slab_area b bs n" and inv: "slab_inv b bs n s m L fl" and al: "memslab_alloc s m = (p, s')"
  shows "fl = [] \<Longrightarrow> p = 0 \<and> s' = s"
    "fl = x # xs \<Longrightarrow> p = x \<and> slab_inv b bs n s' m (insert x L) xs"
proof -
  show "fl = [] \<Longrightarrow> p = 0 \<and> s' = s" using inv al by (simp add: slab_inv_def memslab_alloc_def)
  assume fl: "fl = x # xs"
  have fin: "finite L"
    using inv by (intro finite_subset [of L "slab_blocks b bs n"]) (auto simp: slab_inv_def slab_blocks_def)
  then have "card (insert x L) = card L + 1" using inv fl by (auto simp: slab_inv_def)
  then show "p = x \<and> slab_inv b bs n s' m (insert x L) xs"
    using inv fl al by (auto simp: slab_inv_def memslab_alloc_def Let_def)
qed

lemma memslab_free_inv:
  assumes a: "slab_area b bs n" and inv: "slab_inv b bs n s m L fl" and p: "p \<in> L" and fr: "memslab_free s p m = (s', m')"
  shows "slab_inv b bs n s' m' (L - {p}) (p # fl)"
proof -
  have pb: "p \<in> slab_blocks b bs n" using inv p by (auto simp: slab_inv_def)
  note pf = slab_block_facts [OF a pb]
  have m': "m' = st32 m p (free_list s)" "free_list s' = p" "used s' = used s - 1"
    using fr pf(1) by (auto simp: memslab_free_def Let_def)
  have "chain m' (free_list s) fl"
  proof (rule chain_cong)
    show "chain m (free_list s) fl" using inv by (simp add: slab_inv_def)
    fix x assume "x \<in> set fl"
    then have "x \<in> slab_blocks b bs n" "x \<noteq> p" using inv p by (auto simp: slab_inv_def)
    then show "ld32 m' x = ld32 m x"
      unfolding m' using ld32_st32_other [OF pf(2)] slab_block_facts(2) [OF a] by simp
  qed
  then have "chain m' (free_list s') (p # fl)" using pf(1) m' by simp
  moreover have "used s' = of_nat (card (L - {p}))"
  proof -
    have "finite L"
      using inv by (intro finite_subset [of L "slab_blocks b bs n"]) (auto simp: slab_inv_def slab_blocks_def)
    then have "card L = card (L - {p}) + 1" using p card.remove [of L p] by simp
    then show ?thesis using inv m'(3) by (simp add: slab_inv_def)
  qed
  ultimately show ?thesis using inv p by (auto simp: slab_inv_def)
qed

lemma slab_client_inv:
  assumes a: "slab_area b bs n" and inv: "slab_inv b bs n s m L fl"
    and w: "\<forall>x. (\<forall>p \<in> L. \<not> (unat p \<le> unat x \<and> unat x < unat p + unat bs)) \<longrightarrow> m' x = m x"
  shows "slab_inv b bs n s m' L fl"
proof -
  have "chain m' (free_list s) fl"
  proof (rule chain_cong)
    show "chain m (free_list s) fl" using inv by (simp add: slab_inv_def)
    fix x assume x: "x \<in> set fl"
    have byte: "m' (x + of_nat k) = m (x + of_nat k)" if "k < 4" for k
    proof -
      have "\<forall>p \<in> L. \<not> (unat p \<le> unat (x + of_nat k) \<and> unat (x + of_nat k) < unat p + unat bs)"
      proof
        fix p assume "p \<in> L"
        then have "x \<in> slab_blocks b bs n" "p \<in> slab_blocks b bs n" "x \<noteq> p" using inv x by (auto simp: slab_inv_def)
        then show "\<not> (unat p \<le> unat (x + of_nat k) \<and> unat (x + of_nat k) < unat p + unat bs)"
          by (rule block_bytes_apart [OF a _ _ _ that])
      qed
      then show ?thesis using w by blast
    qed
    show "ld32 m' x = ld32 m x"
      using byte [of 0] byte [of 1] byte [of 2] byte [of 3] by (intro ld32_cong) simp_all
  qed
  then show ?thesis using inv by (simp add: slab_inv_def)
qed

lemma slab_reach_inv:
  assumes a: "slab_area b bs n" and "slab_reach b bs n s m L"
  shows "\<exists>fl. slab_inv b bs n s m L fl"
  using assms(2)
proof (induction rule: slab_reach.induct)
  case (init s0 m0 s m)
  then show ?case using memslab_init_inv [OF a] by blast
next
  case (alloc s m L p s')
  then obtain fl where inv: "slab_inv b bs n s m L fl" by blast
  show ?case
  proof (cases fl)
    case Nil
    then show ?thesis using memslab_alloc_inv(1) [OF a inv alloc(2)] inv by auto
  next
    case (Cons x xs)
    then have "x \<noteq> 0" using inv by (auto simp: slab_inv_def)
    then show ?thesis using memslab_alloc_inv(2) [OF a inv alloc(2) Cons] by auto
  qed
next
  case (free s m L p s' m')
  then show ?case using memslab_free_inv [OF a] by blast
next
  case (client s m L m')
  then show ?case using slab_client_inv [OF a] by blast
qed

section \<open>Properties\<close>

text \<open>
  C28. In every history of a slab, whatever the clients write into the blocks they hold: an
  allocation returns null exactly when all blocks are held, and otherwise a block of the slab that
  nobody holds; and \<open>used\<close> is the number of blocks held.
\<close>

theorem memslab_alloc_fresh:
  assumes "slab_area b bs n" "slab_reach b bs n s m L" "memslab_alloc s m = (p, s')"
  shows "L \<subseteq> slab_blocks b bs n \<and> used s = of_nat (card L) \<and> (p = 0 \<longleftrightarrow> L = slab_blocks b bs n) \<and>
    (p \<noteq> 0 \<longrightarrow> p \<in> slab_blocks b bs n - L)"
proof -
  obtain fl where inv: "slab_inv b bs n s m L fl" using slab_reach_inv [OF assms(1,2)] by blast
  show ?thesis
  proof (cases fl)
    case Nil
    then show ?thesis using memslab_alloc_inv(1) [OF assms(1) inv assms(3)] inv by (auto simp: slab_inv_def)
  next
    case (Cons x xs)
    then have "x \<in> slab_blocks b bs n - L" "p = x" using memslab_alloc_inv(2) [OF assms(1) inv assms(3) Cons] inv
      by (auto simp: slab_inv_def)
    then show ?thesis using inv slab_block_facts(1) [OF assms(1)] by (auto simp: slab_inv_def)
  qed
qed

theorem memslab_alloc_fresh_witness:
  "let s0 = \<lparr>free_list = 0, block_size = 0, num_blocks = 0, used = 0\<rparr>; i = memslab_init s0 0x20000000 16 4 (\<lambda>_. 0);
       p = fst (memslab_alloc (fst i) (snd i))
   in {} \<subseteq> slab_blocks 0x20000000 16 4 \<and> used (fst i) = of_nat (card ({} :: u32 set)) \<and>
     (p = 0 \<longleftrightarrow> {} = slab_blocks 0x20000000 16 4) \<and> (p \<noteq> 0 \<longrightarrow> p \<in> slab_blocks 0x20000000 16 4 - {})"
proof -
  have a: "slab_area 0x20000000 16 4" by (simp add: slab_area_def)
  show ?thesis
    unfolding Let_def
    by (rule memslab_alloc_fresh [OF a slab_reach.init prod.collapse [symmetric], OF prod.collapse [symmetric]])
qed

end
