(* ===== verification/Buffers.thy ===== *)
theory Buffers
  imports Prelude
begin

text \<open>
  Byte buffers: the arrays of bytes that network packets, directory sectors and file images are, with
  the little-endian accesses of packed structures at their byte offsets, the byte copy loop that
  several components carry a copy of, and the facts that reading back what was written gives. The
  collection \<open>buf_simps\<close> reads a field past writes to other fields.
\<close>

type_synonym buffer = "nat \<Rightarrow> u8"

definition get16 :: "buffer \<Rightarrow> nat \<Rightarrow> u16" where
  "get16 f p = ucast (f p) OR push_bit 8 (ucast (f (p + 1)))"

definition put16 :: "nat \<Rightarrow> u16 \<Rightarrow> buffer \<Rightarrow> buffer" where
  "put16 p v f = f(p := ucast v, p + 1 := ucast (drop_bit 8 v))"

definition get32 :: "buffer \<Rightarrow> nat \<Rightarrow> u32" where
  "get32 f p = ucast (f p) OR push_bit 8 (ucast (f (p + 1))) OR
     push_bit 16 (ucast (f (p + 2))) OR push_bit 24 (ucast (f (p + 3)))"

definition put32 :: "nat \<Rightarrow> u32 \<Rightarrow> buffer \<Rightarrow> buffer" where
  "put32 p v f = f(p := ucast v, p + 1 := ucast (drop_bit 8 v),
     p + 2 := ucast (drop_bit 16 v), p + 3 := ucast (drop_bit 24 v))"

definition put8 :: "nat \<Rightarrow> u8 \<Rightarrow> buffer \<Rightarrow> buffer" where
  "put8 p v f = f(p := v)"

fun mcpy :: "buffer \<Rightarrow> nat \<Rightarrow> buffer \<Rightarrow> nat \<Rightarrow> nat \<Rightarrow> buffer" where
  "mcpy d dp s sp 0 = d"
| "mcpy d dp s sp (Suc n) = mcpy (d(dp := s sp)) (dp + 1) s (sp + 1) n"

definition bytes_of :: "u8 list \<Rightarrow> buffer" where
  "bytes_of xs i = (if i < length xs then xs ! i else 0)"

definition list_of :: "buffer \<Rightarrow> nat \<Rightarrow> nat \<Rightarrow> u8 list" where
  "list_of f p n = map (\<lambda>i. f (p + i)) [0..<n]"

lemma mcpy_apply: "mcpy d dp s sp n x = (if dp \<le> x \<and> x < dp + n then s (sp + (x - dp)) else d x)"
proof (induction n arbitrary: d dp sp)
  case (Suc n)
  have "Suc (sp + x - Suc dp) = sp + x - dp" if "dp < x" using that by linarith
  then show ?case using Suc by auto
qed auto

lemma get16_put16 [simp]: "get16 (put16 p v f) p = v"
proof -
  have "ucast (ucast v :: u8) OR push_bit 8 (ucast (ucast (drop_bit 8 v) :: u8)) = v"
  proof (rule bit_word_eqI)
    fix n assume "n < LENGTH(16)"
    then consider "n < 8" | "8 \<le> n" "n < 16" by fastforce
    then show "bit (ucast (ucast v :: u8) OR push_bit 8 (ucast (ucast (drop_bit 8 v) :: u8)) :: u16) n = bit v n"
      by cases (auto simp: bit_simps)
  qed
  then show ?thesis by (simp add: get16_def put16_def)
qed

lemma get32_put32 [simp]: "get32 (put32 p v f) p = v"
proof -
  have "ucast (ucast v :: u8) OR push_bit 8 (ucast (ucast (drop_bit 8 v) :: u8)) OR
     push_bit 16 (ucast (ucast (drop_bit 16 v) :: u8)) OR push_bit 24 (ucast (ucast (drop_bit 24 v) :: u8)) = v"
  proof (rule bit_word_eqI)
    fix n assume "n < LENGTH(32)"
    then consider "n < 8" | "8 \<le> n" "n < 16" | "16 \<le> n" "n < 24" | "24 \<le> n" "n < 32" by fastforce
    then show "bit (ucast (ucast v :: u8) OR push_bit 8 (ucast (ucast (drop_bit 8 v) :: u8)) OR
     push_bit 16 (ucast (ucast (drop_bit 16 v) :: u8)) OR push_bit 24 (ucast (ucast (drop_bit 24 v) :: u8)) :: u32) n = bit v n"
      by cases (auto simp: bit_simps)
  qed
  then show ?thesis by (simp add: get32_def put32_def)
qed

named_theorems buf_simps

lemma get_other [buf_simps]:
  "q + 1 < p \<or> p + 1 < q \<Longrightarrow> get16 (put16 p v f) q = get16 f q"
  "q + 1 < p \<or> p + 3 < q \<Longrightarrow> get16 (put32 p w f) q = get16 f q"
  "q + 1 < p \<or> p < q \<Longrightarrow> get16 (put8 p b f) q = get16 f q"
  "q + 3 < p \<or> p + 1 < q \<Longrightarrow> get32 (put16 p v f) q = get32 f q"
  "q + 3 < p \<or> p + 3 < q \<Longrightarrow> get32 (put32 p w f) q = get32 f q"
  "q + 3 < p \<or> p < q \<Longrightarrow> get32 (put8 p b f) q = get32 f q"
  "q + 1 < dp \<Longrightarrow> get16 (mcpy f dp s sp n) q = get16 f q"
  "q + 3 < dp \<Longrightarrow> get32 (mcpy f dp s sp n) q = get32 f q"
  "q < p \<or> p + 1 < q \<Longrightarrow> put16 p v f q = f q"
  "q < p \<or> p + 3 < q \<Longrightarrow> put32 p w f q = f q"
  "q \<noteq> p \<Longrightarrow> put8 p b f q = f q" "put8 p b f p = b"
  "q < dp \<Longrightarrow> mcpy f dp s sp n q = f q"
  by (auto simp: get16_def get32_def put16_def put32_def put8_def mcpy_apply)

lemma list_of_bytes: "bytes_of (list_of f p n) i = (if i < n then f (p + i) else 0)"
  by (simp add: bytes_of_def list_of_def)

lemma length_list_of [simp]: "length (list_of f p n) = n"
  by (simp add: list_of_def)

lemma get16_cong: "f p = g p \<Longrightarrow> f (p + 1) = g (p + 1) \<Longrightarrow> get16 f p = get16 g p"
  by (simp add: get16_def)

lemma get32_cong:
  "f p = g p \<Longrightarrow> f (p + 1) = g (p + 1) \<Longrightarrow> f (p + 2) = g (p + 2) \<Longrightarrow> f (p + 3) = g (p + 3) \<Longrightarrow> get32 f p = get32 g p"
  by (simp add: get32_def)

end
