(* ===== verification/Udp.thy ===== *)
theory Udp
  imports Buffers
begin

text \<open>
  The UDP/IP stack of \<open>rtos/net/udp.c\<close> (headers of \<open>net.h\<close>): ARP cache and handling, the IPv4
  checksum, sending and receiving datagrams. A packet buffer is an array of bytes and the packed
  headers are read and written at their byte offsets, little endian as the processor does, so
  \<open>htons\<close> and \<open>htonl\<close> are the byte swaps of the code. The Ethernet driver is a device: the frames
  given to \<open>eth_send\<close> are recorded in order in \<open>tx\<close>, its result and the frame \<open>eth_recv\<close> delivers are
  arguments.
\<close>

section \<open>Bytes, headers, state\<close>

definition NET_MAX_SOCKETS :: nat where "NET_MAX_SOCKETS = 4"
definition ARP_CACHE_SIZE :: nat where "ARP_CACHE_SIZE = 4"
definition ETH_TYPE_IP :: u16 where "ETH_TYPE_IP = 0x0800"
definition ETH_TYPE_ARP :: u16 where "ETH_TYPE_ARP = 0x0806"
definition IP_PROTO_UDP :: u8 where "IP_PROTO_UDP = 17"

record udp_socket =
  local_port :: u16
  bound :: bool

record arp_entry =
  arp_ip :: u32
  arp_mac :: "u8 list"
  arp_valid :: bool

record rx_slot =
  rx_data :: buffer
  rx_len :: u16
  rx_src_ip :: u32
  rx_src_port :: u16
  rx_ready :: bool

record net =
  net_ip :: u32
  net_netmask :: u32
  net_gateway :: u32
  net_mac :: "u8 list"
  sockets :: "nat \<Rightarrow> udp_socket"
  arp_cache :: "nat \<Rightarrow> arp_entry"
  rx_buf :: "nat \<Rightarrow> rx_slot"
  pkt_buf :: buffer
  tx :: "u8 list list"

text \<open>Byte offsets of the header fields behind the 14 bytes of the Ethernet header.\<close>

definition ARP_LEN :: nat where "ARP_LEN = 28"

section \<open>Helpers\<close>

definition htons :: "u16 \<Rightarrow> u16" where
  "htons h = drop_bit 8 h OR push_bit 8 h"

definition htonl :: "u32 \<Rightarrow> u32" where
  "htonl h = (drop_bit 24 h AND 0xFF) OR (drop_bit 8 h AND 0xFF00) OR
     (push_bit 8 h AND 0xFF0000) OR (push_bit 24 h AND 0xFF000000)"

fun sum16 :: "buffer \<Rightarrow> nat \<Rightarrow> nat \<Rightarrow> u32 \<Rightarrow> u32" where
  "sum16 f p len acc =
     (if len > 1 then sum16 f (p + 2) (len - 2) (acc + ucast (get16 f p))
      else if len \<noteq> 0 then acc + ucast (f p) else acc)"

declare sum16.simps [simp del]

function fold_carry :: "u32 \<Rightarrow> u32" where
  "fold_carry acc = (if drop_bit 16 acc \<noteq> 0 then fold_carry ((acc AND 0xFFFF) + drop_bit 16 acc) else acc)"
  by auto

lemma fold_carry_decreases:
  assumes "drop_bit 16 (x :: u32) \<noteq> 0"
  shows "unat ((x AND 0xFFFF) + drop_bit 16 x) = unat x mod 65536 + unat x div 65536"
    "unat ((x AND 0xFFFF) + drop_bit 16 x) < unat x"
proof -
  have m: "(0xFFFF :: u32) = mask 16" by (simp add: mask_numeral)
  have lo: "unat (x AND 0xFFFF) = unat x mod 65536"
    unfolding m by (simp add: take_bit_eq_mask [symmetric] unat_take_bit)
  have hi: "unat (drop_bit 16 x) = unat x div 65536" by (simp add: unat_drop_bit)
  have "unat x div 65536 < 65536" using unat_bound32 [of x] by (intro less_mult_imp_div_less) simp
  moreover have "unat x mod 65536 < 65536" by simp
  ultimately have "unat x mod 65536 + unat x div 65536 < 4294967296" by linarith
  then show e: "unat ((x AND 0xFFFF) + drop_bit 16 x) = unat x mod 65536 + unat x div 65536"
    using unat_add32 [of "x AND 0xFFFF" "drop_bit 16 x"] unfolding lo hi by simp
  have "unat (drop_bit 16 x) \<noteq> 0" using assms by (simp only: unat_eq_0 not_False_eq_True)
  then have "0 < unat x div 65536" using hi by simp
  then show "unat ((x AND 0xFFFF) + drop_bit 16 x) < unat x"
    unfolding e using mult_div_mod_eq [of 65536 "unat x"] by linarith
qed

termination fold_carry
  by (relation "measure unat") (simp_all add: fold_carry_decreases(2))

declare fold_carry.simps [simp del]

definition ip_checksum :: "buffer \<Rightarrow> nat \<Rightarrow> nat \<Rightarrow> u16" where
  "ip_checksum f p len = ucast (NOT (fold_carry (sum16 f p len 0)))"

section \<open>ARP\<close>

definition arp_cache_add :: "u32 \<Rightarrow> u8 list \<Rightarrow> net \<Rightarrow> net" where
  "arp_cache_add ip mac s =
     (case find (\<lambda>i. \<not> arp_valid (arp_cache s i) \<or> arp_ip (arp_cache s i) = ip) [0..<ARP_CACHE_SIZE] of
        Some i \<Rightarrow> s\<lparr>arp_cache := (arp_cache s)(i := \<lparr>arp_ip = ip, arp_mac = mac, arp_valid = True\<rparr>)\<rparr>
      | None \<Rightarrow> s\<lparr>arp_cache := (arp_cache s)(0 := (arp_cache s 0)\<lparr>arp_ip := ip, arp_mac := mac\<rparr>)\<rparr>)"

definition arp_cache_lookup :: "u32 \<Rightarrow> net \<Rightarrow> u8 list option" where
  "arp_cache_lookup ip s =
     (case find (\<lambda>i. arp_valid (arp_cache s i) \<and> arp_ip (arp_cache s i) = ip) [0..<ARP_CACHE_SIZE] of
        Some i \<Rightarrow> Some (arp_mac (arp_cache s i)) | None \<Rightarrow> None)"

definition eth_send :: "u8 list \<Rightarrow> net \<Rightarrow> net" where
  "eth_send frame s = s\<lparr>tx := tx s @ [frame]\<rparr>"

definition arp_frame :: "u8 list \<Rightarrow> u8 list \<Rightarrow> u16 \<Rightarrow> u32 \<Rightarrow> u8 list \<Rightarrow> u32 \<Rightarrow> u8 list" where
  "arp_frame dst mac oper spa tha tpa =
     (let f = mcpy (\<lambda>_. 0) 0 (bytes_of dst) 0 6;
          f = mcpy f 6 (bytes_of mac) 0 6;
          f = put16 12 (htons ETH_TYPE_ARP) f;
          f = put16 14 (htons 1) f;
          f = put16 16 (htons 0x0800) f;
          f = put8 18 6 f;
          f = put8 19 4 f;
          f = put16 20 (htons oper) f;
          f = mcpy f 22 (bytes_of mac) 0 6;
          f = put32 28 spa f;
          f = mcpy f 32 (bytes_of tha) 0 6;
          f = put32 38 tpa f
      in list_of f 0 (14 + ARP_LEN))"

definition arp_send_request :: "u32 \<Rightarrow> net \<Rightarrow> net" where
  "arp_send_request target_ip s =
     eth_send (arp_frame (replicate 6 0xFF) (net_mac s) 1 (htonl (net_ip s)) (replicate 6 0) (htonl target_ip)) s"

definition arp_handle :: "buffer \<Rightarrow> nat \<Rightarrow> net \<Rightarrow> net" where
  "arp_handle frame len s =
     (if len < 14 + ARP_LEN then s
      else (let sha = list_of frame 22 6; spa = get32 frame 28; tpa = get32 frame 38;
                s = arp_cache_add (htonl spa) sha s
            in if htons (get16 frame 20) = 1 \<and> htonl tpa = net_ip s
               then eth_send (arp_frame sha (net_mac s) 2 (htonl (net_ip s)) sha spa) s
               else s))"

definition resolve_mac :: "u32 \<Rightarrow> net \<Rightarrow> u8 list option \<times> net" where
  "resolve_mac dst_ip s =
     (let target = (if dst_ip AND net_netmask s \<noteq> net_ip s AND net_netmask s then net_gateway s else dst_ip)
      in case arp_cache_lookup target s of
           Some mac \<Rightarrow> (Some mac, s)
         | None \<Rightarrow> (None, arp_send_request target s))"

section \<open>Datagrams\<close>

definition udp_frame :: "u8 list \<Rightarrow> u8 list \<Rightarrow> u32 \<Rightarrow> u32 \<Rightarrow> u16 \<Rightarrow> u16 \<Rightarrow> buffer \<Rightarrow> nat \<Rightarrow> buffer" where
  "udp_frame dst mac src_ip dst_ip sport dport data len =
     (let f = mcpy (\<lambda>_. 0) 0 (bytes_of dst) 0 6;
          f = mcpy f 6 (bytes_of mac) 0 6;
          f = put16 12 (htons ETH_TYPE_IP) f;
          f = put8 14 0x45 f;
          f = put8 15 0 f;
          f = put16 16 (htons (of_nat (20 + 8 + len))) f;
          f = put16 18 0 f;
          f = put16 20 0 f;
          f = put8 22 64 f;
          f = put8 23 IP_PROTO_UDP f;
          f = put16 24 0 f;
          f = put32 26 (htonl src_ip) f;
          f = put32 30 (htonl dst_ip) f;
          f = put16 24 (ip_checksum f 14 20) f;
          f = put16 34 (htons sport) f;
          f = put16 36 (htons dport) f;
          f = put16 38 (htons (of_nat (8 + len))) f;
          f = put16 40 0 f
      in mcpy f 42 data 0 len)"

definition udp_send :: "int \<Rightarrow> int \<Rightarrow> u32 \<Rightarrow> u16 \<Rightarrow> buffer \<Rightarrow> nat \<Rightarrow> net \<Rightarrow> int \<times> net" where
  "udp_send rc sock dst_ip dst_port data len s =
     (if sock < 0 \<or> sock \<ge> int NET_MAX_SOCKETS \<or> \<not> bound (sockets s (nat sock)) then (-1, s)
      else (let len = (if len > 512 then 512 else len)
            in case resolve_mac dst_ip s of
                 (None, s) \<Rightarrow> (-1, s)
               | (Some dst_mac, s) \<Rightarrow>
                   (let f = udp_frame dst_mac (net_mac s) (net_ip s) dst_ip (local_port (sockets s (nat sock))) dst_port data len
                    in (rc, eth_send (list_of f 0 (14 + 20 + 8 + len)) s))))"

definition udp_handle :: "buffer \<Rightarrow> nat \<Rightarrow> net \<Rightarrow> net" where
  "udp_handle frame len s =
     (if len < 14 + 20 + 8 then s
      else if frame 23 \<noteq> IP_PROTO_UDP then s
      else if htonl (get32 frame 30) \<noteq> net_ip s then s
      else (let dst_port = htons (get16 frame 36);
                data_len = htons (get16 frame 38) - 8
            in case find (\<lambda>i. bound (sockets s i) \<and> local_port (sockets s i) = dst_port \<and> \<not> rx_ready (rx_buf s i))
                      [0..<NET_MAX_SOCKETS] of
                 None \<Rightarrow> s
               | Some i \<Rightarrow>
                   (let copy = (if data_len > 256 then 256 else data_len)
                    in s\<lparr>rx_buf := (rx_buf s)(i := \<lparr>rx_data = mcpy (rx_data (rx_buf s i)) 0 frame 42 (unat copy),
                           rx_len = copy, rx_src_ip = htonl (get32 frame 26),
                           rx_src_port = htons (get16 frame 34), rx_ready = True\<rparr>)\<rparr>)))"

definition net_init :: "u8 list \<Rightarrow> u32 \<Rightarrow> u32 \<Rightarrow> u32 \<Rightarrow> net \<Rightarrow> net" where
  "net_init mac ip netmask gateway s =
     s\<lparr>net_ip := ip, net_netmask := netmask, net_gateway := gateway, net_mac := mac\<rparr>"

definition udp_socket_open :: "u16 \<Rightarrow> net \<Rightarrow> int \<times> net" where
  "udp_socket_open port s =
     (case find (\<lambda>i. \<not> bound (sockets s i)) [0..<NET_MAX_SOCKETS] of
        None \<Rightarrow> (-1, s)
      | Some i \<Rightarrow> (int i, s\<lparr>sockets := (sockets s)(i := \<lparr>local_port = port, bound = True\<rparr>),
                            rx_buf := (rx_buf s)(i := (rx_buf s i)\<lparr>rx_ready := False\<rparr>)\<rparr>))"

text \<open>The result of \<open>udp_recv\<close>: the count, the caller's buffer, and the source address when there is a datagram.\<close>

definition udp_recv :: "int \<Rightarrow> buffer \<Rightarrow> nat \<Rightarrow> net \<Rightarrow> int \<times> buffer \<times> (u32 \<times> u16) option \<times> net" where
  "udp_recv sock b buf_size s =
     (if sock < 0 \<or> sock \<ge> int NET_MAX_SOCKETS then (-1, b, None, s)
      else (let r = rx_buf s (nat sock)
            in if \<not> rx_ready r then (0, b, None, s)
               else (let copy = (if unat (rx_len r) < buf_size then unat (rx_len r) else buf_size)
                     in (int copy, mcpy b 0 (rx_data r) 0 copy, Some (rx_src_ip r, rx_src_port r),
                         s\<lparr>rx_buf := (rx_buf s)(nat sock := r\<lparr>rx_ready := False\<rparr>)\<rparr>))))"

text \<open>
  \<open>eth_recv\<close> delivers the frame \<open>rx\<close> over the previous packet, cut to the 600 bytes of \<open>pkt_buf\<close> as the
  driver cuts a frame to the size of the buffer it is given.
\<close>

definition net_poll :: "u8 list \<Rightarrow> net \<Rightarrow> net" where
  "net_poll rx s =
     (let len = min (length rx) 600;
          s = s\<lparr>pkt_buf := mcpy (pkt_buf s) 0 (bytes_of rx) 0 len\<rparr>
      in if len < 14 then s
         else (let type = htons (get16 (pkt_buf s) 12)
               in if type = ETH_TYPE_ARP then arp_handle (pkt_buf s) len s
                  else if type = ETH_TYPE_IP then udp_handle (pkt_buf s) len s
                  else s))"

section \<open>Reading back what was written\<close>

lemma htons_htons [simp]: "htons (htons x) = x"
proof (rule bit_word_eqI)
  fix n assume "n < LENGTH(16)"
  then consider "n < 8" | "8 \<le> n" "n < 16" by fastforce
  then show "bit (htons (htons x)) n = bit x n" by cases (auto simp: htons_def bit_simps)
qed

lemma byte_mask_bits:
  "bit (0xFF :: u32) n \<longleftrightarrow> n < 8" "bit (0xFF00 :: u32) n \<longleftrightarrow> 8 \<le> n \<and> n < 16"
  "bit (0xFF0000 :: u32) n \<longleftrightarrow> 16 \<le> n \<and> n < 24" "bit (0xFF000000 :: u32) n \<longleftrightarrow> 24 \<le> n \<and> n < 32"
proof -
  have m: "(0xFF :: u32) = mask 8" "(0xFF00 :: u32) = push_bit 8 (mask 8)" "(0xFF0000 :: u32) = push_bit 16 (mask 8)"
    "(0xFF000000 :: u32) = push_bit 24 (mask 8)" by (simp_all add: mask_numeral)
  show "bit (0xFF :: u32) n \<longleftrightarrow> n < 8" unfolding m(1) bit_mask_iff by auto
  show "bit (0xFF00 :: u32) n \<longleftrightarrow> 8 \<le> n \<and> n < 16" unfolding m(2) bit_push_bit_iff bit_mask_iff by auto
  show "bit (0xFF0000 :: u32) n \<longleftrightarrow> 16 \<le> n \<and> n < 24" unfolding m(3) bit_push_bit_iff bit_mask_iff by auto
  show "bit (0xFF000000 :: u32) n \<longleftrightarrow> 24 \<le> n \<and> n < 32" unfolding m(4) bit_push_bit_iff bit_mask_iff by auto
qed

lemma bit_htonl:
  "bit (htonl h) n \<longleftrightarrow> (if n < 8 then bit h (n + 24) else if n < 16 then bit h (n + 8)
     else if n < 24 then bit h (n - 8) else n < 32 \<and> bit h (n - 24))"
  unfolding htonl_def bit_or_iff bit_and_iff byte_mask_bits bit_drop_bit_eq bit_push_bit_iff o_def
  by (auto simp: add.commute)

lemma htonl_htonl [simp]: "htonl (htonl x) = x"
proof (rule bit_word_eqI)
  fix n assume n: "n < LENGTH(32)"
  consider "n < 8" | "8 \<le> n" "n < 16" | "16 \<le> n" "n < 24" | "24 \<le> n" "n < 32" using n by fastforce
  then show "bit (htonl (htonl x)) n = bit x n" by cases (auto simp: bit_htonl less_diff_conv2)
qed

lemma unat_not32: "unat (NOT (x :: u32)) = 4294967295 - unat x"
proof -
  have "NOT x = -1 - x" by (simp add: not_eq_complement)
  moreover have "unat (-1 - x) = unat (-1 :: u32) - unat x" by (rule unat_sub) simp
  moreover have "unat (-1 :: u32) = 4294967295" by (simp add: unsigned_minus_1_eq_mask mask_numeral)
  ultimately show ?thesis by simp
qed

section \<open>The checksum\<close>

lemma fold_carry_spec:
  "unat (fold_carry x) < 65536 \<and> unat (fold_carry x) mod 65535 = unat x mod 65535 \<and> (fold_carry x = 0 \<longleftrightarrow> x = 0)"
proof (induction x rule: fold_carry.induct)
  case (1 x)
  show ?case
  proof (cases "drop_bit 16 x = 0")
    case True
    then have "unat (drop_bit 16 x) = 0" by simp
    then have "unat x < 65536" by (simp add: unat_drop_bit)
    then show ?thesis using True by (simp add: fold_carry.simps [of x])
  next
    case False
    let ?y = "(x AND 0xFFFF) + drop_bit 16 x"
    have u: "unat ?y = unat x mod 65536 + unat x div 65536" by (rule fold_carry_decreases(1) [OF False])
    have "unat x = 65535 * (unat x div 65536) + unat ?y"
      unfolding u using mult_div_mod_eq [of 65536 "unat x"] by linarith
    then have "unat x mod 65535 = unat ?y mod 65535" by (metis mod_mult_self4)
    moreover have "?y \<noteq> 0"
    proof -
      have "unat (drop_bit 16 x) \<noteq> 0" using False by (simp only: unat_eq_0 not_False_eq_True)
      then have "unat ?y \<noteq> 0" unfolding u by (simp add: unat_drop_bit)
      then show ?thesis by auto
    qed
    moreover have "fold_carry x = fold_carry ?y" using False by (simp add: fold_carry.simps [of x])
    moreover have "x \<noteq> 0" using False by auto
    ultimately show ?thesis using "1.IH" [OF False] by simp
  qed
qed

lemma sum16_even:
  "sum16 f p (2 * n) acc = acc + (\<Sum>i<n. ucast (get16 f (p + 2 * i)))"
proof (induction n arbitrary: p acc)
  case (Suc n)
  have "sum16 f p (2 * Suc n) acc = sum16 f (p + 2) (2 * n) (acc + ucast (get16 f p))"
    by (subst sum16.simps) simp
  also have "\<dots> = acc + ucast (get16 f p) + (\<Sum>i<n. ucast (get16 f (p + 2 + 2 * i)))" by (rule Suc)
  finally show ?case by (simp add: sum.lessThan_Suc_shift add.assoc del: sum.lessThan_Suc)
qed (simp add: sum16.simps)

lemma unat_sum_ucast16:
  "n \<le> 65536 \<Longrightarrow> unat (\<Sum>i<n. ucast (g i :: u16) :: u32) = (\<Sum>i<n. unat (g i)) \<and> (\<Sum>i<n. unat (g i)) \<le> 65535 * n"
proof (induction n)
  case (Suc n)
  have g: "unat (ucast (g n) :: u32) = unat (g n)" "unat (g n) \<le> 65535"
    using unsigned_less [of "g n", where ?'a = nat] by (simp_all add: unsigned_ucast_eq take_bit_nat_eq_self)
  have IH: "unat (\<Sum>i<n. ucast (g i) :: u32) = (\<Sum>i<n. unat (g i))" "(\<Sum>i<n. unat (g i)) \<le> 65535 * n"
    using Suc by simp_all
  have "unat ((\<Sum>i<n. ucast (g i)) + ucast (g n) :: u32) = (\<Sum>i<n. unat (g i)) + unat (g n)"
    using IH g Suc.prems unat_add32 [of "\<Sum>i<n. ucast (g i)" "ucast (g n)"] by simp
  then show ?case using IH g by simp
qed simp

text \<open>
  A header of \<open>n\<close> words, one of them 0, to which the complement of the folded sum is added: its own
  checksum is 0.
\<close>

lemma checksum_completes:
  assumes k: "k < n" and z: "get16 f (p + 2 * k) = 0" and n: "n \<le> 1000"
    and nz: "j < n" "get16 f (p + 2 * j) \<noteq> 0"
    and f': "\<And>i. i < n \<Longrightarrow> i \<noteq> k \<Longrightarrow> get16 f' (p + 2 * i) = get16 f (p + 2 * i)"
    and c: "get16 f' (p + 2 * k) = ip_checksum f p (2 * n)"
  shows "ip_checksum f' p (2 * n) = 0"
proof -
  let ?w = "\<lambda>i. unat (get16 f (p + 2 * i))" and ?w' = "\<lambda>i. unat (get16 f' (p + 2 * i))"
  define S where "S = sum16 f p (2 * n) 0"
  define F where "F = fold_carry S"
  have S: "unat S = (\<Sum>i<n. ?w i)" using unat_sum_ucast16 [of n "\<lambda>i. get16 f (p + 2 * i)"] n
    by (simp add: S_def sum16_even)
  have F: "unat F < 65536" "unat F mod 65535 = unat S mod 65535" using fold_carry_spec [of S] by (simp_all add: F_def)
  have c': "?w' k = 65535 - unat F"
  proof -
    have "unat (NOT F) = 4294967295 - unat F" by (simp add: unat_not32)
    moreover have "unat (ucast (NOT F) :: u16) = unat (NOT F) mod 65536" by (simp add: unsigned_ucast_eq take_bit_eq_mod)
    ultimately have "unat (ucast (NOT F) :: u16) = (4294967295 - unat F) mod 65536" by simp
    moreover have "(4294967295 - unat F) mod 65536 = 65535 - unat F"
    proof -
      have "4294967295 - unat F = (65535 - unat F) + 65535 * 65536" using F(1) by simp
      then have "(4294967295 - unat F) mod 65536 = (65535 - unat F) mod 65536" by (simp only: mod_mult_self1)
      then show ?thesis by simp
    qed
    ultimately show ?thesis unfolding c ip_checksum_def S_def [symmetric] F_def [symmetric] by simp
  qed
  have S': "unat (sum16 f' p (2 * n) 0) = unat S + (65535 - unat F)"
  proof -
    have kn: "k \<in> {..<n}" using k by simp
    have a: "(\<Sum>i<n. ?w' i) = ?w' k + (\<Sum>i \<in> {..<n} - {k}. ?w' i)" by (rule sum.remove [OF finite_lessThan kn])
    have b: "(\<Sum>i<n. ?w i) = ?w k + (\<Sum>i \<in> {..<n} - {k}. ?w i)" by (rule sum.remove [OF finite_lessThan kn])
    have "(\<Sum>i \<in> {..<n} - {k}. ?w' i) = (\<Sum>i \<in> {..<n} - {k}. ?w i)" using f' by (intro sum.cong) auto
    then have "(\<Sum>i<n. ?w' i) = (65535 - unat F) + (\<Sum>i<n. ?w i)" using a b z c' by simp
    then show ?thesis using unat_sum_ucast16 [of n "\<lambda>i. get16 f' (p + 2 * i)"] n S by (simp add: sum16_even)
  qed
  let ?G = "fold_carry (sum16 f' p (2 * n) 0)"
  have G: "unat ?G < 65536" "unat ?G mod 65535 = (unat S + (65535 - unat F)) mod 65535" "?G = 0 \<longleftrightarrow> unat S + (65535 - unat F) = 0"
    using fold_carry_spec [of "sum16 f' p (2 * n) 0"] S' by (auto simp: unat_eq_0 [symmetric])
  have "(unat S + (65535 - unat F)) mod 65535 = (unat F + (65535 - unat F)) mod 65535"
    using F(2) by (metis mod_add_left_eq)
  then have m: "unat ?G mod 65535 = 0" using G(2) F(1) by simp
  have "?w j \<le> (\<Sum>i<n. ?w i)" using nz(1) by (intro member_le_sum) auto
  moreover have "0 < ?w j" using nz(2) by (simp add: unat_gt_0)
  ultimately have "0 < unat S" using S by linarith
  then have "?G \<noteq> 0" using G(3) by linarith
  then have "unat ?G \<noteq> 0" by (simp add: unat_eq_0)
  moreover obtain q where q: "unat ?G = 65535 * q" using m by (auto elim: dvdE)
  ultimately have "q = 1" using G(1) by linarith
  then have g: "unat ?G = 65535" using q by simp
  have "unat (NOT ?G) = 4294967295 - 65535" using g by (simp add: unat_not32)
  then have "unat (ucast (NOT ?G) :: u16) = 0" by (simp add: unsigned_ucast_eq take_bit_eq_mod)
  then show ?thesis unfolding ip_checksum_def by (simp add: unat_eq_0)
qed


section \<open>Frames\<close>

lemma udp_frame_fields:
  assumes "f = udp_frame dst mac src_ip dst_ip sport dport data len"
  shows "get16 f 12 = htons ETH_TYPE_IP" "f 23 = IP_PROTO_UDP" "get32 f 26 = htonl src_ip" "get32 f 30 = htonl dst_ip"
    "get16 f 34 = htons sport" "get16 f 36 = htons dport" "get16 f 38 = htons (of_nat (8 + len))"
    "i < len \<Longrightarrow> f (42 + i) = data i"
  unfolding assms udp_frame_def Let_def
  by (simp_all add: buf_simps) (simp add: mcpy_apply)

lemma udp_frame_checksum: "ip_checksum (udp_frame dst mac src_ip dst_ip sport dport data len) 14 20 = 0"
proof -
  define pre where "pre = put32 30 (htonl dst_ip) (put32 26 (htonl src_ip) (put16 24 0 (put8 23 IP_PROTO_UDP (put8 22 64
     (put16 20 0 (put16 18 0 (put16 16 (htons (of_nat (20 + 8 + len))) (put8 15 0 (put8 14 0x45
     (put16 12 (htons ETH_TYPE_IP) (mcpy (mcpy (\<lambda>_. 0) 0 (bytes_of dst) 0 6) 6 (bytes_of mac) 0 6)))))))))))"
  let ?f = "udp_frame dst mac src_ip dst_ip sport dport data len"
  have f: "?f = mcpy (put16 40 0 (put16 38 (htons (of_nat (8 + len))) (put16 36 (htons dport) (put16 34 (htons sport)
     (put16 24 (ip_checksum pre 14 20) pre))))) 42 data 0 len"
    unfolding udp_frame_def Let_def pre_def ..
  have "ip_checksum ?f 14 (2 * 10) = 0"
  proof (rule checksum_completes [where k = 5 and f = pre and j = 0])
    show "get16 pre (14 + 2 * 5) = 0" by (simp add: pre_def buf_simps)
    have "get16 pre 14 = ucast (pre 14) OR push_bit 8 (ucast (pre 15))" by (simp add: get16_def)
    also have "pre 14 = 0x45" by (simp add: pre_def buf_simps)
    also have "pre 15 = 0" by (simp add: pre_def buf_simps)
    finally show "get16 pre (14 + 2 * 0) \<noteq> 0" by simp
    show "get16 ?f (14 + 2 * i) = get16 pre (14 + 2 * i)" if "i < 10" "i \<noteq> 5" for i
    proof -
      have "i < 5 \<or> 5 < i" using that(2) by linarith
      then show ?thesis unfolding f using that(1) by (auto simp: buf_simps)
    qed
    show "get16 ?f (14 + 2 * 5) = ip_checksum pre 14 (2 * 10)" unfolding f by (simp add: buf_simps)
  qed simp_all
  then show ?thesis by simp
qed

text \<open>A frame this stack built, its first \<open>m\<close> bytes received by another instance of it.\<close>

lemma net_poll_udp_frame:
  assumes f: "f = udp_frame dst mac src_ip dst_ip sport dport data len" and len: "len \<le> 512" and m: "42 \<le> m" "m \<le> 42 + len"
    and ip: "net_ip s = dst_ip" and i: "i < NET_MAX_SOCKETS" "bound (sockets s i)" "local_port (sockets s i) = dport"
      "\<not> rx_ready (rx_buf s i)"
    and first: "\<And>j. j < i \<Longrightarrow> \<not> (bound (sockets s j) \<and> local_port (sockets s j) = dport \<and> \<not> rx_ready (rx_buf s j))"
  defines "r \<equiv> rx_buf (net_poll (list_of f 0 m) s) i"
  shows "rx_ready r \<and> unat (rx_len r) = min len 256 \<and> rx_src_ip r = src_ip \<and> rx_src_port r = sport \<and>
    (\<forall>k < min len 256. rx_data r k = (if 42 + k < m then data k else pkt_buf s (42 + k)))"
proof -
  let ?fr = "list_of f 0 m"
  let ?p = "mcpy (pkt_buf s) 0 (bytes_of ?fr) 0 (length ?fr)"
  have p: "?p x = (if x < m then f x else pkt_buf s x)" for x by (simp add: mcpy_apply list_of_bytes)
  note ff = udp_frame_fields [OF f]
  have g: "get16 ?p 12 = htons ETH_TYPE_IP" "?p 23 = IP_PROTO_UDP" "get32 ?p 26 = htonl src_ip" "get32 ?p 30 = htonl dst_ip"
    "get16 ?p 34 = htons sport" "get16 ?p 36 = htons dport" "get16 ?p 38 = htons (of_nat (8 + len))"
    using ff get16_cong [of ?p 12 f] get16_cong [of ?p 34 f] get16_cong [of ?p 36 f] get16_cong [of ?p 38 f]
      get32_cong [of ?p 26 f] get32_cong [of ?p 30 f] p m(1) by simp_all
  have fd: "find (\<lambda>i. bound (sockets s i) \<and> local_port (sockets s i) = dport \<and> \<not> rx_ready (rx_buf s i)) [0..<NET_MAX_SOCKETS] = Some i"
    unfolding find_upt_Some using i first by blast
  have dl: "(of_nat (8 + len) :: u16) - 8 = of_nat len" by simp
  have ul: "unat (of_nat len :: u16) = len" using len by (simp add: unsigned_of_nat take_bit_nat_eq_self)
  let ?c = "if 256 < (of_nat len :: u16) then 256 else of_nat len :: u16"
  have uc: "unat ?c = min len 256" using ul by (simp add: word_less_nat_alt)
  have m6: "min (length ?fr) 600 = length ?fr" using len m(2) by simp
  have r: "r = \<lparr>rx_data = mcpy (rx_data (rx_buf s i)) 0 ?p 42 (unat ?c), rx_len = ?c, rx_src_ip = src_ip,
      rx_src_port = sport, rx_ready = True\<rparr>"
    unfolding r_def net_poll_def udp_handle_def Let_def m6
    using g fd ip dl m(1) by (simp add: ETH_TYPE_IP_def ETH_TYPE_ARP_def)
  show ?thesis using ff(8) p unfolding r rx_slot.simps uc by (auto simp: mcpy_apply)
qed


definition net_zero :: net where
  "net_zero = \<lparr>net_ip = 0, net_netmask = 0, net_gateway = 0, net_mac = [], sockets = (\<lambda>_. \<lparr>local_port = 0, bound = False\<rparr>),
     arp_cache = (\<lambda>_. \<lparr>arp_ip = 0, arp_mac = [], arp_valid = False\<rparr>),
     rx_buf = (\<lambda>_. \<lparr>rx_data = (\<lambda>_. 0), rx_len = 0, rx_src_ip = 0, rx_src_port = 0, rx_ready = False\<rparr>),
     pkt_buf = (\<lambda>_. 0), tx = []\<rparr>"

definition net_host :: "u32 \<Rightarrow> u32 \<Rightarrow> net" where
  "net_host ip peer = arp_cache_add peer [2, 0, 0, 0, 0, 9]
     (snd (udp_socket_open 5000 (net_init [2, 0, 0, 0, 0, 1] ip 0xFFFFFF00 0x0A000001 net_zero)))"

lemma net_host_facts:
  "net_ip (net_host ip peer) = ip" "net_netmask (net_host ip peer) = 0xFFFFFF00" "bound (sockets (net_host ip peer) 0)"
  "local_port (sockets (net_host ip peer) 0) = 5000" "\<not> rx_ready (rx_buf (net_host ip peer) 0)"
  "arp_cache_lookup peer (net_host ip peer) = Some [2, 0, 0, 0, 0, 9]"
  by (simp_all add: net_host_def arp_cache_add_def arp_cache_lookup_def udp_socket_open_def net_init_def net_zero_def
      NET_MAX_SOCKETS_def ARP_CACHE_SIZE_def upt_rec)

lemma sum16_cong:
  "(\<And>i. p \<le> i \<Longrightarrow> i < p + len \<Longrightarrow> f i = g i) \<Longrightarrow> sum16 f p len acc = sum16 g p len acc"
proof (induction f p len acc rule: sum16.induct)
  case (1 f p len acc)
  show ?case
  proof (cases "len > 1")
    case True
    then have "get16 f p = get16 g p" using "1.prems" by (intro get16_cong) simp_all
    moreover have "sum16 f (p + 2) (len - 2) (acc + ucast (get16 f p)) = sum16 g (p + 2) (len - 2) (acc + ucast (get16 f p))"
      using "1.prems" True by (intro "1.IH") auto
    ultimately show ?thesis using True by (simp add: sum16.simps [of f p len] sum16.simps [of g p len])
  next
    case False
    then show ?thesis using "1.prems" [of p] by (simp add: sum16.simps [of f p len] sum16.simps [of g p len])
  qed
qed

section \<open>The formats on the wire\<close>

text \<open>
  The frames as the standards lay them out, as lists of bytes in network order: Ethernet II, ARP
  (RFC 826), IPv4 (RFC 791) and UDP (RFC 768). The Internet checksum (RFC 1071) is stated on 16-bit
  words in network order, added with end-around carry; a header is valid when the sum over it is
  all ones. Nothing here uses the code's byte swaps or its checksum.
\<close>

definition be16 :: "u16 \<Rightarrow> u8 list" where
  "be16 x = [ucast (drop_bit 8 x), ucast x]"

definition be32 :: "u32 \<Rightarrow> u8 list" where
  "be32 x = [ucast (drop_bit 24 x), ucast (drop_bit 16 x), ucast (drop_bit 8 x), ucast x]"

definition mac6 :: "u8 list \<Rightarrow> u8 list" where
  "mac6 m = list_of (bytes_of m) 0 6"

definition wire_udp :: "u8 list \<Rightarrow> u8 list \<Rightarrow> u32 \<Rightarrow> u32 \<Rightarrow> u16 \<Rightarrow> u16 \<Rightarrow> u8 list \<Rightarrow> u8 list \<Rightarrow> u8 list" where
  "wire_udp dst mac src_ip dst_ip sport dport payload csum =
     mac6 dst @ mac6 mac @ [0x08, 0x00] @
     [0x45, 0] @ be16 (of_nat (28 + length payload)) @ [0, 0, 0, 0, 64, 17] @ csum @ be32 src_ip @ be32 dst_ip @
     be16 sport @ be16 dport @ be16 (of_nat (8 + length payload)) @ [0, 0] @ payload"

definition wire_arp_request :: "u8 list \<Rightarrow> u32 \<Rightarrow> u32 \<Rightarrow> u8 list" where
  "wire_arp_request mac ip target =
     replicate 6 0xFF @ mac6 mac @ [0x08, 0x06] @ [0, 1, 0x08, 0, 6, 4, 0, 1] @
     mac6 mac @ be32 ip @ replicate 6 0 @ be32 target"

fun be_words :: "u8 list \<Rightarrow> nat list" where
  "be_words (a # b # xs) = (256 * unat a + unat b) # be_words xs"
| "be_words [a] = [256 * unat a]"
| "be_words [] = []"

definition oc_add :: "nat \<Rightarrow> nat \<Rightarrow> nat" where
  "oc_add x y = (if x + y > 65535 then x + y - 65535 else x + y)"

definition oc_sum :: "u8 list \<Rightarrow> nat" where
  "oc_sum xs = fold oc_add (be_words xs) 0"

lemma htons_bytes: "ucast (htons x) = (ucast (drop_bit 8 x) :: u8)" "ucast (drop_bit 8 (htons x)) = (ucast x :: u8)"
  by (rule bit_word_eqI; auto simp: htons_def bit_simps)+

lemma htonl_bytes:
  "ucast (htonl x) = (ucast (drop_bit 24 x) :: u8)" "ucast (drop_bit 8 (htonl x)) = (ucast (drop_bit 16 x) :: u8)"
  "ucast (drop_bit 16 (htonl x)) = (ucast (drop_bit 8 x) :: u8)" "ucast (drop_bit 24 (htonl x)) = (ucast x :: u8)"
  by (rule bit_word_eqI; simp add: bit_simps bit_htonl add.commute)+

lemma list_of_append: "list_of f p (m + n) = list_of f p m @ list_of f (p + m) n"
  by (rule nth_equalityI) (auto simp: list_of_def nth_append)

lemma oc_fold:
  assumes "\<forall>w \<in> set ws. w \<le> 65535" "a \<le> 65535"
  shows "fold oc_add ws a \<le> 65535 \<and> fold oc_add ws a mod 65535 = (a + sum_list ws) mod 65535 \<and>
    (fold oc_add ws a = 0 \<longleftrightarrow> a + sum_list ws = 0)"
  using assms
proof (induction ws arbitrary: a)
  case (Cons w ws)
  have "oc_add w a \<le> 65535" "oc_add w a = 0 \<longleftrightarrow> a + w = 0" using Cons.prems by (auto simp: oc_add_def)
  moreover have "oc_add w a mod 65535 = (a + w) mod 65535"
    by (auto simp: oc_add_def add.commute le_mod_geq)
  then have "(oc_add w a + sum_list ws) mod 65535 = (a + w + sum_list ws) mod 65535" by (metis mod_add_left_eq)
  ultimately show ?case using Cons.IH [of "oc_add w a"] Cons.prems(1) by (auto simp: add.assoc)
qed simp

lemma be_words_list_of:
  "be_words (list_of f p (2 * n)) = map (\<lambda>i. 256 * unat (f (p + 2 * i)) + unat (f (p + 2 * i + 1))) [0..<n]"
proof (induction n arbitrary: p)
  case (Suc n)
  have "list_of f p (2 * Suc n) = f p # f (p + 1) # list_of f (p + 2) (2 * n)"
    using list_of_append [of f p 2 "2 * n"] by (simp add: list_of_def upt_rec [of 0 2] upt_rec [of "Suc 0" 2])
  then show ?case
    using Suc [of "p + 2"] by (simp add: upt_conv_Cons map_Suc_upt [symmetric] del: upt_Suc)
qed (simp add: list_of_def)

lemma unat_byte: "unat (b :: u8) \<le> 255"
  using unsigned_less [of b, where ?'a = nat] by simp

lemma unat_get16: "unat (get16 f p) = unat (f p) + 256 * unat (f (p + 1))"
proof -
  have "get16 f p = ucast (f p) + push_bit 8 (ucast (f (p + 1)))"
    unfolding get16_def by (rule disjunctive_add [symmetric]) (auto simp: bit_simps dest: bit_imp_le_length)
  also have "push_bit 8 (ucast (f (p + 1))) = (256 * ucast (f (p + 1)) :: u16)" by (simp add: push_bit_eq_mult)
  finally have "get16 f p = of_nat (unat (f p) + 256 * unat (f (p + 1)))" by simp
  moreover have "unat (f p) + 256 * unat (f (p + 1)) < 65536" using unat_byte [of "f p"] unat_byte [of "f (p + 1)"] by linarith
  ultimately show ?thesis by (simp del: of_nat_add of_nat_mult add: unsigned_of_nat take_bit_nat_eq_self)
qed

text \<open>A header whose little-endian checksum is 0 is valid in network order: the sum is the same up to a factor 256.\<close>

lemma checksum_zero_valid:
  assumes z: "ip_checksum f p (2 * n) = 0" and n: "n \<le> 1000"
  shows "oc_sum (list_of f p (2 * n)) = 65535"
proof -
  let ?w = "\<lambda>i. unat (get16 f (p + 2 * i))" and ?b = "\<lambda>i. 256 * unat (f (p + 2 * i)) + unat (f (p + 2 * i + 1))"
  define G where "G = fold_carry (sum16 f p (2 * n) 0)"
  have S: "unat (sum16 f p (2 * n) 0) = (\<Sum>i<n. ?w i)" using unat_sum_ucast16 [of n "\<lambda>i. get16 f (p + 2 * i)"] n
    by (simp add: sum16_even)
  have G: "unat G < 65536" "unat G mod 65535 = (\<Sum>i<n. ?w i) mod 65535" "G = 0 \<longleftrightarrow> (\<Sum>i<n. ?w i) = 0"
    using fold_carry_spec [of "sum16 f p (2 * n) 0"] S by (auto simp: G_def unat_eq_0 [symmetric])
  have "unat (ucast (NOT G) :: u16) = unat (NOT G) mod 65536" by (simp add: unsigned_ucast_eq take_bit_eq_mod)
  then have "(4294967295 - unat G) mod 65536 = 0" using z by (simp add: ip_checksum_def G_def unat_not32)
  moreover have "4294967295 - unat G = (65535 - unat G) + 65535 * 65536" using G(1) by simp
  ultimately have "(65535 - unat G) mod 65536 = 0" by (simp only: mod_mult_self1)
  then have "65535 - unat G = 0" by (simp only: mod_less)
  then have g: "unat G = 65535" using G(1) by simp
  have dv: "65535 dvd (\<Sum>i<n. ?w i)" using G(2) g by (simp add: mod_eq_0_iff_dvd)
  have nz: "(\<Sum>i<n. ?w i) \<noteq> 0" using G(3) g by auto
  have e: "256 * ?w i = 65535 * unat (f (p + 2 * i + 1)) + ?b i" for i by (simp add: unat_get16 algebra_simps)
  have "256 * (\<Sum>i<n. ?w i) = 65535 * (\<Sum>i<n. unat (f (p + 2 * i + 1))) + (\<Sum>i<n. ?b i)"
    unfolding sum_distrib_left e sum.distrib ..
  moreover have "65535 dvd 256 * (\<Sum>i<n. ?w i)" using dv by (rule dvd_mult)
  ultimately have b: "65535 dvd (\<Sum>i<n. ?b i)" by (simp only: dvd_add_right_iff dvd_triv_left)
  have b0: "(\<Sum>i<n. ?b i) \<noteq> 0" using nz by (auto simp: unat_get16)
  have sl: "sum_list (be_words (list_of f p (2 * n))) = (\<Sum>i<n. ?b i)"
    unfolding be_words_list_of by (simp add: interv_sum_list_conv_sum_set_nat atLeast0LessThan)
  have le: "\<forall>w \<in> set (be_words (list_of f p (2 * n))). w \<le> 65535"
  proof -
    have "?b i \<le> 65535" for i using unat_byte [of "f (p + 2 * i)"] unat_byte [of "f (p + 2 * i + 1)"] by linarith
    then show ?thesis unfolding be_words_list_of by auto
  qed
  note o = oc_fold [OF le, of 0]
  obtain q where q: "oc_sum (list_of f p (2 * n)) = 65535 * q"
    using o b sl by (auto simp: oc_sum_def mod_eq_0_iff_dvd)
  moreover have "oc_sum (list_of f p (2 * n)) \<noteq> 0" using o b0 sl by (simp add: oc_sum_def)
  moreover have "oc_sum (list_of f p (2 * n)) \<le> 65535" using o by (simp add: oc_sum_def)
  ultimately show ?thesis by (cases q) auto
qed

lemma udp_frame_wire:
  "\<exists>csum. list_of (udp_frame dst mac src_ip dst_ip sport dport data len) 0 (42 + len) =
      wire_udp dst mac src_ip dst_ip sport dport (list_of data 0 len) csum \<and> length csum = 2"
proof -
  let ?f = "udp_frame dst mac src_ip dst_ip sport dport data len"
  have "list_of ?f 42 len = list_of data 0 len"
    using udp_frame_fields(8) [OF refl] by (simp add: list_of_def)
  moreover have "list_of ?f 0 42 @ xs = wire_udp dst mac src_ip dst_ip sport dport xs [?f 24, ?f 25]" if "length xs = len" for xs
    unfolding udp_frame_def Let_def using that
    by (simp add: list_of_def wire_udp_def mac6_def be16_def be32_def upt_rec mcpy_apply put16_def put32_def put8_def
        htons_bytes htonl_bytes ETH_TYPE_IP_def IP_PROTO_UDP_def)
  ultimately show ?thesis
    unfolding list_of_append [of ?f 0 42 len] by (intro exI [of _ "[?f 24, ?f 25]"]) simp
qed

lemma arp_request_wire:
  "arp_frame (replicate 6 0xFF) mac 1 (htonl ip) (replicate 6 0) (htonl target) = wire_arp_request mac ip target"
proof -
  have "replicate 6 x = [x, x, x, x, x, x]" for x :: u8 by (simp add: numeral_eq_Suc)
  moreover have "bytes_of [x, x, x, x, x, x] i = x" if "i < 6" for x i
    using that by (auto simp: bytes_of_def nth_Cons split: nat.splits)
  ultimately show ?thesis
    by (simp add: arp_frame_def Let_def list_of_def wire_arp_request_def mac6_def be32_def upt_rec mcpy_apply put16_def
        put32_def put8_def htons_bytes htonl_bytes ETH_TYPE_ARP_def ARP_LEN_def)
qed

section \<open>Properties\<close>

text \<open>
  C30. \<open>udp_send\<close> on a bad socket returns -1 and sends nothing; when the next hop is not in the ARP cache
  it returns -1 and sends one ARP request for it; otherwise it sends exactly one frame and returns
  the driver's result. The frame is, byte for byte, the Ethernet, IPv4 and UDP headers of the
  standards in network order, from this host and port to the destination through the cached next
  hop, and the payload cut to 512 bytes; its IP header is valid by RFC 1071 (the one's complement
  sum over its words in network order is all ones), and the UDP checksum is 0, not used.
\<close>

theorem udp_send_one_frame:
  assumes "udp_send rc sock dst_ip dst_port data len s = (r, s')"
  shows "if sock < 0 \<or> sock \<ge> int NET_MAX_SOCKETS \<or> \<not> bound (sockets s (nat sock)) then r = -1 \<and> s' = s
    else let hop = (if dst_ip AND net_netmask s \<noteq> net_ip s AND net_netmask s then net_gateway s else dst_ip) in
      case arp_cache_lookup hop s of
        None \<Rightarrow> r = -1 \<and> s' = s\<lparr>tx := tx s @ [wire_arp_request (net_mac s) (net_ip s) hop]\<rparr>
      | Some mac \<Rightarrow> r = rc \<and> (\<exists>fr csum. s' = s\<lparr>tx := tx s @ [fr]\<rparr> \<and> length csum = 2 \<and>
          fr = wire_udp mac (net_mac s) (net_ip s) dst_ip (local_port (sockets s (nat sock))) dst_port
                 (list_of data 0 (min len 512)) csum \<and>
          oc_sum (take 20 (drop 14 fr)) = 65535)"
proof (cases "sock < 0 \<or> sock \<ge> int NET_MAX_SOCKETS \<or> \<not> bound (sockets s (nat sock))")
  case True
  then show ?thesis using assms by (simp add: udp_send_def)
next
  case False
  let ?hop = "if dst_ip AND net_netmask s \<noteq> net_ip s AND net_netmask s then net_gateway s else dst_ip"
  show ?thesis
  proof (cases "arp_cache_lookup ?hop s")
    case None
    then have "resolve_mac dst_ip s = (None, arp_send_request ?hop s)" by (simp add: resolve_mac_def Let_def)
    then show ?thesis using assms False None
      by (auto simp: udp_send_def Let_def arp_send_request_def eth_send_def arp_request_wire)
  next
    case (Some mac)
    let ?n = "min len 512"
    let ?f = "udp_frame mac (net_mac s) (net_ip s) dst_ip (local_port (sockets s (nat sock))) dst_port data ?n"
    have n: "(if len > 512 then 512 else len) = ?n" by simp
    have "resolve_mac dst_ip s = (Some mac, s)" using Some by (simp add: resolve_mac_def Let_def)
    then have e: "r = rc" "s' = s\<lparr>tx := tx s @ [list_of ?f 0 (42 + ?n)]\<rparr>"
      using assms False unfolding udp_send_def Let_def n by (simp_all add: eth_send_def)
    have "take 20 (drop 14 (list_of ?f 0 (42 + ?n))) = list_of ?f 14 20"
      by (rule nth_equalityI) (auto simp: list_of_def)
    then have "oc_sum (take 20 (drop 14 (list_of ?f 0 (42 + ?n)))) = 65535"
      using checksum_zero_valid [of ?f 14 10] udp_frame_checksum by simp
    moreover obtain csum where "list_of ?f 0 (42 + ?n) = wire_udp mac (net_mac s) (net_ip s) dst_ip
        (local_port (sockets s (nat sock))) dst_port (list_of data 0 ?n) csum" "length csum = 2"
      using udp_frame_wire by blast
    ultimately have "\<exists>fr csum. s' = s\<lparr>tx := tx s @ [fr]\<rparr> \<and> length csum = 2 \<and>
          fr = wire_udp mac (net_mac s) (net_ip s) dst_ip (local_port (sockets s (nat sock))) dst_port
                 (list_of data 0 ?n) csum \<and> oc_sum (take 20 (drop 14 fr)) = 65535"
      unfolding e(2) by metis
    then show ?thesis using False Some e(1) unfolding Let_def by simp
  qed
qed

theorem udp_send_one_frame_witness:
  "let s = net_host 0x0A000002 0x0A000003; (r, s') = udp_send 45 0 0x0A000003 7 (\<lambda>_. 1) 3 s
   in r = 45 \<and> (\<exists>fr csum. s' = s\<lparr>tx := tx s @ [fr]\<rparr> \<and> length csum = 2 \<and>
     fr = wire_udp [2, 0, 0, 0, 0, 9] (net_mac s) 0x0A000002 0x0A000003 5000 7 [1, 1, 1] csum \<and>
     oc_sum (take 20 (drop 14 fr)) = 65535)"
proof -
  obtain r s' where u: "udp_send 45 0 0x0A000003 7 (\<lambda>_. 1) 3 (net_host 0x0A000002 0x0A000003) = (r, s')" by fastforce
  have l: "list_of (\<lambda>_. 1) 0 (min 3 512) = [1, 1, 1 :: u8]" by (simp add: list_of_def upt_rec)
  show ?thesis
    using udp_send_one_frame [OF u] unfolding u Let_def prod.case l
    by (simp add: net_host_facts NET_MAX_SOCKETS_def)
qed

text \<open>
  C10. The first 256 bytes of a datagram arrive: when the sender's cache knows the next hop, the frame it
  sends, delivered to the host with the destination address, is what \<open>udp_recv\<close> returns from the
  lowest free socket bound to the port, with the sender's address and port. The sender accepts up to
  512 bytes but the socket buffer holds 256, so a longer datagram is cut to 256 bytes without notice,
  and it is cut to the size of the caller's buffer.
\<close>

theorem udp_round_trip:
  fixes n :: nat
  assumes send: "udp_send rc sock dst_ip dport data len a = (rc, a')" "0 \<le> sock" "sock < int NET_MAX_SOCKETS"
      "bound (sockets a (nat sock))"
    and hop: "arp_cache_lookup (if dst_ip AND net_netmask a \<noteq> net_ip a AND net_netmask a then net_gateway a else dst_ip) a \<noteq> None"
    and recv: "net_ip b = dst_ip" "i < NET_MAX_SOCKETS" "bound (sockets b i)" "local_port (sockets b i) = dport"
      "\<not> rx_ready (rx_buf b i)"
      "\<forall>j < i. \<not> (bound (sockets b j) \<and> local_port (sockets b j) = dport \<and> \<not> rx_ready (rx_buf b j))"
  defines "k \<equiv> min (min len 256) n"
  shows "\<exists>d b'. udp_recv (int i) d0 n (net_poll (last (tx a')) b) =
      (int k, d, Some (net_ip a, local_port (sockets a (nat sock))), b') \<and> list_of d 0 k = list_of data 0 k"
proof -
  obtain mac where mac: "arp_cache_lookup (if dst_ip AND net_netmask a \<noteq> net_ip a AND net_netmask a then net_gateway a else dst_ip) a = Some mac"
    using hop by blast
  let ?n = "if len > 512 then 512 else len"
  let ?f = "udp_frame mac (net_mac a) (net_ip a) dst_ip (local_port (sockets a (nat sock))) dport data ?n"
  have "resolve_mac dst_ip a = (Some mac, a)" using mac by (simp add: resolve_mac_def Let_def)
  then have "a' = eth_send (list_of ?f 0 (42 + ?n)) a"
    using send by (simp add: udp_send_def Let_def)
  then have l: "last (tx a') = list_of ?f 0 (42 + ?n)" by (simp add: eth_send_def)
  let ?r = "rx_buf (net_poll (last (tx a')) b) i"
  have n: "min ?n 256 = min len 256" by simp
  have r: "rx_ready ?r \<and> unat (rx_len ?r) = min len 256 \<and> rx_src_ip ?r = net_ip a \<and>
    rx_src_port ?r = local_port (sockets a (nat sock)) \<and> (\<forall>k < min len 256. rx_data ?r k = data k)"
    unfolding l using net_poll_udp_frame [OF refl _ _ _ recv(1-5), where m = "42 + ?n"] recv(6) unfolding n by simp
  have "(if unat (rx_len ?r) < n then unat (rx_len ?r) else n) = k" using r by (simp add: k_def min_def)
  then show ?thesis
    using recv(2) r by (auto simp: udp_recv_def Let_def list_of_def mcpy_apply k_def)
qed

theorem udp_round_trip_witness:
  "let a = net_host 0x0A000002 0x0A000003; b = net_host 0x0A000003 0x0A000002;
       a' = snd (udp_send 45 0 0x0A000003 5000 (\<lambda>i. of_nat i) 3 a)
   in \<exists>d b'. udp_recv (int 0) (\<lambda>_. 0) 100 (net_poll (last (tx a')) b) =
      (int 3, d, Some (0x0A000002, 5000), b') \<and> list_of d 0 3 = list_of (\<lambda>i. of_nat i) 0 3"
proof -
  let ?a = "net_host 0x0A000002 0x0A000003"
  have "udp_send 45 0 0x0A000003 5000 (\<lambda>i. of_nat i) 3 ?a = (45, snd (udp_send 45 0 0x0A000003 5000 (\<lambda>i. of_nat i) 3 ?a))"
    by (simp add: udp_send_def resolve_mac_def net_host_facts NET_MAX_SOCKETS_def Let_def)
  from udp_round_trip [OF this, where b = "net_host 0x0A000003 0x0A000002" and i = 0 and n = 100 and ?d0.0 = "\<lambda>_. 0"]
  show ?thesis by (simp add: net_host_facts NET_MAX_SOCKETS_def Let_def)
qed

text \<open>
  C38. The receiver trusts the length field: when only the first \<open>42 + k\<close> bytes of a frame arrive, it
  still reports the full datagram and fills the missing bytes from the packet received before.
\<close>

theorem udp_truncated_frame_leaks:
  assumes "len \<le> 256" "k < len"
    and "net_ip s = dst_ip" "i < NET_MAX_SOCKETS" "bound (sockets s i)" "local_port (sockets s i) = dport"
      "\<not> rx_ready (rx_buf s i)"
      "\<forall>j < i. \<not> (bound (sockets s j) \<and> local_port (sockets s j) = dport \<and> \<not> rx_ready (rx_buf s j))"
  shows "let r = rx_buf (net_poll (list_of (udp_frame dst mac src_ip dst_ip sport dport data len) 0 (42 + k)) s) i
    in rx_ready r \<and> unat (rx_len r) = len \<and> (\<forall>j. k \<le> j \<and> j < len \<longrightarrow> rx_data r j = pkt_buf s (42 + j))"
  unfolding Let_def using net_poll_udp_frame [OF refl _ _ _ assms(3-7), where m = "42 + k"] assms(1,2,8) by simp

theorem udp_truncated_frame_leaks_witness:
  "let s = (net_host 0x0A000003 0x0A000002)\<lparr>pkt_buf := (\<lambda>_. 0x5A)\<rparr>;
       f = udp_frame [2, 0, 0, 0, 0, 1] [2, 0, 0, 0, 0, 9] 0x0A000002 0x0A000003 7 5000 (\<lambda>_. 1) 10;
       r = rx_buf (net_poll (list_of f 0 (42 + 0)) s) 0
   in rx_ready r \<and> unat (rx_len r) = 10 \<and> (\<forall>j. 0 \<le> j \<and> j < 10 \<longrightarrow> rx_data r j = 0x5A)"
proof -
  let ?s = "(net_host 0x0A000003 0x0A000002)\<lparr>pkt_buf := (\<lambda>_. 0x5A)\<rparr>"
  have f: "net_ip ?s = 0x0A000003" "bound (sockets ?s 0)" "local_port (sockets ?s 0) = 5000" "\<not> rx_ready (rx_buf ?s 0)"
    by (simp_all add: net_host_facts)
  have "(10 :: nat) \<le> 256" "(0 :: nat) < 10" "0 < NET_MAX_SOCKETS" by (simp_all add: NET_MAX_SOCKETS_def)
  from udp_truncated_frame_leaks [OF this(1,2) f(1) this(3) f(2-4), of "[2, 0, 0, 0, 0, 1]" "[2, 0, 0, 0, 0, 9]" "0x0A000002" 7 "\<lambda>_. 1"]
  show ?thesis by (simp add: Let_def)
qed

end
