(* ===== verification/W25q.thy ===== *)
theory W25q
  imports Prelude
begin

text \<open>
  The serial flash and its driver. The first part is the device model of the machine simulator,
  \<open>sim/src/devices/w25q128.c\<close>: a command interpreter fed one byte at a time over SPI, with the page
  program buffer, the write-enable latch and the busy time. The second part is the driver of the
  small kernel, \<open>rtos/drivers/flash/flash_w25q.c\<close>, which talks to the chip byte by byte through the SPI
  API of \<open>drivers/spi.h\<close>. Reads send 0xFF. Every byte on the bus takes \<open>byte_cycles\<close> cycles of the
  CPU counter the device polls; the counter is a natural number (its 64 bits are not exhausted).
  Runtime power management, an optional build feature, is left out.
\<close>

section \<open>The device\<close>

datatype w25q_state =
    W25Q_IDLE | W25Q_READ_ADDR | W25Q_READ_DATA | W25Q_FAST_READ_ADDR | W25Q_FAST_READ_DUMMY
  | W25Q_FAST_READ_DATA | W25Q_PROGRAM_ADDR | W25Q_PROGRAM_DATA | W25Q_ERASE_ADDR | W25Q_JEDEC_ID
  | W25Q_READ_STATUS

record w25q128 =
  fdata :: "nat \<Rightarrow> u8"
  fstate :: w25q_state
  faddr :: u32
  addr_bytes :: nat
  status :: u8
  cmd :: u8
  jedec_idx :: nat
  page_buf :: "nat \<Rightarrow> u8"
  page_addr :: u32
  page_len :: nat
  cycle_count :: "nat option"
  busy_until :: nat
  byte_cycles :: nat

definition W25Q128_SIZE :: nat where "W25Q128_SIZE = 16 * 1024 * 1024"
definition W25Q128_PAGE_SIZE :: u32 where "W25Q128_PAGE_SIZE = 256"
definition W25Q128_SECTOR_SIZE :: u32 where "W25Q128_SECTOR_SIZE = 4096"
definition W25Q_STATUS_BUSY :: u8 where "W25Q_STATUS_BUSY = 1"
definition W25Q_STATUS_WEL :: u8 where "W25Q_STATUS_WEL = 2"

definition w25q128_init :: "w25q128 \<Rightarrow> w25q128" where
  "w25q128_init d = d\<lparr>fdata := (\<lambda>_. 0xFF), fstate := W25Q_IDLE, faddr := 0, addr_bytes := 0, status := 0, cmd := 0,
     jedec_idx := 0, page_buf := (\<lambda>_. 0), page_addr := 0, page_len := 0, cycle_count := None, busy_until := 0\<rparr>"

definition is_busy :: "w25q128 \<Rightarrow> bool \<times> w25q128" where
  "is_busy d =
     (if status d AND W25Q_STATUS_BUSY = 0 then (False, d)
      else (case cycle_count d of
              Some c \<Rightarrow> if c \<ge> busy_until d then (False, d\<lparr>status := status d AND NOT W25Q_STATUS_BUSY\<rparr>) else (True, d)
            | None \<Rightarrow> (True, d)))"

definition start_busy :: "nat \<Rightarrow> w25q128 \<Rightarrow> w25q128" where
  "start_busy n d =
     (let d = (case cycle_count d of Some c \<Rightarrow> d\<lparr>busy_until := c + n\<rparr> | None \<Rightarrow> d)
      in d\<lparr>status := status d OR W25Q_STATUS_BUSY\<rparr>)"

definition commit_page_program :: "w25q128 \<Rightarrow> w25q128" where
  "commit_page_program d =
     (if page_len d = 0 then d
      else (let base = page_addr d AND NOT (W25Q128_PAGE_SIZE - 1);
                offset = page_addr d AND (W25Q128_PAGE_SIZE - 1);
                d = fold (\<lambda>i d. let addr = unat (base + ((offset + of_nat i) AND (W25Q128_PAGE_SIZE - 1)))
                                in if addr < W25Q128_SIZE
                                   then d\<lparr>fdata := (fdata d)(addr := fdata d addr AND page_buf d i)\<rparr> else d)
                      [0..<page_len d] d;
                d = d\<lparr>status := status d AND NOT W25Q_STATUS_WEL\<rparr>;
                d = start_busy 11200 d
            in d\<lparr>page_len := 0\<rparr>))"

definition commit_sector_erase :: "w25q128 \<Rightarrow> w25q128" where
  "commit_sector_erase d =
     (let base = unat (faddr d AND NOT (W25Q128_SECTOR_SIZE - 1));
          d = (if base + unat W25Q128_SECTOR_SIZE \<le> W25Q128_SIZE
               then d\<lparr>fdata := (\<lambda>x. if base \<le> x \<and> x < base + unat W25Q128_SECTOR_SIZE then 0xFF else fdata d x)\<rparr> else d);
          d = d\<lparr>status := status d AND NOT W25Q_STATUS_WEL\<rparr>
      in start_busy 720000 d)"

definition w25q128_cs_deassert :: "w25q128 \<Rightarrow> w25q128" where
  "w25q128_cs_deassert d =
     (let d = (if fstate d = W25Q_PROGRAM_DATA then commit_page_program d else d)
      in d\<lparr>fstate := W25Q_IDLE\<rparr>)"

definition idle_command :: "u8 \<Rightarrow> w25q128 \<Rightarrow> w25q128" where
  "idle_command byte d =
     (let d = d\<lparr>cmd := byte, faddr := 0, addr_bytes := 0\<rparr>
      in if byte = 0x9F then d\<lparr>fstate := W25Q_JEDEC_ID, jedec_idx := 0\<rparr>
         else if byte = 0x05 then d\<lparr>fstate := W25Q_READ_STATUS\<rparr>
         else if byte = 0x06 then d\<lparr>status := status d OR W25Q_STATUS_WEL\<rparr>
         else if byte = 0x04 then d\<lparr>status := status d AND NOT W25Q_STATUS_WEL\<rparr>
         else if byte = 0x03 then d\<lparr>fstate := W25Q_READ_ADDR\<rparr>
         else if byte = 0x0B then d\<lparr>fstate := W25Q_FAST_READ_ADDR\<rparr>
         else if byte = 0x02 then (if status d AND W25Q_STATUS_WEL \<noteq> 0 then d\<lparr>fstate := W25Q_PROGRAM_ADDR\<rparr> else d)
         else if byte = 0x20 then (if status d AND W25Q_STATUS_WEL \<noteq> 0 then d\<lparr>fstate := W25Q_ERASE_ADDR\<rparr> else d)
         else d)"

definition addr_byte :: "u8 \<Rightarrow> w25q128 \<Rightarrow> w25q128" where
  "addr_byte byte d = d\<lparr>faddr := push_bit 8 (faddr d) OR ucast byte, addr_bytes := addr_bytes d + 1\<rparr>"

definition read_data :: "w25q128 \<Rightarrow> u8 \<times> w25q128" where
  "read_data d = ((if unat (faddr d) < W25Q128_SIZE then fdata d (unat (faddr d)) else 0xFF), d\<lparr>faddr := faddr d + 1\<rparr>)"

definition jedec_id :: "nat \<Rightarrow> u8" where
  "jedec_id i = (if i < 3 then [0xEF, 0x40, 0x18] ! i else 0)"

definition w25q128_transfer :: "u8 \<Rightarrow> w25q128 \<Rightarrow> u8 \<times> w25q128" where
  "w25q128_transfer byte d =
     (let (busy, d) = is_busy d
      in if busy \<and> fstate d \<noteq> W25Q_READ_STATUS
         then (0xFF, if fstate d = W25Q_IDLE \<and> byte = 0x05 then d\<lparr>fstate := W25Q_READ_STATUS\<rparr> else d)
         else (case fstate d of
             W25Q_IDLE \<Rightarrow> (0xFF, idle_command byte d)
           | W25Q_JEDEC_ID \<Rightarrow> (jedec_id (jedec_idx d), d\<lparr>jedec_idx := jedec_idx d + 1\<rparr>)
           | W25Q_READ_STATUS \<Rightarrow> (let (_, d) = is_busy d in (status d, d))
           | W25Q_READ_ADDR \<Rightarrow>
               (let d = addr_byte byte d in (0xFF, if addr_bytes d = 3 then d\<lparr>fstate := W25Q_READ_DATA\<rparr> else d))
           | W25Q_READ_DATA \<Rightarrow> read_data d
           | W25Q_FAST_READ_ADDR \<Rightarrow>
               (let d = addr_byte byte d in (0xFF, if addr_bytes d = 3 then d\<lparr>fstate := W25Q_FAST_READ_DUMMY\<rparr> else d))
           | W25Q_FAST_READ_DUMMY \<Rightarrow> (0xFF, d\<lparr>fstate := W25Q_FAST_READ_DATA\<rparr>)
           | W25Q_FAST_READ_DATA \<Rightarrow> read_data d
           | W25Q_PROGRAM_ADDR \<Rightarrow>
               (let d = addr_byte byte d
                in (0xFF, if addr_bytes d = 3
                          then d\<lparr>fstate := W25Q_PROGRAM_DATA, page_addr := faddr d, page_len := 0\<rparr> else d))
           | W25Q_PROGRAM_DATA \<Rightarrow>
               (0xFF, if page_len d < unat W25Q128_PAGE_SIZE
                      then d\<lparr>page_buf := (page_buf d)(page_len d := byte), page_len := page_len d + 1\<rparr> else d)
           | W25Q_ERASE_ADDR \<Rightarrow>
               (let d = addr_byte byte d
                in (0xFF, if addr_bytes d = 3 then (commit_sector_erase d)\<lparr>fstate := W25Q_IDLE\<rparr> else d))))"

section \<open>The SPI bus\<close>

definition spi_byte :: "u8 \<Rightarrow> w25q128 \<Rightarrow> u8 \<times> w25q128" where
  "spi_byte b d = w25q128_transfer b (d\<lparr>cycle_count := map_option (\<lambda>c. c + byte_cycles d) (cycle_count d)\<rparr>)"

fun spi_write :: "u8 list \<Rightarrow> w25q128 \<Rightarrow> w25q128" where
  "spi_write [] d = d"
| "spi_write (b # bs) d = spi_write bs (snd (spi_byte b d))"

fun spi_read :: "nat \<Rightarrow> w25q128 \<Rightarrow> u8 list \<times> w25q128" where
  "spi_read 0 d = ([], d)"
| "spi_read (Suc n) d = (let (b, d) = spi_byte 0xFF d; (bs, d) = spi_read n d in (b # bs, d))"

definition spi_cs_release :: "w25q128 \<Rightarrow> w25q128" where
  "spi_cs_release d = w25q128_cs_deassert d"

section \<open>The driver\<close>

definition w25q_write_enable :: "w25q128 \<Rightarrow> w25q128" where
  "w25q_write_enable d = spi_cs_release (spi_write [0x06] d)"

partial_function (option) poll_busy :: "w25q128 \<Rightarrow> w25q128 option" where
  "poll_busy d =
     (let (st, d) = spi_byte 0xFF d
      in if st AND 1 \<noteq> 0 then poll_busy d else Some d)"

definition w25q_wait_busy :: "w25q128 \<Rightarrow> w25q128 option" where
  "w25q_wait_busy d = map_option spi_cs_release (poll_busy (spi_write [0x05] d))"

definition w25q_cmd_addr :: "u8 \<Rightarrow> u32 \<Rightarrow> w25q128 \<Rightarrow> w25q128" where
  "w25q_cmd_addr c addr d =
     spi_write [c, ucast (drop_bit 16 addr AND 0xFF), ucast (drop_bit 8 addr AND 0xFF), ucast (addr AND 0xFF)] d"

definition flash_nor_init :: "w25q128 \<Rightarrow> int \<times> w25q128" where
  "flash_nor_init d =
     (let d = spi_write [0x9F] d;
          (id, d) = spi_read 3 d;
          d = spi_cs_release d
      in if (id ! 0 \<noteq> 0xEF \<and> id ! 0 \<noteq> 0xC8) \<or> id ! 1 \<noteq> 0x40 \<or> id ! 2 \<noteq> 0x18 then (-1, d) else (0, d))"

definition flash_nor_read :: "u32 \<Rightarrow> nat \<Rightarrow> w25q128 \<Rightarrow> u8 list \<times> w25q128" where
  "flash_nor_read offset len d =
     (let d = w25q_cmd_addr 0x03 offset d;
          (bs, d) = spi_read len d
      in (bs, spi_cs_release d))"

definition page_chunk :: "u32 \<Rightarrow> nat \<Rightarrow> nat" where
  "page_chunk offset len =
     (let page_remain = unat (256 - (offset AND 0xFF)) in if len < page_remain then len else page_remain)"

function flash_nor_write :: "u32 \<Rightarrow> u8 list \<Rightarrow> w25q128 \<Rightarrow> w25q128 option" where
  "flash_nor_write offset src d =
     (if src = [] then Some d
      else (let chunk = page_chunk offset (length src);
                d = w25q_write_enable d;
                d = w25q_cmd_addr 0x02 offset d;
                d = spi_write (take chunk src) d;
                d = spi_cs_release d
            in case w25q_wait_busy d of
                 None \<Rightarrow> None
               | Some d \<Rightarrow> flash_nor_write (offset + of_nat chunk) (drop chunk src) d))"
  by auto

lemma page_chunk_bounds:
  "n \<noteq> 0 \<Longrightarrow> 0 < page_chunk a n" "page_chunk a n \<le> n" "unat a mod 256 + page_chunk a n \<le> 256"
proof -
  have "unat (a AND 0xFF) = unat a mod 256" by (simp add: word_nat)
  moreover have "unat a mod 256 < 256" by simp
  ultimately have "unat (256 - (a AND 0xFF)) = 256 - unat a mod 256"
    by (subst unat_sub) (simp_all add: word_le_nat_alt)
  then show "n \<noteq> 0 \<Longrightarrow> 0 < page_chunk a n" "page_chunk a n \<le> n" "unat a mod 256 + page_chunk a n \<le> 256"
    using \<open>unat a mod 256 < 256\<close> by (auto simp: page_chunk_def Let_def)
qed

termination flash_nor_write
  by (relation "measure (\<lambda>(a, src, d). length src)") (auto simp: page_chunk_bounds(1))

declare flash_nor_write.simps [simp del]

function flash_nor_erase :: "u32 \<Rightarrow> nat \<Rightarrow> w25q128 \<Rightarrow> w25q128 option" where
  "flash_nor_erase offset sz d =
     (if sz = 0 then Some d
      else (let d = w25q_write_enable d;
                d = w25q_cmd_addr 0x20 offset d;
                d = spi_cs_release d
            in case w25q_wait_busy d of
                 None \<Rightarrow> None
               | Some d \<Rightarrow> flash_nor_erase (offset + 4096) (if sz > 4096 then sz - 4096 else 0) d))"
  by auto

termination flash_nor_erase
  by (relation "measure (\<lambda>(a, sz, d). sz)") auto

declare flash_nor_erase.simps [simp del]

section \<open>One byte at a time\<close>

text \<open>A chip with a running clock that can take a command: not busy and between two commands.\<close>

definition clocked :: "w25q128 \<Rightarrow> bool" where
  "clocked d \<longleftrightarrow> cycle_count d \<noteq> None \<and> 0 < byte_cycles d"

definition ready :: "w25q128 \<Rightarrow> bool" where
  "ready d \<longleftrightarrow> clocked d \<and> fstate d = W25Q_IDLE \<and> status d AND 1 = 0"

abbreviation tick :: "w25q128 \<Rightarrow> w25q128" where
  "tick d \<equiv> d\<lparr>cycle_count := map_option (\<lambda>c. c + byte_cycles d) (cycle_count d)\<rparr>"

lemma not_busy [simp]: "status d AND 1 = 0 \<Longrightarrow> is_busy d = (False, d)"
  by (simp add: is_busy_def W25Q_STATUS_BUSY_def)

lemma spi_byte_idle:
  assumes "fstate d = W25Q_IDLE" "status d AND 1 = 0"
  shows "spi_byte b d = (0xFF, idle_command b (tick d))"
  using assms by (simp add: spi_byte_def w25q128_transfer_def)

lemma addr_assembled:
  "push_bit 8 (push_bit 8 (push_bit 8 0 OR ucast (ucast (drop_bit 16 a AND 0xFF) :: u8)) OR
     ucast (ucast (drop_bit 8 a AND 0xFF) :: u8)) OR ucast (ucast (a AND 0xFF) :: u8) = take_bit 24 (a :: u32)"
proof (rule bit_word_eqI)
  fix n assume "n < LENGTH(32)"
  have m: "(0xFF :: u32) = mask 8" by (simp add: mask_numeral)
  consider "n < 8" | "8 \<le> n" "n < 16" | "16 \<le> n" "n < 24" | "24 \<le> n" by linarith
  then show "bit (push_bit 8 (push_bit 8 (push_bit 8 0 OR ucast (ucast (drop_bit 16 a AND 0xFF) :: u8)) OR
     ucast (ucast (drop_bit 8 a AND 0xFF) :: u8)) OR ucast (ucast (a AND 0xFF) :: u8) :: u32) n = bit (take_bit 24 a) n"
    unfolding m by cases (auto simp: bit_simps)
qed

text \<open>The three address bytes behind a command that has been accepted.\<close>

definition addr_sent :: "u32 \<Rightarrow> w25q128 \<Rightarrow> w25q128" where
  "addr_sent a d = (tick (tick (tick d)))\<lparr>faddr := take_bit 24 a, addr_bytes := 3\<rparr>"

lemma addr_bytes_read:
  assumes "fstate d = W25Q_READ_ADDR" "status d AND 1 = 0" "faddr d = 0" "addr_bytes d = 0"
  shows "spi_write [ucast (drop_bit 16 a AND 0xFF), ucast (drop_bit 8 a AND 0xFF), ucast (a AND 0xFF)] d =
    (addr_sent a d)\<lparr>fstate := W25Q_READ_DATA\<rparr>"
  using assms addr_assembled [of a]
  by (simp add: spi_byte_def w25q128_transfer_def addr_byte_def Let_def addr_sent_def option.map_comp o_def numeral_3_eq_3)

lemma addr_bytes_program:
  assumes "fstate d = W25Q_PROGRAM_ADDR" "status d AND 1 = 0" "faddr d = 0" "addr_bytes d = 0"
  shows "spi_write [ucast (drop_bit 16 a AND 0xFF), ucast (drop_bit 8 a AND 0xFF), ucast (a AND 0xFF)] d =
    (addr_sent a d)\<lparr>fstate := W25Q_PROGRAM_DATA, page_addr := take_bit 24 a, page_len := 0\<rparr>"
  using assms addr_assembled [of a]
  by (simp add: spi_byte_def w25q128_transfer_def addr_byte_def Let_def addr_sent_def option.map_comp o_def numeral_3_eq_3)

lemma addr_bytes_erase:
  assumes "fstate d = W25Q_ERASE_ADDR" "status d AND 1 = 0" "faddr d = 0" "addr_bytes d = 0"
  shows "spi_write [ucast (drop_bit 16 a AND 0xFF), ucast (drop_bit 8 a AND 0xFF), ucast (a AND 0xFF)] d =
    (commit_sector_erase (addr_sent a d))\<lparr>fstate := W25Q_IDLE\<rparr>"
  using assms addr_assembled [of a]
  by (simp add: spi_byte_def w25q128_transfer_def addr_byte_def Let_def addr_sent_def option.map_comp o_def numeral_3_eq_3)

lemma wel_bits:
  "s AND 1 = 0 \<Longrightarrow> (s OR 2) AND 1 = (0 :: u8)" "(s OR 2) AND 2 = (2 :: u8)"
  "(s AND NOT 2) AND 1 = s AND (1 :: u8)" "(s OR 1) AND 1 = (1 :: u8)" "(s AND NOT 1) AND 1 = (0 :: u8)"
proof -
  have b1: "x AND 1 = (if bit x 0 then 1 else 0)" for x :: u8
    by (simp add: and_one_eq bit_0 mod_2_eq_odd)
  have bit2: "bit (2 :: u8) n \<longleftrightarrow> n = 1" for n
    using bit_exp_iff [where ?'a = u8, of 1 n] by (auto simp: possible_bit_def)
  show "s AND 1 = 0 \<Longrightarrow> (s OR 2) AND 1 = (0 :: u8)" "(s AND NOT 2) AND 1 = s AND (1 :: u8)"
    by (auto simp: b1 bit_simps bit2 split: if_splits)
  show "(s OR 2) AND 2 = (2 :: u8)" by (rule bit_word_eqI) (auto simp: bit_simps bit2)
  show "(s OR 1) AND 1 = (1 :: u8)" "(s AND NOT 1) AND 1 = (0 :: u8)" by (simp_all add: b1 bit_simps)
qed

lemma clocked_tick [simp]: "clocked (tick d) = clocked d"
  by (simp add: clocked_def)

lemma write_enable:
  assumes "ready d"
  shows "w25q_write_enable d = (tick d)\<lparr>cmd := 6, faddr := 0, addr_bytes := 0, status := status d OR 2\<rparr>"
  using assms
  by (simp add: w25q_write_enable_def spi_byte_idle ready_def idle_command_def spi_cs_release_def
      w25q128_cs_deassert_def W25Q_STATUS_WEL_def Let_def)

lemma program_start:
  fixes a :: u32
  assumes r: "ready d"
  defines "e \<equiv> w25q_cmd_addr 0x02 a (w25q_write_enable d)"
  shows "fstate e = W25Q_PROGRAM_DATA" "page_addr e = take_bit 24 a" "page_len e = 0" "status e = status d OR 2"
    "fdata e = fdata d" "clocked e"
proof -
  let ?w = "w25q_write_enable d"
  have w: "fstate ?w = W25Q_IDLE" "status ?w AND 1 = 0" "status ?w = status d OR 2" "fdata ?w = fdata d" "clocked ?w"
    using r unfolding write_enable [OF r] by (simp_all add: ready_def wel_bits clocked_def)
  let ?c = "snd (spi_byte 0x02 ?w)"
  have c: "?c = (tick ?w)\<lparr>cmd := 2, faddr := 0, addr_bytes := 0, fstate := W25Q_PROGRAM_ADDR\<rparr>"
    unfolding spi_byte_idle [OF w(1,2)]
    by (simp add: idle_command_def Let_def W25Q_STATUS_WEL_def w(3) wel_bits(2))
  have "e = (addr_sent a ?c)\<lparr>fstate := W25Q_PROGRAM_DATA, page_addr := take_bit 24 a, page_len := 0\<rparr>"
    unfolding e_def w25q_cmd_addr_def spi_write.simps(2) [of "0x02"]
    by (rule addr_bytes_program) (use c w in simp_all)
  then show "fstate e = W25Q_PROGRAM_DATA" "page_addr e = take_bit 24 a" "page_len e = 0" "status e = status d OR 2"
    "fdata e = fdata d" "clocked e"
    using c w by (simp_all add: addr_sent_def clocked_def)
qed

lemma program_bytes:
  assumes "fstate d = W25Q_PROGRAM_DATA" "status d AND 1 = 0" "page_len d + length bs \<le> 256" "clocked d"
  shows "fstate (spi_write bs d) = W25Q_PROGRAM_DATA \<and> page_addr (spi_write bs d) = page_addr d \<and>
    page_len (spi_write bs d) = page_len d + length bs \<and> status (spi_write bs d) = status d \<and>
    fdata (spi_write bs d) = fdata d \<and> clocked (spi_write bs d) \<and>
    (\<forall>i. page_buf (spi_write bs d) i = (if page_len d \<le> i \<and> i < page_len d + length bs then bs ! (i - page_len d) else page_buf d i))"
  using assms
proof (induction bs arbitrary: d)
  case (Cons b bs)
  let ?e = "snd (spi_byte b d)"
  have e: "?e = (tick d)\<lparr>page_buf := (page_buf d)(page_len d := b), page_len := page_len d + 1\<rparr>"
    using Cons.prems by (simp add: spi_byte_def w25q128_transfer_def W25Q128_PAGE_SIZE_def)
  have "fstate ?e = W25Q_PROGRAM_DATA" "status ?e AND 1 = 0" "page_len ?e + length bs \<le> 256" "clocked ?e"
    using Cons.prems unfolding e by (simp_all add: clocked_def)
  from Cons.IH [OF this] show ?case
    unfolding spi_write.simps(2) unfolding e
    by (auto simp: nth_Cons' clocked_def Suc_diff_Suc)
qed auto

lemma fold_program:
  fixes f :: "nat \<Rightarrow> w25q128 \<Rightarrow> w25q128"
  assumes A: "\<And>i. i < n \<Longrightarrow> addr i = A + i" and n: "A + n \<le> W25Q128_SIZE"
    and f: "\<And>i d. f i d = (if addr i < W25Q128_SIZE then d\<lparr>fdata := (fdata d)(addr i := fdata d (addr i) AND page_buf d i)\<rparr> else d)"
  shows "fold f [0..<n] d = d\<lparr>fdata := \<lambda>x. if A \<le> x \<and> x < A + n then fdata d x AND page_buf d (x - A) else fdata d x\<rparr>"
  using A n
proof (induction n)
  case (Suc n)
  let ?g = "\<lambda>x. if A \<le> x \<and> x < A + n then fdata d x AND page_buf d (x - A) else fdata d x"
  have "fold f [0..<n] d = d\<lparr>fdata := ?g\<rparr>" using Suc by simp
  moreover have "addr n = A + n" "A + n < W25Q128_SIZE" using Suc.prems by simp_all
  ultimately have "fold f [0..<Suc n] d = d\<lparr>fdata := ?g(A + n := fdata d (A + n) AND page_buf d n)\<rparr>"
    by (simp add: f)
  moreover have "?g(A + n := fdata d (A + n) AND page_buf d n) =
    (\<lambda>x. if A \<le> x \<and> x < A + Suc n then fdata d x AND page_buf d (x - A) else fdata d x)"
    by (auto simp: fun_eq_iff less_Suc_eq)
  ultimately show ?case by simp
next
  case 0
  have "(\<lambda>x. if A \<le> x \<and> x < A + 0 then fdata d x AND page_buf d (x - A) else fdata d x) = fdata d"
    by (auto simp: fun_eq_iff)
  then show ?case by simp
qed

lemma page_address:
  assumes "unat (a :: u32) mod 256 + n \<le> 256" "i < n"
  shows "unat ((a AND NOT (W25Q128_PAGE_SIZE - 1)) + ((a AND (W25Q128_PAGE_SIZE - 1)) + of_nat i AND (W25Q128_PAGE_SIZE - 1))) = unat a + i"
proof -
  have m: "W25Q128_PAGE_SIZE - 1 = mask 8" "(0xFF :: u32) = mask 8" by (simp_all add: W25Q128_PAGE_SIZE_def mask_numeral)
  have lo: "unat (a AND mask 8) = unat a mod 256" by (simp add: take_bit_eq_mask [symmetric] unat_take_bit)
  have i: "unat (of_nat i :: u32) = i" using assms by (intro unat_of_nat32) linarith
  have s: "unat ((a AND mask 8) + of_nat i) = unat a mod 256 + i"
    using unat_add32 [of "a AND mask 8" "of_nat i"] lo i assms by simp
  have k: "unat (((a AND mask 8) + of_nat i) AND mask 8) = unat a mod 256 + i"
    using s assms by (simp add: take_bit_eq_mask [symmetric] unat_take_bit)
  have h: "unat (a AND NOT (mask 8)) = unat a - unat a mod 256"
    unfolding and_high_eq by (subst unat_sub) (simp_all add: word_le_nat_alt unat_take_bit)
  have "unat (a AND NOT (mask 8)) + unat (((a AND mask 8) + of_nat i) AND mask 8) = unat a + i"
    unfolding k h using mod_less_eq_dividend [of "unat a" 256] by linarith
  moreover have "unat a + i < 4294967296"
  proof -
    have "unat a div 256 < 16777216" using unat_bound32 [of a] by (intro less_mult_imp_div_less) simp
    then show ?thesis using assms mult_div_mod_eq [of 256 "unat a"] by linarith
  qed
  ultimately show ?thesis unfolding m using unat_add32 [of "a AND NOT (mask 8)"] by metis
qed

lemma program_commit:
  assumes st: "fstate d = W25Q_PROGRAM_DATA" "clocked d" "0 < page_len d" "unat (page_addr d) mod 256 + page_len d \<le> 256"
    "unat (page_addr d) + page_len d \<le> W25Q128_SIZE" and b: "status d AND 1 = 0"
  defines "e \<equiv> spi_cs_release d" and "A \<equiv> unat (page_addr d)"
  shows "fstate e = W25Q_IDLE" "clocked e"
    "fdata e = (\<lambda>x. if A \<le> x \<and> x < A + page_len d then fdata d x AND page_buf d (x - A) else fdata d x)"
proof -
  let ?g = "\<lambda>x. if A \<le> x \<and> x < A + page_len d then fdata d x AND page_buf d (x - A) else fdata d x"
  let ?base = "page_addr d AND NOT (W25Q128_PAGE_SIZE - 1)" and ?off = "page_addr d AND (W25Q128_PAGE_SIZE - 1)"
  have fold: "fold (\<lambda>i d. let addr = unat (?base + ((?off + of_nat i) AND (W25Q128_PAGE_SIZE - 1)))
      in if addr < W25Q128_SIZE then d\<lparr>fdata := (fdata d)(addr := fdata d addr AND page_buf d i)\<rparr> else d) [0..<page_len d] d
    = d\<lparr>fdata := ?g\<rparr>"
  proof (rule fold_program [where addr = "\<lambda>i. unat (?base + ((?off + of_nat i) AND (W25Q128_PAGE_SIZE - 1)))"])
    show "unat (?base + ((?off + of_nat i) AND (W25Q128_PAGE_SIZE - 1))) = A + i" if "i < page_len d" for i
      unfolding A_def by (rule page_address [OF st(4) that])
  qed (use st(5) in \<open>simp_all add: A_def Let_def\<close>)
  have "commit_page_program d =
      (start_busy 11200 (d\<lparr>fdata := ?g, status := status d AND NOT W25Q_STATUS_WEL\<rparr>))\<lparr>page_len := 0\<rparr>"
    unfolding commit_page_program_def Let_def using st(3) fold [unfolded Let_def] by simp
  then show "fstate e = W25Q_IDLE" "clocked e" "fdata e = ?g"
    using st by (simp_all add: e_def spi_cs_release_def w25q128_cs_deassert_def start_busy_def Let_def clocked_def split: option.splits)
qed

section \<open>Waiting ends\<close>

lemma is_busy_cases:
  obtains "is_busy d = (False, d)" "status d AND 1 = 0"
  | c where "is_busy d = (False, d\<lparr>status := status d AND NOT 1\<rparr>)" "cycle_count d = Some c" "busy_until d \<le> c"
  | "is_busy d = (True, d)" "\<And>c. cycle_count d = Some c \<Longrightarrow> c < busy_until d"
proof (cases "status d AND 1 = 0")
  case True
  then show thesis using that(1) by simp
next
  case False
  show thesis
  proof (cases "cycle_count d")
    case None
    then show thesis using that(3) False by (simp add: is_busy_def W25Q_STATUS_BUSY_def)
  next
    case (Some c)
    then show thesis using that(2) [of c] that(3) False
      by (cases "busy_until d \<le> c") (auto simp: is_busy_def W25Q_STATUS_BUSY_def)
  qed
qed

lemma status_byte:
  assumes st: "fstate d = W25Q_READ_STATUS" "clocked d"
  obtains (clear) e where "spi_byte b d = (status e, e)" "status e AND 1 = 0" "fstate e = W25Q_READ_STATUS" "fdata e = fdata d" "clocked e"
  | (again) "spi_byte b d = (status d, tick d)" "the (cycle_count d) + byte_cycles d < busy_until d"
proof (cases rule: is_busy_cases [of "tick d"])
  case 1
  then show thesis using clear [of "tick d"] st by (simp add: spi_byte_def w25q128_transfer_def)
next
  case (2 c)
  then show thesis
    using clear [of "(tick d)\<lparr>status := status d AND NOT 1\<rparr>"] st wel_bits(5) [of "status d"]
    by (simp add: spi_byte_def w25q128_transfer_def clocked_def)
next
  case 3
  then show thesis using again st by (auto simp: spi_byte_def w25q128_transfer_def clocked_def)
qed

lemma poll_busy_returns:
  assumes "fstate d = W25Q_READ_STATUS" "clocked d"
  shows "\<exists>e. poll_busy d = Some e \<and> fstate e = W25Q_READ_STATUS \<and> clocked e \<and> fdata e = fdata d \<and> status e AND 1 = 0"
  using assms
proof (induction "busy_until d - the (cycle_count d)" arbitrary: d rule: less_induct)
  case less
  from less.prems show ?case
  proof (cases rule: status_byte [where b = "0xFF"])
    case (clear e)
    then show ?thesis by (subst poll_busy.simps) simp
  next
    case again
    let ?t = "tick d"
    have t: "fstate ?t = W25Q_READ_STATUS" "clocked ?t" using less.prems by (simp_all add: clocked_def)
    have "busy_until ?t - the (cycle_count ?t) < busy_until d - the (cycle_count d)"
      using again(2) less.prems by (auto simp: clocked_def)
    from less.hyps [OF this t] obtain e where e: "poll_busy ?t = Some e" "fstate e = W25Q_READ_STATUS" "clocked e"
      "fdata e = fdata d" "status e AND 1 = 0" by auto
    show ?thesis
    proof (cases "status d AND 1 = 0")
      case True
      then show ?thesis using again(1) t by (subst poll_busy.simps) simp
    next
      case False
      then show ?thesis using again(1) e by (subst poll_busy.simps) simp
    qed
  qed
qed

lemma wait_busy_returns:
  assumes "fstate d = W25Q_IDLE" "clocked d"
  shows "\<exists>e. w25q_wait_busy d = Some e \<and> ready e \<and> fdata e = fdata d"
proof -
  let ?p = "spi_write [0x05] d"
  have p: "fstate ?p = W25Q_READ_STATUS \<and> clocked ?p \<and> fdata ?p = fdata d"
    using assms
    by (cases rule: is_busy_cases [of "tick d"])
      (auto simp: spi_byte_def w25q128_transfer_def idle_command_def clocked_def Let_def)
  then obtain e where e: "poll_busy ?p = Some e" "fstate e = W25Q_READ_STATUS" "clocked e" "fdata e = fdata d" "status e AND 1 = 0"
    using poll_busy_returns [of ?p] by auto
  have "ready (spi_cs_release e)" "fdata (spi_cs_release e) = fdata d"
    using e by (simp_all add: spi_cs_release_def w25q128_cs_deassert_def ready_def clocked_def)
  then show ?thesis using e(1) by (simp add: w25q_wait_busy_def)
qed

section \<open>What the driver does to the array\<close>

text \<open>
  The contract of \<open>drivers/flash.h\<close>: programming can only clear bits, erasing sets a sector to ones,
  reading has no restriction.
\<close>

definition nor_program :: "nat \<Rightarrow> u8 list \<Rightarrow> (nat \<Rightarrow> u8) \<Rightarrow> nat \<Rightarrow> u8" where
  "nor_program a xs f = (\<lambda>x. if a \<le> x \<and> x < a + length xs then f x AND xs ! (x - a) else f x)"

definition nor_erase :: "nat \<Rightarrow> (nat \<Rightarrow> u8) \<Rightarrow> nat \<Rightarrow> u8" where
  "nor_erase a f = (\<lambda>x. if a \<le> x \<and> x < a + 4096 then 0xFF else f x)"

lemma nor_program_append:
  "nor_program (a + length xs) ys (nor_program a xs f) = nor_program a (xs @ ys) f"
  by (auto simp: nor_program_def fun_eq_iff nth_append)

lemma unat_take24: "unat a < 16777216 \<Longrightarrow> unat (take_bit 24 (a :: u32)) = unat a"
  by (simp add: unat_take_bit)

lemma program_page:
  assumes r: "ready d" and n: "xs \<noteq> []" "unat a mod 256 + length xs \<le> 256" "unat a + length xs \<le> W25Q128_SIZE"
  defines "e \<equiv> spi_cs_release (spi_write xs (w25q_cmd_addr 0x02 a (w25q_write_enable d)))"
  shows "fstate e = W25Q_IDLE" "clocked e" "fdata e = nor_program (unat a) xs (fdata d)"
proof -
  let ?p = "w25q_cmd_addr 0x02 a (w25q_write_enable d)"
  note p = program_start [OF r, of a]
  have lt: "unat a < 16777216" using n by (cases xs) (auto simp: W25Q128_SIZE_def)
  have b: "status ?p AND 1 = 0" using p(4) r by (simp add: ready_def wel_bits)
  have pb: "page_len ?p + length xs \<le> 256" using n(2) p(3) by linarith
  note q = program_bytes [OF p(1) b pb p(6)]
  let ?q = "spi_write xs ?p"
  have q': "fstate ?q = W25Q_PROGRAM_DATA" "clocked ?q" "0 < page_len ?q" "unat (page_addr ?q) mod 256 + page_len ?q \<le> 256"
    "unat (page_addr ?q) + page_len ?q \<le> W25Q128_SIZE" "status ?q AND 1 = 0"
    using q p n b unat_take24 [OF lt] by simp_all
  note c = program_commit [OF q']
  show "fstate e = W25Q_IDLE" "clocked e" unfolding e_def by (rule c)+
  show "fdata e = nor_program (unat a) xs (fdata d)"
    unfolding e_def c(3) using q p unat_take24 [OF lt] by (auto simp: nor_program_def fun_eq_iff)
qed

lemma flash_nor_write_spec:
  assumes "ready d" "unat a + length xs \<le> W25Q128_SIZE"
  shows "\<exists>e. flash_nor_write a xs d = Some e \<and> ready e \<and> fdata e = nor_program (unat a) xs (fdata d)"
  using assms
proof (induction a xs d rule: flash_nor_write.induct)
  case (1 a xs d)
  show ?case
  proof (cases "xs = []")
    case True
    then show ?thesis using "1.prems" by (auto simp: flash_nor_write.simps nor_program_def fun_eq_iff)
  next
    case False
    let ?c = "page_chunk a (length xs)"
    let ?e = "spi_cs_release (spi_write (take ?c xs) (w25q_cmd_addr 0x02 a (w25q_write_enable d)))"
    have c: "0 < ?c" "?c \<le> length xs" "unat a mod 256 + ?c \<le> 256"
      using page_chunk_bounds [where n = "length xs" and a = a] False by simp_all
    have t: "take ?c xs \<noteq> []" "unat a mod 256 + length (take ?c xs) \<le> 256" "unat a + length (take ?c xs) \<le> W25Q128_SIZE"
      using c "1.prems"(2) False by simp_all
    note pp = program_page [OF "1.prems"(1) t]
    obtain e where e: "w25q_wait_busy ?e = Some e" "ready e" "fdata e = nor_program (unat a) (take ?c xs) (fdata d)"
      using wait_busy_returns [OF pp(1,2)] pp(3) by auto
    have ua: "unat (a + of_nat ?c) = unat a + ?c" if "drop ?c xs \<noteq> []"
    proof -
      have "unat a + ?c < 4294967296" using "1.prems"(2) that by (simp add: W25Q128_SIZE_def)
      moreover have "unat (of_nat ?c :: u32) = ?c" using c(3) by (intro unat_of_nat32) linarith
      ultimately show ?thesis using unat_add32 [of a "of_nat ?c"] by simp
    qed
    have step: "flash_nor_write a xs d = flash_nor_write (a + of_nat ?c) (drop ?c xs) e"
      using False e(1) by (subst flash_nor_write.simps) (simp add: Let_def)
    show ?thesis
    proof (cases "drop ?c xs = []")
      case True
      then have "take ?c xs = xs" using c(2) by simp
      then show ?thesis unfolding step using True e by (simp add: flash_nor_write.simps)
    next
      case d: False
      have "\<exists>g. flash_nor_write (a + of_nat ?c) (drop ?c xs) e = Some g \<and> ready g \<and>
          fdata g = nor_program (unat (a + of_nat ?c)) (drop ?c xs) (fdata e)"
        by (rule "1.IH" [OF False refl refl refl refl refl e(1) e(2)]) (use ua [OF d] c "1.prems"(2) in simp)
      then show ?thesis
        unfolding step ua [OF d] e(3) using nor_program_append [of "unat a" "take ?c xs" "drop ?c xs"] c(2) by simp
    qed
  qed
qed

lemma erase_command:
  assumes r: "ready d" and a: "unat a mod 4096 = 0" "unat a + 4096 \<le> W25Q128_SIZE"
  defines "e \<equiv> spi_cs_release (w25q_cmd_addr 0x20 a (w25q_write_enable d))"
  shows "fstate e = W25Q_IDLE" "clocked e" "fdata e = nor_erase (unat a) (fdata d)"
proof -
  let ?w = "w25q_write_enable d"
  have w: "fstate ?w = W25Q_IDLE" "status ?w AND 1 = 0" "status ?w = status d OR 2" "fdata ?w = fdata d" "clocked ?w"
    using r unfolding write_enable [OF r] by (simp_all add: ready_def wel_bits clocked_def)
  let ?c = "snd (spi_byte 0x20 ?w)"
  have c: "?c = (tick ?w)\<lparr>cmd := 0x20, faddr := 0, addr_bytes := 0, fstate := W25Q_ERASE_ADDR\<rparr>"
    unfolding spi_byte_idle [OF w(1,2)]
    by (simp add: idle_command_def Let_def W25Q_STATUS_WEL_def w(3) wel_bits(2))
  have p: "w25q_cmd_addr 0x20 a ?w = (commit_sector_erase (addr_sent a ?c))\<lparr>fstate := W25Q_IDLE\<rparr>"
    unfolding w25q_cmd_addr_def spi_write.simps(2) [of "0x20"]
    by (rule addr_bytes_erase) (use c w in simp_all)
  have lt: "unat a < 16777216" using a by (simp add: W25Q128_SIZE_def)
  have base: "unat (take_bit 24 a AND NOT (W25Q128_SECTOR_SIZE - 1)) = unat a"
  proof -
    have m: "W25Q128_SECTOR_SIZE - 1 = mask 12" by (simp add: W25Q128_SECTOR_SIZE_def mask_numeral)
    have "unat (b AND NOT (mask 12)) = unat b - unat b mod 4096" for b :: u32
      unfolding and_high_eq by (subst unat_sub) (simp_all add: word_le_nat_alt unat_take_bit)
    from this [of "take_bit 24 a"] show ?thesis unfolding m using unat_take24 [OF lt] a(1) by simp
  qed
  have "faddr (addr_sent a ?c) = take_bit 24 a" "fdata (addr_sent a ?c) = fdata d" "clocked (addr_sent a ?c)"
    using c w by (simp_all add: addr_sent_def clocked_def)
  then show "fstate e = W25Q_IDLE" "clocked e" "fdata e = nor_erase (unat a) (fdata d)"
    using base a(2) unfolding e_def p
    by (auto simp: spi_cs_release_def w25q128_cs_deassert_def commit_sector_erase_def start_busy_def Let_def
        clocked_def nor_erase_def W25Q128_SECTOR_SIZE_def fun_eq_iff split: option.splits)
qed

lemma flash_nor_erase_sector:
  assumes r: "ready d" and a: "unat a mod 4096 = 0" "unat a + 4096 \<le> W25Q128_SIZE"
  shows "\<exists>e. flash_nor_erase a 4096 d = Some e \<and> ready e \<and> fdata e = nor_erase (unat a) (fdata d)"
proof -
  note ec = erase_command [OF assms]
  obtain e where "w25q_wait_busy (spi_cs_release (w25q_cmd_addr 0x20 a (w25q_write_enable d))) = Some e" "ready e"
    "fdata e = nor_erase (unat a) (fdata d)"
    using wait_busy_returns [OF ec(1,2)] ec(3) by auto
  then show ?thesis
    by (simp add: flash_nor_erase.simps [of a 4096] flash_nor_erase.simps [of "a + 4096" 0] Let_def)
qed

lemma spi_read_data:
  assumes "fstate d = W25Q_READ_DATA" "status d AND 1 = 0" "unat (faddr d) + n \<le> W25Q128_SIZE" "clocked d"
  shows "fst (spi_read n d) = map (\<lambda>i. fdata d (unat (faddr d) + i)) [0..<n] \<and>
    fstate (snd (spi_read n d)) = W25Q_READ_DATA \<and> status (snd (spi_read n d)) = status d \<and>
    fdata (snd (spi_read n d)) = fdata d \<and> clocked (snd (spi_read n d))"
  using assms
proof (induction n arbitrary: d)
  case (Suc n)
  let ?e = "(tick d)\<lparr>faddr := faddr d + 1\<rparr>"
  have b: "spi_byte 0xFF d = (fdata d (unat (faddr d)), ?e)"
    using Suc.prems by (simp add: spi_byte_def w25q128_transfer_def read_data_def)
  have u: "n \<noteq> 0 \<Longrightarrow> unat (faddr d + 1) = unat (faddr d) + 1"
    using Suc.prems(3) unat_add32 [of "faddr d" 1] by (simp add: W25Q128_SIZE_def)
  have ex: "[0..<Suc n] = 0 # map Suc [0..<n]" by (simp add: map_Suc_upt upt_conv_Cons del: upt_Suc)
  show ?case
  proof (cases "n = 0")
    case True
    then show ?thesis using b Suc.prems by (simp add: clocked_def)
  next
    case False
    have "fstate ?e = W25Q_READ_DATA" "status ?e AND 1 = 0" "unat (faddr ?e) + n \<le> W25Q128_SIZE" "clocked ?e"
      using Suc.prems u [OF False] by (simp_all add: clocked_def)
    from Suc.IH [OF this] show ?thesis
      unfolding ex using b u [OF False] by (simp add: split_beta o_def)
  qed
qed simp

lemma flash_nor_read_spec:
  assumes r: "ready d" and a: "unat a + n \<le> W25Q128_SIZE" "unat a < W25Q128_SIZE"
  shows "\<exists>e. flash_nor_read a n d = (map (\<lambda>i. fdata d (unat a + i)) [0..<n], e) \<and> ready e \<and> fdata e = fdata d"
proof -
  let ?c = "snd (spi_byte 0x03 d)"
  have i: "fstate d = W25Q_IDLE" "status d AND 1 = 0" "clocked d" using r by (simp_all add: ready_def)
  have c: "?c = (tick d)\<lparr>cmd := 0x03, faddr := 0, addr_bytes := 0, fstate := W25Q_READ_ADDR\<rparr>"
    unfolding spi_byte_idle [OF i(1,2)] by (simp add: idle_command_def Let_def)
  let ?p = "w25q_cmd_addr 0x03 a d"
  have p: "?p = (addr_sent a ?c)\<lparr>fstate := W25Q_READ_DATA\<rparr>"
    unfolding w25q_cmd_addr_def spi_write.simps(2) [of "0x03"]
    by (rule addr_bytes_read) (use c i in simp_all)
  have f: "fstate ?p = W25Q_READ_DATA" "status ?p AND 1 = 0" "faddr ?p = take_bit 24 a" "fdata ?p = fdata d" "clocked ?p"
    "status ?p = status d"
    unfolding p using c i by (simp_all add: addr_sent_def clocked_def)
  have ua: "unat (faddr ?p) = unat a" using a(2) f(3) unat_take24 [of a] by (simp add: W25Q128_SIZE_def)
  have "unat (faddr ?p) + n \<le> W25Q128_SIZE" using ua a(1) by simp
  note rd = spi_read_data [OF f(1,2) this f(5)]
  then show ?thesis
    using f ua by (simp add: flash_nor_read_def Let_def split_beta spi_cs_release_def w25q128_cs_deassert_def ready_def clocked_def)
qed

lemma spi_read_jedec:
  assumes "fstate d = W25Q_JEDEC_ID" "status d AND 1 = 0" "clocked d"
  shows "fst (spi_read n d) = map (\<lambda>i. jedec_id (jedec_idx d + i)) [0..<n] \<and>
    fstate (snd (spi_read n d)) = W25Q_JEDEC_ID \<and> status (snd (spi_read n d)) = status d \<and>
    fdata (snd (spi_read n d)) = fdata d \<and> clocked (snd (spi_read n d))"
  using assms
proof (induction n arbitrary: d)
  case (Suc n)
  let ?e = "(tick d)\<lparr>jedec_idx := jedec_idx d + 1\<rparr>"
  have b: "spi_byte 0xFF d = (jedec_id (jedec_idx d), ?e)"
    using Suc.prems by (simp add: spi_byte_def w25q128_transfer_def)
  have ex: "[0..<Suc n] = 0 # map Suc [0..<n]" by (simp add: map_Suc_upt upt_conv_Cons del: upt_Suc)
  have "fstate ?e = W25Q_JEDEC_ID" "status ?e AND 1 = 0" "clocked ?e" using Suc.prems by (simp_all add: clocked_def)
  from Suc.IH [OF this] show ?case unfolding ex using b by (simp add: split_beta o_def)
qed simp

lemma flash_nor_init_ok:
  assumes "ready d"
  shows "fst (flash_nor_init d) = 0 \<and> ready (snd (flash_nor_init d)) \<and> fdata (snd (flash_nor_init d)) = fdata d"
proof -
  have i: "fstate d = W25Q_IDLE" "status d AND 1 = 0" "clocked d" using assms by (simp_all add: ready_def)
  define c where "c = snd (spi_byte 0x9F d)"
  have "c = (tick d)\<lparr>cmd := 0x9F, faddr := 0, addr_bytes := 0, fstate := W25Q_JEDEC_ID, jedec_idx := 0\<rparr>"
    unfolding c_def spi_byte_idle [OF i(1,2)] by (simp add: idle_command_def Let_def)
  then have c: "fstate c = W25Q_JEDEC_ID" "status c AND 1 = 0" "clocked c" "jedec_idx c = 0" "fdata c = fdata d"
    using i by (simp_all add: clocked_def)
  have ids: "map jedec_id [0..<3] = [0xEF, 0x40, 0x18]" by (simp add: jedec_id_def upt_rec)
  show ?thesis
    using spi_read_jedec [OF c(1-3), of 3] c ids
    by (simp add: flash_nor_init_def c_def [symmetric] Let_def split_beta spi_cs_release_def w25q128_cs_deassert_def
        ready_def clocked_def del: upt_rec_numeral)
qed

section \<open>Properties\<close>

text \<open>
  C31. On a ready chip of the simulator the driver's write returns (its page splitting and its busy
  polling end) and the array holds, at every address of the range, the old byte with the bits cleared
  that the data clears, and is unchanged elsewhere: no byte wraps inside a page and none is lost at a
  page boundary.
\<close>

theorem flash_write_programs_range:
  assumes "ready d" "unat a + length xs \<le> W25Q128_SIZE"
  shows "\<exists>e. flash_nor_write a xs d = Some e \<and> ready e \<and>
    fdata e = (\<lambda>x. if unat a \<le> x \<and> x < unat a + length xs then fdata d x AND xs ! (x - unat a) else fdata d x)"
  using flash_nor_write_spec [OF assms] unfolding nor_program_def .

definition chip_example :: w25q128 where
  "chip_example = \<lparr>fdata = (\<lambda>_. 0xFF), fstate = W25Q_IDLE, faddr = 0, addr_bytes = 0, status = 0, cmd = 0, jedec_idx = 0,
     page_buf = (\<lambda>_. 0), page_addr = 0, page_len = 0, cycle_count = Some 0, busy_until = 0, byte_cycles = 16\<rparr>"

lemma chip_example_ready: "ready chip_example"
  by (simp add: ready_def clocked_def chip_example_def)

theorem flash_write_programs_range_witness:
  "\<exists>e. flash_nor_write 254 [1, 2, 3, 4] chip_example = Some e \<and> ready e \<and>
    fdata e = (\<lambda>x. if 254 \<le> x \<and> x < 258 then fdata chip_example x AND [1, 2, 3, 4] ! (x - 254) else fdata chip_example x)"
  using flash_write_programs_range [OF chip_example_ready, of 254 "[1, 2, 3, 4]"] by (simp add: W25Q128_SIZE_def cong: if_cong)

text \<open>
  C32. Erase a sector, write into it, read it back: on a ready chip each call returns and the bytes
  read are the bytes written.
\<close>

theorem flash_erase_write_read:
  assumes "ready d" "unat s mod 4096 = 0" "unat s + 4096 \<le> W25Q128_SIZE" "unat s \<le> unat a" "unat a + length xs \<le> unat s + 4096" "xs \<noteq> []"
  shows "\<exists>e f g. flash_nor_erase s 4096 d = Some e \<and> flash_nor_write a xs e = Some f \<and>
    flash_nor_read a (length xs) f = (xs, g) \<and> ready g"
proof -
  obtain e where e: "flash_nor_erase s 4096 d = Some e" "ready e" "fdata e = nor_erase (unat s) (fdata d)"
    using flash_nor_erase_sector [OF assms(1-3)] by blast
  have la: "unat a + length xs \<le> W25Q128_SIZE" "unat a < W25Q128_SIZE" using assms by (cases xs; simp)+
  obtain f where f: "flash_nor_write a xs e = Some f" "ready f" "fdata f = nor_program (unat a) xs (fdata e)"
    using flash_nor_write_spec [OF e(2) la(1)] by blast
  obtain g where g: "flash_nor_read a (length xs) f = (map (\<lambda>i. fdata f (unat a + i)) [0..<length xs], g)" "ready g"
    using flash_nor_read_spec [OF f(2) la] by blast
  have ff: "0xFF AND x = x" for x :: u8
  proof -
    have "(0xFF :: u8) = -1" by simp
    then show ?thesis by (simp only: and.left_neutral)
  qed
  have "map (\<lambda>i. fdata f (unat a + i)) [0..<length xs] = xs"
    using assms(4,5) by (intro nth_equalityI) (auto simp: f(3) e(3) nor_program_def nor_erase_def ff)
  then show ?thesis using e f g by auto
qed

theorem flash_erase_write_read_witness:
  "\<exists>e f g. flash_nor_erase 4096 4096 chip_example = Some e \<and> flash_nor_write 4350 [1, 2, 3, 4] e = Some f \<and>
    flash_nor_read 4350 (length [1, 2, 3, 4 :: u8]) f = ([1, 2, 3, 4], g) \<and> ready g"
  by (rule flash_erase_write_read [OF chip_example_ready]) (simp_all add: W25Q128_SIZE_def)

end
