(* ===== verification/Tinyfs.thy ===== *)
theory Tinyfs
  imports Buffers W25q
begin

text \<open>
  The flat file system of the small kernel, \<open>rtos/fs/tinyfs.c\<close>, behind the dispatch layer
  \<open>rtos/fs/fs.c\<close>. The directory table is kept as the bytes it has in memory and on flash (15 entries of
  24 bytes: name, size, used, padding), so mounting reads them and flushing writes them. The flash is
  reached through the driver table \<open>struct flash_driver_api\<close> of \<open>drivers/flash.h\<close>, whose operations may
  fail to return (a busy loop), so every operation of the file system is an option. A file name is
  the list of its bytes without the final NUL. One mount point is modelled, as the static table
  allows.
\<close>

section \<open>The flash interface\<close>

record 'd flash_driver_api =
  fl_read :: "u32 \<Rightarrow> nat \<Rightarrow> 'd \<Rightarrow> (u8 list \<times> 'd) option"
  fl_write :: "u32 \<Rightarrow> u8 list \<Rightarrow> 'd \<Rightarrow> 'd option"
  fl_erase :: "u32 \<Rightarrow> nat \<Rightarrow> 'd \<Rightarrow> 'd option"

definition flash_nor_api :: "w25q128 flash_driver_api" where
  "flash_nor_api = \<lparr>fl_read = (\<lambda>a n d. Some (flash_nor_read a n d)), fl_write = flash_nor_write, fl_erase = flash_nor_erase\<rparr>"

section \<open>State\<close>

definition FS_MAX_NAME :: nat where "FS_MAX_NAME = 16"
definition FS_MAX_FILES :: nat where "FS_MAX_FILES = 15"
definition FS_SECTOR_SIZE :: u32 where "FS_SECTOR_SIZE = 4096"
definition DIR_SECTOR :: u32 where "DIR_SECTOR = 0"
definition DATA_SECTOR :: "u32 \<Rightarrow> u32" where "DATA_SECTOR i = i + 1"
definition ENTRY_SIZE :: nat where "ENTRY_SIZE = 24"
definition DIR_SIZE :: nat where "DIR_SIZE = FS_MAX_FILES * ENTRY_SIZE"

record 'd tinyfs =
  dir_table :: buffer
  flash :: 'd

record fs_file =
  findex :: u8
  foffset :: u32
  fopen :: bool

text \<open>The fields of \<open>struct dir_entry\<close> at their offsets in entry \<open>i\<close>.\<close>

definition de_size :: "buffer \<Rightarrow> nat \<Rightarrow> u32" where
  "de_size t i = get32 t (ENTRY_SIZE * i + 16)"

definition de_used :: "buffer \<Rightarrow> nat \<Rightarrow> u8" where
  "de_used t i = t (ENTRY_SIZE * i + 20)"

definition de_name :: "buffer \<Rightarrow> nat \<Rightarrow> u8 list" where
  "de_name t i = list_of t (ENTRY_SIZE * i) FS_MAX_NAME"

definition set_de_size :: "nat \<Rightarrow> u32 \<Rightarrow> buffer \<Rightarrow> buffer" where
  "set_de_size i v t = put32 (ENTRY_SIZE * i + 16) v t"

definition set_de_used :: "nat \<Rightarrow> u8 \<Rightarrow> buffer \<Rightarrow> buffer" where
  "set_de_used i v t = put8 (ENTRY_SIZE * i + 20) v t"

section \<open>Operations\<close>

fun streq :: "buffer \<Rightarrow> nat \<Rightarrow> u8 list \<Rightarrow> bool" where
  "streq f p [] \<longleftrightarrow> f p = 0"
| "streq f p (c # cs) \<longleftrightarrow> (if f p \<noteq> 0 \<and> c \<noteq> 0 then (if f p \<noteq> c then False else streq f (p + 1) cs) else f p = c)"

fun strcopy :: "buffer \<Rightarrow> nat \<Rightarrow> u8 list \<Rightarrow> nat \<Rightarrow> buffer" where
  "strcopy f p [] k = f(p := 0)"
| "strcopy f p (c # cs) 0 = f(p := 0)"
| "strcopy f p (c # cs) (Suc k) = (if c = 0 then f(p := 0) else strcopy (f(p := c)) (p + 1) cs k)"

definition dir_flush :: "'d flash_driver_api \<Rightarrow> 'd tinyfs \<Rightarrow> (int \<times> 'd tinyfs) option" where
  "dir_flush api s =
     do { d \<leftarrow> fl_erase api (DIR_SECTOR * FS_SECTOR_SIZE) (unat FS_SECTOR_SIZE) (flash s);
          d \<leftarrow> fl_write api (DIR_SECTOR * FS_SECTOR_SIZE) (list_of (dir_table s) 0 DIR_SIZE) d;
          Some (0, s\<lparr>flash := d\<rparr>) }"

definition clear_dir :: "buffer \<Rightarrow> buffer" where
  "clear_dir t = fold (\<lambda>i t. put8 (ENTRY_SIZE * i) 0 (set_de_size i 0 (set_de_used i 0 t))) [0..<FS_MAX_FILES] t"

definition tinyfs_mount :: "'d flash_driver_api \<Rightarrow> 'd tinyfs \<Rightarrow> (int \<times> 'd tinyfs) option" where
  "tinyfs_mount api s =
     do { (bs, d) \<leftarrow> fl_read api (DIR_SECTOR * FS_SECTOR_SIZE) DIR_SIZE (flash s);
          let s = s\<lparr>dir_table := mcpy (dir_table s) 0 (bytes_of bs) 0 DIR_SIZE, flash := d\<rparr>;
          if de_used (dir_table s) 0 = 0xFF
          then do { (_, s) \<leftarrow> dir_flush api (s\<lparr>dir_table := clear_dir (dir_table s)\<rparr>); Some (0, s) }
          else Some (0, s) }"

definition tinyfs_format :: "'d flash_driver_api \<Rightarrow> 'd tinyfs \<Rightarrow> (int \<times> 'd tinyfs) option" where
  "tinyfs_format api s =
     do { d \<leftarrow> fl_erase api (DIR_SECTOR * FS_SECTOR_SIZE) (unat FS_SECTOR_SIZE) (flash s);
          dir_flush api (s\<lparr>flash := d, dir_table := clear_dir (dir_table s)\<rparr>) }"

definition tinyfs_open :: "'d flash_driver_api \<Rightarrow> u8 list \<Rightarrow> fs_file \<Rightarrow> 'd tinyfs \<Rightarrow> (int \<times> fs_file \<times> 'd tinyfs) option" where
  "tinyfs_open api name fp s =
     (case find (\<lambda>i. de_used (dir_table s) i \<noteq> 0 \<and> streq (dir_table s) (ENTRY_SIZE * i) name) [0..<FS_MAX_FILES] of
        Some i \<Rightarrow> Some (0, fp\<lparr>findex := of_nat i, fopen := True\<rparr>, s)
      | None \<Rightarrow>
          (case find (\<lambda>i. de_used (dir_table s) i = 0) [0..<FS_MAX_FILES] of
             None \<Rightarrow> Some (-1, fp, s)
           | Some i \<Rightarrow>
               do { let t = strcopy (dir_table s) (ENTRY_SIZE * i) name (FS_MAX_NAME - 1);
                    (_, s) \<leftarrow> dir_flush api (s\<lparr>dir_table := set_de_used i 1 (set_de_size i 0 t)\<rparr>);
                    d \<leftarrow> fl_erase api (DATA_SECTOR (of_nat i) * FS_SECTOR_SIZE) (unat FS_SECTOR_SIZE) (flash s);
                    Some (0, fp\<lparr>findex := of_nat i, fopen := True\<rparr>, s\<lparr>flash := d\<rparr>) }))"

definition tinyfs_write :: "'d flash_driver_api \<Rightarrow> u8 list \<Rightarrow> fs_file \<Rightarrow> 'd tinyfs \<Rightarrow> (int \<times> fs_file \<times> 'd tinyfs) option" where
  "tinyfs_write api data fp s =
     (if \<not> fopen fp then Some (-1, fp, s)
      else (let off = DATA_SECTOR (ucast (findex fp)) * FS_SECTOR_SIZE + foffset fp;
                mx = FS_SECTOR_SIZE - foffset fp;
                len = (if length data > unat mx then unat mx else length data)
            in do { d \<leftarrow> fl_write api off (take len data) (flash s);
                    let s = s\<lparr>flash := d\<rparr>;
                    let fp = fp\<lparr>foffset := foffset fp + of_nat len\<rparr>;
                    if foffset fp > de_size (dir_table s) (unat (findex fp))
                    then do { (_, s) \<leftarrow> dir_flush api (s\<lparr>dir_table := set_de_size (unat (findex fp)) (foffset fp) (dir_table s)\<rparr>);
                              Some (int len, fp, s) }
                    else Some (int len, fp, s) }))"

definition tinyfs_read :: "'d flash_driver_api \<Rightarrow> nat \<Rightarrow> fs_file \<Rightarrow> 'd tinyfs \<Rightarrow> (int \<times> u8 list \<times> fs_file \<times> 'd tinyfs) option" where
  "tinyfs_read api len fp s =
     (if \<not> fopen fp then Some (-1, [], fp, s)
      else (let remaining = de_size (dir_table s) (unat (findex fp)) - foffset fp;
                len = (if len > unat remaining then unat remaining else len)
            in if len = 0 then Some (0, [], fp, s)
               else do { let off = DATA_SECTOR (ucast (findex fp)) * FS_SECTOR_SIZE + foffset fp;
                         (bs, d) \<leftarrow> fl_read api off len (flash s);
                         Some (int len, bs, fp\<lparr>foffset := foffset fp + of_nat len\<rparr>, s\<lparr>flash := d\<rparr>) }))"

definition tinyfs_close :: "fs_file \<Rightarrow> fs_file" where
  "tinyfs_close fp = fp\<lparr>fopen := False\<rparr>"

text \<open>The calls \<open>tinyfs_ls\<close> makes of its callback, in order: the name field of the entry and its size.\<close>

definition tinyfs_ls :: "'d tinyfs \<Rightarrow> (u8 list \<times> u32) list" where
  "tinyfs_ls s = map (\<lambda>i. (de_name (dir_table s) i, de_size (dir_table s) i)) (filter (\<lambda>i. de_used (dir_table s) i \<noteq> 0) [0..<FS_MAX_FILES])"

section \<open>The dispatch layer\<close>

record 'd fs_ops =
  op_mount :: "'d tinyfs \<Rightarrow> (int \<times> 'd tinyfs) option"
  op_format :: "'d tinyfs \<Rightarrow> (int \<times> 'd tinyfs) option"
  op_open :: "u8 list \<Rightarrow> fs_file \<Rightarrow> 'd tinyfs \<Rightarrow> (int \<times> fs_file \<times> 'd tinyfs) option"
  op_read :: "nat \<Rightarrow> fs_file \<Rightarrow> 'd tinyfs \<Rightarrow> (int \<times> u8 list \<times> fs_file \<times> 'd tinyfs) option"
  op_write :: "u8 list \<Rightarrow> fs_file \<Rightarrow> 'd tinyfs \<Rightarrow> (int \<times> fs_file \<times> 'd tinyfs) option"
  op_close :: "fs_file \<Rightarrow> fs_file"
  op_ls :: "'d tinyfs \<Rightarrow> (u8 list \<times> u32) list"

definition tinyfs_ops :: "'d flash_driver_api \<Rightarrow> 'd fs_ops" where
  "tinyfs_ops api = \<lparr>op_mount = tinyfs_mount api, op_format = tinyfs_format api, op_open = tinyfs_open api,
     op_read = tinyfs_read api, op_write = tinyfs_write api, op_close = tinyfs_close, op_ls = tinyfs_ls\<rparr>"

definition fs_mount :: "'d fs_ops \<Rightarrow> 'd tinyfs \<Rightarrow> (int \<times> bool \<times> 'd tinyfs) option" where
  "fs_mount ops s = do { (rc, s) \<leftarrow> op_mount ops s; Some (rc, rc = 0, s) }"

definition fs_format :: "'d fs_ops \<Rightarrow> 'd tinyfs \<Rightarrow> (int \<times> 'd tinyfs) option" where
  "fs_format ops s = op_format ops s"

definition fs_open :: "'d fs_ops \<Rightarrow> u8 list \<Rightarrow> fs_file \<Rightarrow> 'd tinyfs \<Rightarrow> (int \<times> fs_file \<times> 'd tinyfs) option" where
  "fs_open ops name fp s = op_open ops name (fp\<lparr>foffset := 0, fopen := False\<rparr>) s"

definition fs_read :: "'d fs_ops \<Rightarrow> nat \<Rightarrow> fs_file \<Rightarrow> 'd tinyfs \<Rightarrow> (int \<times> u8 list \<times> fs_file \<times> 'd tinyfs) option" where
  "fs_read ops len fp s = op_read ops len fp s"

definition fs_write :: "'d fs_ops \<Rightarrow> u8 list \<Rightarrow> fs_file \<Rightarrow> 'd tinyfs \<Rightarrow> (int \<times> fs_file \<times> 'd tinyfs) option" where
  "fs_write ops data fp s = op_write ops data fp s"

definition fs_rewind :: "fs_file \<Rightarrow> fs_file" where
  "fs_rewind fp = fp\<lparr>foffset := 0\<rparr>"

definition fs_close :: "'d fs_ops \<Rightarrow> fs_file \<Rightarrow> fs_file" where
  "fs_close ops fp = op_close ops fp"

definition fs_ls :: "'d fs_ops \<Rightarrow> 'd tinyfs \<Rightarrow> (u8 list \<times> u32) list" where
  "fs_ls ops s = op_ls ops s"

section \<open>Entries of the directory table\<close>

lemma strcopy_outside: "x < p \<or> p + k < x \<Longrightarrow> strcopy f p cs k x = f x"
  by (induction f p cs k rule: strcopy.induct) auto

definition new_entry :: "nat \<Rightarrow> u8 list \<Rightarrow> buffer \<Rightarrow> buffer" where
  "new_entry i name t = set_de_used i 1 (set_de_size i 0 (strcopy t (ENTRY_SIZE * i) name (FS_MAX_NAME - 1)))"

lemma entry_apart:
  assumes "i \<noteq> j" "k < 24" "l < 24"
  shows "24 * i + k \<noteq> 24 * j + (l :: nat)"
proof
  assume "24 * i + k = 24 * j + l"
  then have "(24 * i + k) div 24 = (24 * j + l) div 24" by simp
  then show False using assms by simp
qed

lemma new_entry_fields:
  "de_size (new_entry i name t) i = 0" "de_used (new_entry i name t) i = 1"
  "j \<noteq> i \<Longrightarrow> k < 24 \<Longrightarrow> new_entry i name t (24 * j + k) = t (24 * j + k)"
proof -
  show "de_size (new_entry i name t) i = 0" "de_used (new_entry i name t) i = 1"
    by (simp_all add: new_entry_def de_size_def de_used_def set_de_size_def set_de_used_def ENTRY_SIZE_def buf_simps)
  assume "j \<noteq> i" "k < 24"
  then have ne: "24 * j + k \<noteq> 24 * i + l" if "l < 24" for l using entry_apart [of j i k l] that by simp
  have "24 * j + k < 24 * i \<or> 24 * i + 15 < 24 * j + k"
    using ne [of "24 * j + k - 24 * i"] by fastforce
  then show "new_entry i name t (24 * j + k) = t (24 * j + k)"
    using ne [of 16] ne [of 17] ne [of 18] ne [of 19] ne [of 20]
    by (auto simp: new_entry_def set_de_size_def set_de_used_def ENTRY_SIZE_def FS_MAX_NAME_def put8_def put32_def strcopy_outside)
qed

lemma entry_fields_cong:
  assumes "\<And>k. k < 24 \<Longrightarrow> t (24 * j + k) = u (24 * j + k)"
  shows "de_size t j = de_size u j" "de_used t j = de_used u j"
  using assms [of 16] assms [of 17] assms [of 18] assms [of 19] assms [of 20]
  by (simp_all add: de_size_def de_used_def ENTRY_SIZE_def get32_def add.commute)

lemma set_size_fields:
  "de_size (set_de_size i v t) i = v" "de_used (set_de_size i v t) i = de_used t i"
  "j \<noteq> i \<Longrightarrow> k < 24 \<Longrightarrow> set_de_size i v t (24 * j + k) = t (24 * j + k)"
proof -
  show "de_size (set_de_size i v t) i = v" "de_used (set_de_size i v t) i = de_used t i"
    by (simp_all add: de_size_def de_used_def set_de_size_def ENTRY_SIZE_def buf_simps)
  assume "j \<noteq> i" "k < 24"
  then have ne: "24 * j + k \<noteq> 24 * i + l" if "l < 24" for l using entry_apart [of j i k l] that by simp
  show "set_de_size i v t (24 * j + k) = t (24 * j + k)"
    using ne [of 16] ne [of 17] ne [of 18] ne [of 19] by (simp add: set_de_size_def ENTRY_SIZE_def put32_def add.assoc)
qed

section \<open>The interface to the flash\<close>

text \<open>
  What the file system needs of a flash driver: calls return, reads give the cells, writes clear
  bits, erasing a sector sets it to ones.
\<close>

locale nor_flash =
  fixes api :: "'d flash_driver_api" and good :: "'d \<Rightarrow> bool" and cells :: "'d \<Rightarrow> nat \<Rightarrow> u8" and cap :: nat
  assumes cap: "16 * 4096 \<le> cap"
    and read_spec: "good d \<Longrightarrow> unat a + n \<le> cap \<Longrightarrow> unat a < cap \<Longrightarrow>
      \<exists>e. fl_read api a n d = Some (map (\<lambda>i. cells d (unat a + i)) [0..<n], e) \<and> good e \<and> cells e = cells d"
    and write_spec: "good d \<Longrightarrow> unat a + length xs \<le> cap \<Longrightarrow>
      \<exists>e. fl_write api a xs d = Some e \<and> good e \<and> cells e = nor_program (unat a) xs (cells d)"
    and erase_spec: "good d \<Longrightarrow> unat a mod 4096 = 0 \<Longrightarrow> unat a + 4096 \<le> cap \<Longrightarrow>
      \<exists>e. fl_erase api a 4096 d = Some e \<and> good e \<and> cells e = nor_erase (unat a) (cells d)"
begin

text \<open>Directory in step with flash; past the end of each file its sector is still erased.\<close>

definition fs_ok :: "'d tinyfs \<Rightarrow> bool" where
  "fs_ok s \<longleftrightarrow> good (flash s) \<and> (\<forall>x < 360. cells (flash s) x = dir_table s x) \<and>
     (\<forall>i < 15. de_used (dir_table s) i \<noteq> 0 \<longrightarrow> unat (de_size (dir_table s) i) \<le> 4096 \<and>
        (\<forall>k. unat (de_size (dir_table s) i) \<le> k \<and> k < 4096 \<longrightarrow> cells (flash s) (4096 * (i + 1) + k) = 0xFF))"

definition fcontent :: "'d tinyfs \<Rightarrow> nat \<Rightarrow> u8 list" where
  "fcontent s i = map (\<lambda>k. cells (flash s) (4096 * (i + 1) + k)) [0..<unat (de_size (dir_table s) i)]"

lemma ff_and: "0xFF AND x = (x :: u8)"
proof -
  have "(0xFF :: u8) = -1" by simp
  then show ?thesis by (simp only: and.left_neutral)
qed

lemma dir_flush_spec:
  assumes "good (flash s)"
  shows "\<exists>s'. dir_flush api s = Some (0, s') \<and> dir_table s' = dir_table s \<and> good (flash s') \<and>
    (\<forall>x. cells (flash s') x = (if x < 360 then dir_table s x else if x < 4096 then 0xFF else cells (flash s) x))"
proof -
  have z: "unat (DIR_SECTOR * FS_SECTOR_SIZE) = 0" by (simp add: DIR_SECTOR_def)
  have c: "0 + 4096 \<le> cap" "360 \<le> cap" using cap by simp_all
  obtain d where d: "fl_erase api (DIR_SECTOR * FS_SECTOR_SIZE) 4096 (flash s) = Some d" "good d" "cells d = nor_erase 0 (cells (flash s))"
    using erase_spec [OF assms, of "DIR_SECTOR * FS_SECTOR_SIZE"] c unfolding z by auto
  let ?b = "list_of (dir_table s) 0 DIR_SIZE"
  have l: "length ?b = 360" by (simp add: DIR_SIZE_def FS_MAX_FILES_def ENTRY_SIZE_def)
  obtain e where e: "fl_write api (DIR_SECTOR * FS_SECTOR_SIZE) ?b d = Some e" "good e" "cells e = nor_program 0 ?b (cells d)"
    using write_spec [OF d(2), of "DIR_SECTOR * FS_SECTOR_SIZE" ?b] c unfolding z l by auto
  have "cells e x = (if x < 360 then dir_table s x else if x < 4096 then 0xFF else cells (flash s) x)" for x
    unfolding e(3) d(3) nor_program_def l
    by (auto simp: nor_erase_def ff_and list_of_def DIR_SIZE_def FS_MAX_FILES_def ENTRY_SIZE_def)
  then show ?thesis using d e by (simp add: dir_flush_def FS_SECTOR_SIZE_def)
qed

lemma data_offset:
  assumes "i < 15" "k \<le> 4096"
  shows "unat (DATA_SECTOR (of_nat i) * FS_SECTOR_SIZE + of_nat k :: u32) = 4096 * (i + 1) + k"
proof -
  have "DATA_SECTOR (of_nat i) * FS_SECTOR_SIZE + of_nat k = (of_nat (4096 * (i + 1) + k) :: u32)"
    by (simp add: DATA_SECTOR_def FS_SECTOR_SIZE_def algebra_simps)
  moreover have "unat (of_nat (4096 * (i + 1) + k) :: u32) = 4096 * (i + 1) + k"
    using assms by (intro unat_of_nat32) simp
  ultimately show ?thesis by simp
qed

lemma sector_apart:
  assumes "i \<noteq> j" "k < 4096" "l < 4096"
  shows "4096 * (i + 1) + k \<noteq> 4096 * (j + 1) + (l :: nat)"
proof
  assume "4096 * (i + 1) + k = 4096 * (j + 1) + l"
  then have "(4096 * (i + 1) + k) div 4096 = (4096 * (j + 1) + l) div 4096" by (rule arg_cong)
  moreover have "(4096 * (i + 1) + k) div 4096 = i + 1" "(4096 * (j + 1) + l) div 4096 = j + 1" using assms by (simp_all only: div_mult_self4 div_less)
  ultimately show False using assms(1) by linarith
qed

lemma open_new:
  assumes ok: "fs_ok s"
    and none: "\<forall>i < 15. \<not> (de_used (dir_table s) i \<noteq> 0 \<and> streq (dir_table s) (24 * i) name)"
    and free: "i < 15" "de_used (dir_table s) i = 0" "\<forall>j < i. de_used (dir_table s) j \<noteq> 0"
  shows "\<exists>s'. tinyfs_open api name fp s = Some (0, fp\<lparr>findex := of_nat i, fopen := True\<rparr>, s') \<and> fs_ok s' \<and>
    dir_table s' = new_entry i name (dir_table s) \<and>
    (\<forall>j < 15. j \<noteq> i \<and> de_used (dir_table s) j \<noteq> 0 \<longrightarrow> fcontent s' j = fcontent s j)"
proof -
  let ?t = "new_entry i name (dir_table s)"
  have f1: "find (\<lambda>i. de_used (dir_table s) i \<noteq> 0 \<and> streq (dir_table s) (ENTRY_SIZE * i) name) [0..<FS_MAX_FILES] = None"
    unfolding find_upt_None using none by (simp add: ENTRY_SIZE_def FS_MAX_FILES_def)
  have f2: "find (\<lambda>i. de_used (dir_table s) i = 0) [0..<FS_MAX_FILES] = Some i"
    unfolding find_upt_Some using free by (simp add: FS_MAX_FILES_def)
  obtain s1 where s1: "dir_flush api (s\<lparr>dir_table := ?t\<rparr>) = Some (0, s1)" "dir_table s1 = ?t" "good (flash s1)"
    "\<And>x. cells (flash s1) x = (if x < 360 then ?t x else if x < 4096 then 0xFF else cells (flash s) x)"
    using dir_flush_spec [of "s\<lparr>dir_table := ?t\<rparr>"] ok by (auto simp: fs_ok_def)
  have ua: "unat (DATA_SECTOR (of_nat i) * FS_SECTOR_SIZE) = 4096 * (i + 1)" using data_offset [of i 0] free by simp
  have "4096 * (i + 1) + 4096 \<le> cap" using cap free(1) by simp
  then obtain d where d: "fl_erase api (DATA_SECTOR (of_nat i) * FS_SECTOR_SIZE) 4096 (flash s1) = Some d" "good d"
    "cells d = nor_erase (4096 * (i + 1)) (cells (flash s1))"
    using erase_spec [OF s1(3), of "DATA_SECTOR (of_nat i) * FS_SECTOR_SIZE"] unfolding ua by auto
  let ?s' = "s1\<lparr>flash := d\<rparr>"
  have op: "tinyfs_open api name fp s = Some (0, fp\<lparr>findex := of_nat i, fopen := True\<rparr>, ?s')"
    using f1 f2 s1(1) d(1) by (simp add: tinyfs_open_def new_entry_def FS_SECTOR_SIZE_def)
  have fields: "de_size ?t j = de_size (dir_table s) j" "de_used ?t j = de_used (dir_table s) j" if "j \<noteq> i" for j
    using entry_fields_cong [of ?t j "dir_table s"] new_entry_fields(3) [OF that] by simp_all
  have own: "cells d (4096 * (i + 1) + k) = 0xFF" if "k < 4096" for k
    using that by (simp add: d(3) nor_erase_def)
  have other: "cells d (4096 * (j + 1) + k) = cells (flash s) (4096 * (j + 1) + k)" if "j \<noteq> i" "k < 4096" for j k
  proof -
    have nx: "\<not> (4096 * (i + 1) \<le> 4096 * (j + 1) + k \<and> 4096 * (j + 1) + k < 4096 * (i + 1) + 4096)"
      using sector_apart [of j i k "4096 * (j + 1) + k - 4096 * (i + 1)"] that by auto
    show ?thesis unfolding d(3) nor_erase_def if_not_P [OF nx] s1(4) by simp
  qed
  have dirc: "cells d x = ?t x" if "x < 360" for x
    using that free(1) by (simp add: d(3) nor_erase_def s1(4))
  have "fs_ok ?s'"
    unfolding fs_ok_def
  proof (intro conjI allI impI)
    fix j assume j: "j < 15" "de_used (dir_table ?s') j \<noteq> 0"
    show "unat (de_size (dir_table ?s') j) \<le> 4096"
      using j ok fields [of j] s1(2) new_entry_fields(1) by (cases "j = i") (auto simp: fs_ok_def)
    fix k assume k: "unat (de_size (dir_table ?s') j) \<le> k \<and> k < 4096"
    show "cells (flash ?s') (4096 * (j + 1) + k) = 0xFF"
    proof (cases "j = i")
      case True
      then show ?thesis using own k by simp
    next
      case False
      then show ?thesis using other [OF False] k j ok fields [OF False] s1(2) by (simp add: fs_ok_def)
    qed
  qed (use d(2) dirc s1(2) in auto)
  moreover have "fcontent ?s' j = fcontent s j" if "j < 15" "j \<noteq> i" "de_used (dir_table s) j \<noteq> 0" for j
  proof -
    have "unat (de_size (dir_table s) j) \<le> 4096" using ok that by (simp add: fs_ok_def)
    then show ?thesis using fields [OF that(2)] s1(2) other [OF that(2)] by (simp add: fcontent_def)
  qed
  ultimately show ?thesis using op s1(2) by auto
qed

end

context nor_flash
begin

lemma write_at:
  fixes data :: "u8 list"
  assumes ok: "fs_ok s" and i: "i < 15" "de_used (dir_table s) i \<noteq> 0" and fp: "fopen fp" "findex fp = of_nat i"
    and o: "unat (foffset fp) \<le> unat (de_size (dir_table s) i)"
  defines "p \<equiv> unat (foffset fp)" and "len \<equiv> min (length data) (4096 - unat (foffset fp))"
  shows "\<exists>s'. tinyfs_write api data fp s = Some (int len, fp\<lparr>foffset := of_nat (p + len)\<rparr>, s') \<and> fs_ok s' \<and>
    de_used (dir_table s') i = de_used (dir_table s) i \<and>
    unat (de_size (dir_table s') i) = max (unat (de_size (dir_table s) i)) (p + len) \<and>
    (\<forall>k < 4096. cells (flash s') (4096 * (i + 1) + k) =
       (if p \<le> k \<and> k < p + len then cells (flash s) (4096 * (i + 1) + k) AND data ! (k - p) else cells (flash s) (4096 * (i + 1) + k))) \<and>
    (\<forall>j < 15. j \<noteq> i \<and> de_used (dir_table s) j \<noteq> 0 \<longrightarrow> fcontent s' j = fcontent s j \<and> de_used (dir_table s') j \<noteq> 0)"
proof -
  have sz: "unat (de_size (dir_table s) i) \<le> 4096" using ok i by (simp add: fs_ok_def)
  have p: "p \<le> 4096" "of_nat p = foffset fp" using o sz by (simp_all add: p_def)
  have ui: "unat (findex fp) = i" using i(1) by (simp add: fp(2) unsigned_of_nat take_bit_nat_eq_self)
  have idx: "(ucast (findex fp) :: u32) = of_nat i"
    using ui i(1) by (simp add: word_unat_eq_iff unsigned_ucast_eq unat_of_nat32 take_bit_nat_eq_self)
  have mx: "unat (FS_SECTOR_SIZE - foffset fp) = 4096 - p"
    using p(1) by (subst unat_sub) (simp_all add: FS_SECTOR_SIZE_def word_le_nat_alt p_def)
  have len: "(if length data > unat (FS_SECTOR_SIZE - foffset fp) then unat (FS_SECTOR_SIZE - foffset fp) else length data) = len"
    unfolding mx by (simp add: len_def p_def)
  have le: "p + len \<le> 4096" "length (take len data) = len" using p(1) by (simp_all add: len_def p_def)
  let ?off = "DATA_SECTOR (ucast (findex fp)) * FS_SECTOR_SIZE + foffset fp"
  have uo: "unat ?off = 4096 * (i + 1) + p" using data_offset [OF i(1) p(1)] unfolding idx p(2) by simp
  have "unat ?off + length (take len data) \<le> cap" unfolding uo le(2) using le(1) i(1) cap by simp
  then obtain d where d: "fl_write api ?off (take len data) (flash s) = Some d" "good d"
    "cells d = nor_program (4096 * (i + 1) + p) (take len data) (cells (flash s))"
    using write_spec [of "flash s" ?off "take len data"] ok unfolding uo by (auto simp: fs_ok_def)
  have foff: "foffset fp + of_nat len = of_nat (p + len)" "unat (of_nat (p + len) :: u32) = p + len"
    using p(2) le(1) by (simp_all add: unat_of_nat32 del: of_nat_add) simp
  have sec: "cells d (4096 * (j + 1) + k) = (if j = i \<and> p \<le> k \<and> k < p + len then cells (flash s) (4096 * (j + 1) + k) AND data ! (k - p)
      else cells (flash s) (4096 * (j + 1) + k))" if "k < 4096" for j k
  proof (cases "j = i")
    case True
    then show ?thesis unfolding d(3) nor_program_def le(2) by auto
  next
    case False
    have nx: "\<not> (4096 * (i + 1) + p \<le> 4096 * (j + 1) + k \<and> 4096 * (j + 1) + k < 4096 * (i + 1) + p + len)"
      using sector_apart [of j i k "4096 * (j + 1) + k - 4096 * (i + 1)"] False that le(1) by auto
    show ?thesis unfolding d(3) nor_program_def le(2) if_not_P [OF nx] using False by simp
  qed
  have low: "cells d x = cells (flash s) x" if "x < 4096" for x using that by (simp add: d(3) nor_program_def)
  define T where "T = (if foffset fp + of_nat len > de_size (dir_table s) i then set_de_size i (foffset fp + of_nat len) (dir_table s) else dir_table s)"
  have T: "unat (de_size T i) = max (unat (de_size (dir_table s) i)) (p + len)" "de_used T i = de_used (dir_table s) i"
    using foff by (auto simp: T_def set_size_fields word_less_nat_alt max_def)
  have Tj: "de_size T j = de_size (dir_table s) j" "de_used T j = de_used (dir_table s) j" if "j \<noteq> i" for j
    using entry_fields_cong [of "set_de_size i (foffset fp + of_nat len) (dir_table s)" j "dir_table s"] set_size_fields(3) [OF that]
    by (simp_all add: T_def)
  obtain s' where s': "tinyfs_write api data fp s = Some (int len, fp\<lparr>foffset := of_nat (p + len)\<rparr>, s')" "dir_table s' = T"
    "good (flash s')" "\<And>x. x < 360 \<Longrightarrow> cells (flash s') x = T x" "\<And>x. 4096 \<le> x \<Longrightarrow> cells (flash s') x = cells d x"
  proof (cases "foffset fp + of_nat len > de_size (dir_table s) i")
    case True
    let ?s = "s\<lparr>flash := d, dir_table := set_de_size i (foffset fp + of_nat len) (dir_table s)\<rparr>"
    obtain s1 where s1: "dir_flush api ?s = Some (0, s1)" "dir_table s1 = dir_table ?s" "good (flash s1)"
      "\<forall>x. cells (flash s1) x = (if x < 360 then dir_table ?s x else if x < 4096 then 0xFF else cells (flash ?s) x)"
      using dir_flush_spec [of ?s] d(2) by auto
    have "tinyfs_write api data fp s = Some (int len, fp\<lparr>foffset := of_nat (p + len)\<rparr>, s1)"
      using fp(1) d(1) s1(1) True foff(1) unfolding tinyfs_write_def Let_def len by (simp add: ui)
    then show thesis using that [of s1] s1 True by (auto simp: T_def)
  next
    case False
    have "tinyfs_write api data fp s = Some (int len, fp\<lparr>foffset := of_nat (p + len)\<rparr>, s\<lparr>flash := d\<rparr>)"
      using fp(1) d(1) False foff(1) unfolding tinyfs_write_def Let_def len by (simp add: ui)
    then show thesis using that [of "s\<lparr>flash := d\<rparr>"] d(2) False ok low by (auto simp: T_def fs_ok_def)
  qed
  have cells': "cells (flash s') (4096 * (j + 1) + k) = cells d (4096 * (j + 1) + k)" for j k by (rule s'(5)) simp
  have okj: "unat (de_size T j) \<le> 4096 \<and> (\<forall>k. unat (de_size T j) \<le> k \<and> k < 4096 \<longrightarrow> cells (flash s') (4096 * (j + 1) + k) = 0xFF)"
    if "j < 15" "de_used T j \<noteq> 0" for j
  proof (cases "j = i")
    case True
    have "cells (flash s') (4096 * (i + 1) + k) = 0xFF" if "unat (de_size T i) \<le> k" "k < 4096" for k
    proof -
      have "\<not> k < p + len" using that(1) T(1) by simp
      then have "cells (flash s') (4096 * (i + 1) + k) = cells (flash s) (4096 * (i + 1) + k)"
        using sec [OF that(2), of i] cells' [of i k] by simp
      then show ?thesis using that T(1) ok i by (simp add: fs_ok_def)
    qed
    then show ?thesis using True sz le(1) T(1) by simp
  next
    case False
    then show ?thesis using that ok Tj [OF False] cells' sec [of _ j] by (auto simp: fs_ok_def)
  qed
  have "fs_ok s'" unfolding fs_ok_def using s'(2-4) okj by simp
  moreover have "fcontent s' j = fcontent s j \<and> de_used (dir_table s') j \<noteq> 0" if "j < 15" "j \<noteq> i" "de_used (dir_table s) j \<noteq> 0" for j
  proof -
    have "unat (de_size (dir_table s) j) \<le> 4096" using ok that by (simp add: fs_ok_def)
    then show ?thesis
      unfolding fcontent_def s'(2) cells' using Tj [OF that(2)] that(2,3) sec [of _ j] by simp
  qed
  moreover have "\<forall>k < 4096. cells (flash s') (4096 * (i + 1) + k) =
       (if p \<le> k \<and> k < p + len then cells (flash s) (4096 * (i + 1) + k) AND data ! (k - p) else cells (flash s) (4096 * (i + 1) + k))"
    using sec [of _ i] cells' [of i] by simp
  ultimately show ?thesis using s'(1,2) T by auto
qed

end

context nor_flash
begin

lemma read_at:
  assumes ok: "fs_ok s" and i: "i < 15" "de_used (dir_table s) i \<noteq> 0" and fp: "fopen fp" "findex fp = of_nat i"
    and o: "unat (foffset fp) \<le> unat (de_size (dir_table s) i)"
  defines "p \<equiv> unat (foffset fp)"
  shows "\<exists>fp' s'. tinyfs_read api n fp s = Some (int (min n (length (fcontent s i) - p)), take n (drop p (fcontent s i)), fp', s')"
proof -
  let ?sz = "unat (de_size (dir_table s) i)"
  have sz: "?sz \<le> 4096" using ok i by (simp add: fs_ok_def)
  have p: "p \<le> 4096" "of_nat p = foffset fp" using o sz by (simp_all add: p_def)
  have ui: "unat (findex fp) = i" using i(1) by (simp add: fp(2) unsigned_of_nat take_bit_nat_eq_self)
  have idx: "(ucast (findex fp) :: u32) = of_nat i"
    using ui i(1) by (simp add: word_unat_eq_iff unsigned_ucast_eq unat_of_nat32 take_bit_nat_eq_self)
  have lc: "length (fcontent s i) = ?sz" by (simp add: fcontent_def)
  have rem: "unat (de_size (dir_table s) i - foffset fp) = ?sz - p"
    using o by (subst unat_sub) (simp_all add: word_le_nat_alt p_def)
  define len where "len = min n (?sz - p)"
  have len: "(if n > unat (de_size (dir_table s) i - foffset fp) then unat (de_size (dir_table s) i - foffset fp) else n) = len"
    unfolding rem by (simp add: len_def)
  have cont: "take n (drop p (fcontent s i)) = map (\<lambda>k. cells (flash s) (4096 * (i + 1) + p + k)) [0..<len]"
    by (rule nth_equalityI) (auto simp: fcontent_def len_def add.assoc)
  show ?thesis
  proof (cases "len = 0")
    case True
    then show ?thesis using fp(1) cont lc unfolding tinyfs_read_def Let_def ui len by (simp add: len_def)
  next
    case False
    let ?off = "DATA_SECTOR (ucast (findex fp)) * FS_SECTOR_SIZE + foffset fp"
    have uo: "unat ?off = 4096 * (i + 1) + p" using data_offset [OF i(1) p(1)] unfolding idx p(2) by simp
    have "p + len \<le> 4096" using sz o by (simp add: len_def p_def)
    then have "unat ?off + len \<le> cap" "unat ?off < cap" unfolding uo using i(1) cap False by simp_all
    then obtain d where "fl_read api ?off len (flash s) = Some (map (\<lambda>k. cells (flash s) (4096 * (i + 1) + p + k)) [0..<len], d)"
      using read_spec [of "flash s" ?off len] ok unfolding uo by (auto simp: fs_ok_def)
    then show ?thesis using fp(1) False cont lc unfolding tinyfs_read_def Let_def ui len by (simp add: len_def)
  qed
qed

lemma mount_again:
  assumes ok: "fs_ok s" and u: "de_used (dir_table s) 0 \<noteq> 0xFF"
  shows "\<exists>s'. tinyfs_mount api (s\<lparr>dir_table := junk\<rparr>) = Some (0, s') \<and> (\<forall>x < 360. dir_table s' x = dir_table s x) \<and>
    cells (flash s') = cells (flash s) \<and> good (flash s')"
proof -
  have z: "unat (DIR_SECTOR * FS_SECTOR_SIZE) = 0" by (simp add: DIR_SECTOR_def)
  have ds: "DIR_SIZE = 360" by (simp add: DIR_SIZE_def FS_MAX_FILES_def ENTRY_SIZE_def)
  obtain d where d: "fl_read api (DIR_SECTOR * FS_SECTOR_SIZE) 360 (flash s) = Some (map (cells (flash s)) [0..<360], d)" "good d"
    "cells d = cells (flash s)"
    using read_spec [of "flash s" "DIR_SECTOR * FS_SECTOR_SIZE" 360] ok cap unfolding z by (auto simp: fs_ok_def)
  let ?t = "mcpy junk 0 (bytes_of (map (cells (flash s)) [0..<360])) 0 360"
  have t: "?t x = dir_table s x" if "x < 360" for x
    using that ok by (simp add: mcpy_apply bytes_of_def fs_ok_def)
  have "de_used ?t 0 = de_used (dir_table s) 0" using t by (simp add: de_used_def)
  then have "tinyfs_mount api (s\<lparr>dir_table := junk\<rparr>) = Some (0, s\<lparr>dir_table := ?t, flash := d\<rparr>)"
    using d(1) u unfolding tinyfs_mount_def ds by (simp add: Let_def del: upt_rec_numeral)
  then show ?thesis using t d by auto
qed

text \<open>Create a file, write it, rewind, read.\<close>

lemma create_write_read:
  assumes ok: "fs_ok s" and none: "\<forall>i < 15. \<not> (de_used (dir_table s) i \<noteq> 0 \<and> streq (dir_table s) (24 * i) name)"
    and free: "i < 15" "de_used (dir_table s) i = 0" "\<forall>j < i. de_used (dir_table s) j \<noteq> 0"
    and xs: "length xs \<le> 4096" "length xs \<le> n"
  shows "\<exists>f1 s1 f2 s2 f3 s3. fs_open (tinyfs_ops api) name fp s = Some (0, f1, s1) \<and>
    fs_write (tinyfs_ops api) xs f1 s1 = Some (int (length xs), f2, s2) \<and>
    fs_read (tinyfs_ops api) n (fs_rewind f2) s2 = Some (int (length xs), xs, f3, s3) \<and> fs_ok s2 \<and>
    de_used (dir_table s2) i = 1 \<and>
    (\<forall>j < 15. j \<noteq> i \<and> de_used (dir_table s) j \<noteq> 0 \<longrightarrow> fcontent s2 j = fcontent s j)"
proof -
  let ?f1 = "fp\<lparr>foffset := 0, fopen := True, findex := of_nat i\<rparr>"
  obtain s1 where s1: "tinyfs_open api name (fp\<lparr>foffset := 0, fopen := False\<rparr>) s = Some (0, ?f1, s1)" "fs_ok s1"
    "dir_table s1 = new_entry i name (dir_table s)"
    "\<forall>j < 15. j \<noteq> i \<and> de_used (dir_table s) j \<noteq> 0 \<longrightarrow> fcontent s1 j = fcontent s j"
    using open_new [OF ok none free, of "fp\<lparr>foffset := 0, fopen := False\<rparr>"] by auto
  have e1: "de_used (dir_table s1) i = 1" "de_size (dir_table s1) i = 0" by (simp_all add: s1(3) new_entry_fields)
  have used1: "de_used (dir_table s1) j = de_used (dir_table s) j" if "j \<noteq> i" for j
    using entry_fields_cong(2) [of "dir_table s1" j "dir_table s"] new_entry_fields(3) [OF that] by (simp add: s1(3))
  let ?f2 = "?f1\<lparr>foffset := of_nat (length xs)\<rparr>"
  obtain s2 where s2: "tinyfs_write api xs ?f1 s1 = Some (int (length xs), ?f2, s2)" "fs_ok s2"
    "de_used (dir_table s2) i = 1" "unat (de_size (dir_table s2) i) = length xs"
    "\<forall>k < 4096. cells (flash s2) (4096 * (i + 1) + k) =
      (if k < length xs then cells (flash s1) (4096 * (i + 1) + k) AND xs ! k else cells (flash s1) (4096 * (i + 1) + k))"
    "\<forall>j < 15. j \<noteq> i \<and> de_used (dir_table s1) j \<noteq> 0 \<longrightarrow> fcontent s2 j = fcontent s1 j"
    using write_at [OF s1(2) free(1), of ?f1 xs] e1 xs(1) by auto
  have "cells (flash s1) (4096 * (i + 1) + k) = 0xFF" if "k < 4096" for k
    using s1(2) free(1) e1 that by (simp add: fs_ok_def)
  then have "fcontent s2 i = xs"
    unfolding fcontent_def s2(4) using s2(5) xs(1) by (intro nth_equalityI) (auto simp: ff_and simp del: mult_Suc_right)
  then have "\<exists>f3 s3. tinyfs_read api n (fs_rewind ?f2) s2 = Some (int (length xs), xs, f3, s3)"
    using read_at [OF s2(2) free(1), of "fs_rewind ?f2" n] s2(3) xs(2) by (auto simp: fs_rewind_def min_def)
  then show ?thesis
    using s1 s2 used1 by (auto simp: fs_open_def fs_write_def fs_read_def tinyfs_ops_def)
qed

end

interpretation w25q: nor_flash flash_nor_api ready fdata W25Q128_SIZE
proof
  show "16 * 4096 \<le> W25Q128_SIZE" by (simp add: W25Q128_SIZE_def)
  show "\<exists>e. fl_read flash_nor_api a n d = Some (map (\<lambda>i. fdata d (unat a + i)) [0..<n], e) \<and> ready e \<and> fdata e = fdata d"
    if "ready d" "unat a + n \<le> W25Q128_SIZE" "unat a < W25Q128_SIZE" for d a n
    using flash_nor_read_spec [OF that] by (simp add: flash_nor_api_def)
  show "\<exists>e. fl_write flash_nor_api a xs d = Some e \<and> ready e \<and> fdata e = nor_program (unat a) xs (fdata d)"
    if "ready d" "unat a + length xs \<le> W25Q128_SIZE" for d a xs
    using flash_nor_write_spec [OF that] by (simp add: flash_nor_api_def)
  show "\<exists>e. fl_erase flash_nor_api a 4096 d = Some e \<and> ready e \<and> fdata e = nor_erase (unat a) (fdata d)"
    if "ready d" "unat a mod 4096 = 0" "unat a + 4096 \<le> W25Q128_SIZE" for d a
    using flash_nor_erase_sector [OF that] by (simp add: flash_nor_api_def)
qed

section \<open>Names\<close>

lemma streq_cong: "(\<And>k. k \<le> length cs \<Longrightarrow> f (p + k) = g (q + k)) \<Longrightarrow> streq f p cs = streq g q cs"
proof (induction cs arbitrary: p q)
  case Nil
  then show ?case using Nil [of 0] by simp
next
  case (Cons c cs)
  have "f p = g q" using Cons.prems [of 0] by simp
  moreover have "streq f (p + 1) cs = streq g (q + 1) cs"
    using Cons.prems [of "Suc k" for k] by (intro Cons.IH) simp
  ultimately show ?case by simp
qed

lemma streq_strcopy:
  assumes "0 \<notin> set name"
  shows "streq (strcopy f p name k) p name \<longleftrightarrow> length name \<le> k"
  using assms
proof (induction f p name k rule: strcopy.induct)
  case (3 f p c cs k)
  have "strcopy (f(p := c)) (p + 1) cs k p = c" using strcopy_outside [of p "p + 1"] by simp
  then show ?case using 3 by (simp add: fun_upd_def)
qed auto

lemma streq_stops: "k < length cs \<Longrightarrow> g (p + k) = 0 \<Longrightarrow> 0 \<notin> set cs \<Longrightarrow> \<not> streq g p cs"
proof (induction cs arbitrary: p k)
  case (Cons c cs)
  then show ?case by (cases k) auto
qed simp

lemma strcopy_end: "k \<le> length cs \<Longrightarrow> 0 \<notin> set cs \<Longrightarrow> strcopy f p cs k (p + k) = 0"
proof (induction f p cs k rule: strcopy.induct)
  case (3 f p c cs k)
  then show ?case by (simp add: fun_upd_def)
qed auto

lemma new_entry_name:
  assumes "0 \<notin> set name"
  shows "streq (new_entry i name t) (24 * i) name \<longleftrightarrow> length name \<le> 15"
proof -
  let ?u = "strcopy t (24 * i) name 15"
  have same: "new_entry i name t (24 * i + k) = ?u (24 * i + k)" if "k \<le> 15" for k
    using that by (simp add: new_entry_def set_de_size_def set_de_used_def ENTRY_SIZE_def FS_MAX_NAME_def put8_def put32_def)
  show ?thesis
  proof (cases "length name \<le> 15")
    case True
    then have "streq (new_entry i name t) (24 * i) name = streq ?u (24 * i) name"
      by (intro streq_cong same) simp
    then show ?thesis using streq_strcopy [OF assms, of t "24 * i" 15] True by simp
  next
    case False
    then have "new_entry i name t (24 * i + 15) = 0" using same [of 15] strcopy_end [of 15 name t "24 * i"] assms by simp
    then show ?thesis using streq_stops [of 15 name "new_entry i name t" "24 * i"] False assms by simp
  qed
qed

section \<open>Properties\<close>

text \<open>
  A file system in good order on a ready chip: the directory in memory is the one on flash, and each
  file's sector is erased beyond the end of the file. The bytes of file \<open>i\<close> are those of its sector up
  to its size.
\<close>

definition tiny_ok :: "w25q128 tinyfs \<Rightarrow> bool" where
  "tiny_ok s \<longleftrightarrow> ready (flash s) \<and> (\<forall>x < 360. fdata (flash s) x = dir_table s x) \<and>
     (\<forall>i < 15. de_used (dir_table s) i \<noteq> 0 \<longrightarrow> unat (de_size (dir_table s) i) \<le> 4096 \<and>
        (\<forall>k. unat (de_size (dir_table s) i) \<le> k \<and> k < 4096 \<longrightarrow> fdata (flash s) (4096 * (i + 1) + k) = 0xFF))"

definition file_bytes :: "w25q128 tinyfs \<Rightarrow> nat \<Rightarrow> u8 list" where
  "file_bytes s i = map (\<lambda>k. fdata (flash s) (4096 * (i + 1) + k)) [0..<unat (de_size (dir_table s) i)]"

lemma tiny_ok_eq: "w25q.fs_ok = tiny_ok" "w25q.fcontent = file_bytes"
  by (simp_all add: fun_eq_iff w25q.fs_ok_def tiny_ok_def w25q.fcontent_def file_bytes_def)

abbreviation ops :: "w25q128 fs_ops" where
  "ops \<equiv> tinyfs_ops flash_nor_api"

definition tiny_example :: "buffer \<Rightarrow> (nat \<Rightarrow> u8) \<Rightarrow> w25q128 tinyfs" where
  "tiny_example t f = \<lparr>dir_table = t, flash = chip_example\<lparr>fdata := (\<lambda>x. if x < 360 then t x else f x)\<rparr>\<rparr>"

definition empty_dir :: "w25q128 tinyfs" where
  "empty_dir = tiny_example (\<lambda>_. 0) (\<lambda>_. 0xFF)"

definition two_bytes :: "w25q128 tinyfs" where
  "two_bytes = tiny_example ((\<lambda>_. 0)(16 := 2, 20 := 1)) ((\<lambda>_. 0xFF)(4096 := 0xF0, 4097 := 0x3C))"

lemma empty_dir_ok: "tiny_ok empty_dir" "de_used (dir_table empty_dir) i = 0"
  by (simp_all add: tiny_ok_def empty_dir_def tiny_example_def de_used_def ready_def clocked_def chip_example_def)

lemma two_bytes_ok:
  "tiny_ok two_bytes" "de_used (dir_table two_bytes) 0 = 1" "file_bytes two_bytes 0 = [0xF0, 0x3C]"
proof -
  have sz: "de_size (dir_table two_bytes) 0 = 2"
    by (simp add: de_size_def two_bytes_def tiny_example_def get32_def ENTRY_SIZE_def)
  show u: "de_used (dir_table two_bytes) 0 = 1" by (simp add: de_used_def two_bytes_def tiny_example_def ENTRY_SIZE_def)
  have u': "de_used (dir_table two_bytes) i = 0" if "i \<noteq> 0" for i
    using that by (simp add: de_used_def two_bytes_def tiny_example_def ENTRY_SIZE_def)
  have r: "ready (flash two_bytes)" by (simp add: two_bytes_def tiny_example_def ready_def clocked_def chip_example_def)
  have ff: "fdata (flash two_bytes) (4096 + k) = 0xFF" if "2 \<le> k" "k < 4096" for k
    using that by (simp add: two_bytes_def tiny_example_def)
  have d: "fdata (flash two_bytes) x = dir_table two_bytes x" if "x < 360" for x
    using that by (simp add: two_bytes_def tiny_example_def)
  show "tiny_ok two_bytes"
    unfolding tiny_ok_def
  proof (intro conjI allI impI)
    fix i assume "de_used (dir_table two_bytes) i \<noteq> 0"
    then have i: "i = 0" using u' by blast
    show "unat (de_size (dir_table two_bytes) i) \<le> 4096" using sz i by simp
    show "fdata (flash two_bytes) (4096 * (i + 1) + k) = 0xFF" if "unat (de_size (dir_table two_bytes) i) \<le> k \<and> k < 4096" for k
      using ff [of k] that sz i by simp
  qed (simp_all add: r d)
  show "file_bytes two_bytes 0 = [0xF0, 0x3C]"
    unfolding file_bytes_def sz by (simp add: upt_rec two_bytes_def tiny_example_def)
qed

text \<open>
  C11. A new file keeps what is written: on a file system in good order with a free entry and no file
  of that name, opening the name, writing at most a sector, rewinding and reading gives the same
  bytes back; every call returns, the file system stays in good order and no other file changes.
\<close>

theorem tinyfs_create_write_read:
  assumes "tiny_ok s" "\<forall>i < 15. \<not> (de_used (dir_table s) i \<noteq> 0 \<and> streq (dir_table s) (24 * i) name)"
    and "i < 15" "de_used (dir_table s) i = 0" "\<forall>j < i. de_used (dir_table s) j \<noteq> 0"
    and "length xs \<le> 4096" "length xs \<le> n"
  shows "\<exists>f1 s1 f2 s2 f3 s3. fs_open ops name fp s = Some (0, f1, s1) \<and>
    fs_write ops xs f1 s1 = Some (int (length xs), f2, s2) \<and>
    fs_read ops n (fs_rewind f2) s2 = Some (int (length xs), xs, f3, s3) \<and> tiny_ok s2 \<and>
    (\<forall>j < 15. j \<noteq> i \<and> de_used (dir_table s) j \<noteq> 0 \<longrightarrow> file_bytes s2 j = file_bytes s j)"
  using w25q.create_write_read [unfolded tiny_ok_eq, OF assms, of fp] by blast

theorem tinyfs_create_write_read_witness:
  "\<exists>f1 s1 f2 s2 f3 s3. fs_open ops [0x61] \<lparr>findex = 0, foffset = 7, fopen = False\<rparr> empty_dir = Some (0, f1, s1) \<and>
    fs_write ops [1, 2, 3] f1 s1 = Some (int (length [1, 2, 3 :: u8]), f2, s2) \<and>
    fs_read ops 10 (fs_rewind f2) s2 = Some (int (length [1, 2, 3 :: u8]), [1, 2, 3], f3, s3) \<and> tiny_ok s2 \<and>
    (\<forall>j < 15. j \<noteq> 0 \<and> de_used (dir_table empty_dir) j \<noteq> 0 \<longrightarrow> file_bytes s2 j = file_bytes empty_dir j)"
  by (rule tinyfs_create_write_read [OF empty_dir_ok(1)]) (simp_all add: empty_dir_ok(2))

text \<open>
  C33. A directory survives a restart: whatever the memory holds, mounting a file system in good order
  (whose first entry is not the unformatted mark) restores every byte of the directory table, so the
  listing shows the same names and sizes in the same order and every file has the bytes it had.
\<close>

theorem tinyfs_mount_restores:
  assumes "tiny_ok s" "de_used (dir_table s) 0 \<noteq> 0xFF"
  shows "\<exists>s'. fs_mount ops (s\<lparr>dir_table := junk\<rparr>) = Some (0, True, s') \<and> tiny_ok s' \<and> (\<forall>x < 360. dir_table s' x = dir_table s x) \<and>
    fs_ls ops s' = fs_ls ops s \<and> (\<forall>i < 15. file_bytes s' i = file_bytes s i)"
proof -
  obtain s' where s': "tinyfs_mount flash_nor_api (s\<lparr>dir_table := junk\<rparr>) = Some (0, s')"
    "\<forall>x < 360. dir_table s' x = dir_table s x" "fdata (flash s') = fdata (flash s)" "ready (flash s')"
    using w25q.mount_again [unfolded tiny_ok_eq, OF assms] by blast
  have e: "de_size (dir_table s') i = de_size (dir_table s) i" "de_used (dir_table s') i = de_used (dir_table s) i" if "i < 15" for i
    using entry_fields_cong [of "dir_table s'" i "dir_table s"] s'(2) that by simp_all
  have "tiny_ok s'" using assms(1) s' e by (auto simp: tiny_ok_def)
  moreover have "tinyfs_ls s' = tinyfs_ls s"
  proof -
    have "filter (\<lambda>i. de_used (dir_table s') i \<noteq> 0) [0..<15] = filter (\<lambda>i. de_used (dir_table s) i \<noteq> 0) [0..<15]"
      by (rule filter_cong [OF refl]) (use e in auto)
    moreover have "de_name (dir_table s') i = de_name (dir_table s) i" if "i < 15" for i
      using s'(2) that by (simp add: de_name_def list_of_def ENTRY_SIZE_def FS_MAX_NAME_def)
    ultimately show ?thesis unfolding tinyfs_ls_def FS_MAX_FILES_def using e by (auto intro: map_cong)
  qed
  moreover have "file_bytes s' i = file_bytes s i" if "i < 15" for i
    using e [OF that] s'(3) by (simp add: file_bytes_def)
  ultimately show ?thesis using s'(1,2) by (simp add: fs_mount_def fs_ls_def tinyfs_ops_def)
qed

theorem tinyfs_mount_restores_witness:
  "\<exists>s'. fs_mount ops (two_bytes\<lparr>dir_table := (\<lambda>_. 0xAA)\<rparr>) = Some (0, True, s') \<and> tiny_ok s' \<and>
    (\<forall>x < 360. dir_table s' x = dir_table two_bytes x) \<and> fs_ls ops s' = fs_ls ops two_bytes \<and> (\<forall>i < 15. file_bytes s' i = file_bytes two_bytes i)"
  by (rule tinyfs_mount_restores) (simp_all add: two_bytes_ok)

text \<open>
  C39. Writing over existing bytes does not replace them: the sector is not erased first, so a byte
  written where the file already has one becomes the bitwise conjunction of the two.
\<close>

theorem tinyfs_overwrite_ands:
  assumes "tiny_ok s" "i < 15" "de_used (dir_table s) i \<noteq> 0" "fopen fp" "findex fp = of_nat i" "foffset fp = 0"
    and "length ys = length (file_bytes s i)"
  shows "\<exists>f' s'. fs_write ops ys fp s = Some (int (length ys), f', s') \<and> tiny_ok s' \<and>
    file_bytes s' i = map2 (\<lambda>x y. x AND y) (file_bytes s i) ys"
proof -
  have l: "length ys = unat (de_size (dir_table s) i)" using assms(7) by (simp add: file_bytes_def)
  then have le: "length ys \<le> 4096" using assms(1-3) by (simp add: tiny_ok_def)
  obtain s' where s': "tinyfs_write flash_nor_api ys fp s = Some (int (length ys), fp\<lparr>foffset := of_nat (length ys)\<rparr>, s')" "tiny_ok s'"
    "unat (de_size (dir_table s') i) = length ys"
    "\<forall>k < 4096. fdata (flash s') (4096 * (i + 1) + k) =
       (if k < length ys then fdata (flash s) (4096 * (i + 1) + k) AND ys ! k else fdata (flash s) (4096 * (i + 1) + k))"
    using w25q.write_at [unfolded tiny_ok_eq, OF assms(1-5), of ys] assms(6) le l by auto
  have "file_bytes s' i = map2 (\<lambda>x y. x AND y) (file_bytes s i) ys"
    unfolding file_bytes_def s'(3) l [symmetric] using s'(4) le
    by (intro nth_equalityI) (auto simp del: mult_Suc_right)
  then show ?thesis using s' by (simp add: fs_write_def tinyfs_ops_def)
qed

theorem tinyfs_overwrite_ands_witness:
  "\<exists>f' s'. fs_write ops [0x0F, 0x0F] \<lparr>findex = 0, foffset = 0, fopen = True\<rparr> two_bytes =
      Some (int (length [0x0F, 0x0F :: u8]), f', s') \<and> tiny_ok s' \<and> file_bytes s' 0 = [0, 0x0C]"
  using tinyfs_overwrite_ands [of two_bytes 0 "\<lparr>findex = 0, foffset = 0, fopen = True\<rparr>" "[0x0F, 0x0F]"]
  by (simp add: two_bytes_ok)

end
