(* ===== verification/Membus.thy ===== *)
theory Membus
  imports Buffers
begin

text \<open>
  The memory bus of the machine simulator (\<open>sim/src/core/membus.c\<close>, \<open>membus.h\<close>). A bus is a table
  of at most 32 regions, each backed by a host array (flash, RAM) or by the read and write callbacks
  of a device, and three layers of speed-up over the scan of that table: fast paths for RAM and
  flash, a direct-mapped cache of the last region seen per index (\<open>tlb\<close>) and a table indexed by
  the upper twelve address bits (\<open>hash\<close>). The state \<open>'d\<close> of the devices is a parameter; pointers to
  regions are their indices in the table; host arrays are named by numbers, so that a region and a
  fast path that use the same array share it. A host access outside its array, or through a null
  pointer, is undefined behaviour of the C program: it is recorded in \<open>host_fault\<close> and the contents
  after it are not meaningful.

  The theory shows that the accesses through the fast paths, the cache and the table give what the
  plain scan of the regions gives.
\<close>

section \<open>The bus\<close>

definition MAX_REGIONS :: nat where "MAX_REGIONS = 32"
definition MEMBUS_FLASH_BASE :: u32 where "MEMBUS_FLASH_BASE = 0x08000000"
definition MEMBUS_FLASH_SIZE :: u32 where "MEMBUS_FLASH_SIZE = 512 * 1024"
definition MEMBUS_RAM_BASE :: u32 where "MEMBUS_RAM_BASE = 0x20000000"
definition MEMBUS_RAM_SIZE :: u32 where "MEMBUS_RAM_SIZE = 128 * 1024"
definition MEMBUS_HASH_SIZE :: nat where "MEMBUS_HASH_SIZE = 2 ^ 12"

text \<open>\<open>TLB_INDEX\<close>: the address bits folded to twelve.\<close>

definition TLB_INDEX :: "u32 \<Rightarrow> nat" where
  "TLB_INDEX addr = unat ((drop_bit 12 addr XOR drop_bit 20 addr) AND 0xFFF)"

text \<open>The callbacks of a device: \<open>mem_read_fn\<close> and \<open>mem_write_fn\<close> on the state of the devices.\<close>

type_synonym 'd mem_read_fn = "'d \<Rightarrow> u32 \<Rightarrow> u32 \<times> 'd"
type_synonym 'd mem_write_fn = "'d \<Rightarrow> u32 \<Rightarrow> u32 \<Rightarrow> 'd"

record 'd mem_region =
  base :: u32
  rsize :: u32
  read_fn :: "'d mem_read_fn option"
  write_fn :: "'d mem_write_fn option"
  direct :: "nat option"
  read_only :: bool

record 'd membus =
  regions :: "'d mem_region list"
  hash :: "nat \<Rightarrow> nat option"
  tlb :: "nat \<Rightarrow> nat option"
  flash_ptr :: "nat option"
  ram_ptr :: "nat option"
  warned :: "u32 list"
  arrays :: "nat \<Rightarrow> buffer"
  array_len :: "nat \<Rightarrow> nat"
  devs :: 'd
  host_fault :: bool

text \<open>\<open>membus_init\<close>: all zero. The host arrays and the devices are not part of the structure.\<close>

definition membus_init :: "'d membus \<Rightarrow> 'd membus" where
  "membus_init b = b\<lparr>regions := [], hash := (\<lambda>_. None), tlb := (\<lambda>_. None),
     flash_ptr := None, ram_ptr := None\<rparr>"

text \<open>
  \<open>hash_insert\<close>: the loop runs from \<open>lo\<close> to \<open>hi\<close>, both below 4096 as they are 32-bit values shifted
  right by 20, and fills the empty entries.
\<close>

definition hash_insert :: "'d mem_region \<Rightarrow> nat \<Rightarrow> 'd membus \<Rightarrow> 'd membus" where
  "hash_insert r ri b =
     (let lo = unat (drop_bit 20 (base r)); hi = unat (drop_bit 20 (base r + rsize r - 1))
      in b\<lparr>hash := fold (\<lambda>i h. if h i = None then h(i := Some ri) else h)
             [lo..<min (hi + 1) MEMBUS_HASH_SIZE] (hash b)\<rparr>)"

definition add_region :: "'d mem_region \<Rightarrow> 'd membus \<Rightarrow> 'd membus" where
  "add_region r b =
     (let b = b\<lparr>regions := regions b @ [r]\<rparr>;
          b = hash_insert r (length (regions b) - 1) b
      in b\<lparr>tlb := (\<lambda>_. None)\<rparr>)"

definition membus_register ::
    "u32 \<Rightarrow> u32 \<Rightarrow> 'd mem_read_fn option \<Rightarrow> 'd mem_write_fn option \<Rightarrow> 'd membus \<Rightarrow> 'd membus" where
  "membus_register rbase sz rd wr b =
     (if MAX_REGIONS \<le> length (regions b) then b
      else add_region \<lparr>base = rbase, rsize = sz, read_fn = rd, write_fn = wr, direct = None, read_only = False\<rparr> b)"

definition membus_register_ram :: "u32 \<Rightarrow> u32 \<Rightarrow> nat \<Rightarrow> bool \<Rightarrow> 'd membus \<Rightarrow> 'd membus" where
  "membus_register_ram rbase sz data ro b =
     (if MAX_REGIONS \<le> length (regions b) then b
      else (let b = add_region \<lparr>base = rbase, rsize = sz, read_fn = None, write_fn = None,
                                direct = Some data, read_only = ro\<rparr> b;
                b = (if rbase = MEMBUS_FLASH_BASE then b\<lparr>flash_ptr := Some data\<rparr> else b)
            in if rbase = MEMBUS_RAM_BASE then b\<lparr>ram_ptr := Some data\<rparr> else b))"

section \<open>Looking up a region\<close>

definition in_region :: "u32 \<Rightarrow> 'd mem_region \<Rightarrow> bool" where
  "in_region addr r \<longleftrightarrow> base r \<le> addr \<and> addr < base r + rsize r"

fun scan_regions :: "u32 \<Rightarrow> 'd mem_region list \<Rightarrow> nat \<Rightarrow> nat option" where
  "scan_regions addr [] i = None"
| "scan_regions addr (r # rs) i = (if in_region addr r then Some i else scan_regions addr rs (i + 1))"

definition find_region_slow :: "'d membus \<Rightarrow> u32 \<Rightarrow> nat option" where
  "find_region_slow b addr =
     (case hash b (unat (drop_bit 20 addr)) of
        Some i \<Rightarrow> if in_region addr (regions b ! i) then Some i else scan_regions addr (regions b) 0
      | None \<Rightarrow> scan_regions addr (regions b) 0)"

definition find_region_tlb :: "'d membus \<Rightarrow> u32 \<Rightarrow> nat option \<times> 'd membus" where
  "find_region_tlb b addr =
     (let miss = (case find_region_slow b addr of
                    Some i \<Rightarrow> (Some i, b\<lparr>tlb := (tlb b)(TLB_INDEX addr := Some i)\<rparr>)
                  | None \<Rightarrow> (None, b))
      in case tlb b (TLB_INDEX addr) of
           Some i \<Rightarrow> if in_region addr (regions b ! i) then (Some i, b) else miss
         | None \<Rightarrow> miss)"

text \<open>\<open>warn_unmapped\<close>: the first sixteen pages warned about are remembered; the message goes to the
  host's standard error.\<close>

definition warn_unmapped :: "u32 \<Rightarrow> 'd membus \<Rightarrow> 'd membus" where
  "warn_unmapped addr b =
     (let page = addr AND 0xFFFFF000
      in if page \<in> set (warned b) \<or> 16 \<le> length (warned b) then b
         else b\<lparr>warned := warned b @ [page]\<rparr>)"

section \<open>Accesses\<close>

text \<open>A load or a store of \<open>n\<close> bytes at an offset of a host array.\<close>

definition host_load :: "(buffer \<Rightarrow> nat \<Rightarrow> 'v::zero) \<Rightarrow> nat \<Rightarrow> nat option \<Rightarrow> nat \<Rightarrow> 'd membus \<Rightarrow> 'v \<times> 'd membus" where
  "host_load get n p off b =
     (case p of
        None \<Rightarrow> (0, b\<lparr>host_fault := True\<rparr>)
      | Some a \<Rightarrow> (get (arrays b a) off, b\<lparr>host_fault := host_fault b \<or> array_len b a < off + n\<rparr>))"

definition host_store :: "(nat \<Rightarrow> buffer \<Rightarrow> buffer) \<Rightarrow> nat \<Rightarrow> nat option \<Rightarrow> nat \<Rightarrow> 'd membus \<Rightarrow> 'd membus" where
  "host_store put n p off b =
     (case p of
        None \<Rightarrow> b\<lparr>host_fault := True\<rparr>
      | Some a \<Rightarrow> b\<lparr>arrays := (arrays b)(a := put off (arrays b a)),
                     host_fault := host_fault b \<or> array_len b a < off + n\<rparr>)"

text \<open>What an access does once its region is known: the part after \<open>find_region_tlb\<close>.\<close>

definition region_read ::
    "(buffer \<Rightarrow> nat \<Rightarrow> 'v::zero) \<Rightarrow> nat \<Rightarrow> (u32 \<Rightarrow> 'v) \<Rightarrow> bool \<Rightarrow> nat option \<Rightarrow> u32 \<Rightarrow> 'd membus \<Rightarrow> 'v \<times> 'd membus" where
  "region_read get n conv warns ri addr b =
     (let unmapped = (0, if warns then warn_unmapped addr b else b)
      in case ri of
           None \<Rightarrow> unmapped
         | Some i \<Rightarrow>
             (let r = regions b ! i
              in case direct r of
                   Some a \<Rightarrow> host_load get n (Some a) (unat (addr - base r)) b
                 | None \<Rightarrow> (case read_fn r of
                      Some f \<Rightarrow> (case f (devs b) (addr - base r) of (v, d) \<Rightarrow> (conv v, b\<lparr>devs := d\<rparr>))
                    | None \<Rightarrow> unmapped)))"

definition region_write ::
    "(nat \<Rightarrow> buffer \<Rightarrow> buffer) \<Rightarrow> nat \<Rightarrow> u32 \<Rightarrow> bool \<Rightarrow> nat option \<Rightarrow> u32 \<Rightarrow> 'd membus \<Rightarrow> 'd membus" where
  "region_write put n val warns ri addr b =
     (let unmapped = (if warns then warn_unmapped addr b else b)
      in case ri of
           None \<Rightarrow> unmapped
         | Some i \<Rightarrow>
             (let r = regions b ! i
              in case direct r of
                   Some a \<Rightarrow> if read_only r then b else host_store put n (Some a) (unat (addr - base r)) b
                 | None \<Rightarrow> (case write_fn r of
                      Some f \<Rightarrow> b\<lparr>devs := f (devs b) (addr - base r) val\<rparr>
                    | None \<Rightarrow> unmapped)))"

text \<open>The body the three reads and the three writes share, at the width of the access.\<close>

definition bus_read ::
    "(buffer \<Rightarrow> nat \<Rightarrow> 'v::zero) \<Rightarrow> nat \<Rightarrow> (u32 \<Rightarrow> 'v) \<Rightarrow> bool \<Rightarrow> 'd membus \<Rightarrow> u32 \<Rightarrow> 'v \<times> 'd membus" where
  "bus_read get n conv warns b addr =
     (if addr - MEMBUS_RAM_BASE < MEMBUS_RAM_SIZE
      then host_load get n (ram_ptr b) (unat (addr - MEMBUS_RAM_BASE)) b
      else if addr - MEMBUS_FLASH_BASE < MEMBUS_FLASH_SIZE
      then host_load get n (flash_ptr b) (unat (addr - MEMBUS_FLASH_BASE)) b
      else (case find_region_tlb b addr of (ri, b) \<Rightarrow> region_read get n conv warns ri addr b))"

definition bus_write ::
    "(nat \<Rightarrow> buffer \<Rightarrow> buffer) \<Rightarrow> nat \<Rightarrow> u32 \<Rightarrow> bool \<Rightarrow> 'd membus \<Rightarrow> u32 \<Rightarrow> 'd membus" where
  "bus_write put n val warns b addr =
     (if addr - MEMBUS_RAM_BASE < MEMBUS_RAM_SIZE
      then host_store put n (ram_ptr b) (unat (addr - MEMBUS_RAM_BASE)) b
      else (case find_region_tlb b addr of (ri, b) \<Rightarrow> region_write put n val warns ri addr b))"

definition get8 :: "buffer \<Rightarrow> nat \<Rightarrow> u8" where
  "get8 f p = f p"

definition membus_read32 :: "'d membus \<Rightarrow> u32 \<Rightarrow> u32 \<times> 'd membus" where
  "membus_read32 = bus_read get32 4 id True"

definition membus_write32 :: "'d membus \<Rightarrow> u32 \<Rightarrow> u32 \<Rightarrow> 'd membus" where
  "membus_write32 b addr val = bus_write (\<lambda>p. put32 p val) 4 val True b addr"

definition membus_read16 :: "'d membus \<Rightarrow> u32 \<Rightarrow> u16 \<times> 'd membus" where
  "membus_read16 = bus_read get16 2 ucast False"

definition membus_write16 :: "'d membus \<Rightarrow> u32 \<Rightarrow> u16 \<Rightarrow> 'd membus" where
  "membus_write16 b addr val = bus_write (\<lambda>p. put16 p val) 2 (ucast val) False b addr"

definition membus_read8 :: "'d membus \<Rightarrow> u32 \<Rightarrow> u8 \<times> 'd membus" where
  "membus_read8 = bus_read get8 1 ucast False"

definition membus_write8 :: "'d membus \<Rightarrow> u32 \<Rightarrow> u8 \<Rightarrow> 'd membus" where
  "membus_write8 b addr val = bus_write (\<lambda>p. put8 p val) 1 (ucast val) False b addr"

lemmas membus_access_defs = membus_read32_def membus_read16_def membus_read8_def
  membus_write32_def membus_write16_def membus_write8_def

section \<open>The lookup is the scan\<close>

text \<open>Every bus: set up by registrations, then accessed.\<close>

inductive bus_reach :: "'d membus \<Rightarrow> bool" where
  init: "bus_reach (membus_init b)"
| register: "bus_reach b \<Longrightarrow> bus_reach (membus_register rbase sz rd wr b)"
| register_ram: "bus_reach b \<Longrightarrow> bus_reach (membus_register_ram rbase sz data ro b)"
| read32: "bus_reach b \<Longrightarrow> bus_reach (snd (membus_read32 b addr))"
| read16: "bus_reach b \<Longrightarrow> bus_reach (snd (membus_read16 b addr))"
| read8: "bus_reach b \<Longrightarrow> bus_reach (snd (membus_read8 b addr))"
| write32: "bus_reach b \<Longrightarrow> bus_reach (membus_write32 b addr v32)"
| write16: "bus_reach b \<Longrightarrow> bus_reach (membus_write16 b addr v16)"
| write8: "bus_reach b \<Longrightarrow> bus_reach (membus_write8 b addr v8)"

text \<open>Pointers into the region table are in range, and the fast-path pointers are those of a region.\<close>

definition fast_inv :: "nat option \<Rightarrow> u32 \<Rightarrow> 'd mem_region list \<Rightarrow> bool" where
  "fast_inv p rbase rs \<longleftrightarrow>
     (\<forall>a. p = Some a \<longrightarrow> (\<exists>r \<in> set rs. base r = rbase \<and> direct r = Some a)) \<and>
     (\<forall>r \<in> set rs. base r = rbase \<and> direct r \<noteq> None \<longrightarrow> p \<noteq> None)"

definition bus_inv :: "'d membus \<Rightarrow> bool" where
  "bus_inv b \<longleftrightarrow>
     (\<forall>k i. tlb b k = Some i \<longrightarrow> i < length (regions b)) \<and>
     (\<forall>k i. hash b k = Some i \<longrightarrow> i < length (regions b)) \<and>
     fast_inv (ram_ptr b) MEMBUS_RAM_BASE (regions b) \<and> fast_inv (flash_ptr b) MEMBUS_FLASH_BASE (regions b)"

lemma fast_inv_other: "fast_inv p rbase rs \<Longrightarrow> base r = rbase \<longrightarrow> direct r = None \<Longrightarrow> fast_inv p rbase (rs @ [r])"
  by (auto simp: fast_inv_def)

lemma fast_inv_new: "base r = rbase \<Longrightarrow> direct r = Some a \<Longrightarrow> fast_inv (Some a) rbase (rs @ [r])"
  by (auto simp: fast_inv_def)

lemma hash_fill: "fold (\<lambda>i h. if h i = None then h(i := Some ri) else h) is h k = Some j \<Longrightarrow> h k = Some j \<or> j = ri"
proof (induction "is" arbitrary: h)
  case (Cons a xs)
  show ?case
  proof (cases "h a = None")
    case True
    then have "(h(a \<mapsto> ri)) k = Some j \<or> j = ri" using Cons.IH [of "h(a \<mapsto> ri)"] Cons.prems by (simp add: fun_upd_def)
    then show ?thesis by (auto split: if_splits)
  next
    case False
    then obtain y where "h a = Some y" by auto
    then show ?thesis using Cons.IH [of h] Cons.prems by simp
  qed
qed simp

lemma add_region_fields [simp]:
  "regions (add_region r b) = regions b @ [r]" "tlb (add_region r b) = (\<lambda>_. None)"
  "flash_ptr (add_region r b) = flash_ptr b" "ram_ptr (add_region r b) = ram_ptr b"
  by (simp_all add: add_region_def hash_insert_def Let_def)

lemma add_region_hash: "hash (add_region r b) k = Some j \<Longrightarrow> hash b k = Some j \<or> j = length (regions b)"
  by (auto simp: add_region_def hash_insert_def Let_def dest!: hash_fill)

lemma add_region_hash_range:
  assumes "bus_inv b" "hash (add_region r b) k = Some j"
  shows "j < Suc (length (regions b))"
  using add_region_hash [OF assms(2)] assms(1) by (auto simp: bus_inv_def less_Suc_eq)

lemma register_inv:
  assumes "bus_inv b"
  shows "bus_inv (membus_register rbase sz rd wr b)"
  using assms add_region_hash_range [OF assms]
  by (simp add: membus_register_def bus_inv_def fast_inv_other)

lemma register_ram_inv:
  assumes "bus_inv b"
  shows "bus_inv (membus_register_ram rbase sz data ro b)"
proof -
  have "MEMBUS_RAM_BASE \<noteq> MEMBUS_FLASH_BASE" by (simp add: MEMBUS_RAM_BASE_def MEMBUS_FLASH_BASE_def)
  then show ?thesis
    using assms add_region_hash_range [OF assms]
    by (auto simp: membus_register_ram_def Let_def bus_inv_def fast_inv_other fast_inv_new)
qed

text \<open>What an access leaves alone.\<close>

definition same_table :: "'d membus \<Rightarrow> 'd membus \<Rightarrow> bool" where
  "same_table b b' \<longleftrightarrow> regions b' = regions b \<and> hash b' = hash b \<and> flash_ptr b' = flash_ptr b \<and>
     ram_ptr b' = ram_ptr b"

lemma host_frame [simp]:
  "same_table b (snd (host_load get n p off b))" "tlb (snd (host_load get n p off b)) = tlb b"
  "same_table b (host_store put n p off b)" "tlb (host_store put n p off b) = tlb b"
  by (auto simp: host_load_def host_store_def same_table_def split: option.split)

lemma same_table_refl [simp]: "same_table b b"
  by (simp add: same_table_def)

lemma same_table_devs [simp]: "same_table b (b\<lparr>devs := d\<rparr>)" "same_table b (b\<lparr>tlb := t\<rparr>)"
  by (simp_all add: same_table_def)

lemma warn_frame [simp]: "same_table b (warn_unmapped addr b)" "tlb (warn_unmapped addr b) = tlb b"
  by (auto simp: warn_unmapped_def same_table_def Let_def)

lemma region_access_frame [simp]:
  "same_table b (snd (region_read get n conv warns ri addr b))"
  "tlb (snd (region_read get n conv warns ri addr b)) = tlb b"
  "same_table b (region_write put n val warns ri addr b)"
  "tlb (region_write put n val warns ri addr b) = tlb b"
  by (simp_all add: region_read_def region_write_def Let_def split: option.split prod.split)

lemma scan_regions_Some:
  "scan_regions addr rs k = Some i \<Longrightarrow> k \<le> i \<and> i < k + length rs \<and> in_region addr (rs ! (i - k))"
proof (induction rs arbitrary: k)
  case (Cons r rs)
  show ?case
  proof (cases "in_region addr r")
    case False
    then have "scan_regions addr rs (k + 1) = Some i" using Cons.prems by simp
    from Cons.IH [OF this] show ?thesis by (simp add: nth_Cons')
  qed (use Cons.prems in auto)
qed simp

lemma scan_regions_None: "scan_regions addr rs k = None \<longleftrightarrow> (\<forall>r \<in> set rs. \<not> in_region addr r)"
  by (induction rs arbitrary: k) auto

lemma find_region_slow_range:
  assumes "bus_inv b" "find_region_slow b addr = Some i"
  shows "i < length (regions b)" "in_region addr (regions b ! i)"
  using assms scan_regions_Some [of addr "regions b" 0]
  by (auto simp: find_region_slow_def bus_inv_def split: option.splits if_splits)

lemma find_region_tlb_state:
  assumes "bus_inv b"
  shows "same_table b (snd (find_region_tlb b addr)) \<and>
    (\<forall>k i. tlb (snd (find_region_tlb b addr)) k = Some i \<longrightarrow> i < length (regions b))"
  using assms find_region_slow_range(1) [OF assms, of addr]
  by (auto simp: find_region_tlb_def same_table_def Let_def bus_inv_def split: option.splits if_splits)

lemma bus_inv_same_table:
  assumes "bus_inv b" "same_table b b'" "\<forall>k i. tlb b' k = Some i \<longrightarrow> i < length (regions b)"
  shows "bus_inv b'"
  using assms unfolding bus_inv_def same_table_def by simp

lemma same_table_trans: "same_table a b \<Longrightarrow> same_table b c \<Longrightarrow> same_table a c"
  by (simp add: same_table_def)

lemma access_inv:
  assumes "bus_inv b"
  shows "bus_inv (snd (bus_read get n conv warns b addr))" "bus_inv (bus_write put n val warns b addr)"
    "same_table b (snd (bus_read get n conv warns b addr))" "same_table b (bus_write put n val warns b addr)"
proof -
  obtain ri b' where f: "find_region_tlb b addr = (ri, b')" by (cases "find_region_tlb b addr")
  have st: "same_table b b'" "\<forall>k i. tlb b' k = Some i \<longrightarrow> i < length (regions b)"
    using find_region_tlb_state [OF assms, of addr] f by auto
  have tlb_ok: "\<forall>k i. tlb b k = Some i \<longrightarrow> i < length (regions b)" using assms by (simp add: bus_inv_def)
  have t: "same_table b (snd (region_read get n conv warns ri addr b'))"
    "same_table b (region_write put n val warns ri addr b')"
    by (rule same_table_trans [OF st(1)], simp)+
  show R: "same_table b (snd (bus_read get n conv warns b addr))"
    by (simp add: bus_read_def f t)
  show W: "same_table b (bus_write put n val warns b addr)"
    by (simp add: bus_write_def f t)
  show "bus_inv (snd (bus_read get n conv warns b addr))"
    by (rule bus_inv_same_table [OF assms R]) (use st tlb_ok in \<open>simp add: bus_read_def f\<close>)
  show "bus_inv (bus_write put n val warns b addr)"
    by (rule bus_inv_same_table [OF assms W]) (use st tlb_ok in \<open>simp add: bus_write_def f\<close>)
qed

lemma bus_reach_inv: "bus_reach b \<Longrightarrow> bus_inv b"
proof (induction rule: bus_reach.induct)
  case (init b)
  then show ?case by (simp add: bus_inv_def fast_inv_def membus_init_def)
next
  case (register b rbase sz rd wr)
  then show ?case by (simp add: register_inv)
qed (simp_all add: membus_access_defs access_inv register_ram_inv)

text \<open>No address is in two regions.\<close>

definition regions_disjoint :: "'d mem_region list \<Rightarrow> bool" where
  "regions_disjoint rs \<longleftrightarrow> (\<forall>addr i j. i < length rs \<longrightarrow> j < length rs \<longrightarrow>
     in_region addr (rs ! i) \<longrightarrow> in_region addr (rs ! j) \<longrightarrow> i = j)"

text \<open>A region of host memory of the size that a fast path assumes.\<close>

definition has_memory :: "u32 \<Rightarrow> u32 \<Rightarrow> bool \<Rightarrow> 'd mem_region list \<Rightarrow> bool" where
  "has_memory rbase sz ro rs \<longleftrightarrow>
     (\<exists>r \<in> set rs. base r = rbase \<and> rsize r = sz \<and> direct r \<noteq> None \<and> read_only r = ro)"

lemma scan_unique:
  assumes "regions_disjoint rs" "i < length rs" "in_region addr (rs ! i)"
  shows "scan_regions addr rs 0 = Some i"
proof (cases "scan_regions addr rs 0")
  case None
  then show ?thesis using assms(2,3) by (simp add: scan_regions_None)
next
  case (Some j)
  then show ?thesis using scan_regions_Some [OF Some] assms by (auto simp: regions_disjoint_def)
qed

lemma find_region_slow_eq:
  assumes "bus_inv b" "regions_disjoint (regions b)"
  shows "find_region_slow b addr = scan_regions addr (regions b) 0"
proof -
  have "scan_regions addr (regions b) 0 = Some i"
    if "hash b (unat (drop_bit 20 addr)) = Some i" "in_region addr (regions b ! i)" for i
    using that assms by (intro scan_unique) (auto simp: bus_inv_def)
  then show ?thesis by (simp add: find_region_slow_def split: option.split)
qed

lemma find_region_tlb_eq:
  assumes "bus_inv b" "regions_disjoint (regions b)"
  shows "\<exists>t. find_region_tlb b addr = (scan_regions addr (regions b) 0, b\<lparr>tlb := t\<rparr>)"
proof -
  have "\<exists>t. b = b\<lparr>tlb := t\<rparr>" by (rule exI [of _ "tlb b"]) simp
  moreover have "scan_regions addr (regions b) 0 = Some i"
    if "tlb b (TLB_INDEX addr) = Some i" "in_region addr (regions b ! i)" for i
    using that assms by (intro scan_unique) (auto simp: bus_inv_def)
  ultimately show ?thesis
    by (auto simp: find_region_tlb_def Let_def find_region_slow_eq [OF assms] split: option.split)
qed

text \<open>The fast path of a memory leads to the array of the region the scan finds.\<close>

definition well_mapped :: "'d mem_region list \<Rightarrow> bool" where
  "well_mapped rs \<longleftrightarrow> regions_disjoint rs \<and> (\<forall>r \<in> set rs. in_region (base r) r) \<and>
     has_memory MEMBUS_RAM_BASE MEMBUS_RAM_SIZE False rs \<and>
     has_memory MEMBUS_FLASH_BASE MEMBUS_FLASH_SIZE True rs"

lemma fast_path:
  assumes dis: "regions_disjoint rs" and ne: "\<forall>r \<in> set rs. in_region (base r) r"
    and mem: "has_memory rbase sz ro rs"
    and sz: "unat rbase + unat sz < 4294967296" and addr: "addr - rbase < sz"
    and ptr: "fast_inv p rbase rs"
  shows "\<exists>i a. scan_regions addr rs 0 = Some i \<and> base (rs ! i) = rbase \<and>
    direct (rs ! i) = Some a \<and> p = Some a \<and> read_only (rs ! i) = ro"
proof -
  obtain i where i: "i < length rs" "base (rs ! i) = rbase" "rsize (rs ! i) = sz"
      "direct (rs ! i) \<noteq> None" "read_only (rs ! i) = ro"
    using mem by (auto simp: has_memory_def in_set_conv_nth)
  have fin: "unat (rbase + sz) = unat rbase + unat sz" using sz by (rule unat_add32)
  have "unat addr = unat rbase + unat (addr - rbase)"
  proof -
    have "unat (addr - rbase) < unat sz" using addr by (simp add: word_less_nat_alt)
    then have "unat rbase + unat (addr - rbase) < 4294967296" using sz by linarith
    from unat_add32 [OF this] show ?thesis by simp
  qed
  then have "in_region addr (rs ! i)"
    using addr i fin by (simp add: in_region_def word_le_nat_alt word_less_nat_alt)
  then have scan: "scan_regions addr rs 0 = Some i" using dis i(1) by (intro scan_unique)
  obtain a where p: "p = Some a" using ptr i(1,2,4) unfolding fast_inv_def by (metis not_Some_eq nth_mem)
  then obtain j where j: "j < length rs" "base (rs ! j) = rbase" "direct (rs ! j) = Some a"
    using ptr by (auto simp: fast_inv_def in_set_conv_nth)
  have "in_region rbase (rs ! i)" "in_region rbase (rs ! j)"
    using ne i(1,2) j(1,2) nth_mem by metis+
  then have "i = j" using dis i(1) j(1) by (auto simp: regions_disjoint_def)
  then show ?thesis using scan i j p by auto
qed

lemma ram_fast_path:
  assumes "bus_inv b" "well_mapped (regions b)" "addr - MEMBUS_RAM_BASE < MEMBUS_RAM_SIZE"
  shows "\<exists>i a. scan_regions addr (regions b) 0 = Some i \<and> base (regions b ! i) = MEMBUS_RAM_BASE \<and>
    direct (regions b ! i) = Some a \<and> ram_ptr b = Some a \<and> read_only (regions b ! i) = False"
  using assms by (intro fast_path [where sz = MEMBUS_RAM_SIZE])
    (simp_all add: well_mapped_def bus_inv_def, simp_all add: MEMBUS_RAM_BASE_def MEMBUS_RAM_SIZE_def)

lemma flash_fast_path:
  assumes "bus_inv b" "well_mapped (regions b)" "addr - MEMBUS_FLASH_BASE < MEMBUS_FLASH_SIZE"
  shows "\<exists>i a. scan_regions addr (regions b) 0 = Some i \<and> base (regions b ! i) = MEMBUS_FLASH_BASE \<and>
    direct (regions b ! i) = Some a \<and> flash_ptr b = Some a \<and> read_only (regions b ! i) = True"
  using assms by (intro fast_path [where sz = MEMBUS_FLASH_SIZE])
    (simp_all add: well_mapped_def bus_inv_def, simp_all add: MEMBUS_FLASH_BASE_def MEMBUS_FLASH_SIZE_def)

text \<open>Accesses by the scan alone.\<close>

abbreviation scan_read where
  "scan_read get n conv warns b addr \<equiv> region_read get n conv warns (scan_regions addr (regions b) 0) addr b"

abbreviation scan_write where
  "scan_write put n val warns b addr \<equiv> region_write put n val warns (scan_regions addr (regions b) 0) addr b"

lemma region_access_tlb:
  "region_read get n conv warns ri addr (b\<lparr>tlb := t\<rparr>) =
     map_prod id (tlb_update (\<lambda>_. t)) (region_read get n conv warns ri addr b)"
  "region_write put n val warns ri addr (b\<lparr>tlb := t\<rparr>) = (region_write put n val warns ri addr b)\<lparr>tlb := t\<rparr>"
  by (simp_all add: region_read_def region_write_def host_load_def host_store_def warn_unmapped_def Let_def
      split: option.split prod.split)

lemma bus_read_is_scan:
  assumes "bus_inv b" "well_mapped (regions b)"
  shows "\<exists>t. bus_read get n conv warns b addr = map_prod id (tlb_update (\<lambda>_. t)) (scan_read get n conv warns b addr)"
proof -
  obtain t where t: "find_region_tlb b addr = (scan_regions addr (regions b) 0, b\<lparr>tlb := t\<rparr>)"
    using find_region_tlb_eq [OF assms(1)] assms(2) by (auto simp: well_mapped_def)
  consider (ram) "addr - MEMBUS_RAM_BASE < MEMBUS_RAM_SIZE"
    | (flash) "\<not> addr - MEMBUS_RAM_BASE < MEMBUS_RAM_SIZE" "addr - MEMBUS_FLASH_BASE < MEMBUS_FLASH_SIZE"
    | (other) "\<not> addr - MEMBUS_RAM_BASE < MEMBUS_RAM_SIZE" "\<not> addr - MEMBUS_FLASH_BASE < MEMBUS_FLASH_SIZE"
    by blast
  then show ?thesis
  proof cases
    case ram
    then show ?thesis using ram_fast_path [OF assms ram]
      by (intro exI [of _ "tlb b"]) (auto simp: bus_read_def region_read_def host_load_def)
  next
    case flash
    then show ?thesis using flash_fast_path [OF assms flash(2)]
      by (intro exI [of _ "tlb b"]) (auto simp: bus_read_def region_read_def host_load_def)
  next
    case other
    then show ?thesis by (intro exI [of _ t]) (simp add: bus_read_def t region_access_tlb)
  qed
qed

lemma bus_write_is_scan:
  assumes "bus_inv b" "well_mapped (regions b)"
  shows "\<exists>t. bus_write put n val warns b addr = (scan_write put n val warns b addr)\<lparr>tlb := t\<rparr>"
proof (cases "addr - MEMBUS_RAM_BASE < MEMBUS_RAM_SIZE")
  case True
  then show ?thesis using ram_fast_path [OF assms True]
    by (intro exI [of _ "tlb b"]) (auto simp: bus_write_def region_write_def host_store_def)
next
  case False
  obtain t where t: "find_region_tlb b addr = (scan_regions addr (regions b) 0, b\<lparr>tlb := t\<rparr>)"
    using find_region_tlb_eq [OF assms(1)] assms(2) by (auto simp: well_mapped_def)
  then show ?thesis using False by (intro exI [of _ t]) (simp add: bus_write_def t region_access_tlb)
qed

text \<open>A bus with flash, RAM and one device, whose state is a register.\<close>

definition bus0 :: "u32 membus" where
  "bus0 = \<lparr>regions = [], hash = (\<lambda>_. None), tlb = (\<lambda>_. None), flash_ptr = None, ram_ptr = None, warned = [],
     arrays = (\<lambda>_ _. 0), array_len = (\<lambda>a. if a = 0 then 524288 else 131072), devs = 42, host_fault = False\<rparr>"

definition example_bus :: "u32 membus" where
  "example_bus = membus_register 0x40004400 0x20 (Some (\<lambda>d off. (d + off, d))) (Some (\<lambda>d off v. v))
     (membus_register_ram MEMBUS_RAM_BASE MEMBUS_RAM_SIZE 1 False
       (membus_register_ram MEMBUS_FLASH_BASE MEMBUS_FLASH_SIZE 0 True (membus_init bus0)))"

lemma example_bus_regions:
  "map (\<lambda>r. (base r, rsize r, direct r, read_only r)) (regions example_bus) =
     [(MEMBUS_FLASH_BASE, MEMBUS_FLASH_SIZE, Some 0, True), (MEMBUS_RAM_BASE, MEMBUS_RAM_SIZE, Some 1, False),
      (0x40004400, 0x20, None, False)]"
  "regions example_bus ! 2 = \<lparr>base = 0x40004400, rsize = 0x20, read_fn = Some (\<lambda>d off. (d + off, d)),
     write_fn = Some (\<lambda>d off v. v), direct = None, read_only = False\<rparr>" "devs example_bus = 42"
  by (simp_all add: example_bus_def membus_register_def membus_register_ram_def membus_init_def MAX_REGIONS_def
      bus0_def add_region_def hash_insert_def MEMBUS_RAM_BASE_def MEMBUS_FLASH_BASE_def Let_def)

lemma example_bus_ok: "bus_reach example_bus \<and> well_mapped (regions example_bus)"
proof -
  obtain f r d where rs: "regions example_bus = [f, r, d]"
    and f: "base f = 0x08000000" "rsize f = 0x80000" "direct f = Some 0" "read_only f"
    and r: "base r = 0x20000000" "rsize r = 0x20000" "direct r = Some 1" "\<not> read_only r"
    and d: "base d = 0x40004400" "rsize d = 0x20"
    using example_bus_regions(1)
    by (auto simp: MEMBUS_RAM_BASE_def MEMBUS_FLASH_BASE_def MEMBUS_RAM_SIZE_def MEMBUS_FLASH_SIZE_def)
  have "regions_disjoint [f, r, d]"
    by (auto simp: regions_disjoint_def in_region_def f r d less_Suc_eq nth_Cons' word_le_nat_alt word_less_nat_alt)
  then have "well_mapped (regions example_bus)"
    by (simp add: rs well_mapped_def has_memory_def in_region_def f r d
        MEMBUS_RAM_BASE_def MEMBUS_FLASH_BASE_def MEMBUS_RAM_SIZE_def MEMBUS_FLASH_SIZE_def)
  moreover have "bus_reach example_bus"
    unfolding example_bus_def by (intro bus_reach.intros)
  ultimately show ?thesis by simp
qed

text \<open>
  C14. On a bus whose regions do not overlap and whose flash and RAM have the sizes the fast paths
  assume, every access of every width gives the value, the memory and the device state that a plain
  scan of the region table gives: after any history of registrations and accesses, the fast paths,
  the cached lookups and the table by upper address bits change nothing but the cache itself.
\<close>

theorem membus_is_scan:
  assumes "bus_reach b" "well_mapped (regions b)"
  shows "(\<exists>t. membus_read32 b addr = map_prod id (tlb_update (\<lambda>_. t)) (scan_read get32 4 id True b addr)) \<and>
    (\<exists>t. membus_read16 b addr = map_prod id (tlb_update (\<lambda>_. t)) (scan_read get16 2 ucast False b addr)) \<and>
    (\<exists>t. membus_read8 b addr = map_prod id (tlb_update (\<lambda>_. t)) (scan_read get8 1 ucast False b addr)) \<and>
    (\<exists>t. membus_write32 b addr w = (scan_write (\<lambda>p. put32 p w) 4 w True b addr)\<lparr>tlb := t\<rparr>) \<and>
    (\<exists>t. membus_write16 b addr h = (scan_write (\<lambda>p. put16 p h) 2 (ucast h) False b addr)\<lparr>tlb := t\<rparr>) \<and>
    (\<exists>t. membus_write8 b addr c = (scan_write (\<lambda>p. put8 p c) 1 (ucast c) False b addr)\<lparr>tlb := t\<rparr>)"
  unfolding membus_access_defs
  by (intro conjI bus_read_is_scan bus_write_is_scan bus_reach_inv assms)

theorem membus_is_scan_witness:
  "bus_reach example_bus \<and> well_mapped (regions example_bus) \<and> fst (membus_read32 example_bus 0x40004404) = 46"
proof -
  have "scan_regions 0x40004404 (regions example_bus) 0 = Some 2"
    by (rule scan_unique) (use example_bus_ok example_bus_regions arg_cong [OF example_bus_regions(1), of length] in
      \<open>auto simp: well_mapped_def in_region_def\<close>)
  moreover obtain t where "membus_read32 example_bus 0x40004404 =
      map_prod id (tlb_update (\<lambda>_. t)) (scan_read get32 4 id True example_bus 0x40004404)"
    using membus_is_scan [of example_bus "0x40004404"] example_bus_ok by blast
  ultimately show ?thesis
    using example_bus_ok by (simp add: region_read_def example_bus_regions(2,3))
qed

end
