(* ===== verification/Armv7m.thy ===== *)
theory Armv7m
  imports Membus "HOL-Library.Signed_Division"
begin

text \<open>
  The Cortex-M4 core of the machine simulator (\<open>sim/src/arch/armv7m/armv7m_cpu.c\<close>): the flags and
  conditions, the 16-bit Thumb instructions, the 32-bit Thumb-2 instructions, the step with its
  IT-block handling, and exception entry and return. One definition stands for each label of the
  dispatch table and for each decoding block of \<open>exec_thumb32\<close>, in the order of the source.

  The state is the structure \<open>armv7m_cpu\<close> together with the bus it runs on, the bytes semihosting
  wrote to the host's standard error, and a flag \<open>undef\<close> that records that the C program met an
  operation whose behaviour C leaves undefined (a shift by 32 or more, the quotient of the least
  integer by minus one). Signed shifts and conversions to narrower signed types are as GCC
  documents them. The host clock read by one semihosting call is an argument of the step.
\<close>

section \<open>The processor\<close>

record armv7m_cpu =
  reg :: "nat \<Rightarrow> u32"
  xpsr :: u32
  primask :: u32
  control :: u32
  msp :: u32
  psp :: u32
  in_handler :: bool
  irq_shadow :: bool
  it_state :: u8
  cycle_count :: u64

record 'd machine = armv7m_cpu +
  bus :: "'d membus"
  stderr_out :: "u8 list"
  undef :: bool

abbreviation REG_SP :: nat where "REG_SP \<equiv> 13"
abbreviation REG_LR :: nat where "REG_LR \<equiv> 14"
abbreviation REG_PC :: nat where "REG_PC \<equiv> 15"

definition FLASH_BASE :: u32 where "FLASH_BASE = 0x08000000"
definition RAM_BASE :: u32 where "RAM_BASE = 0x20000000"
definition RAM_SIZE :: u32 where "RAM_SIZE = 128 * 1024"

definition FLAG_N :: u32 where "FLAG_N = push_bit 31 1"
definition FLAG_Z :: u32 where "FLAG_Z = push_bit 30 1"
definition FLAG_C :: u32 where "FLAG_C = push_bit 29 1"
definition FLAG_V :: u32 where "FLAG_V = push_bit 28 1"
definition FLAG_T :: u32 where "FLAG_T = push_bit 24 1"

text \<open>How \<open>armv7m_cpu_step\<close> ends: it returns a code, ends the simulator, or never returns.\<close>

datatype step_result = Ret u32 | Exit u32 | Hang

definition CPU_OK :: u32 where "CPU_OK = 0"
definition CPU_SEMIHOST_EXIT :: u32 where "CPU_SEMIHOST_EXIT = 0x100"
definition CPU_BREAKPOINT :: u32 where "CPU_BREAKPOINT = 0x200"

text \<open>A field of an instruction: the code's \<open>(x >> k) & m\<close>, as an index.\<close>

definition fld :: "u16 \<Rightarrow> nat \<Rightarrow> u16 \<Rightarrow> nat" where
  "fld x k m = unat (drop_bit k x AND m)"

text \<open>A field as a 32-bit value.\<close>

definition imm :: "u16 \<Rightarrow> nat \<Rightarrow> u16 \<Rightarrow> u32" where
  "imm x k m = ucast (drop_bit k x AND m)"

definition setr :: "nat \<Rightarrow> u32 \<Rightarrow> ('a) armv7m_cpu_scheme \<Rightarrow> ('a) armv7m_cpu_scheme" where
  "setr i v c = c\<lparr>reg := (reg c)(i := v)\<rparr>"

text \<open>\<open>if (flag) xpsr |= f; else xpsr &= ~f\<close>.\<close>

definition set_flag :: "u32 \<Rightarrow> bool \<Rightarrow> ('a) armv7m_cpu_scheme \<Rightarrow> ('a) armv7m_cpu_scheme" where
  "set_flag f on c = c\<lparr>xpsr := (if on then xpsr c OR f else xpsr c AND NOT f)\<rparr>"

definition set_nz :: "u32 \<Rightarrow> ('a) armv7m_cpu_scheme \<Rightarrow> ('a) armv7m_cpu_scheme" where
  "set_nz result c =
     (let x = xpsr c AND NOT (FLAG_N OR FLAG_Z);
          x = (if result = 0 then x OR FLAG_Z else x);
          x = (if result AND 0x80000000 \<noteq> 0 then x OR FLAG_N else x)
      in c\<lparr>xpsr := x\<rparr>)"

definition set_nzcv_add :: "u32 \<Rightarrow> u32 \<Rightarrow> u64 \<Rightarrow> ('a) armv7m_cpu_scheme \<Rightarrow> ('a) armv7m_cpu_scheme" where
  "set_nzcv_add a b result c =
     (let r = ucast result;
          c = set_nz r c;
          c = set_flag FLAG_C (result > 0xFFFFFFFF) c
      in set_flag FLAG_V (((a XOR NOT b) AND (a XOR r)) AND 0x80000000 \<noteq> 0) c)"

definition set_nzcv_sub :: "u32 \<Rightarrow> u32 \<Rightarrow> u64 \<Rightarrow> ('a) armv7m_cpu_scheme \<Rightarrow> ('a) armv7m_cpu_scheme" where
  "set_nzcv_sub a b result c =
     (let r = ucast result;
          c = set_nz r c;
          c = set_flag FLAG_C (a \<ge> b) c
      in set_flag FLAG_V (((a XOR b) AND (a XOR r)) AND 0x80000000 \<noteq> 0) c)"

definition cond_check :: "('a) armv7m_cpu_scheme \<Rightarrow> nat \<Rightarrow> bool" where
  "cond_check c cond =
     (let n = bit (xpsr c) 31; z = bit (xpsr c) 30; cv = bit (xpsr c) 29; v = bit (xpsr c) 28
      in if cond = 0 then z
         else if cond = 1 then \<not> z
         else if cond = 2 then cv
         else if cond = 3 then \<not> cv
         else if cond = 4 then n
         else if cond = 5 then \<not> n
         else if cond = 6 then v
         else if cond = 7 then \<not> v
         else if cond = 8 then cv \<and> \<not> z
         else if cond = 9 then \<not> cv \<or> z
         else if cond = 10 then n = v
         else if cond = 11 then n \<noteq> v
         else if cond = 12 then \<not> z \<and> n = v
         else if cond = 13 then z \<or> n \<noteq> v
         else True)"

text \<open>Accesses through the bus.\<close>

definition read32 :: "'d machine \<Rightarrow> u32 \<Rightarrow> u32 \<times> 'd machine" where
  "read32 c a = (case membus_read32 (bus c) a of (v, b) \<Rightarrow> (v, c\<lparr>bus := b\<rparr>))"

definition read16 :: "'d machine \<Rightarrow> u32 \<Rightarrow> u16 \<times> 'd machine" where
  "read16 c a = (case membus_read16 (bus c) a of (v, b) \<Rightarrow> (v, c\<lparr>bus := b\<rparr>))"

definition read8 :: "'d machine \<Rightarrow> u32 \<Rightarrow> u8 \<times> 'd machine" where
  "read8 c a = (case membus_read8 (bus c) a of (v, b) \<Rightarrow> (v, c\<lparr>bus := b\<rparr>))"

definition write32 :: "u32 \<Rightarrow> u32 \<Rightarrow> 'd machine \<Rightarrow> 'd machine" where
  "write32 a v c = c\<lparr>bus := membus_write32 (bus c) a v\<rparr>"

definition write16 :: "u32 \<Rightarrow> u16 \<Rightarrow> 'd machine \<Rightarrow> 'd machine" where
  "write16 a v c = c\<lparr>bus := membus_write16 (bus c) a v\<rparr>"

definition write8 :: "u32 \<Rightarrow> u8 \<Rightarrow> 'd machine \<Rightarrow> 'd machine" where
  "write8 a v c = c\<lparr>bus := membus_write8 (bus c) a v\<rparr>"

text \<open>The loads of a register: word, halfword and byte, zero- or sign-extended; and the stores.\<close>

definition load32 :: "nat \<Rightarrow> u32 \<Rightarrow> 'd machine \<Rightarrow> 'd machine" where
  "load32 rt a c = (case read32 c a of (v, c) \<Rightarrow> setr rt v c)"

definition load16 :: "nat \<Rightarrow> u32 \<Rightarrow> 'd machine \<Rightarrow> 'd machine" where
  "load16 rt a c = (case read16 c a of (v, c) \<Rightarrow> setr rt (ucast v) c)"

definition load16s :: "nat \<Rightarrow> u32 \<Rightarrow> 'd machine \<Rightarrow> 'd machine" where
  "load16s rt a c = (case read16 c a of (v, c) \<Rightarrow> setr rt (scast v) c)"

definition load8 :: "nat \<Rightarrow> u32 \<Rightarrow> 'd machine \<Rightarrow> 'd machine" where
  "load8 rt a c = (case read8 c a of (v, c) \<Rightarrow> setr rt (ucast v) c)"

definition load8s :: "nat \<Rightarrow> u32 \<Rightarrow> 'd machine \<Rightarrow> 'd machine" where
  "load8s rt a c = (case read8 c a of (v, c) \<Rightarrow> setr rt (scast v) c)"

definition store32 :: "nat \<Rightarrow> u32 \<Rightarrow> 'd machine \<Rightarrow> 'd machine" where
  "store32 rt a c = write32 a (reg c rt) c"

definition store16 :: "nat \<Rightarrow> u32 \<Rightarrow> 'd machine \<Rightarrow> 'd machine" where
  "store16 rt a c = write16 a (ucast (reg c rt)) c"

definition store8 :: "nat \<Rightarrow> u32 \<Rightarrow> 'd machine \<Rightarrow> 'd machine" where
  "store8 rt a c = write8 a (ucast (reg c rt)) c"

definition armv7m_cpu_init :: "'d machine \<Rightarrow> 'd machine" where
  "armv7m_cpu_init c = c\<lparr>reg := (\<lambda>_. 0), xpsr := FLAG_T, primask := 0, control := 0, msp := 0, psp := 0,
     in_handler := False, irq_shadow := False, it_state := 0, cycle_count := 0\<rparr>"

definition armv7m_cpu_reset :: "'d machine \<Rightarrow> 'd machine" where
  "armv7m_cpu_reset c =
     (case read32 c (FLASH_BASE + 0) of (v, c) \<Rightarrow>
       (let c = c\<lparr>msp := v\<rparr>; c = setr REG_SP (msp c) c
        in case read32 c (FLASH_BASE + 4) of (v, c) \<Rightarrow>
             (setr REG_PC (v AND NOT 1) c)\<lparr>xpsr := FLAG_T\<rparr>))"

section \<open>Exception entry and return\<close>

text \<open>The status register as it is saved: with the IT state in bits 26:25 and 15:10.\<close>

definition saved_xpsr :: "u8 \<Rightarrow> u32 \<Rightarrow> u32" where
  "saved_xpsr it x =
     (if it \<noteq> 0 then x OR push_bit 25 (drop_bit 6 (ucast it) AND 3) OR push_bit 10 (ucast it AND 0x3F) else x)"

text \<open>The eight stores of the exception frame, in order; a store changes no register.\<close>

definition stack_frame :: "u32 \<Rightarrow> 'd machine \<Rightarrow> 'd machine" where
  "stack_frame sp c =
     fold (\<lambda>(k, v). write32 (sp + k) v)
       [(0, reg c 0), (4, reg c 1), (8, reg c 2), (12, reg c 3), (16, reg c 12), (20, reg c REG_LR),
        (24, reg c REG_PC OR 1), (28, saved_xpsr (it_state c) (xpsr c))] c"

definition armv7m_take_interrupt :: "nat \<Rightarrow> 'd machine \<Rightarrow> 'd machine" where
  "armv7m_take_interrupt vector_num c =
     (let usepsp = control c AND 2 \<noteq> 0;
          c = (if usepsp then c\<lparr>psp := reg c REG_SP\<rparr> else c\<lparr>msp := reg c REG_SP\<rparr>);
          sp = (if usepsp then psp c else msp c) - 32;
          c = stack_frame sp c;
          c = c\<lparr>it_state := 0\<rparr>;
          c = (if usepsp then c\<lparr>psp := sp\<rparr> else c\<lparr>msp := sp\<rparr>);
          c = setr REG_LR (if usepsp then 0xFFFFFFFD else 0xFFFFFFF9) c;
          c = setr REG_SP (msp c) c;
          c = c\<lparr>in_handler := True\<rparr>;
          c = c\<lparr>xpsr := (xpsr c AND NOT 0x1FF) OR (of_nat vector_num AND 0x1FF)\<rparr>
      in case read32 c (FLASH_BASE + of_nat vector_num * 4) of (handler, c) \<Rightarrow>
           setr REG_PC (handler AND NOT 1) c)"

definition exc_return :: "u32 \<Rightarrow> 'd machine \<Rightarrow> 'd machine" where
  "exc_return exc_ret c =
     (let topsp = exc_ret AND 4 \<noteq> 0;
          sp = (if topsp then psp c else msp c);
          c = load32 0 (sp + 0) c;
          c = load32 1 (sp + 4) c;
          c = load32 2 (sp + 8) c;
          c = load32 3 (sp + 12) c;
          c = load32 12 (sp + 16) c;
          c = load32 REG_LR (sp + 20) c
      in case read32 c (sp + 24) of (pcv, c) \<Rightarrow>
        (let c = setr REG_PC (pcv AND NOT 1) c
         in case read32 c (sp + 28) of (xv, c) \<Rightarrow>
           (let c = c\<lparr>xpsr := xv OR FLAG_T\<rparr>;
                restored = xpsr c;
                c = c\<lparr>it_state := ucast (push_bit 6 (drop_bit 25 restored AND 3) OR (drop_bit 10 restored AND 0x3F))\<rparr>;
                c = c\<lparr>xpsr := xpsr c AND NOT (push_bit 25 3 OR push_bit 10 0x3F)\<rparr>;
                c = (if topsp then c\<lparr>psp := sp + 32\<rparr> else c\<lparr>msp := sp + 32\<rparr>);
                c = (if topsp then (setr REG_SP (psp c) c)\<lparr>control := control c OR 2\<rparr>
                     else setr REG_SP (msp c) c);
                c = c\<lparr>in_handler := False\<rparr>
            in c\<lparr>xpsr := xpsr c AND NOT 0x1FF\<rparr>)))"

section \<open>The 16-bit instructions\<close>

text \<open>Groups 0 to 2: shift by an immediate. \<open>signed_drop_bit\<close> is the shift of an \<open>int32_t\<close>.\<close>

definition lsl_imm :: "u16 \<Rightarrow> 'd machine \<Rightarrow> 'd machine" where
  "lsl_imm insn c =
     (let imm5 = fld insn 6 0x1F; rm = fld insn 3 7; rd = fld insn 0 7;
          c = setr rd (if imm5 = 0 then reg c rm else push_bit imm5 (reg c rm)) c
      in set_nz (reg c rd) c)"

definition lsr_imm :: "u16 \<Rightarrow> 'd machine \<Rightarrow> 'd machine" where
  "lsr_imm insn c =
     (let imm5 = fld insn 6 0x1F; rm = fld insn 3 7; rd = fld insn 0 7;
          c = setr rd (if imm5 = 0 then 0 else drop_bit imm5 (reg c rm)) c
      in set_nz (reg c rd) c)"

definition asr_imm :: "u16 \<Rightarrow> 'd machine \<Rightarrow> 'd machine" where
  "asr_imm insn c =
     (let imm5 = fld insn 6 0x1F; rm = fld insn 3 7; rd = fld insn 0 7;
          c = setr rd (if imm5 = 0 then signed_drop_bit 31 (reg c rm) else signed_drop_bit imm5 (reg c rm)) c
      in set_nz (reg c rd) c)"

text \<open>Group 3: addition and subtraction of a register or a 3-bit immediate.\<close>

definition add_sub :: "u16 \<Rightarrow> 'd machine \<Rightarrow> 'd machine" where
  "add_sub insn c =
     (let rd = fld insn 0 7; rn = fld insn 3 7;
          is_sub = bit insn 9; is_imm = bit insn 10;
          operand = (if is_imm then imm insn 6 7 else reg c (fld insn 6 7));
          result = (if is_sub then (ucast (reg c rn) :: u64) - ucast operand
                    else ucast (reg c rn) + ucast operand);
          c = (if is_sub then set_nzcv_sub (reg c rn) operand result c
               else set_nzcv_add (reg c rn) operand result c)
      in setr rd (ucast result) c)"

text \<open>Groups 4 to 7: move, compare, add and subtract an 8-bit immediate.\<close>

definition mov_imm :: "u16 \<Rightarrow> 'd machine \<Rightarrow> 'd machine" where
  "mov_imm insn c = (let rd = fld insn 8 7; imm8 = imm insn 0 0xFF in set_nz imm8 (setr rd imm8 c))"

definition cmp_imm :: "u16 \<Rightarrow> 'd machine \<Rightarrow> 'd machine" where
  "cmp_imm insn c =
     (let rd = fld insn 8 7; imm8 = imm insn 0 0xFF; res = (ucast (reg c rd) :: u64) - ucast imm8
      in set_nzcv_sub (reg c rd) imm8 res c)"

definition add_imm8 :: "u16 \<Rightarrow> 'd machine \<Rightarrow> 'd machine" where
  "add_imm8 insn c =
     (let rd = fld insn 8 7; imm8 = imm insn 0 0xFF; res = (ucast (reg c rd) :: u64) + ucast imm8
      in setr rd (ucast res) (set_nzcv_add (reg c rd) imm8 res c))"

definition sub_imm8 :: "u16 \<Rightarrow> 'd machine \<Rightarrow> 'd machine" where
  "sub_imm8 insn c =
     (let rd = fld insn 8 7; imm8 = imm insn 0 0xFF; res = (ucast (reg c rd) :: u64) - ucast imm8
      in setr rd (ucast res) (set_nzcv_sub (reg c rd) imm8 res c))"

text \<open>Group 8: the register operations, and the special data and branch-exchange instructions.\<close>

definition carry_in :: "('a) armv7m_cpu_scheme \<Rightarrow> u32" where
  "carry_in c = drop_bit 29 (xpsr c) AND 1"

definition alu_op :: "u16 \<Rightarrow> 'd machine \<Rightarrow> 'd machine" where
  "alu_op insn c =
     (let op = fld insn 6 0xF; rm = fld insn 3 7; rd = fld insn 0 7;
          a = reg c rd; b = reg c rm; wa = (ucast a :: u64); wb = (ucast b :: u64);
          s = unat (b AND 31);
          put = (\<lambda>v. set_nz v (setr rd v c))
      in if op = 0x0 then put (a AND b)
         else if op = 0x1 then put (a XOR b)
         else if op = 0x2 then put (push_bit s a)
         else if op = 0x3 then put (drop_bit s a)
         else if op = 0x4 then put (signed_drop_bit s a)
         else if op = 0x5 then
           (let r = wa + wb + ucast (carry_in c) in setr rd (ucast r) (set_nzcv_add a (b + carry_in c) r c))
         else if op = 0x6 then
           (let r = wa - wb - ucast (carry_in c XOR 1) in setr rd (ucast r) (set_nzcv_sub a b r c))
         else if op = 0x7 then put (if s \<noteq> 0 then drop_bit s a OR push_bit (32 - s) a else a)
         else if op = 0x8 then set_nz (a AND b) c
         else if op = 0x9 then (let r = 0 - wb in setr rd (ucast r) (set_nzcv_sub 0 b r c))
         else if op = 0xA then set_nzcv_sub a b (wa - wb) c
         else if op = 0xB then set_nzcv_add a b (wa + wb) c
         else if op = 0xC then put (a OR b)
         else if op = 0xD then put (a * b)
         else if op = 0xE then put (a AND NOT b)
         else put (NOT b))"

definition clear_pc_bit0 :: "nat \<Rightarrow> 'd machine \<Rightarrow> 'd machine" where
  "clear_pc_bit0 rd c = (if rd = REG_PC then setr REG_PC (reg c REG_PC AND NOT 1) c else c)"

definition branch_exchange :: "u32 \<Rightarrow> 'd machine \<Rightarrow> 'd machine" where
  "branch_exchange v c =
     (if v AND 0xFFFFFFF0 = 0xFFFFFFF0 then exc_return v c else setr REG_PC (v AND NOT 1) c)"

definition special_data :: "u16 \<Rightarrow> 'd machine \<Rightarrow> 'd machine" where
  "special_data insn c =
     (let op = fld insn 8 3; d = fld insn 7 1 * 8; rm = fld insn 3 0xF; rd = fld insn 0 7 + d
      in if op = 0 then clear_pc_bit0 rd (setr rd (reg c rd + reg c rm) c)
         else if op = 1 then set_nzcv_sub (reg c rd) (reg c rm) (ucast (reg c rd) - ucast (reg c rm)) c
         else if op = 2 then clear_pc_bit0 rd (setr rd (reg c rm) c)
         else (let c = (if insn AND 0x80 \<noteq> 0 then setr REG_LR (reg c REG_PC OR 1) c else c)
               in branch_exchange (reg c rm) c))"

definition alu_special :: "u16 \<Rightarrow> 'd machine \<Rightarrow> 'd machine" where
  "alu_special insn c = (if drop_bit 10 insn = 0x10 then alu_op insn c else special_data insn c)"

text \<open>Groups 9 to 21: loads and stores, and addresses relative to the program counter and the stack.\<close>

definition ldr_pc :: "u16 \<Rightarrow> u32 \<Rightarrow> 'd machine \<Rightarrow> 'd machine" where
  "ldr_pc insn pc c =
     (let rt = fld insn 8 7; imm8 = push_bit 2 (imm insn 0 0xFF)
      in load32 rt (((pc + 4) AND NOT 3) + imm8) c)"

definition ls_reg :: "u16 \<Rightarrow> 'd machine \<Rightarrow> 'd machine" where
  "ls_reg insn c =
     (let op = fld insn 9 7; rm = fld insn 6 7; rn = fld insn 3 7; rt = fld insn 0 7;
          addr = reg c rn + reg c rm
      in if op = 0 then store32 rt addr c
         else if op = 1 then store16 rt addr c
         else if op = 2 then store8 rt addr c
         else if op = 3 then load8s rt addr c
         else if op = 4 then load32 rt addr c
         else if op = 5 then load16 rt addr c
         else if op = 6 then load8 rt addr c
         else load16s rt addr c)"

definition str_imm :: "u16 \<Rightarrow> 'd machine \<Rightarrow> 'd machine" where
  "str_imm insn c = store32 (fld insn 0 7) (reg c (fld insn 3 7) + push_bit 2 (imm insn 6 0x1F)) c"

definition ldr_imm :: "u16 \<Rightarrow> 'd machine \<Rightarrow> 'd machine" where
  "ldr_imm insn c = load32 (fld insn 0 7) (reg c (fld insn 3 7) + push_bit 2 (imm insn 6 0x1F)) c"

definition strb_imm :: "u16 \<Rightarrow> 'd machine \<Rightarrow> 'd machine" where
  "strb_imm insn c = store8 (fld insn 0 7) (reg c (fld insn 3 7) + imm insn 6 0x1F) c"

definition ldrb_imm :: "u16 \<Rightarrow> 'd machine \<Rightarrow> 'd machine" where
  "ldrb_imm insn c = load8 (fld insn 0 7) (reg c (fld insn 3 7) + imm insn 6 0x1F) c"

definition strh_imm :: "u16 \<Rightarrow> 'd machine \<Rightarrow> 'd machine" where
  "strh_imm insn c = store16 (fld insn 0 7) (reg c (fld insn 3 7) + push_bit 1 (imm insn 6 0x1F)) c"

definition ldrh_imm :: "u16 \<Rightarrow> 'd machine \<Rightarrow> 'd machine" where
  "ldrh_imm insn c = load16 (fld insn 0 7) (reg c (fld insn 3 7) + push_bit 1 (imm insn 6 0x1F)) c"

definition str_sp :: "u16 \<Rightarrow> 'd machine \<Rightarrow> 'd machine" where
  "str_sp insn c = store32 (fld insn 8 7) (reg c REG_SP + push_bit 2 (imm insn 0 0xFF)) c"

definition ldr_sp :: "u16 \<Rightarrow> 'd machine \<Rightarrow> 'd machine" where
  "ldr_sp insn c = load32 (fld insn 8 7) (reg c REG_SP + push_bit 2 (imm insn 0 0xFF)) c"

definition adr :: "u16 \<Rightarrow> u32 \<Rightarrow> 'd machine \<Rightarrow> 'd machine" where
  "adr insn pc c = setr (fld insn 8 7) (((pc + 4) AND NOT 3) + push_bit 2 (imm insn 0 0xFF)) c"

definition add_sp_imm :: "u16 \<Rightarrow> 'd machine \<Rightarrow> 'd machine" where
  "add_sp_imm insn c = setr (fld insn 8 7) (reg c REG_SP + push_bit 2 (imm insn 0 0xFF)) c"

text \<open>Push and pop: one register, then the loops over the register list.\<close>

definition push1 :: "nat \<Rightarrow> 'd machine \<Rightarrow> 'd machine" where
  "push1 i c = (let c = setr REG_SP (reg c REG_SP - 4) c in store32 i (reg c REG_SP) c)"

fun push_loop :: "nat list \<Rightarrow> u16 \<Rightarrow> 'd machine \<Rightarrow> 'd machine" where
  "push_loop [] regs c = c"
| "push_loop (i # is) regs c = push_loop is regs (if bit regs i then push1 i c else c)"

definition push_insn :: "u16 \<Rightarrow> 'd machine \<Rightarrow> 'd machine" where
  "push_insn insn c =
     (let regs = insn AND 0xFF; lr = bit insn 8;
          c = (if lr then push1 REG_LR c else c)
      in push_loop [7, 6, 5, 4, 3, 2, 1, 0] regs c)"

fun pop_loop :: "nat list \<Rightarrow> u16 \<Rightarrow> 'd machine \<Rightarrow> 'd machine" where
  "pop_loop [] regs c = c"
| "pop_loop (i # is) regs c =
     pop_loop is regs (if bit regs i
       then (let c = load32 i (reg c REG_SP) c in setr REG_SP (reg c REG_SP + 4) c) else c)"

definition pop_insn :: "u16 \<Rightarrow> 'd machine \<Rightarrow> 'd machine" where
  "pop_insn insn c =
     (let regs = insn AND 0xFF; pc_bit = bit insn 8;
          c = pop_loop [0, 1, 2, 3, 4, 5, 6, 7] regs c
      in if pc_bit
         then (case read32 c (reg c REG_SP) of (val, c) \<Rightarrow>
                 branch_exchange val (setr REG_SP (reg c REG_SP + 4) c))
         else c)"

text \<open>
  Semihosting (\<open>BKPT 0xAB\<close>): write a byte, write a string, read the host clock, exit. The string is
  written until a zero byte is read, which need not happen; then the call never returns.
\<close>

partial_function (option) write0_loop :: "u32 \<Rightarrow> 'd machine \<Rightarrow> 'd machine option" where
  "write0_loop arg c =
     (case read8 c arg of (ch, c) \<Rightarrow>
        if ch = 0 then Some c
        else write0_loop (arg + 1) (c\<lparr>stderr_out := stderr_out c @ [ch]\<rparr>))"

definition semihost :: "u32 \<Rightarrow> 'd machine \<Rightarrow> step_result option \<times> 'd machine" where
  "semihost now c =
     (let func = reg c 0; arg = reg c 1
      in if func = 0x03 then
           (case read8 c arg of (ch, c) \<Rightarrow> (None, c\<lparr>stderr_out := stderr_out c @ [ch]\<rparr>))
         else if func = 0x04 then
           (case write0_loop arg c of Some c \<Rightarrow> (None, c) | None \<Rightarrow> (Some Hang, c))
         else if func = 0x10 then (None, setr 0 now c)
         else if func = 0x18 then
           (let (code, c) = (if RAM_BASE \<le> arg \<and> arg < RAM_BASE + RAM_SIZE then read32 c (arg + 4)
                             else if arg = 0x20026 then (0, c) else (arg, c))
            in (Some (Ret (CPU_SEMIHOST_EXIT OR (code AND 0xFF))), c))
         else (None, setr 0 (- 1) c))"

text \<open>The byte reversals.\<close>

definition rev32 :: "u32 \<Rightarrow> u32" where
  "rev32 v = (drop_bit 24 v AND 0xFF) OR (drop_bit 8 v AND 0xFF00) OR (push_bit 8 v AND 0xFF0000) OR
     (push_bit 24 v AND 0xFF000000)"

definition rev16 :: "u32 \<Rightarrow> u32" where
  "rev16 v = drop_bit 8 (v AND 0xFF00FF00) OR push_bit 8 (v AND 0x00FF00FF)"

text \<open>
  The miscellaneous group. \<open>None\<close> as the first result stands for the jump to \<open>done_16\<close>, \<open>Some\<close> for
  an immediate return.
\<close>

definition misc :: "u32 \<Rightarrow> u16 \<Rightarrow> u32 \<Rightarrow> 'd machine \<Rightarrow> step_result option \<times> 'd machine" where
  "misc now insn pc c =
     (let rd = fld insn 0 7; v = reg c (fld insn 3 7)
      in if insn AND 0xFF00 = 0xB000 then
           (let imm7 = push_bit 2 (imm insn 0 0x7F)
            in (None, setr REG_SP (if insn AND 0x80 \<noteq> 0 then reg c REG_SP - imm7 else reg c REG_SP + imm7) c))
         else if insn AND 0xFE00 = 0xB400 then (None, push_insn insn c)
         else if insn AND 0xFE00 = 0xBC00 then (None, pop_insn insn c)
         else if insn = 0xB672 then (None, c\<lparr>primask := 1\<rparr>)
         else if insn = 0xB662 then (None, c\<lparr>primask := 0, irq_shadow := True\<rparr>)
         else if insn AND 0xFF00 = 0xBF00 then
           (let mask = insn AND 0xF
            in if mask = 0 then (None, c)
               else (None, c\<lparr>it_state := ucast (push_bit 4 (drop_bit 4 insn AND 0xF) OR mask)\<rparr>))
         else if insn AND 0xF500 = 0xB100 then
           (let rn = fld insn 0 7; nz = bit insn 11;
                off = push_bit 1 (imm insn 3 0x1F) OR push_bit 6 (imm insn 9 1)
            in (None, if (if nz then reg c rn \<noteq> 0 else reg c rn = 0) then setr REG_PC (pc + 4 + off) c else c))
         else if insn AND 0xFFC0 = 0xB200 then (None, setr rd (scast (ucast v :: u16)) c)
         else if insn AND 0xFFC0 = 0xB240 then (None, setr rd (scast (ucast v :: u8)) c)
         else if insn AND 0xFFC0 = 0xB280 then (None, setr rd (v AND 0xFFFF) c)
         else if insn AND 0xFFC0 = 0xB2C0 then (None, setr rd (v AND 0xFF) c)
         else if insn AND 0xFFC0 = 0xBA00 then (None, setr rd (rev32 v) c)
         else if insn AND 0xFFC0 = 0xBA40 then (None, setr rd (rev16 v) c)
         else if insn AND 0xFF00 = 0xBE00 then
           (if insn = 0xBE00 then (Some (Ret CPU_BREAKPOINT), setr REG_PC (reg c REG_PC - 2) c)
            else if insn = 0xBEAB then semihost now c
            else (None, c))
         else (None, c))"

text \<open>Store and load multiple: the loops over the register list, with the running address.\<close>

fun stm_loop :: "nat list \<Rightarrow> u16 \<Rightarrow> u32 \<Rightarrow> 'd machine \<Rightarrow> u32 \<times> 'd machine" where
  "stm_loop [] regs addr c = (addr, c)"
| "stm_loop (i # is) regs addr c =
     (if bit regs i then stm_loop is regs (addr + 4) (store32 i addr c) else stm_loop is regs addr c)"

fun ldm_loop :: "nat list \<Rightarrow> u16 \<Rightarrow> u32 \<Rightarrow> 'd machine \<Rightarrow> u32 \<times> 'd machine" where
  "ldm_loop [] regs addr c = (addr, c)"
| "ldm_loop (i # is) regs addr c =
     (if bit regs i then ldm_loop is regs (addr + 4) (load32 i addr c) else ldm_loop is regs addr c)"

definition stm :: "u16 \<Rightarrow> 'd machine \<Rightarrow> 'd machine" where
  "stm insn c =
     (let rn = fld insn 8 7; regs = insn AND 0xFF
      in case stm_loop [0..<8] regs (reg c rn) c of (addr, c) \<Rightarrow> setr rn addr c)"

definition ldm :: "u16 \<Rightarrow> 'd machine \<Rightarrow> 'd machine" where
  "ldm insn c =
     (let rn = fld insn 8 7; regs = insn AND 0xFF
      in case ldm_loop [0..<8] regs (reg c rn) c of (addr, c) \<Rightarrow> setr rn addr c)"

definition cond_branch :: "u16 \<Rightarrow> u32 \<Rightarrow> 'd machine \<Rightarrow> 'd machine" where
  "cond_branch insn pc c =
     (let cond = fld insn 8 0xF
      in if 0xE \<le> cond then c
         else if cond_check c cond
         then setr REG_PC (pc + 4 + push_bit 1 (scast (ucast insn :: u8))) c
         else c)"

definition branch :: "u16 \<Rightarrow> u32 \<Rightarrow> 'd machine \<Rightarrow> 'd machine" where
  "branch insn pc c =
     (let off = imm insn 0 0x7FF;
          off = (if off AND 0x400 \<noteq> 0 then off OR 0xFFFFF800 else off)
      in setr REG_PC (pc + 4 + push_bit 1 off) c)"

text \<open>The dispatch table, by the upper five bits of the instruction.\<close>

definition dispatch :: "u32 \<Rightarrow> u16 \<Rightarrow> u32 \<Rightarrow> 'd machine \<Rightarrow> step_result option \<times> 'd machine" where
  "dispatch now insn pc c =
     (let g = unat (drop_bit 11 insn)
      in if g = 0 then (None, lsl_imm insn c)
         else if g = 1 then (None, lsr_imm insn c)
         else if g = 2 then (None, asr_imm insn c)
         else if g = 3 then (None, add_sub insn c)
         else if g = 4 then (None, mov_imm insn c)
         else if g = 5 then (None, cmp_imm insn c)
         else if g = 6 then (None, add_imm8 insn c)
         else if g = 7 then (None, sub_imm8 insn c)
         else if g = 8 then (None, alu_special insn c)
         else if g = 9 then (None, ldr_pc insn pc c)
         else if g = 10 \<or> g = 11 then (None, ls_reg insn c)
         else if g = 12 then (None, str_imm insn c)
         else if g = 13 then (None, ldr_imm insn c)
         else if g = 14 then (None, strb_imm insn c)
         else if g = 15 then (None, ldrb_imm insn c)
         else if g = 16 then (None, strh_imm insn c)
         else if g = 17 then (None, ldrh_imm insn c)
         else if g = 18 then (None, str_sp insn c)
         else if g = 19 then (None, ldr_sp insn c)
         else if g = 20 then (None, adr insn pc c)
         else if g = 21 then (None, add_sp_imm insn c)
         else if g = 22 \<or> g = 23 then misc now insn pc c
         else if g = 24 then (None, stm insn c)
         else if g = 25 then (None, ldm insn c)
         else if g = 26 \<or> g = 27 then (None, cond_branch insn pc c)
         else if g = 28 then (None, branch insn pc c)
         else (Some (Exit 1), c))"

section \<open>The 32-bit instructions\<close>

text \<open>The branch offset of \<open>BL\<close> and \<open>B.W\<close>.\<close>

definition branch_offset :: "u16 \<Rightarrow> u16 \<Rightarrow> u32" where
  "branch_offset hi lo =
     (let s = imm hi 10 1; j1 = imm lo 13 1; j2 = imm lo 11 1;
          i1 = NOT (j1 XOR s) AND 1; i2 = NOT (j2 XOR s) AND 1;
          offset = push_bit 24 s OR push_bit 23 i1 OR push_bit 22 i2 OR
                   push_bit 12 (imm hi 0 0x3FF) OR push_bit 1 (imm lo 0 0x7FF)
      in if s \<noteq> 0 then offset OR 0xFE000000 else offset)"

definition bl :: "u16 \<Rightarrow> u16 \<Rightarrow> u32 \<Rightarrow> 'd machine \<Rightarrow> 'd machine" where
  "bl hi lo pc c =
     (let c = setr REG_LR (reg c REG_PC OR 1) c
      in setr REG_PC ((pc + 4 + branch_offset hi lo) AND NOT 1) c)"

definition b_w :: "u16 \<Rightarrow> u16 \<Rightarrow> u32 \<Rightarrow> 'd machine \<Rightarrow> 'd machine" where
  "b_w hi lo pc c = setr REG_PC ((pc + 4 + branch_offset hi lo) AND NOT 1) c"

text \<open>Loads and stores with a 12-bit offset.\<close>

definition ldr_w_imm12 :: "u16 \<Rightarrow> u16 \<Rightarrow> 'd machine \<Rightarrow> 'd machine" where
  "ldr_w_imm12 hi lo c =
     (let rn = fld hi 0 0xF; rt = fld lo 12 0xF; imm12 = imm lo 0 0xFFF;
          bs = (if rn = REG_PC then reg c rn AND NOT 3 else reg c rn)
      in clear_pc_bit0 rt (load32 rt (bs + imm12) c))"

definition str_w_imm12 :: "u16 \<Rightarrow> u16 \<Rightarrow> 'd machine \<Rightarrow> 'd machine" where
  "str_w_imm12 hi lo c = store32 (fld lo 12 0xF) (reg c (fld hi 0 0xF) + imm lo 0 0xFFF) c"

text \<open>
  The addressing modes the wide loads and stores share: pre- and post-indexed by an 8-bit offset,
  with or without write-back, and register offset; \<open>access\<close> does the load or the store.
\<close>

definition ls_indexed ::
    "(u32 \<Rightarrow> 'd machine \<Rightarrow> 'd machine) \<Rightarrow> nat \<Rightarrow> u16 \<Rightarrow> u32 \<Rightarrow> 'd machine \<Rightarrow> 'd machine" where
  "ls_indexed access rn lo addr c =
     (let p = bit lo 10; u = bit lo 9; w = bit lo 8; imm8 = imm lo 0 0xFF;
          offset = (if u then imm8 else - imm8);
          addr = (if p then addr + offset else addr);
          c = access addr c;
          addr = (if \<not> p then addr + offset else addr)
      in if w \<or> \<not> p then setr rn addr c else c)"

definition ls_offset :: "(u32 \<Rightarrow> 'd machine \<Rightarrow> 'd machine) \<Rightarrow> nat \<Rightarrow> u16 \<Rightarrow> 'd machine \<Rightarrow> 'd machine" where
  "ls_offset access rn lo c =
     (let rm = fld lo 0 0xF; shift = fld lo 4 3
      in access (reg c rn + push_bit shift (reg c rm)) c)"

definition ls_wide :: "(u32 \<Rightarrow> 'd machine \<Rightarrow> 'd machine) \<Rightarrow> u16 \<Rightarrow> u16 \<Rightarrow> 'd machine \<Rightarrow> 'd machine" where
  "ls_wide access hi lo c =
     (let rn = fld hi 0 0xF
      in if lo AND 0x0800 \<noteq> 0 then ls_indexed access rn lo (reg c rn) c else ls_offset access rn lo c)"

definition ldr_w :: "u16 \<Rightarrow> u16 \<Rightarrow> 'd machine \<Rightarrow> 'd machine" where
  "ldr_w hi lo c =
     (let rn = fld hi 0 0xF; rt = fld lo 12 0xF;
          c = (if lo AND 0x0800 \<noteq> 0
               then ls_indexed (load32 rt) rn lo (if rn = REG_PC then reg c rn AND NOT 3 else reg c rn) c
               else ls_offset (load32 rt) rn lo c)
      in clear_pc_bit0 rt c)"

definition str_w :: "u16 \<Rightarrow> u16 \<Rightarrow> 'd machine \<Rightarrow> 'd machine" where
  "str_w hi lo c = ls_wide (store32 (fld lo 12 0xF)) hi lo c"

definition ldrb_w_imm12 :: "u16 \<Rightarrow> u16 \<Rightarrow> 'd machine \<Rightarrow> 'd machine" where
  "ldrb_w_imm12 hi lo c = load8 (fld lo 12 0xF) (reg c (fld hi 0 0xF) + imm lo 0 0xFFF) c"

definition strb_w_imm12 :: "u16 \<Rightarrow> u16 \<Rightarrow> 'd machine \<Rightarrow> 'd machine" where
  "strb_w_imm12 hi lo c = store8 (fld lo 12 0xF) (reg c (fld hi 0 0xF) + imm lo 0 0xFFF) c"

definition ldrb_w :: "u16 \<Rightarrow> u16 \<Rightarrow> 'd machine \<Rightarrow> 'd machine" where
  "ldrb_w hi lo c = ls_wide (load8 (fld lo 12 0xF)) hi lo c"

definition strb_w :: "u16 \<Rightarrow> u16 \<Rightarrow> 'd machine \<Rightarrow> 'd machine" where
  "strb_w hi lo c = ls_wide (store8 (fld lo 12 0xF)) hi lo c"

definition ldrh_w_imm12 :: "u16 \<Rightarrow> u16 \<Rightarrow> 'd machine \<Rightarrow> 'd machine" where
  "ldrh_w_imm12 hi lo c = load16 (fld lo 12 0xF) (reg c (fld hi 0 0xF) + imm lo 0 0xFFF) c"

definition ldrh_w :: "u16 \<Rightarrow> u16 \<Rightarrow> 'd machine \<Rightarrow> 'd machine" where
  "ldrh_w hi lo c = ls_wide (load16 (fld lo 12 0xF)) hi lo c"

definition ldrsh_w_imm12 :: "u16 \<Rightarrow> u16 \<Rightarrow> 'd machine \<Rightarrow> 'd machine" where
  "ldrsh_w_imm12 hi lo c = load16s (fld lo 12 0xF) (reg c (fld hi 0 0xF) + imm lo 0 0xFFF) c"

definition ldrsh_w :: "u16 \<Rightarrow> u16 \<Rightarrow> 'd machine \<Rightarrow> 'd machine" where
  "ldrsh_w hi lo c = ls_wide (load16s (fld lo 12 0xF)) hi lo c"

definition strh_w_imm12 :: "u16 \<Rightarrow> u16 \<Rightarrow> 'd machine \<Rightarrow> 'd machine" where
  "strh_w_imm12 hi lo c = store16 (fld lo 12 0xF) (reg c (fld hi 0 0xF) + imm lo 0 0xFFF) c"

definition strh_w :: "u16 \<Rightarrow> u16 \<Rightarrow> 'd machine \<Rightarrow> 'd machine" where
  "strh_w hi lo c = ls_wide (store16 (fld lo 12 0xF)) hi lo c"

text \<open>Plain 12-bit and 16-bit immediates.\<close>

definition imm12_of :: "u16 \<Rightarrow> u16 \<Rightarrow> u32" where
  "imm12_of hi lo = ucast (push_bit 1 (hi AND 0x0400) OR drop_bit 4 (lo AND 0x7000) OR (lo AND 0xFF))"

definition imm16_of :: "u16 \<Rightarrow> u16 \<Rightarrow> u32" where
  "imm16_of hi lo = push_bit 12 (imm hi 0 0xF) OR imm12_of hi lo"

definition addw :: "u16 \<Rightarrow> u16 \<Rightarrow> 'd machine \<Rightarrow> 'd machine" where
  "addw hi lo c = setr (fld lo 8 0xF) (reg c (fld hi 0 0xF) + imm12_of hi lo) c"

definition subw :: "u16 \<Rightarrow> u16 \<Rightarrow> 'd machine \<Rightarrow> 'd machine" where
  "subw hi lo c = setr (fld lo 8 0xF) (reg c (fld hi 0 0xF) - imm12_of hi lo) c"

definition movw :: "u16 \<Rightarrow> u16 \<Rightarrow> 'd machine \<Rightarrow> 'd machine" where
  "movw hi lo c = setr (fld lo 8 0xF) (imm16_of hi lo) c"

definition movt :: "u16 \<Rightarrow> u16 \<Rightarrow> 'd machine \<Rightarrow> 'd machine" where
  "movt hi lo c =
     (let rd = fld lo 8 0xF in setr rd ((reg c rd AND 0xFFFF) OR push_bit 16 (imm16_of hi lo)) c)"

text \<open>Data processing with a modified immediate.\<close>

definition thumb_expand_imm :: "u16 \<Rightarrow> u16 \<Rightarrow> u32" where
  "thumb_expand_imm hi lo =
     (let i = imm hi 10 1; imm3 = imm lo 12 7; imm8 = imm lo 0 0xFF;
          imm12 = push_bit 11 i OR push_bit 8 imm3 OR imm8
      in if drop_bit 8 imm12 = 0 then imm8
         else if drop_bit 8 imm12 = 1 then push_bit 16 imm8 OR imm8
         else if drop_bit 8 imm12 = 2 then push_bit 24 imm8 OR push_bit 8 imm8
         else if drop_bit 8 imm12 = 3 then push_bit 24 imm8 OR push_bit 16 imm8 OR push_bit 8 imm8 OR imm8
         else (let unrot = 0x80 OR (imm12 AND 0x7F); rot = unat (drop_bit 7 imm12 AND 0x1F)
               in drop_bit rot unrot OR push_bit (32 - rot) unrot))"

definition dp_imm :: "u16 \<Rightarrow> u16 \<Rightarrow> 'd machine \<Rightarrow> 'd machine" where
  "dp_imm hi lo c =
     (let op = fld hi 5 0xF; rn = fld hi 0 0xF; rd = fld lo 8 0xF; s = bit hi 4;
          im = thumb_expand_imm hi lo; n = reg c rn;
          c = (if op = 0x0 then
                 (let result = n AND im
                  in if s \<and> rd = 15 then set_nz result c
                     else (let c = setr rd result c in if s then set_nz result c else c))
               else if op = 0x1 then
                 (let c = setr rd (n AND NOT im) c in if s then set_nz (reg c rd) c else c)
               else if op = 0x2 then setr rd (if rn = 15 then im else n OR im) c
               else if op = 0x3 then setr rd (if rn = 15 then NOT im else n OR NOT im) c
               else if op = 0x4 then setr rd (n XOR im) c
               else if op = 0x8 then
                 (let r = (ucast n :: u64) + ucast im;
                      c = (if s then set_nzcv_add n im r c else c)
                  in if rd \<noteq> 15 then setr rd (ucast r) c else c)
               else if op = 0xA then
                 (let r = (ucast n :: u64) - ucast im;
                      c = (if s then set_nzcv_sub n im r c else c)
                  in setr rd (ucast r) c)
               else if op = 0xD then
                 (let r = (ucast n :: u64) - ucast im;
                      c = (if rd \<noteq> 15 then setr rd (ucast r) c else c)
                  in if s then set_nzcv_sub (reg c rn) im r c else c)
               else if op = 0xE then
                 (let r = (ucast im :: u64) - ucast n;
                      c = setr rd (ucast r) c
                  in if s then set_nzcv_sub im (reg c rn) r c else c)
               else setr rd im c)
      in if s \<and> op \<notin> {0x0, 0x1, 0x8, 0xA, 0xD, 0xE} then set_nz (reg c rd) c else c)"

text \<open>Store and load multiple.\<close>

definition stmdb :: "u16 \<Rightarrow> u16 \<Rightarrow> 'd machine \<Rightarrow> 'd machine" where
  "stmdb hi lo c =
     (let rn = fld hi 0 0xF; count = length (filter (\<lambda>i. bit lo i) [0..<16]);
          addr = reg c rn - of_nat count * 4;
          c = (if hi AND 0x0020 \<noteq> 0 then setr rn addr c else c)
      in snd (stm_loop [0..<16] lo addr c))"

definition stmia_w :: "u16 \<Rightarrow> u16 \<Rightarrow> 'd machine \<Rightarrow> 'd machine" where
  "stmia_w hi lo c =
     (let rn = fld hi 0 0xF
      in case stm_loop [0..<16] lo (reg c rn) c of (addr, c) \<Rightarrow>
           if hi AND 0x0020 \<noteq> 0 then setr rn addr c else c)"

definition ldmia_w :: "u16 \<Rightarrow> u16 \<Rightarrow> 'd machine \<Rightarrow> 'd machine" where
  "ldmia_w hi lo c =
     (let rn = fld hi 0 0xF
      in case ldm_loop [0..<16] lo (reg c rn) c of (addr, c) \<Rightarrow>
           (let c = (if hi AND 0x0020 \<noteq> 0 then setr rn addr c else c)
            in if bit lo REG_PC then branch_exchange (reg c REG_PC) c else c))"

text \<open>Moves to and from the special registers.\<close>

definition msr :: "u16 \<Rightarrow> u16 \<Rightarrow> 'd machine \<Rightarrow> 'd machine" where
  "msr hi lo c =
     (let v = reg c (fld hi 0 0xF); sysm = fld lo 0 0xFF
      in if sysm = 8 then
           (let c = c\<lparr>msp := v\<rparr> in if control c AND 2 = 0 then setr REG_SP (msp c) c else c)
         else if sysm = 9 then
           (let c = c\<lparr>psp := v\<rparr>
            in if control c AND 2 \<noteq> 0 \<and> \<not> in_handler c then setr REG_SP (psp c) c else c)
         else if sysm = 16 then c\<lparr>primask := v AND 1\<rparr>
         else if sysm = 20 then
           (let c = c\<lparr>control := v AND 3\<rparr>
            in setr REG_SP (if control c AND 2 \<noteq> 0 then psp c else msp c) c)
         else c)"

definition mrs :: "u16 \<Rightarrow> 'd machine \<Rightarrow> 'd machine" where
  "mrs lo c =
     (let rd = fld lo 8 0xF; sysm = fld lo 0 0xFF
      in if sysm = 0 then setr rd (xpsr c AND 0xF8000000) c
         else if sysm = 3 then setr rd (xpsr c) c
         else if sysm = 5 then setr rd (xpsr c AND 0x1FF) c
         else if sysm = 6 then setr rd (xpsr c AND 0xF80001FF) c
         else if sysm = 8 then setr rd (msp c) c
         else if sysm = 9 then setr rd (psp c) c
         else if sysm = 16 then setr rd (primask c) c
         else if sysm = 20 then setr rd (control c) c
         else c)"

text \<open>Bit fields. A field of 32 bits makes the mask \<open>1u << 32\<close>, which C leaves undefined.\<close>

definition flag_undef :: "bool \<Rightarrow> 'd machine \<Rightarrow> 'd machine" where
  "flag_undef ub c = c\<lparr>undef := undef c \<or> ub\<rparr>"

definition field_lsb :: "u16 \<Rightarrow> nat" where
  "field_lsb lo = fld lo 12 7 * 4 + fld lo 6 3"

definition field_width :: "u16 \<Rightarrow> nat" where
  "field_width lo = fld lo 0 0x1F + 1"

definition ubfx :: "u16 \<Rightarrow> u16 \<Rightarrow> 'd machine \<Rightarrow> 'd machine" where
  "ubfx hi lo c =
     (let rd = fld lo 8 0xF; lsb = field_lsb lo; width = field_width lo
      in flag_undef (width = 32)
           (setr rd (drop_bit lsb (reg c (fld hi 0 0xF)) AND (push_bit width 1 - 1)) c))"

definition sbfx :: "u16 \<Rightarrow> u16 \<Rightarrow> 'd machine \<Rightarrow> 'd machine" where
  "sbfx hi lo c =
     (let rd = fld lo 8 0xF; lsb = field_lsb lo; width = field_width lo;
          val = drop_bit lsb (reg c (fld hi 0 0xF)) AND (push_bit width 1 - 1);
          val = (if val AND push_bit (width - 1) 1 \<noteq> 0 then val OR NOT (push_bit width 1 - 1) else val)
      in flag_undef (width = 32) (setr rd val c))"

text \<open>Division and multiplication.\<close>

definition udiv :: "u16 \<Rightarrow> u16 \<Rightarrow> 'd machine \<Rightarrow> 'd machine" where
  "udiv hi lo c =
     (let n = reg c (fld hi 0 0xF); m = reg c (fld lo 0 0xF)
      in setr (fld lo 8 0xF) (if m = 0 then 0 else n div m) c)"

definition sdiv32 :: "u16 \<Rightarrow> u16 \<Rightarrow> 'd machine \<Rightarrow> 'd machine" where
  "sdiv32 hi lo c =
     (let n = reg c (fld hi 0 0xF); m = reg c (fld lo 0 0xF)
      in flag_undef (n = 0x80000000 \<and> m = - 1)
           (setr (fld lo 8 0xF) (if m = 0 then 0 else word_of_int (sint n sdiv sint m)) c))"

definition mul_mla_mls :: "u16 \<Rightarrow> u16 \<Rightarrow> 'd machine \<Rightarrow> 'd machine" where
  "mul_mla_mls hi lo c =
     (let n = reg c (fld hi 0 0xF); ra = fld lo 12 0xF; rd = fld lo 8 0xF; m = reg c (fld lo 0 0xF)
      in if ra = 0xF then setr rd (n * m) c
         else if bit lo 4 then setr rd (reg c ra - n * m) c
         else setr rd (n * m + reg c ra) c)"

definition mull :: "u16 \<Rightarrow> u16 \<Rightarrow> 'd machine \<Rightarrow> 'd machine" where
  "mull hi lo c =
     (let n = reg c (fld hi 0 0xF); m = reg c (fld lo 0 0xF);
          r = (if hi AND 0xFFF0 = 0xFB80 then (scast n :: u64) * scast m else ucast n * ucast m);
          c = setr (fld lo 12 0xF) (ucast r) c
      in setr (fld lo 8 0xF) (ucast (drop_bit 32 r)) c)"

definition ldrd_strd :: "u16 \<Rightarrow> u16 \<Rightarrow> 'd machine \<Rightarrow> 'd machine" where
  "ldrd_strd hi lo c =
     (let is_load = bit hi 4; rn = fld hi 0 0xF; rt = fld lo 12 0xF; rt2 = fld lo 8 0xF;
          p = bit hi 8; u = bit hi 7; w = bit hi 5; imm8 = push_bit 2 (imm lo 0 0xFF);
          addr = reg c rn; offset = (if u then imm8 else - imm8);
          addr = (if p then addr + offset else addr);
          c = (if is_load then load32 rt2 (addr + 4) (load32 rt addr c)
               else store32 rt2 (addr + 4) (store32 rt addr c));
          addr = (if \<not> p then addr + offset else addr)
      in if w then setr rn (if p then reg c rn + offset else addr) c else c)"

text \<open>Shift by a register. A rotation by 32 or more is a C shift by 32 or more.\<close>

definition shift_reg :: "u16 \<Rightarrow> u16 \<Rightarrow> 'd machine \<Rightarrow> 'd machine" where
  "shift_reg hi lo c =
     (let op = fld hi 5 3; rd = fld lo 8 0xF; shift = unat (reg c (fld lo 0 0xF) AND 0xFF);
          val = reg c (fld hi 0 0xF);
          c = (if op = 0 then setr rd (if 32 \<le> shift then 0 else push_bit shift val) c
               else if op = 1 then setr rd (if 32 \<le> shift then 0 else drop_bit shift val) c
               else if op = 2 then setr rd (if 32 \<le> shift then signed_drop_bit 31 val
                                            else signed_drop_bit shift val) c
               else flag_undef (32 \<le> shift)
                 (setr rd (if shift = 0 then val else drop_bit shift val OR push_bit (32 - shift) val) c))
      in set_nz (reg c rd) c)"

text \<open>Data processing with a shifted register.\<close>

definition imm_shift :: "u16 \<Rightarrow> u32 \<Rightarrow> u32" where
  "imm_shift lo val =
     (let shift_type = fld lo 4 3; imm5 = field_lsb lo
      in if shift_type = 0 then (if imm5 = 0 then val else push_bit imm5 val)
         else if shift_type = 1 then (if imm5 = 0 then 0 else drop_bit imm5 val)
         else if shift_type = 2 then
           (if imm5 = 0 then signed_drop_bit 31 val else signed_drop_bit imm5 val)
         else (if imm5 \<noteq> 0 then drop_bit imm5 val OR push_bit (32 - imm5) val else val))"

definition dp_reg :: "u16 \<Rightarrow> u16 \<Rightarrow> 'd machine \<Rightarrow> 'd machine" where
  "dp_reg hi lo c =
     (let op = fld hi 5 0xF; rn = fld hi 0 0xF; rd = fld lo 8 0xF; s = bit hi 4;
          val = imm_shift lo (reg c (fld lo 0 0xF)); n = reg c rn;
          c = (if op = 0x0 then setr rd (n AND val) c
               else if op = 0x1 then setr rd (n AND NOT val) c
               else if op = 0x2 then setr rd (if rn = 15 then val else n OR val) c
               else if op = 0x3 then setr rd (if rn = 15 then NOT val else n OR NOT val) c
               else if op = 0x4 then setr rd (n XOR val) c
               else if op = 0x8 then
                 (let r = (ucast n :: u64) + ucast val; c = setr rd (ucast r) c
                  in if s then set_nzcv_add (reg c rn) val r c else c)
               else if op = 0xA then
                 (let r = (ucast n :: u64) - ucast val; c = setr rd (ucast r) c
                  in if s then set_nzcv_sub (reg c rn) val r c else c)
               else if op = 0xD then
                 (let r = (ucast n :: u64) - ucast val;
                      c = (if rd \<noteq> 15 then setr rd (ucast r) c else c)
                  in if s then set_nzcv_sub (reg c rn) val r c else c)
               else if op = 0xE then
                 (let r = (ucast val :: u64) - ucast n; c = setr rd (ucast r) c
                  in if s then set_nzcv_sub val (reg c rn) r c else c)
               else setr rd val c)
      in if s \<and> op \<notin> {0x8, 0xA, 0xD} then set_nz (reg c rd) c else c)"

definition cond_branch_w :: "u16 \<Rightarrow> u16 \<Rightarrow> u32 \<Rightarrow> 'd machine \<Rightarrow> 'd machine" where
  "cond_branch_w hi lo pc c =
     (if cond_check c (fld hi 6 0xF)
      then (let s = imm hi 10 1; j1 = imm lo 13 1; j2 = imm lo 11 1;
                offset = push_bit 20 s OR push_bit 19 j2 OR push_bit 18 j1 OR
                         push_bit 12 (imm hi 0 0x3F) OR push_bit 1 (imm lo 0 0x7FF);
                offset = (if s \<noteq> 0 then offset OR 0xFFE00000 else offset)
            in setr REG_PC (pc + 4 + offset) c)
      else c)"

text \<open>The decoding of \<open>exec_thumb32\<close>: the first matching pattern is executed.\<close>

definition exec_thumb32 :: "u32 \<Rightarrow> 'd machine \<Rightarrow> step_result \<times> 'd machine" where
  "exec_thumb32 insn c =
     (let hi = (ucast (drop_bit 16 insn) :: u16); lo = (ucast (insn AND 0xFFFF) :: u16);
          pc = reg c REG_PC - 4; h = hi AND 0xFFF0; hb = hi AND 0xFBF0; hd = hi AND 0xFFD0
      in if hi AND 0xF800 = 0xF000 \<and> lo AND 0xD000 = 0xD000 then (Ret 0, bl hi lo pc c)
         else if hi AND 0xF800 = 0xF000 \<and> lo AND 0xD000 = 0x9000 then (Ret 0, b_w hi lo pc c)
         else if h = 0xF8D0 then (Ret 0, ldr_w_imm12 hi lo c)
         else if h = 0xF8C0 then (Ret 0, str_w_imm12 hi lo c)
         else if h = 0xF850 then (Ret 0, ldr_w hi lo c)
         else if h = 0xF840 then (Ret 0, str_w hi lo c)
         else if h = 0xF890 then (Ret 0, ldrb_w_imm12 hi lo c)
         else if h = 0xF880 then (Ret 0, strb_w_imm12 hi lo c)
         else if h = 0xF810 then (Ret 0, ldrb_w hi lo c)
         else if h = 0xF800 then (Ret 0, strb_w hi lo c)
         else if h = 0xF8B0 then (Ret 0, ldrh_w_imm12 hi lo c)
         else if h = 0xF830 then (Ret 0, ldrh_w hi lo c)
         else if h = 0xF9B0 then (Ret 0, ldrsh_w_imm12 hi lo c)
         else if h = 0xF930 then (Ret 0, ldrsh_w hi lo c)
         else if h = 0xF8A0 then (Ret 0, strh_w_imm12 hi lo c)
         else if h = 0xF820 then (Ret 0, strh_w hi lo c)
         else if hb = 0xF200 then (Ret 0, addw hi lo c)
         else if hb = 0xF2A0 then (Ret 0, subw hi lo c)
         else if hb = 0xF240 then (Ret 0, movw hi lo c)
         else if hb = 0xF2C0 then (Ret 0, movt hi lo c)
         else if hi AND 0xFA00 = 0xF000 \<and> lo AND 0x8000 = 0 \<and> h \<noteq> 0xF380 \<and> h \<noteq> 0xF3E0 \<and> h \<noteq> 0xF3B0
         then (Ret 0, dp_imm hi lo c)
         else if hd = 0xE900 then (Ret 0, stmdb hi lo c)
         else if hd = 0xE880 then (Ret 0, stmia_w hi lo c)
         else if hd = 0xE890 then (Ret 0, ldmia_w hi lo c)
         else if h = 0xF380 then (Ret 0, msr hi lo c)
         else if h = 0xF3E0 then (Ret 0, mrs lo c)
         else if h = 0xF3B0 then (Ret 0, c)
         else if h = 0xF3C0 then (Ret 0, ubfx hi lo c)
         else if h = 0xF340 then (Ret 0, sbfx hi lo c)
         else if h = 0xFBB0 then (Ret 0, udiv hi lo c)
         else if h = 0xFB90 then (Ret 0, sdiv32 hi lo c)
         else if h = 0xFB00 then (Ret 0, mul_mla_mls hi lo c)
         else if h = 0xFB80 \<or> h = 0xFBA0 then (Ret 0, mull hi lo c)
         else if hi AND 0xFE50 = 0xE850 \<or> hi AND 0xFE50 = 0xE840 then (Ret 0, ldrd_strd hi lo c)
         else if hi AND 0xFF80 = 0xFA00 then (Ret 0, shift_reg hi lo c)
         else if hi AND 0xFE00 = 0xEA00 then (Ret 0, dp_reg hi lo c)
         else if hi AND 0xF800 = 0xF000 \<and> lo AND 0xD000 = 0x8000 \<and> fld hi 6 0xF < 14
         then (Ret 0, cond_branch_w hi lo pc c)
         else (Exit 1, c))"

section \<open>The step\<close>

text \<open>The IT state after an instruction of the block.\<close>

definition it_advance :: "u8 \<Rightarrow> u8" where
  "it_advance it =
     (let mask = it AND 0xF
      in if mask AND 0x7 = 0 then 0 else (it AND 0xE0) OR (push_bit 1 mask AND 0x1F))"

abbreviation NZCV :: u32 where
  "NZCV \<equiv> FLAG_N OR FLAG_Z OR FLAG_C OR FLAG_V"

definition armv7m_cpu_step :: "u32 \<Rightarrow> 'd machine \<Rightarrow> step_result \<times> 'd machine" where
  "armv7m_cpu_step now c =
     (let pc = reg c REG_PC
      in case read16 c pc of (insn, c) \<Rightarrow>
        (let c = setr REG_PC (pc + 2) c;
             c = c\<lparr>cycle_count := cycle_count c + 1, irq_shadow := False\<rparr>;
             in_it = it_state c \<noteq> 0;
             it_skip = (in_it \<and> \<not> cond_check c (unat (drop_bit 4 (it_state c) AND 0xF)));
             c = (if in_it then c\<lparr>it_state := it_advance (it_state c)\<rparr> else c)
         in if insn AND 0xE000 = 0xE000 \<and> insn AND 0x1800 \<noteq> 0
            then (case read16 c (pc + 2) of (insn2, c) \<Rightarrow>
                   (let c = setr REG_PC (pc + 4) c
                    in if it_skip then (Ret 0, c)
                       else exec_thumb32 (push_bit 16 (ucast insn) OR ucast insn2) c))
            else if it_skip then (Ret 0, c)
            else (let saved_flags = xpsr c AND NZCV
                  in case dispatch now insn pc c of
                       (Some r, c) \<Rightarrow> (r, c)
                     | (None, c) \<Rightarrow>
                         (Ret 0, if in_it then c\<lparr>xpsr := (xpsr c AND NOT NZCV) OR saved_flags\<rparr> else c))))"

end
