(* ===== verification/Armv7m_Laws.thy ===== *)
theory Armv7m_Laws
  imports Armv7m
begin

text \<open>
  What the simulated Cortex-M4 core guarantees: the conditions after a comparison are the comparisons
  of the operands as unsigned and as signed integers; pushing registers and popping them gives them
  back; an interrupt restores on return the context it saved. The first section describes words in RAM
  behind the bus.
\<close>

section \<open>Words in RAM\<close>

text \<open>The bus has its RAM; offsets of words in it; the word at an offset and the store of one.\<close>

definition ram_ok :: "'d machine \<Rightarrow> bool" where
  "ram_ok c \<longleftrightarrow> (\<exists>a. ram_ptr (bus c) = Some a \<and> array_len (bus c) a = 0x20000)"

definition ram_off :: "u32 \<Rightarrow> nat" where
  "ram_off a = unat (a - MEMBUS_RAM_BASE)"

definition ram_word :: "'d machine \<Rightarrow> nat \<Rightarrow> u32" where
  "ram_word c p = get32 (arrays (bus c) (the (ram_ptr (bus c)))) p"

definition ram_put :: "nat \<Rightarrow> u32 \<Rightarrow> 'd machine \<Rightarrow> 'd machine" where
  "ram_put p v c =
     (let b = bus c; a = the (ram_ptr b)
      in c\<lparr>bus := b\<lparr>arrays := (arrays b)(a := put32 p v (arrays b a))\<rparr>\<rparr>)"

named_theorems cpu_frame

lemma ram_off_less: "a - MEMBUS_RAM_BASE < MEMBUS_RAM_SIZE \<longleftrightarrow> ram_off a < 0x20000"
  by (simp add: ram_off_def MEMBUS_RAM_SIZE_def word_less_nat_alt)

lemma write32_ram:
  assumes "ram_ok c" "ram_off a + 4 \<le> 0x20000"
  shows "write32 a v c = ram_put (ram_off a) v c"
proof -
  have "ram_off a < 0x20000" using assms(2) by simp
  then show ?thesis
    using assms by (auto simp: write32_def membus_write32_def bus_write_def ram_off_less host_store_def ram_ok_def
        ram_put_def Let_def simp flip: ram_off_def)
qed

lemma read32_ram:
  assumes "ram_ok c" "ram_off a + 4 \<le> 0x20000"
  shows "read32 c a = (ram_word c (ram_off a), c)"
proof -
  have "ram_off a < 0x20000" using assms(2) by simp
  then show ?thesis
    using assms by (auto simp: read32_def membus_read32_def bus_read_def ram_off_less host_load_def ram_ok_def
        ram_word_def simp flip: ram_off_def)
qed

lemma ram_off_add:
  assumes "ram_off s + unat k < 4294967296"
  shows "ram_off (s + k) = ram_off s + unat k"
proof -
  have "s + k - MEMBUS_RAM_BASE = (s - MEMBUS_RAM_BASE) + k" by simp
  then show ?thesis using assms unfolding ram_off_def by (simp only: unat_add32)
qed

lemma ram_word_put [cpu_frame]:
  "p + 4 \<le> q \<or> q + 4 \<le> p \<Longrightarrow> ram_word (ram_put p v c) q = ram_word c q"
  "ram_word (ram_put p v c) p = v"
  by (auto simp: ram_word_def ram_put_def Let_def get_other)

lemma ram_put_frame [cpu_frame]:
  "reg (ram_put p v c) = reg c" "xpsr (ram_put p v c) = xpsr c" "it_state (ram_put p v c) = it_state c"
  "control (ram_put p v c) = control c" "msp (ram_put p v c) = msp c" "psp (ram_put p v c) = psp c"
  "in_handler (ram_put p v c) = in_handler c" "primask (ram_put p v c) = primask c"
  "cycle_count (ram_put p v c) = cycle_count c" "undef (ram_put p v c) = undef c"
  "ram_ok (ram_put p v c) = ram_ok c"
  by (simp_all add: ram_put_def Let_def ram_ok_def)

text \<open>Changes of the registers leave the bus alone.\<close>

lemma setr_frame [cpu_frame]:
  "reg (setr i v c) = (reg c)(i := v)" "xpsr (setr i v c) = xpsr c" "it_state (setr i v c) = it_state c"
  "control (setr i v c) = control c" "msp (setr i v c) = msp c" "psp (setr i v c) = psp c"
  "in_handler (setr i v c) = in_handler c" "primask (setr i v c) = primask c"
  "cycle_count (setr i v c) = cycle_count c"
  by (simp_all add: setr_def)

lemma setr_bus [cpu_frame]: "bus (setr i v c) = bus c" "undef (setr i v c) = undef c"
  "stderr_out (setr i v c) = stderr_out c"
  by (simp_all add: setr_def)

lemma ram_cong: "bus c' = bus c \<Longrightarrow> ram_ok c' = ram_ok c \<and> ram_word c' = ram_word c"
  by (auto simp: ram_ok_def ram_word_def fun_eq_iff)

lemma ram_bus_cong [cpu_frame]:
  "ram_ok (setr i v c) = ram_ok c" "ram_word (setr i v c) = ram_word c"
  "ram_ok (c\<lparr>psp := x\<rparr>) = ram_ok c" "ram_word (c\<lparr>psp := x\<rparr>) = ram_word c"
  "ram_ok (c\<lparr>msp := x\<rparr>) = ram_ok c" "ram_word (c\<lparr>msp := x\<rparr>) = ram_word c"
  "ram_ok (c\<lparr>it_state := y\<rparr>) = ram_ok c" "ram_word (c\<lparr>it_state := y\<rparr>) = ram_word c"
  "ram_ok (c\<lparr>xpsr := x\<rparr>) = ram_ok c" "ram_word (c\<lparr>xpsr := x\<rparr>) = ram_word c"
  "ram_ok (c\<lparr>in_handler := h\<rparr>) = ram_ok c" "ram_word (c\<lparr>in_handler := h\<rparr>) = ram_word c"
  by (simp_all add: ram_ok_def ram_word_def setr_def fun_eq_iff)

lemma load32_ram:
  assumes "ram_ok c" "ram_off a + 4 \<le> 0x20000"
  shows "load32 rt a c = setr rt (ram_word c (ram_off a)) c"
  by (simp add: load32_def read32_ram [OF assms])

lemma store32_ram:
  assumes "ram_ok c" "ram_off a + 4 \<le> 0x20000"
  shows "store32 rt a c = ram_put (ram_off a) (reg c rt) c"
  by (simp add: store32_def write32_ram [OF assms])

section \<open>Flags and conditions\<close>

lemma bit31_iff: "bit (a :: u32) 31 \<longleftrightarrow> 2147483648 \<le> unat a"
proof -
  have "bit a 31 \<longleftrightarrow> bit (unat a) 31" by (simp add: bit_unsigned_iff)
  also have "\<dots> \<longleftrightarrow> odd (unat a div 2147483648)" by (simp add: bit_iff_odd)
  also have "\<dots> \<longleftrightarrow> unat a div 2147483648 = 1"
  proof -
    have "unat a div 2147483648 < 2" using unat_bound32 [of a] by linarith
    then show ?thesis by (auto simp: less_2_cases_iff)
  qed
  also have "\<dots> \<longleftrightarrow> 2147483648 \<le> unat a" using unat_bound32 [of a] by linarith
  finally show ?thesis .
qed

lemma sint_unat32: "sint (a :: u32) = (if bit a 31 then int (unat a) - 4294967296 else int (unat a))"
proof -
  have "bit (uint a) 31 = bit a 31" by (simp add: bit_uint_iff)
  moreover have "take_bit 32 (uint a) = uint a"
    using unsigned_less [where ?'a = int, of a] by (simp add: take_bit_int_eq_self_iff)
  ultimately show ?thesis
    by (simp add: sint_uint signed_take_bit_eq_take_bit_minus)
qed

lemma unat_diff_cases: "unat ((a :: u32) - b) = (if b \<le> a then unat a - unat b else unat a + 4294967296 - unat b)"
  by (simp add: unat_sub_if_size word_size word_le_nat_alt)

text \<open>The top bit of the difference, and the overflow bit, decide the signed comparison.\<close>

lemma flag_bits: "bit FLAG_N n = (n = 31)" "bit FLAG_Z n = (n = 30)" "bit FLAG_C n = (n = 29)" "bit FLAG_V n = (n = 28)"
  unfolding FLAG_N_def FLAG_Z_def FLAG_C_def FLAG_V_def bit_push_bit_iff bit_1_iff by auto

lemma and_msb: "x AND 0x80000000 \<noteq> 0 \<longleftrightarrow> bit (x :: u32) 31"
proof -
  have "x AND FLAG_N = (if bit x 31 then FLAG_N else 0)"
    by (rule bit_word_eqI) (auto simp: bit_and_iff flag_bits)
  moreover have v: "0x80000000 = FLAG_N" and "FLAG_N \<noteq> 0" by (simp_all add: FLAG_N_def)
  ultimately show ?thesis unfolding v by simp
qed

lemma signed_less_arith:
  fixes A B :: nat
  assumes "A < 4294967296" "B < 4294967296"
  shows "(if 2147483648 \<le> A then int A - 4294967296 else int A) <
      (if 2147483648 \<le> B then int B - 4294967296 else int B) \<longleftrightarrow>
    (2147483648 \<le> (if B \<le> A then A - B else A + 4294967296 - B)) \<noteq>
      ((2147483648 \<le> A) \<noteq> (2147483648 \<le> B) \<and>
       (2147483648 \<le> A) \<noteq> (2147483648 \<le> (if B \<le> A then A - B else A + 4294967296 - B)))"
  using assms by (cases "2147483648 \<le> A"; cases "2147483648 \<le> B"; cases "B \<le> A"; simp; linarith)

lemma signed_less_iff:
  "sint (a :: u32) < sint b \<longleftrightarrow> bit (a - b) 31 \<noteq> bit ((a XOR b) AND (a XOR (a - b))) 31"
proof -
  have "bit ((a XOR b) AND (a XOR (a - b))) 31 \<longleftrightarrow>
      bit a 31 \<noteq> bit b 31 \<and> bit a 31 \<noteq> bit (a - b) 31" by (simp add: bit_simps)
  then show ?thesis
    using signed_less_arith [OF unat_bound32 [of a] unat_bound32 [of b]]
    unfolding sint_unat32 bit31_iff unat_diff_cases word_le_nat_alt by simp
qed

text \<open>The flags after a subtraction.\<close>

lemma set_flags_bits:
  "bit (xpsr (set_nz r c)) n = (if n = 31 then bit r 31 else if n = 30 then r = 0 else bit (xpsr c) n)"
  "bit (xpsr (set_flag FLAG_C on c)) n = (if n = 29 then on else bit (xpsr c) n)"
  "bit (xpsr (set_flag FLAG_V on c)) n = (if n = 28 then on else bit (xpsr c) n)"
proof -
  show "bit (xpsr (set_nz r c)) n = (if n = 31 then bit r 31 else if n = 30 then r = 0 else bit (xpsr c) n)"
    using bit_imp_le_length [of "xpsr c" n]
    by (auto simp: set_nz_def Let_def and_msb bit_or_iff bit_and_iff bit_not_iff flag_bits)
qed (use bit_imp_le_length [of "xpsr c" n] in
    \<open>auto simp: set_flag_def bit_or_iff bit_and_iff bit_not_iff flag_bits\<close>)

lemma set_flags_frame [cpu_frame]:
  "reg (set_nz r c) = reg c" "reg (set_flag f on c) = reg c"
  "reg (set_nzcv_sub a b w c) = reg c" "reg (set_nzcv_add a b w c) = reg c"
  by (simp_all add: set_nz_def set_flag_def set_nzcv_sub_def set_nzcv_add_def Let_def)

lemma set_flags_bus [cpu_frame]:
  "bus (set_nz r c) = bus c" "bus (set_flag f on c) = bus c"
  "bus (set_nzcv_sub a b w c) = bus c" "bus (set_nzcv_add a b w c) = bus c"
  by (simp_all add: set_nz_def set_flag_def set_nzcv_sub_def set_nzcv_add_def Let_def)

lemma sub_flags:
  fixes a b :: u32
  assumes "r = (ucast w :: u32)"
  shows "bit (xpsr (set_nzcv_sub a b w c)) 31 = bit r 31" "bit (xpsr (set_nzcv_sub a b w c)) 30 = (r = 0)"
    "bit (xpsr (set_nzcv_sub a b w c)) 29 = (b \<le> a)"
    "bit (xpsr (set_nzcv_sub a b w c)) 28 = bit ((a XOR b) AND (a XOR r)) 31"
  by (simp_all add: assms set_nzcv_sub_def Let_def set_flags_bits and_msb)

lemma add_flags:
  fixes a b :: u32
  assumes "r = (ucast w :: u32)"
  shows "bit (xpsr (set_nzcv_add a b w c)) 31 = bit r 31" "bit (xpsr (set_nzcv_add a b w c)) 30 = (r = 0)"
    "bit (xpsr (set_nzcv_add a b w c)) 29 = (0xFFFFFFFF < w)"
    "bit (xpsr (set_nzcv_add a b w c)) 28 = bit ((a XOR NOT b) AND (a XOR r)) 31"
  by (simp_all add: assms set_nzcv_add_def Let_def set_flags_bits and_msb)

text \<open>Truncating the 64-bit result gives the 32-bit operation.\<close>

lemma ucast_diff64: "ucast ((ucast (a :: u32) :: u64) - ucast b) = a - b"
  by transfer (simp add: take_bit_diff)

lemma ucast_add64: "ucast ((ucast (a :: u32) :: u64) + ucast b) = a + b"
  by transfer (simp add: take_bit_add)

text \<open>What a condition says about the two operands of a comparison.\<close>

definition compares :: "nat \<Rightarrow> u32 \<Rightarrow> u32 \<Rightarrow> bool" where
  "compares cond a b =
     (if cond = 0 then a = b else if cond = 1 then a \<noteq> b
      else if cond = 2 then a \<ge> b else if cond = 3 then a < b
      else if cond = 8 then a > b else if cond = 9 then a \<le> b
      else if cond = 10 then sint a \<ge> sint b else if cond = 11 then sint a < sint b
      else if cond = 12 then sint a > sint b else sint a \<le> sint b)"

lemma sub_conditions:
  assumes "cond \<in> {0, 1, 2, 3, 8, 9, 10, 11, 12, 13}"
  shows "cond_check (set_nzcv_sub a b (ucast a - ucast b) c) cond = compares cond a b"
proof -
  note f = sub_flags [OF ucast_diff64 [symmetric, of a b]]
  have l: "(bit (a - b) 31 = bit ((a XOR b) AND (a XOR (a - b))) 31) = (sint b \<le> sint a)"
    using signed_less_iff [of a b] by auto
  have "sint a = sint b \<longleftrightarrow> a = b" by (auto intro: signed_word_eqI)
  then show ?thesis
    using assms by (auto simp: cond_check_def compares_def f l Let_def)
qed

text \<open>
  C16. After a comparison, in each of its five encodings (immediate, low registers, any registers,
  modified immediate, shifted register), the ten conditional-execution conditions that compare are
  the comparisons of the two operands: equality, the unsigned orders, and the orders of the operands
  read as signed integers; and no register has changed.
\<close>

theorem cmp_conditions:
  assumes "cond \<in> {0, 1, 2, 3, 8, 9, 10, 11, 12, 13}"
  shows "(let c' = cmp_imm insn c
          in cond_check c' cond = compares cond (reg c (fld insn 8 7)) (imm insn 0 0xFF) \<and> reg c' = reg c) \<and>
    (fld insn 6 0xF = 0xA \<longrightarrow>
       (let c' = alu_op insn c
        in cond_check c' cond = compares cond (reg c (fld insn 0 7)) (reg c (fld insn 3 7)) \<and> reg c' = reg c)) \<and>
    (fld insn 8 3 = 1 \<longrightarrow>
       (let c' = special_data insn c
        in cond_check c' cond = compares cond (reg c (fld insn 0 7 + fld insn 7 1 * 8)) (reg c (fld insn 3 0xF)) \<and>
           reg c' = reg c)) \<and>
    (fld hi 5 0xF = 0xD \<and> bit hi 4 \<and> fld lo 8 0xF = 15 \<longrightarrow>
       (let c' = dp_imm hi lo c
        in cond_check c' cond = compares cond (reg c (fld hi 0 0xF)) (thumb_expand_imm hi lo) \<and> reg c' = reg c)) \<and>
    (fld hi 5 0xF = 0xD \<and> bit hi 4 \<and> fld lo 8 0xF = 15 \<longrightarrow>
       (let c' = dp_reg hi lo c
        in cond_check c' cond = compares cond (reg c (fld hi 0 0xF)) (imm_shift lo (reg c (fld lo 0 0xF))) \<and>
           reg c' = reg c))"
  by (simp add: cmp_imm_def alu_op_def special_data_def dp_imm_def dp_reg_def Let_def cpu_frame
      sub_conditions [OF assms])

text \<open>A machine at reset with empty RAM and flash, for the examples.\<close>

definition example_machine :: "u32 machine" where
  "example_machine = \<lparr>reg = (\<lambda>_. 0), xpsr = FLAG_T, primask = 0, control = 0, msp = 0, psp = 0, in_handler = False,
     irq_shadow = False, it_state = 0, cycle_count = 0, bus = example_bus, stderr_out = [], undef = False\<rparr>"

theorem cmp_conditions_witness:
  "cond_check (alu_op 0x4288 (setr 1 (- 1) (setr 0 5 example_machine))) 12 = compares 12 5 (- 1)"
  using cmp_conditions [of 12 "0x4288" "setr 1 (- 1) (setr 0 5 example_machine)"]
  by (simp add: fld_def Let_def cpu_frame)

section \<open>Exceptions\<close>

text \<open>The IT state travels in bits 10 to 15 and 25 to 26 of the saved status register.\<close>

definition thread_psr :: "u32 \<Rightarrow> bool" where
  "thread_psr x \<longleftrightarrow> bit x 24 \<and> (\<forall>n. n < 9 \<or> (10 \<le> n \<and> n < 16) \<or> n = 25 \<or> n = 26 \<longrightarrow> \<not> bit x n)"

lemma mask_lits: "(3 :: u32) = mask 2" "(0x3F :: u32) = mask 6" "(0x1FF :: u32) = mask 9" "(1 :: u32) = mask 1"
  by (simp_all add: mask_numeral)

lemma bit_saved_xpsr:
  assumes "thread_psr x"
  shows "bit (saved_xpsr it x) n =
    (if 10 \<le> n \<and> n < 16 then bit it (n - 10) else if n = 25 \<or> n = 26 then bit it (n - 19) else bit x n)"
proof (cases "n < 32")
  case True
  have x: "\<not> bit x n" if "10 \<le> n \<and> n < 16 \<or> n = 25 \<or> n = 26" using assms that by (auto simp: thread_psr_def)
  then show ?thesis using True
    by (auto simp: saved_xpsr_def bit_or_iff bit_push_bit_iff bit_and_iff bit_drop_bit_eq bit_ucast_iff mask_lits
        bit_mask_iff)
next
  case False
  then show ?thesis using bit_imp_le_length [of "saved_xpsr it x" n] bit_imp_le_length [of x n] by auto
qed

lemma restore_it:
  assumes "thread_psr x"
  shows "ucast (push_bit 6 (drop_bit 25 (saved_xpsr it x OR FLAG_T) AND 3) OR
       (drop_bit 10 (saved_xpsr it x OR FLAG_T) AND 0x3F)) = it"
proof (rule bit_word_eqI)
  have T: "bit FLAG_T n = (n = 24)" for n unfolding FLAG_T_def bit_push_bit_iff bit_1_iff by auto
  fix n assume "n < LENGTH(8)"
  then show "bit (ucast (push_bit 6 (drop_bit 25 (saved_xpsr it x OR FLAG_T) AND 3) OR
       (drop_bit 10 (saved_xpsr it x OR FLAG_T) AND 0x3F)) :: u8) n = bit it n"
    by (auto simp: bit_ucast_iff bit_or_iff bit_push_bit_iff bit_and_iff bit_drop_bit_eq mask_lits bit_mask_iff
        bit_saved_xpsr [OF assms] T)
qed

lemma restore_psr:
  assumes "thread_psr x"
  shows "((saved_xpsr it x OR FLAG_T) AND NOT (push_bit 25 3 OR push_bit 10 0x3F)) AND NOT 0x1FF = x"
proof (rule bit_word_eqI)
  have T: "bit FLAG_T n = (n = 24)" for n unfolding FLAG_T_def bit_push_bit_iff bit_1_iff by auto
  fix n assume "n < LENGTH(32)"
  moreover have "bit x 24" "n < 9 \<or> (10 \<le> n \<and> n < 16) \<or> n = 25 \<or> n = 26 \<Longrightarrow> \<not> bit x n"
    using assms unfolding thread_psr_def by blast+
  ultimately show "bit (((saved_xpsr it x OR FLAG_T) AND NOT (push_bit 25 3 OR push_bit 10 0x3F)) AND NOT 0x1FF) n = bit x n"
    by (auto simp: bit_or_iff bit_push_bit_iff bit_and_iff bit_not_iff mask_lits bit_mask_iff
        bit_saved_xpsr [OF assms] T)
qed

lemma restore_pc: "\<not> bit (v :: u32) 0 \<Longrightarrow> (v OR 1) AND NOT 1 = v"
  by (rule bit_word_eqI) (auto simp: bit_or_iff bit_and_iff bit_not_iff bit_1_iff intro: gr0I)

lemma read32_flash:
  assumes "addr - FLASH_BASE < MEMBUS_FLASH_SIZE"
  shows "\<exists>v hf. read32 c addr = (v, c\<lparr>bus := (bus c)\<lparr>host_fault := hf\<rparr>\<rparr>)"
proof -
  have "\<not> addr - MEMBUS_RAM_BASE < MEMBUS_RAM_SIZE"
  proof
    assume *: "addr - MEMBUS_RAM_BASE < MEMBUS_RAM_SIZE"
    have "unat ((addr - MEMBUS_RAM_BASE) + 0x18000000) = unat (addr - MEMBUS_RAM_BASE) + 0x18000000"
      using * by (subst unat_add32) (auto simp: MEMBUS_RAM_SIZE_def word_less_nat_alt)
    moreover have "(addr - MEMBUS_RAM_BASE) + 0x18000000 = addr - FLASH_BASE"
      by (simp add: MEMBUS_RAM_BASE_def FLASH_BASE_def)
    ultimately show False using assms by (simp add: MEMBUS_FLASH_SIZE_def word_less_nat_alt)
  qed
  moreover have "addr - MEMBUS_FLASH_BASE < MEMBUS_FLASH_SIZE"
    using assms by (simp add: FLASH_BASE_def MEMBUS_FLASH_BASE_def)
  ultimately show ?thesis
    by (auto simp: read32_def membus_read32_def bus_read_def host_load_def split: option.split)
qed

lemma read32_flash_frame:
  assumes "addr - FLASH_BASE < MEMBUS_FLASH_SIZE"
  shows "ram_ok (snd (read32 c addr)) = ram_ok c" "ram_word (snd (read32 c addr)) = ram_word c"
    "reg (snd (read32 c addr)) = reg c" "control (snd (read32 c addr)) = control c"
    "psp (snd (read32 c addr)) = psp c" "msp (snd (read32 c addr)) = msp c"
    "in_handler (snd (read32 c addr)) = in_handler c"
proof -
  obtain v hf where "read32 c addr = (v, c\<lparr>bus := (bus c)\<lparr>host_fault := hf\<rparr>\<rparr>)"
    using read32_flash [OF assms] by blast
  then show "ram_ok (snd (read32 c addr)) = ram_ok c" "ram_word (snd (read32 c addr)) = ram_word c"
    "reg (snd (read32 c addr)) = reg c" "control (snd (read32 c addr)) = control c"
    "psp (snd (read32 c addr)) = psp c" "msp (snd (read32 c addr)) = msp c"
    "in_handler (snd (read32 c addr)) = in_handler c"
    by (simp_all add: ram_ok_def ram_word_def fun_eq_iff)
qed

text \<open>The stacked frame: eight words.\<close>

definition stacked :: "'d machine \<Rightarrow> u32 list" where
  "stacked c = [reg c 0, reg c 1, reg c 2, reg c 3, reg c 12, reg c REG_LR, reg c REG_PC OR 1,
     saved_xpsr (it_state c) (xpsr c)]"

definition frame_at :: "'d machine \<Rightarrow> u32 \<Rightarrow> u32 list" where
  "frame_at c s = map (\<lambda>k. ram_word c (ram_off s + k)) [0, 4, 8, 12, 16, 20, 24, 28]"

lemma stack_frame_ram:
  assumes "ram_ok c" "ram_off s + 32 \<le> 0x20000"
  shows "ram_ok (stack_frame s c)" "frame_at (stack_frame s c) s = stacked c"
    "reg (stack_frame s c) = reg c" "xpsr (stack_frame s c) = xpsr c" "control (stack_frame s c) = control c"
    "msp (stack_frame s c) = msp c" "psp (stack_frame s c) = psp c"
proof -
  have w: "write32 (s + k) x d = ram_put (ram_off s + unat k) x d" if "ram_ok d" "unat k \<le> 28" for k x and d :: "'a machine"
  proof -
    have "ram_off (s + k) = ram_off s + unat k" using assms that by (intro ram_off_add) simp
    then show ?thesis using that assms by (subst write32_ram) auto
  qed
  have w0: "write32 s x d = ram_put (ram_off s) x d" if "ram_ok d" for x and d :: "'a machine"
    using w [of d 0 x] that by simp
  have e: "stack_frame s c = ram_put (ram_off s + 28) (saved_xpsr (it_state c) (xpsr c))
      (ram_put (ram_off s + 24) (reg c REG_PC OR 1) (ram_put (ram_off s + 20) (reg c REG_LR)
      (ram_put (ram_off s + 16) (reg c 12) (ram_put (ram_off s + 12) (reg c 3) (ram_put (ram_off s + 8) (reg c 2)
      (ram_put (ram_off s + 4) (reg c 1) (ram_put (ram_off s) (reg c 0) c)))))))"
    by (simp add: stack_frame_def w w0 cpu_frame assms)
  show "ram_ok (stack_frame s c)" "frame_at (stack_frame s c) s = stacked c"
    "reg (stack_frame s c) = reg c" "xpsr (stack_frame s c) = xpsr c" "control (stack_frame s c) = control c"
    "msp (stack_frame s c) = msp c" "psp (stack_frame s c) = psp c"
    by (simp_all add: e cpu_frame assms frame_at_def stacked_def)
qed

lemma stacked_cong: "reg c' = reg c \<Longrightarrow> xpsr c' = xpsr c \<Longrightarrow> it_state c' = it_state c \<Longrightarrow> stacked c' = stacked c"
  by (simp add: stacked_def)

lemma frame_at_cong: "ram_word c' = ram_word c \<Longrightarrow> frame_at c' s = frame_at c s"
  by (simp add: frame_at_def)

lemma entry_state:
  fixes c :: "'d machine"
  assumes ok: "ram_ok c" and off: "ram_off (reg c REG_SP - 32) + 32 \<le> 0x20000" and v: "v < 512"
  defines "s \<equiv> reg c REG_SP - 32" and "e \<equiv> armv7m_take_interrupt v c"
  shows "ram_ok e" "frame_at e s = stacked c" "control e = control c"
    "reg e REG_LR = (if control c AND 2 \<noteq> 0 then 0xFFFFFFFD else 0xFFFFFFF9)"
    "(if control c AND 2 \<noteq> 0 then psp e else msp e) = s" "in_handler e"
proof -
  have flash: "FLASH_BASE + of_nat v * 4 - FLASH_BASE < MEMBUS_FLASH_SIZE"
  proof -
    have "unat (of_nat v * 4 :: u32) = v * 4"
      using v by (subst unat_mult32) (simp_all add: unat_of_nat32)
    then show ?thesis using v by (simp add: word_less_nat_alt MEMBUS_FLASH_SIZE_def)
  qed
  define c0 where "c0 = (if control c AND 2 \<noteq> 0 then c\<lparr>psp := reg c REG_SP\<rparr> else c\<lparr>msp := reg c REG_SP\<rparr>)"
  have c0: "reg c0 = reg c" "xpsr c0 = xpsr c" "it_state c0 = it_state c" "control c0 = control c" "ram_ok c0"
    using ok by (simp_all add: c0_def cpu_frame)
  have f: "ram_ok (stack_frame s c0)" "frame_at (stack_frame s c0) s = stacked c" "reg (stack_frame s c0) = reg c"
    "control (stack_frame s c0) = control c"
    using stack_frame_ram [OF c0(5), of s] off stacked_cong [of c0 c] c0 by (simp_all add: s_def)
  have sp: "(if control c AND 2 \<noteq> 0 then psp c0 else msp c0) - 32 = s" by (simp add: c0_def s_def)
  note defs = e_def armv7m_take_interrupt_def Let_def case_prod_beta read32_flash_frame [OF flash] cpu_frame
    c0_def [symmetric] sp
  show "ram_ok e" "control e = control c" "in_handler e"
    "reg e REG_LR = (if control c AND 2 \<noteq> 0 then 0xFFFFFFFD else 0xFFFFFFF9)"
    "(if control c AND 2 \<noteq> 0 then psp e else msp e) = s"
    using f unfolding defs by (auto simp: cpu_frame)
  have "ram_word e = ram_word (stack_frame s c0)" unfolding defs by (simp add: cpu_frame)
  from frame_at_cong [OF this] show "frame_at e s = stacked c" by (simp add: f(2))
qed

lemma return_state:
  fixes h :: "'d machine"
  assumes ok: "ram_ok h" and off: "ram_off s + 32 \<le> 0x20000"
    and s: "(if er AND 4 \<noteq> 0 then psp h else msp h) = s"
    and fr: "frame_at h s = [w0, w1, w2, w3, w4, w5, w6, w7]"
  shows "reg (exc_return er h) = (reg h)(0 := w0, 1 := w1, 2 := w2, 3 := w3, 12 := w4, REG_LR := w5,
      REG_PC := w6 AND NOT 1, REG_SP := s + 32)"
    "xpsr (exc_return er h) = ((w7 OR FLAG_T) AND NOT (push_bit 25 3 OR push_bit 10 0x3F)) AND NOT 0x1FF"
    "it_state (exc_return er h) =
      ucast (push_bit 6 (drop_bit 25 (w7 OR FLAG_T) AND 3) OR (drop_bit 10 (w7 OR FLAG_T) AND 0x3F))"
    "\<not> in_handler (exc_return er h)" "bus (exc_return er h) = bus h"
    "control (exc_return er h) = (if er AND 4 \<noteq> 0 then control h OR 2 else control h)"
    "psp (exc_return er h) = (if er AND 4 \<noteq> 0 then s + 32 else psp h)"
    "msp (exc_return er h) = (if er AND 4 \<noteq> 0 then msp h else s + 32)"
proof -
  have o: "ram_off (s + k) = ram_off s + unat k" if "unat k \<le> 28" for k
    using off that by (intro ram_off_add) simp
  have l: "load32 i (s + k) d = setr i (ram_word d (ram_off s + unat k)) d" if "ram_ok d" "unat k \<le> 28" for i k and d :: "'d machine"
    using off that o [of k] by (subst load32_ram) auto
  have r: "read32 d (s + k) = (ram_word d (ram_off s + unat k), d)" if "ram_ok d" "unat k \<le> 28" for k and d :: "'d machine"
    using off that o [of k] by (subst read32_ram) auto
  have l0: "load32 i s d = setr i (ram_word d (ram_off s)) d" if "ram_ok d" for i and d :: "'d machine"
    using l [of d 0 i] that by simp
  have w: "ram_word h (ram_off s) = w0" "ram_word h (ram_off s + 4) = w1" "ram_word h (ram_off s + 8) = w2"
    "ram_word h (ram_off s + 12) = w3" "ram_word h (ram_off s + 16) = w4" "ram_word h (ram_off s + 20) = w5"
    "ram_word h (ram_off s + 24) = w6" "ram_word h (ram_off s + 28) = w7"
    using fr by (simp_all add: frame_at_def)
  define d where "d = setr REG_PC (w6 AND NOT 1) (setr REG_LR w5 (setr 12 w4 (setr 3 w3 (setr 2 w2 (setr 1 w1 (setr 0 w0 h))))))"
  have d: "reg d = (reg h)(0 := w0, 1 := w1, 2 := w2, 3 := w3, 12 := w4, REG_LR := w5, REG_PC := w6 AND NOT 1)"
    "bus d = bus h" "control d = control h" "psp d = psp h" "msp d = msp h"
    by (simp_all add: d_def cpu_frame)
  let ?x = "w7 OR FLAG_T"
  have e: "exc_return er h =
     (let c = d\<lparr>it_state := ucast (push_bit 6 (drop_bit 25 ?x AND 3) OR (drop_bit 10 ?x AND 0x3F)),
            xpsr := ?x AND NOT (push_bit 25 3 OR push_bit 10 0x3F)\<rparr>;
          c = (if er AND 4 \<noteq> 0 then c\<lparr>psp := s + 32\<rparr> else c\<lparr>msp := s + 32\<rparr>);
          c = (if er AND 4 \<noteq> 0 then (setr REG_SP (psp c) c)\<lparr>control := control c OR 2\<rparr> else setr REG_SP (msp c) c);
          c = c\<lparr>in_handler := False\<rparr>
      in c\<lparr>xpsr := xpsr c AND NOT 0x1FF\<rparr>)"
    unfolding exc_return_def d_def using s
    by (cases "er AND 4 \<noteq> 0") (simp_all add: l l0 r w ok cpu_frame Let_def)
  show "reg (exc_return er h) = (reg h)(0 := w0, 1 := w1, 2 := w2, 3 := w3, 12 := w4, REG_LR := w5,
      REG_PC := w6 AND NOT 1, REG_SP := s + 32)"
    "xpsr (exc_return er h) = (?x AND NOT (push_bit 25 3 OR push_bit 10 0x3F)) AND NOT 0x1FF"
    "it_state (exc_return er h) = ucast (push_bit 6 (drop_bit 25 ?x AND 3) OR (drop_bit 10 ?x AND 0x3F))"
    "\<not> in_handler (exc_return er h)" "bus (exc_return er h) = bus h"
    "control (exc_return er h) = (if er AND 4 \<noteq> 0 then control h OR 2 else control h)"
    "psp (exc_return er h) = (if er AND 4 \<noteq> 0 then s + 32 else psp h)"
    "msp (exc_return er h) = (if er AND 4 \<noteq> 0 then msp h else s + 32)"
    unfolding e Let_def by (simp_all only: split: if_split, simp_all add: cpu_frame d)
qed

text \<open>
  C21. An interrupt is transparent to the code it interrupts. Let the core take an interrupt with its
  stack in RAM, and let the handler, whatever it does, come to return with the saved frame and the
  two stack pointers as the entry left them: the return through the value the entry put in \<open>LR\<close>
  restores \<open>r0\<close> to \<open>r3\<close>, \<open>r12\<close>, \<open>SP\<close>, \<open>LR\<close> and \<open>PC\<close>, the flags and the state of an interrupted IT
  block, on either stack; the other registers and memory are those the handler left.
\<close>

theorem interrupt_transparent:
  assumes "ram_ok c" "ram_off (reg c REG_SP - 32) + 32 \<le> 0x20000" "v < 512"
    and "thread_psr (xpsr c)" "\<not> bit (reg c REG_PC) 0"
    and "ram_ok h" "frame_at h (reg c REG_SP - 32) = frame_at (armv7m_take_interrupt v c) (reg c REG_SP - 32)"
    and "psp h = psp (armv7m_take_interrupt v c)" "msp h = msp (armv7m_take_interrupt v c)"
  shows "let r = branch_exchange (reg (armv7m_take_interrupt v c) REG_LR) h
    in reg r = (\<lambda>i. if i \<in> {0, 1, 2, 3, 12, REG_SP, REG_LR, REG_PC} then reg c i else reg h i) \<and>
       xpsr r = xpsr c \<and> it_state r = it_state c \<and> \<not> in_handler r \<and> bus r = bus h"
proof -
  define e where "e = armv7m_take_interrupt v c"
  define s where "s = reg c REG_SP - 32"
  note en = entry_state [OF assms(1-3), folded e_def s_def]
  have lr: "reg e REG_LR AND 0xFFFFFFF0 = 0xFFFFFFF0"
    "(reg e REG_LR AND 4 \<noteq> 0) = (control c AND 2 \<noteq> 0)" using en(4) by auto
  have sp: "(if reg e REG_LR AND 4 \<noteq> 0 then psp h else msp h) = s"
    using en(5) unfolding lr(2) assms(8,9) e_def [symmetric] .
  have fr: "frame_at h s = [reg c 0, reg c 1, reg c 2, reg c 3, reg c 12, reg c REG_LR, reg c REG_PC OR 1,
      saved_xpsr (it_state c) (xpsr c)]"
    using en(2) assms(7) by (simp add: e_def s_def stacked_def)
  note r = return_state [OF assms(6) assms(2) [folded s_def] sp fr,
      unfolded restore_psr [OF assms(4)] restore_it [OF assms(4)] restore_pc [OF assms(5)]]
  show ?thesis
    unfolding Let_def e_def [symmetric] branch_exchange_def lr(1) if_P [OF refl]
    using r by (auto simp: s_def)
qed

lemma example_ram: "ram_ok example_machine"
  by (simp add: example_machine_def ram_ok_def example_bus_def membus_register_def membus_register_ram_def
      membus_init_def MAX_REGIONS_def bus0_def add_region_def hash_insert_def MEMBUS_RAM_BASE_def
      MEMBUS_FLASH_BASE_def Let_def)

theorem interrupt_transparent_witness:
  "let c = setr REG_SP 0x20001000 (setr REG_PC 0x08000100 (setr 3 7 example_machine));
       e = armv7m_take_interrupt 15 c; r = branch_exchange (reg e REG_LR) (setr 3 0 e)
   in reg r 3 = 7 \<and> reg r REG_PC = 0x08000100"
proof -
  let ?c = "setr REG_SP 0x20001000 (setr REG_PC 0x08000100 (setr 3 7 example_machine))"
  let ?e = "armv7m_take_interrupt 15 ?c"
  have ok: "ram_ok ?c" "ram_off (reg ?c REG_SP - 32) + 32 \<le> 0x20000"
    by (simp_all add: cpu_frame example_ram ram_off_def MEMBUS_RAM_BASE_def)
  have "thread_psr (xpsr ?c)"
    unfolding thread_psr_def by (auto simp: cpu_frame example_machine_def FLAG_T_def bit_simps simp del: push_bit_of_1)
  moreover have "\<not> bit (reg ?c REG_PC) 0" by (simp add: cpu_frame)
  moreover have "ram_ok (setr 3 0 ?e)" using entry_state(1) [OF ok, of 15] by (simp add: cpu_frame)
  ultimately show ?thesis
    using interrupt_transparent [OF ok, of 15 "setr 3 0 ?e"] frame_at_cong [of "setr 3 0 ?e" ?e]
    by (simp add: cpu_frame Let_def)
qed

section \<open>Push and pop\<close>

text \<open>Pushing and popping a list of registers; the words from an offset on.\<close>

definition push_list :: "nat list \<Rightarrow> 'd machine \<Rightarrow> 'd machine" where
  "push_list ks c = fold push1 ks c"

definition pop1 :: "nat \<Rightarrow> 'd machine \<Rightarrow> 'd machine" where
  "pop1 i c = (let c = load32 i (reg c REG_SP) c in setr REG_SP (reg c REG_SP + 4) c)"

definition pop_list :: "nat list \<Rightarrow> 'd machine \<Rightarrow> 'd machine" where
  "pop_list ks c = fold pop1 ks c"

definition words :: "'d machine \<Rightarrow> nat \<Rightarrow> nat \<Rightarrow> u32 list" where
  "words c p n = map (\<lambda>j. ram_word c (p + 4 * j)) [0..<n]"

lemma push_loop_list: "push_loop is regs c = push_list (filter (bit regs) is) c"
  by (induction "is" arbitrary: c) (simp_all add: push_list_def)

lemma pop_loop_list: "pop_loop is regs c = pop_list (filter (bit regs) is) c"
  by (induction "is" arbitrary: c) (simp_all add: pop_list_def pop1_def)

lemma ram_off_sub: "unat k \<le> ram_off s \<Longrightarrow> ram_off (s - k) = ram_off s - unat k"
proof -
  assume "unat k \<le> ram_off s"
  moreover have "s - k - MEMBUS_RAM_BASE = (s - MEMBUS_RAM_BASE) - k" by simp
  ultimately show ?thesis unfolding ram_off_def by (simp only: unat_sub word_le_nat_alt)
qed

lemma push1_ram:
  assumes "ram_ok c" "i \<noteq> REG_SP" "4 \<le> ram_off (reg c REG_SP)" "ram_off (reg c REG_SP) \<le> 0x20000"
  shows "push1 i c = ram_put (ram_off (reg c REG_SP) - 4) (reg c i) (setr REG_SP (reg c REG_SP - 4) c)"
  using assms ram_off_sub [of 4 "reg c REG_SP"]
  by (simp add: push1_def Let_def cpu_frame store32_ram)

lemma push_list_ram:
  assumes "ram_ok c" "REG_SP \<notin> set ks" "4 * length ks \<le> ram_off (reg c REG_SP)" "ram_off (reg c REG_SP) \<le> 0x20000"
  shows "let d = push_list ks c; off = ram_off (reg c REG_SP) - 4 * length ks
    in ram_ok d \<and> reg d = (reg c)(REG_SP := reg c REG_SP - of_nat (4 * length ks)) \<and>
       ram_off (reg d REG_SP) = off \<and> words d off (length ks) = map (reg c) (rev ks) \<and>
       (\<forall>p \<ge> ram_off (reg c REG_SP). ram_word d p = ram_word c p)"
  using assms
proof (induction ks arbitrary: c)
  case Nil
  then show ?case by (simp add: push_list_def words_def)
next
  case (Cons k ks)
  define c1 where "c1 = push1 k c"
  have c1: "c1 = ram_put (ram_off (reg c REG_SP) - 4) (reg c k) (setr REG_SP (reg c REG_SP - 4) c)"
    unfolding c1_def using Cons.prems by (intro push1_ram) auto
  have r1: "reg c1 = (reg c)(REG_SP := reg c REG_SP - 4)" "ram_ok c1" using Cons.prems(1) by (simp_all add: c1 cpu_frame)
  have o1: "ram_off (reg c1 REG_SP) = ram_off (reg c REG_SP) - 4"
    using ram_off_sub [of 4 "reg c REG_SP"] Cons.prems(3) r1 by simp
  have w1: "ram_word c1 (ram_off (reg c REG_SP) - 4) = reg c k"
    "p \<ge> ram_off (reg c REG_SP) \<Longrightarrow> ram_word c1 p = ram_word c p" for p
    using Cons.prems(3) by (simp_all add: c1 cpu_frame)
  define d where "d = push_list ks c1"
  let ?o = "ram_off (reg c REG_SP) - 4 - 4 * length ks"
  have pre: "REG_SP \<notin> set ks" "4 * length ks \<le> ram_off (reg c1 REG_SP)" "ram_off (reg c1 REG_SP) \<le> 0x20000"
    using Cons.prems o1 by auto
  have IH: "ram_ok d" "reg d = (reg c1)(REG_SP := reg c1 REG_SP - of_nat (4 * length ks))"
      "ram_off (reg d REG_SP) = ?o" "words d ?o (length ks) = map (reg c1) (rev ks)"
      "\<forall>p \<ge> ram_off (reg c REG_SP) - 4. ram_word d p = ram_word c1 p"
    using Cons.IH [OF r1(2) pre] unfolding Let_def o1 d_def by blast+
  have "words d ?o (Suc (length ks)) = map (reg c) (rev (k # ks))"
  proof -
    have "map (reg c1) (rev ks) = map (reg c) (rev ks)" using Cons.prems(2) by (auto simp: r1)
    moreover have "ram_word d (?o + 4 * length ks) = reg c k" using IH(5) w1(1) Cons.prems(3) by simp
    ultimately show ?thesis using IH(4) by (simp add: words_def)
  qed
  moreover have "push_list (k # ks) c = d" by (simp add: d_def c1_def push_list_def)
  moreover have "ram_word d p = ram_word c p" if "p \<ge> ram_off (reg c REG_SP)" for p
    using IH(5) w1(2) that by simp
  ultimately show ?case
    using IH(1-3) r1 Cons.prems(3) by (simp add: Let_def algebra_simps fun_eq_iff)
qed

lemma pop_list_ram:
  assumes "ram_ok c" "REG_SP \<notin> set ks" "distinct ks" "ram_off (reg c REG_SP) + 4 * length ks \<le> 0x20000"
    and "words c (ram_off (reg c REG_SP)) (length ks) = map f ks"
  shows "let d = pop_list ks c in bus d = bus c \<and>
      reg d = (\<lambda>i. if i \<in> set ks then f i else if i = REG_SP then reg c REG_SP + of_nat (4 * length ks) else reg c i)"
  using assms
proof (induction ks arbitrary: c)
  case Nil
  then show ?case by (auto simp: pop_list_def fun_eq_iff)
next
  case (Cons k ks)
  let ?o = "ram_off (reg c REG_SP)"
  have w: "ram_word c (?o + 4 * j) = f ((k # ks) ! j)" if "j < Suc (length ks)" for j
    using arg_cong [OF Cons.prems(5), of "\<lambda>xs. xs ! j"] that
    by (cases j) (simp_all add: words_def del: upt_Suc)
  define c1 where "c1 = setr REG_SP (reg c REG_SP + 4) (setr k (f k) c)"
  have c1: "pop1 k c = c1"
    using Cons.prems w [of 0] by (simp add: pop1_def c1_def Let_def load32_ram cpu_frame)
  have o1: "ram_off (reg c1 REG_SP) = ?o + 4"
    using ram_off_add [of "reg c REG_SP" 4] Cons.prems(4) by (simp add: c1_def cpu_frame)
  have "words c1 (?o + 4) (length ks) = map f ks"
  proof (rule nth_equalityI)
    fix j assume "j < length (words c1 (?o + 4) (length ks))"
    then have "j < length ks" by (simp add: words_def)
    then show "words c1 (?o + 4) (length ks) ! j = map f ks ! j"
      using w [of "Suc j"] by (simp add: words_def c1_def cpu_frame add.assoc)
  qed (simp add: words_def)
  then have IH: "bus (pop_list ks c1) = bus c1"
    "reg (pop_list ks c1) = (\<lambda>i. if i \<in> set ks then f i else if i = REG_SP then reg c1 REG_SP + of_nat (4 * length ks) else reg c1 i)"
    using Cons.IH [of c1] Cons.prems o1 by (simp_all add: Let_def c1_def cpu_frame)
  have "pop_list (k # ks) c = pop_list ks c1" by (simp add: pop_list_def c1)
  then show ?case
    using Cons.prems(2) IH by (auto simp: Let_def c1_def cpu_frame fun_eq_iff algebra_simps)
qed


text \<open>The registers an instruction pushes, in the order pushed.\<close>

definition pushed :: "u16 \<Rightarrow> nat list" where
  "pushed insn = (if bit insn 8 then [REG_LR] else []) @ filter (bit (insn AND 0xFF)) [7, 6, 5, 4, 3, 2, 1, 0]"

lemma push_insn_list: "push_insn insn c = push_list (pushed insn) c"
  by (simp add: push_insn_def push_loop_list pushed_def push_list_def Let_def del: filter.simps)

lemma low_regs: "set (filter (bit (insn AND 0xFF)) [0, 1, 2, 3, 4, 5, 6, 7]) = {i. i < 8 \<and> bit (insn :: u16) i}"
proof -
  have "bit (insn AND 0xFF) i \<longleftrightarrow> i < 8 \<and> bit insn i" for i
  proof -
    have "(0xFF :: u16) = mask 8" by (simp add: mask_numeral)
    then show ?thesis by (simp only: bit_and_iff bit_mask_iff) (auto dest: bit_imp_le_length)
  qed
  moreover have "set [0, 1, 2, 3, 4, 5, 6, 7] = {i. i < (8 :: nat)}" by auto
  ultimately show ?thesis unfolding set_filter by auto
qed

text \<open>The low registers of the list in the order popped, and what a push leaves behind.\<close>

definition popped :: "u16 \<Rightarrow> nat list" where
  "popped insn = filter (bit (insn AND 0xFF)) [0, 1, 2, 3, 4, 5, 6, 7]"

lemma pushed_rev:
  "rev (pushed p) = popped p @ (if bit p 8 then [REG_LR] else [])"
  "length (pushed p) = length (popped p) + (if bit p 8 then 1 else 0)"
proof -
  have "rev [7, 6, 5, 4, 3, 2, 1, 0] = [0, 1, 2, 3, 4, 5, 6, 7 :: nat]" by simp
  then show rev: "rev (pushed p) = popped p @ (if bit p 8 then [REG_LR] else [])"
    unfolding pushed_def popped_def rev_append rev_filter by (simp del: filter.simps)
  show "length (pushed p) = length (popped p) + (if bit p 8 then 1 else 0)"
    using arg_cong [OF rev, of length] by simp
qed

lemma popped_regs: "distinct (popped p)" "REG_SP \<notin> set (popped p)" "set (popped p) = {i. i < 8 \<and> bit p i}"
proof -
  show "set (popped p) = {i. i < 8 \<and> bit p i}" unfolding popped_def by (rule low_regs)
  then show "REG_SP \<notin> set (popped p)" by simp
  show "distinct (popped p)" unfolding popped_def by (rule distinct_filter) simp
qed

lemma pop_insn_list:
  "pop_insn p h = (let c = pop_list (popped p) h in if bit p 8
     then (case read32 c (reg c REG_SP) of (val, c) \<Rightarrow> branch_exchange val (setr REG_SP (reg c REG_SP + 4) c)) else c)"
  by (simp add: pop_insn_def pop_loop_list popped_def Let_def del: filter.simps)

lemma push_insn_ram:
  assumes "ram_ok c" "4 * length (pushed p) \<le> ram_off (reg c REG_SP)" "ram_off (reg c REG_SP) \<le> 0x20000"
  defines "n \<equiv> length (pushed p)" and "d \<equiv> push_insn p c"
  shows "ram_ok d" "reg d REG_SP = reg c REG_SP - of_nat (4 * n)" "ram_off (reg d REG_SP) = ram_off (reg c REG_SP) - 4 * n"
    "j < n \<Longrightarrow> ram_word d (ram_off (reg c REG_SP) - 4 * n + 4 * j) = reg c (rev (pushed p) ! j)"
proof -
  have "REG_SP \<notin> set (pushed p)" using popped_regs(2) [of p] arg_cong [OF pushed_rev(1) [of p], of set] by auto
  from push_list_ram [OF assms(1) this assms(2,3)]
  have d: "ram_ok d" "reg d REG_SP = reg c REG_SP - of_nat (4 * n)" "ram_off (reg d REG_SP) = ram_off (reg c REG_SP) - 4 * n"
      and w: "words d (ram_off (reg c REG_SP) - 4 * n) n = map (reg c) (rev (pushed p))"
    unfolding Let_def n_def d_def push_insn_list by (blast, simp, blast+)
  from d show "ram_ok d" "reg d REG_SP = reg c REG_SP - of_nat (4 * n)" "ram_off (reg d REG_SP) = ram_off (reg c REG_SP) - 4 * n" .
  assume j: "j < n"
  then have "words d (ram_off (reg c REG_SP) - 4 * n) n ! j = ram_word d (ram_off (reg c REG_SP) - 4 * n + 4 * j)"
    by (simp add: words_def)
  then show "ram_word d (ram_off (reg c REG_SP) - 4 * n + 4 * j) = reg c (rev (pushed p) ! j)"
    using j unfolding w by (simp only: nth_map length_rev n_def)
qed

text \<open>The last word popped is the return address.\<close>

lemma pop_return:
  assumes "ram_ok c" "bit p 8" "ram_word c (ram_off (reg c REG_SP)) = v" "ram_off (reg c REG_SP) + 4 \<le> 0x20000"
    and "c = pop_list (popped p) h" "v AND 0xFFFFFFF0 \<noteq> 0xFFFFFFF0"
  shows "pop_insn p h = setr REG_PC (v AND NOT 1) (setr REG_SP (reg c REG_SP + 4) c)"
proof -
  have "read32 c (reg c REG_SP) = (v, c)" using read32_ram [of c "reg c REG_SP"] assms(1,3,4) by simp
  then show ?thesis using assms(2,6) unfolding pop_insn_list Let_def assms(5) [symmetric] by (simp add: branch_exchange_def)
qed

text \<open>
  C29. Popping what was pushed gives it back. After \<open>PUSH\<close> of a register list, with or without \<open>LR\<close>, on
  a stack in RAM with room for it, let any code run that leaves memory and the stack pointer as they
  were: \<open>POP\<close> of the same list restores the registers of the list and the stack pointer, leaves the
  other low registers alone, and, when \<open>LR\<close> was pushed, continues at the pushed return address. A
  pushed \<open>LR\<close> must be an ordinary return address, not one of the exception return values \<open>0xFFFFFFF0\<close>
  and above, with which \<open>POP\<close> leaves a handler instead.
\<close>

theorem push_pop:
  assumes "ram_ok c" "4 * length (pushed p) \<le> ram_off (reg c REG_SP)" "ram_off (reg c REG_SP) \<le> 0x20000"
    and "bus h = bus (push_insn p c)" "reg h REG_SP = reg (push_insn p c) REG_SP"
    and "bit p 8 \<longrightarrow> reg c REG_LR AND 0xFFFFFFF0 \<noteq> 0xFFFFFFF0"
  shows "let r = pop_insn p h
    in (\<forall>i. i < 8 \<longrightarrow> reg r i = (if bit p i then reg c i else reg h i)) \<and> reg r REG_SP = reg c REG_SP \<and>
       (bit p 8 \<longrightarrow> reg r REG_PC = reg c REG_LR AND NOT 1) \<and> bus r = bus h"
proof -
  define n m where "n = length (pushed p)" and "m = length (popped p)"
  let ?o = "ram_off (reg c REG_SP) - 4 * n" and ?q = "pop_list (popped p) h"
  note d = push_insn_ram [OF assms(1-3), folded n_def]
  have n: "n = m + (if bit p 8 then 1 else 0)" by (simp add: n_def m_def pushed_rev)
  have h: "ram_ok h" "ram_word h = ram_word (push_insn p c)" using assms(4) d(1) ram_cong [of h "push_insn p c"] by simp_all
  have o: "ram_off (reg h REG_SP) = ?o" "?o + 4 * n = ram_off (reg c REG_SP)" using assms(2,5) d(3) by (simp_all add: n_def)
  have "words h ?o m = map (reg c) (popped p)"
    by (rule nth_equalityI) (use d(4) n in \<open>auto simp: words_def h(2) m_def pushed_rev nth_append\<close>)
  then have r: "bus ?q = bus h"
      "reg ?q = (\<lambda>i. if i \<in> set (popped p) then reg c i else if i = REG_SP then reg h REG_SP + of_nat (4 * m) else reg h i)"
    using pop_list_ram [OF h(1) popped_regs(2,1) [of p], of "reg c"] o n assms(3) unfolding m_def Let_def by simp_all
  have sp: "reg ?q REG_SP = reg h REG_SP + of_nat (4 * m)" using r(2) popped_regs(2) by simp
  show ?thesis
  proof (cases "bit p 8")
    case False
    then show ?thesis using r popped_regs(3) [of p] n d(2) assms(5) by (simp add: pop_insn_list Let_def)
  next
    case True
    have "unat (of_nat (4 * m) :: u32) = 4 * m" using o n assms(3) by (intro unat_of_nat32) simp
    then have off: "ram_off (reg ?q REG_SP) = ?o + 4 * m"
      using ram_off_add [of "reg h REG_SP" "of_nat (4 * m)"] o n assms(3) sp by simp
    have "ram_ok ?q" "ram_word ?q (?o + 4 * m) = reg c REG_LR"
      using ram_cong [OF r(1)] h d(4) [of m] n True by (simp_all add: m_def pushed_rev nth_append)
    then have "pop_insn p h = setr REG_PC (reg c REG_LR AND NOT 1) (setr REG_SP (reg ?q REG_SP + 4) ?q)"
      using off o n True assms(3,6) by (intro pop_return) simp_all
    then show ?thesis
      using True r popped_regs(3) [of p] n d(2) assms(5) by (simp add: Let_def cpu_frame)
  qed
qed

theorem push_pop_witness:
  "let c = setr REG_LR 0x08000101 (setr REG_SP 0x20001000 (setr 4 9 example_machine));
       r = pop_insn 0xB510 (setr 4 0 (push_insn 0xB510 c))
   in reg r 4 = 9 \<and> reg r REG_PC = 0x08000100 \<and> reg r REG_SP = 0x20001000"
proof -
  let ?c = "setr REG_LR 0x08000101 (setr REG_SP 0x20001000 (setr 4 9 example_machine))"
  have "bit (0xB510 :: u16) 4" "bit (0xB510 :: u16) 8" by simp_all
  moreover have "length (pushed 0xB510) \<le> 9"
    unfolding pushed_def length_append
    using length_filter_le [of "bit ((0xB510 :: u16) AND 0xFF)" "[7, 6, 5, 4, 3, 2, 1, 0]"] by (simp del: filter.simps)
  moreover have "ram_off 0x20001000 = 0x1000" by (simp add: ram_off_def MEMBUS_RAM_BASE_def)
  moreover have "ram_ok ?c" by (simp add: cpu_frame example_ram)
  ultimately show ?thesis
    using push_pop [of ?c "0xB510" "setr 4 0 (push_insn 0xB510 ?c)"] by (auto simp: Let_def cpu_frame)
qed

end
