(* ===== verification/Armv7m_Inv.thy ===== *)
theory Armv7m_Inv
  imports Armv7m_Laws
begin

text \<open>
  The processor reaches memory and devices only through the accesses of the bus. The locale
  \<open>bus_closed\<close> is the contract of that interface, a property of the bus that every access keeps; its
  lemmas go through all instructions and show that a step of the processor, an interrupt and a reset
  keep the property too. It is interpreted on the well-formed bus whose devices keep an invariant of
  their own, so that a device invariant is proved once per register callback and then holds whatever
  program runs.
\<close>

section \<open>Instructions that do not access memory\<close>

named_theorems bus_same

lemmas bus_if = if_distrib [of bus]

lemma flag_undef_bus [bus_same]: "bus (flag_undef u c) = bus c"
  by (simp add: flag_undef_def)

lemma clear_pc_bus [bus_same]: "bus (clear_pc_bit0 rd c) = bus c"
  by (simp add: clear_pc_bit0_def cpu_frame)

lemma shift_imm_bus [bus_same]:
  "bus (lsl_imm i c) = bus c" "bus (lsr_imm i c) = bus c" "bus (asr_imm i c) = bus c"
  by (simp_all add: lsl_imm_def lsr_imm_def asr_imm_def Let_def cpu_frame)

lemma imm8_bus [bus_same]:
  "bus (mov_imm i c) = bus c" "bus (cmp_imm i c) = bus c" "bus (add_imm8 i c) = bus c" "bus (sub_imm8 i c) = bus c"
  "bus (add_sub i c) = bus c"
  by (simp_all add: mov_imm_def cmp_imm_def add_imm8_def sub_imm8_def add_sub_def Let_def cpu_frame)

lemma alu_op_bus [bus_same]: "bus (alu_op i c) = bus c"
  by (simp add: alu_op_def Let_def cpu_frame bus_if)

lemma address_bus [bus_same]: "bus (adr i pc c) = bus c" "bus (add_sp_imm i c) = bus c"
  by (simp_all add: adr_def add_sp_imm_def cpu_frame)

lemma branch_bus [bus_same]:
  "bus (cond_branch i pc c) = bus c" "bus (branch i pc c) = bus c" "bus (bl hi lo pc c) = bus c"
  "bus (b_w hi lo pc c) = bus c" "bus (cond_branch_w hi lo pc c) = bus c"
  by (simp_all add: cond_branch_def branch_def bl_def b_w_def cond_branch_w_def Let_def cpu_frame)

lemma wide_imm_bus [bus_same]:
  "bus (addw hi lo c) = bus c" "bus (subw hi lo c) = bus c" "bus (movw hi lo c) = bus c" "bus (movt hi lo c) = bus c"
  by (simp_all add: addw_def subw_def movw_def movt_def Let_def cpu_frame)

lemma dp_bus [bus_same]: "bus (dp_imm hi lo c) = bus c" "bus (dp_reg hi lo c) = bus c"
  by (simp_all add: dp_imm_def dp_reg_def Let_def cpu_frame bus_if)

lemma special_bus [bus_same]: "bus (msr hi lo c) = bus c" "bus (mrs lo c) = bus c"
  by (simp_all add: msr_def mrs_def Let_def cpu_frame bus_if)

lemma field_bus [bus_same]: "bus (ubfx hi lo c) = bus c" "bus (sbfx hi lo c) = bus c" "bus (shift_reg hi lo c) = bus c"
  by (simp_all add: ubfx_def sbfx_def shift_reg_def Let_def cpu_frame bus_same bus_if)

lemma arith_bus [bus_same]:
  "bus (udiv hi lo c) = bus c" "bus (sdiv32 hi lo c) = bus c" "bus (mul_mla_mls hi lo c) = bus c" "bus (mull hi lo c) = bus c"
  by (simp_all add: udiv_def sdiv32_def mul_mla_mls_def mull_def Let_def cpu_frame bus_same bus_if)

section \<open>The contract\<close>

locale bus_closed =
  fixes P :: "'d membus \<Rightarrow> bool"
  assumes keep_read32: "P b \<Longrightarrow> P (snd (membus_read32 b a))"
    and keep_read16: "P b \<Longrightarrow> P (snd (membus_read16 b a))"
    and keep_read8: "P b \<Longrightarrow> P (snd (membus_read8 b a))"
    and keep_write32: "P b \<Longrightarrow> P (membus_write32 b a v32)"
    and keep_write16: "P b \<Longrightarrow> P (membus_write16 b a v16)"
    and keep_write8: "P b \<Longrightarrow> P (membus_write8 b a v8)"
begin

lemma accesses:
  "P (bus c) \<Longrightarrow> P (bus (snd (read32 c a)))" "P (bus c) \<Longrightarrow> P (bus (snd (read16 c a)))"
  "P (bus c) \<Longrightarrow> P (bus (snd (read8 c a)))" "P (bus c) \<Longrightarrow> P (bus (write32 a v32 c))"
  "P (bus c) \<Longrightarrow> P (bus (write16 a v16 c))" "P (bus c) \<Longrightarrow> P (bus (write8 a v8 c))"
  using keep_read32 keep_read16 keep_read8 keep_write32 keep_write16 keep_write8
  by (simp_all add: read32_def read16_def read8_def write32_def write16_def write8_def case_prod_beta)

lemma loads:
  "P (bus c) \<Longrightarrow> P (bus (load32 rt a c))" "P (bus c) \<Longrightarrow> P (bus (load16 rt a c))"
  "P (bus c) \<Longrightarrow> P (bus (load16s rt a c))" "P (bus c) \<Longrightarrow> P (bus (load8 rt a c))"
  "P (bus c) \<Longrightarrow> P (bus (load8s rt a c))" "P (bus c) \<Longrightarrow> P (bus (store32 rt a c))"
  "P (bus c) \<Longrightarrow> P (bus (store16 rt a c))" "P (bus c) \<Longrightarrow> P (bus (store8 rt a c))"
  by (simp_all add: load32_def load16_def load16s_def load8_def load8s_def store32_def store16_def store8_def
      case_prod_beta accesses cpu_frame)

lemma frame_writes: "P (bus c) \<Longrightarrow> P (bus (fold (\<lambda>(k, v). write32 (sp + k) v) ws c))"
  by (induction ws arbitrary: c) (auto simp: accesses)

lemma interrupt: "P (bus c) \<Longrightarrow> P (bus (armv7m_take_interrupt vec c))"
  unfolding armv7m_take_interrupt_def stack_frame_def Let_def case_prod_beta
  by (simp add: accesses cpu_frame frame_writes del: fold_simps)

lemma exception_return: "P (bus c) \<Longrightarrow> P (bus (exc_return v c))"
  unfolding exc_return_def Let_def case_prod_beta by (simp add: accesses loads cpu_frame bus_if)

lemma branch_exchange: "P (bus c) \<Longrightarrow> P (bus (branch_exchange v c))"
  by (simp add: branch_exchange_def exception_return cpu_frame)

lemma push1: "P (bus c) \<Longrightarrow> P (bus (push1 i c))"
  by (simp add: push1_def Let_def loads cpu_frame)

lemma push_loop: "P (bus c) \<Longrightarrow> P (bus (push_loop is regs c))"
  by (induction "is" regs c rule: push_loop.induct) (simp_all add: push1)

lemma pop_loop: "P (bus c) \<Longrightarrow> P (bus (pop_loop is regs c))"
  by (induction "is" regs c rule: pop_loop.induct) (simp_all add: Let_def loads cpu_frame)

lemma push_pop_insn: "P (bus c) \<Longrightarrow> P (bus (push_insn i c))" "P (bus c) \<Longrightarrow> P (bus (pop_insn i c))"
  unfolding push_insn_def pop_insn_def Let_def case_prod_beta
  by (simp_all add: push_loop pop_loop push1 branch_exchange accesses cpu_frame del: push_loop.simps pop_loop.simps)

lemma multiple_loops:
  "P (bus c) \<Longrightarrow> P (bus (snd (stm_loop is regs a c)))" "P (bus c) \<Longrightarrow> P (bus (snd (ldm_loop is regs a c)))"
  by (induction "is" arbitrary: a c) (simp_all add: loads)

lemma multiple:
  "P (bus c) \<Longrightarrow> P (bus (stm i c))" "P (bus c) \<Longrightarrow> P (bus (ldm i c))"
  "P (bus c) \<Longrightarrow> P (bus (stmdb hi lo c))" "P (bus c) \<Longrightarrow> P (bus (stmia_w hi lo c))"
  "P (bus c) \<Longrightarrow> P (bus (ldmia_w hi lo c))"
  unfolding stm_def ldm_def stmdb_def stmia_w_def ldmia_w_def Let_def case_prod_beta
  by (simp_all add: multiple_loops cpu_frame branch_exchange del: upt.simps stm_loop.simps ldm_loop.simps)

lemma write0:
  assumes "write0_loop a c = Some c'"
  shows "P (bus c) \<longrightarrow> P (bus c')"
proof (rule write0_loop.raw_induct [OF _ assms])
  fix loop a c c'
  assume IH: "\<And>a c c'. loop a c = Some c' \<Longrightarrow> P (bus c) \<longrightarrow> P (bus c')"
    and "(case read8 c a of (ch, c) \<Rightarrow> if ch = 0 then Some c
      else loop (a + 1) (c\<lparr>stderr_out := stderr_out c @ [ch]\<rparr>)) = Some c'"
  then show "P (bus c) \<longrightarrow> P (bus c')"
    using accesses(3) [of c a] by (auto simp: case_prod_beta split: if_splits dest: IH)
qed

lemma semihost: "P (bus c) \<Longrightarrow> P (bus (snd (semihost now c)))"
  using write0 [of "reg c 1" c]
  by (auto simp: semihost_def Let_def case_prod_beta accesses cpu_frame split: option.split)

lemma misc: "P (bus c) \<Longrightarrow> P (bus (snd (misc now i pc c)))"
  by (simp add: misc_def Let_def push_pop_insn semihost cpu_frame)

lemma data_access:
  "P (bus c) \<Longrightarrow> P (bus (special_data i c))" "P (bus c) \<Longrightarrow> P (bus (alu_special i c))"
  "P (bus c) \<Longrightarrow> P (bus (ldr_pc i pc c))" "P (bus c) \<Longrightarrow> P (bus (ls_reg i c))"
  by (simp_all add: special_data_def alu_special_def ldr_pc_def ls_reg_def Let_def loads branch_exchange cpu_frame bus_same)

lemma imm_access:
  "P (bus c) \<Longrightarrow> P (bus (str_imm i c))" "P (bus c) \<Longrightarrow> P (bus (ldr_imm i c))" "P (bus c) \<Longrightarrow> P (bus (strb_imm i c))"
  "P (bus c) \<Longrightarrow> P (bus (ldrb_imm i c))" "P (bus c) \<Longrightarrow> P (bus (strh_imm i c))" "P (bus c) \<Longrightarrow> P (bus (ldrh_imm i c))"
  "P (bus c) \<Longrightarrow> P (bus (str_sp i c))" "P (bus c) \<Longrightarrow> P (bus (ldr_sp i c))"
  by (simp_all add: str_imm_def ldr_imm_def strb_imm_def ldrb_imm_def strh_imm_def ldrh_imm_def str_sp_def ldr_sp_def loads)

lemma dispatch: "P (bus c) \<Longrightarrow> P (bus (snd (dispatch now i pc c)))"
  by (simp add: dispatch_def Let_def bus_same data_access imm_access misc multiple)

lemma wide_modes:
  assumes "\<And>a c. P (bus c) \<Longrightarrow> P (bus (access a c))" "P (bus c)"
  shows "P (bus (ls_indexed access rn lo a c))" "P (bus (ls_offset access rn lo c))" "P (bus (ls_wide access hi lo c))"
  using assms by (simp_all add: ls_wide_def ls_indexed_def ls_offset_def Let_def cpu_frame)

lemma wide_access:
  "P (bus c) \<Longrightarrow> P (bus (ldr_w_imm12 hi lo c))" "P (bus c) \<Longrightarrow> P (bus (str_w_imm12 hi lo c))"
  "P (bus c) \<Longrightarrow> P (bus (ldr_w hi lo c))" "P (bus c) \<Longrightarrow> P (bus (str_w hi lo c))"
  "P (bus c) \<Longrightarrow> P (bus (ldrb_w_imm12 hi lo c))" "P (bus c) \<Longrightarrow> P (bus (strb_w_imm12 hi lo c))"
  "P (bus c) \<Longrightarrow> P (bus (ldrb_w hi lo c))" "P (bus c) \<Longrightarrow> P (bus (strb_w hi lo c))"
  "P (bus c) \<Longrightarrow> P (bus (ldrh_w_imm12 hi lo c))" "P (bus c) \<Longrightarrow> P (bus (ldrh_w hi lo c))"
  "P (bus c) \<Longrightarrow> P (bus (ldrsh_w_imm12 hi lo c))" "P (bus c) \<Longrightarrow> P (bus (ldrsh_w hi lo c))"
  "P (bus c) \<Longrightarrow> P (bus (strh_w_imm12 hi lo c))" "P (bus c) \<Longrightarrow> P (bus (strh_w hi lo c))"
  by (simp_all add: ldr_w_imm12_def str_w_imm12_def ldr_w_def str_w_def ldrb_w_imm12_def strb_w_imm12_def ldrb_w_def
      strb_w_def ldrh_w_imm12_def ldrh_w_def ldrsh_w_imm12_def ldrsh_w_def strh_w_imm12_def strh_w_def Let_def
      loads wide_modes bus_same)

lemma double_access: "P (bus c) \<Longrightarrow> P (bus (ldrd_strd hi lo c))"
  by (simp add: ldrd_strd_def Let_def loads cpu_frame)

lemma thumb32: "P (bus c) \<Longrightarrow> P (bus (snd (exec_thumb32 i c)))"
  by (simp add: exec_thumb32_def Let_def bus_same wide_access multiple double_access)

lemma step: "P (bus c) \<Longrightarrow> P (bus (snd (armv7m_cpu_step now c)))"
  unfolding armv7m_cpu_step_def Let_def case_prod_beta
  by (simp add: accesses thumb32 dispatch cpu_frame split: option.split)

lemma reset: "P (bus c) \<Longrightarrow> P (bus (armv7m_cpu_reset c))"
  unfolding armv7m_cpu_reset_def Let_def case_prod_beta by (simp add: accesses cpu_frame)

end

section \<open>Well-formed buses with a device invariant\<close>

definition keeps_devs :: "('d \<Rightarrow> bool) \<Rightarrow> 'd mem_region \<Rightarrow> bool" where
  "keeps_devs Q r \<longleftrightarrow> (\<forall>f s off. read_fn r = Some f \<longrightarrow> Q s \<longrightarrow> Q (snd (f s off))) \<and>
     (\<forall>f s off v. write_fn r = Some f \<longrightarrow> Q s \<longrightarrow> Q (f s off v))"

text \<open>
  A family of device invariants: the callbacks keep each of them, and the devices satisfy the one at
  index \<open>k\<close>. A tick of the chip passes through states that satisfy only a weaker one.
\<close>

definition bus_wf :: "('k \<Rightarrow> 'd \<Rightarrow> bool) \<Rightarrow> 'k \<Rightarrow> 'd membus \<Rightarrow> bool" where
  "bus_wf Q k b \<longleftrightarrow> bus_inv b \<and> (\<forall>r \<in> set (regions b). \<forall>k. keeps_devs (Q k) r) \<and> Q k (devs b)"

lemma find_region_tlb_range:
  assumes "bus_inv b" "find_region_tlb b addr = (ri, b')"
  shows "ri = Some i \<Longrightarrow> i < length (regions b)" "regions b' = regions b" "devs b' = devs b"
  using assms find_region_slow_range(1) [OF assms(1), of addr]
  by (auto simp: find_region_tlb_def Let_def bus_inv_def split: option.splits if_splits)

lemma host_devs: "devs (snd (host_load get n p off b)) = devs b" "devs (host_store put n p off b) = devs b"
  "devs (warn_unmapped addr b) = devs b"
  by (simp_all add: host_load_def host_store_def warn_unmapped_def Let_def split: option.split)

lemma bus_wf_access:
  assumes "bus_wf Q k b"
  shows "bus_wf Q k (snd (bus_read get n conv warns b addr))" "bus_wf Q k (bus_write put n val warns b addr)"
proof -
  have inv: "bus_inv b" and Q: "Q k (devs b)" and keep: "\<And>r k. r \<in> set (regions b) \<Longrightarrow> keeps_devs (Q k) r"
    using assms by (simp_all add: bus_wf_def)
  obtain ri b' where f: "find_region_tlb b addr = (ri, b')" by (cases "find_region_tlb b addr")
  note fr = find_region_tlb_range [OF inv f]
  have kr: "keeps_devs (Q k) (regions b ! i)" if "ri = Some i" for i using keep fr(1) [OF that] by simp
  have "Q k (devs (snd (region_read get n conv warns ri addr b')))" "Q k (devs (region_write put n val warns ri addr b'))"
    using Q kr fr(2,3)
    by (auto simp: region_read_def region_write_def Let_def host_devs keeps_devs_def split: option.split prod.split) (metis snd_conv)
  then have "Q k (devs (snd (bus_read get n conv warns b addr)))" "Q k (devs (bus_write put n val warns b addr))"
    using Q by (simp_all add: bus_read_def bus_write_def f host_devs)
  then show "bus_wf Q k (snd (bus_read get n conv warns b addr))" "bus_wf Q k (bus_write put n val warns b addr)"
    using access_inv(1,3) [OF inv, of get n conv warns addr] access_inv(2,4) [OF inv, of put n val warns addr] keep
    by (simp_all add: bus_wf_def same_table_def)
qed

interpretation wf: bus_closed "bus_wf Q k" for Q k
  by unfold_locales (simp_all add: membus_access_defs bus_wf_access)

lemma bus_wf_register:
  assumes "bus_wf Q k b"
  shows "\<forall>k. keeps_devs (Q k) \<lparr>base = rbase, rsize = sz, read_fn = rd, write_fn = wr, direct = None, read_only = False\<rparr> \<Longrightarrow>
      bus_wf Q k (membus_register rbase sz rd wr b)"
    "bus_wf Q k (membus_register_ram rbase sz data ro b)"
proof -
  have d: "devs (add_region r b) = devs b" for r by (simp add: add_region_def hash_insert_def Let_def)
  show "\<forall>k. keeps_devs (Q k) \<lparr>base = rbase, rsize = sz, read_fn = rd, write_fn = wr, direct = None, read_only = False\<rparr> \<Longrightarrow>
      bus_wf Q k (membus_register rbase sz rd wr b)"
    using assms register_inv [of b rbase sz rd wr] by (auto simp: bus_wf_def membus_register_def d)
  show "bus_wf Q k (membus_register_ram rbase sz data ro b)"
    using assms register_ram_inv [of b rbase sz data ro] by (auto simp: bus_wf_def membus_register_ram_def Let_def d keeps_devs_def)
qed

end
