(* ===== verification/Events.thy ===== *)
theory Events
  imports Prelude
begin

text \<open>
  The event queue of the machine simulator (\<open>sim/src/core/event_queue.c\<close>): 32 slots of callbacks due
  at a cycle count, one per event identifier, and the cached cycle \<open>next_event\<close> that lets the machine
  do one comparison per instruction. A callback and its opaque argument are one value of a type
  \<open>'cb\<close>; what calling it does to the queue and to the rest of the machine is an argument of
  \<open>event_process\<close>, because a callback may schedule events itself. The field \<open>count\<close>, which nothing
  uses, is left out.

  The queue refines a finite map from identifiers to due times and callbacks, given as a locale with
  its laws; the cached cycle never lies after a due time, so that no event is missed.
\<close>

definition EVENT_QUEUE_MAX :: nat where "EVENT_QUEUE_MAX = 32"

definition UINT64_MAX :: u64 where "UINT64_MAX = - 1"

record 'cb event =
  fire_at :: u64
  callback :: 'cb
  ev_id :: int
  active :: bool

record 'cb event_queue =
  events :: "'cb event list"
  next_event :: u64

text \<open>\<open>event_queue_init\<close>: all slots zero; \<open>nul\<close> is the null callback.\<close>

definition event_queue_init :: "'cb \<Rightarrow> 'cb event_queue" where
  "event_queue_init nul =
     \<lparr>events = replicate EVENT_QUEUE_MAX \<lparr>fire_at = 0, callback = nul, ev_id = 0, active = False\<rparr>,
      next_event = UINT64_MAX\<rparr>"

definition update_next :: "'cb event_queue \<Rightarrow> 'cb event_queue" where
  "update_next eq =
     eq\<lparr>next_event := fold (\<lambda>e t. if active e \<and> fire_at e < t then fire_at e else t) (events eq) UINT64_MAX\<rparr>"

text \<open>The index of the first slot that satisfies a test: the two search loops.\<close>

fun find_slot :: "('cb event \<Rightarrow> bool) \<Rightarrow> 'cb event list \<Rightarrow> nat \<Rightarrow> nat option" where
  "find_slot P [] i = None"
| "find_slot P (e # es) i = (if P e then Some i else find_slot P es (i + 1))"

definition event_schedule :: "int \<Rightarrow> u64 \<Rightarrow> 'cb \<Rightarrow> 'cb event_queue \<Rightarrow> 'cb event_queue" where
  "event_schedule eid t cb eq =
     (let slot = (case find_slot (\<lambda>e. active e \<and> ev_id e = eid) (events eq) 0 of
                    Some i \<Rightarrow> Some i
                  | None \<Rightarrow> find_slot (\<lambda>e. \<not> active e) (events eq) 0)
      in case slot of
           None \<Rightarrow> eq
         | Some i \<Rightarrow>
             (let eq = eq\<lparr>events := (events eq)[i := \<lparr>fire_at = t, callback = cb, ev_id = eid, active = True\<rparr>]\<rparr>
              in if t < next_event eq then eq\<lparr>next_event := t\<rparr> else eq))"

definition deactivate :: "nat \<Rightarrow> 'cb event_queue \<Rightarrow> 'cb event_queue" where
  "deactivate i eq = eq\<lparr>events := (events eq)[i := (events eq ! i)\<lparr>active := False\<rparr>]\<rparr>"

definition event_cancel :: "int \<Rightarrow> 'cb event_queue \<Rightarrow> 'cb event_queue" where
  "event_cancel eid eq =
     update_next (case find_slot (\<lambda>e. active e \<and> ev_id e = eid) (events eq) 0 of
                    Some i \<Rightarrow> deactivate i eq
                  | None \<Rightarrow> eq)"

text \<open>
  \<open>event_process\<close>: the slots in order; a due event is deactivated, then its callback runs on the queue
  and on the rest \<open>'s\<close> of the machine.
\<close>

fun process_slots ::
    "('cb \<Rightarrow> 'cb event_queue \<times> 's \<Rightarrow> 'cb event_queue \<times> 's) \<Rightarrow> u64 \<Rightarrow> nat list \<Rightarrow>
     'cb event_queue \<times> 's \<Rightarrow> 'cb event_queue \<times> 's" where
  "process_slots call now [] st = st"
| "process_slots call now (i # is) (eq, s) =
     (let e = events eq ! i
      in process_slots call now is
           (if active e \<and> fire_at e \<le> now then call (callback e) (deactivate i eq, s) else (eq, s)))"

definition event_process ::
    "('cb \<Rightarrow> 'cb event_queue \<times> 's \<Rightarrow> 'cb event_queue \<times> 's) \<Rightarrow> u64 \<Rightarrow> 'cb event_queue \<times> 's \<Rightarrow> 'cb event_queue \<times> 's" where
  "event_process call now st =
     (case process_slots call now [0..<EVENT_QUEUE_MAX] st of (eq, s) \<Rightarrow> (update_next eq, s))"

section \<open>The queue as a map\<close>

text \<open>The event pending under an identifier, with its due time and callback.\<close>

definition pending_of :: "'cb event_queue \<Rightarrow> int \<Rightarrow> (u64 \<times> 'cb) option" where
  "pending_of eq eid =
     (case find_slot (\<lambda>e. active e \<and> ev_id e = eid) (events eq) 0 of
        Some i \<Rightarrow> Some (fire_at (events eq ! i), callback (events eq ! i))
      | None \<Rightarrow> None)"

text \<open>One active event per identifier, and the cached cycle not after any due time.\<close>

definition eq_inv :: "'cb event_queue \<Rightarrow> bool" where
  "eq_inv eq \<longleftrightarrow> length (events eq) = EVENT_QUEUE_MAX \<and>
     (\<forall>i < EVENT_QUEUE_MAX. \<forall>j < EVENT_QUEUE_MAX. active (events eq ! i) \<longrightarrow> active (events eq ! j) \<longrightarrow>
        ev_id (events eq ! i) = ev_id (events eq ! j) \<longrightarrow> i = j) \<and>
     (\<forall>i < EVENT_QUEUE_MAX. active (events eq ! i) \<longrightarrow> next_event eq \<le> fire_at (events eq ! i))"

definition has_room :: "'cb event_queue \<Rightarrow> bool" where
  "has_room eq \<longleftrightarrow> (\<exists>e \<in> set (events eq). \<not> active e)"

lemma find_slot_Some:
  "find_slot P es k = Some i \<Longrightarrow> k \<le> i \<and> i < k + length es \<and> P (es ! (i - k))"
proof (induction es arbitrary: k)
  case (Cons e es)
  then show ?case by (cases "P e") (force simp: nth_Cons')+
qed simp

lemma find_slot_None: "find_slot P es k = None \<longleftrightarrow> (\<forall>e \<in> set es. \<not> P e)"
  by (induction es arbitrary: k) auto

lemma find_slot_unique:
  assumes "i < length es" "P (es ! i)" "\<And>j. j < length es \<Longrightarrow> P (es ! j) \<Longrightarrow> j = i"
  shows "find_slot P es 0 = Some i"
proof (cases "find_slot P es 0")
  case None
  then show ?thesis using assms(1,2) by (simp add: find_slot_None)
next
  case (Some j)
  then show ?thesis using find_slot_Some [OF Some] assms(3) [of j] by simp
qed

lemma pending_of_iff:
  assumes "eq_inv eq"
  shows "pending_of eq eid = Some (t, cb) \<longleftrightarrow>
    (\<exists>i < EVENT_QUEUE_MAX. active (events eq ! i) \<and> ev_id (events eq ! i) = eid \<and>
       fire_at (events eq ! i) = t \<and> callback (events eq ! i) = cb)"
proof
  assume "pending_of eq eid = Some (t, cb)"
  then obtain i where "find_slot (\<lambda>e. active e \<and> ev_id e = eid) (events eq) 0 = Some i"
    "t = fire_at (events eq ! i)" "cb = callback (events eq ! i)"
    by (auto simp: pending_of_def split: option.splits)
  then show "\<exists>i < EVENT_QUEUE_MAX. active (events eq ! i) \<and> ev_id (events eq ! i) = eid \<and>
       fire_at (events eq ! i) = t \<and> callback (events eq ! i) = cb"
    using find_slot_Some [of _ "events eq" 0 i] assms by (auto simp: eq_inv_def)
next
  assume "\<exists>i < EVENT_QUEUE_MAX. active (events eq ! i) \<and> ev_id (events eq ! i) = eid \<and>
       fire_at (events eq ! i) = t \<and> callback (events eq ! i) = cb"
  then obtain i where i: "i < EVENT_QUEUE_MAX" "active (events eq ! i)" "ev_id (events eq ! i) = eid"
       "fire_at (events eq ! i) = t" "callback (events eq ! i) = cb" by blast
  have "find_slot (\<lambda>e. active e \<and> ev_id e = eid) (events eq) 0 = Some i"
    using i assms by (intro find_slot_unique) (auto simp: eq_inv_def)
  then show "pending_of eq eid = Some (t, cb)" using i by (simp add: pending_of_def)
qed

lemma option_eqI: "(\<And>x. a = Some x \<longleftrightarrow> b = Some x) \<Longrightarrow> a = b"
  by (cases a; cases b) auto

lemma update_next_events [simp]: "events (update_next eq) = events eq"
  by (simp add: update_next_def)

text \<open>The recomputed cycle is a lower bound, and the exact minimum.\<close>

lemma fold_next_le:
  "fold (\<lambda>e t. if active e \<and> fire_at e < t then fire_at e else t) es t0 \<le> t0"
  "e \<in> set es \<Longrightarrow> active e \<Longrightarrow> fold (\<lambda>e t. if active e \<and> fire_at e < t then fire_at e else t) es t0 \<le> fire_at e"
proof (induction es arbitrary: t0)
  case (Cons x es)
  {
    case 1
    show ?case using Cons(1) [of "if active x \<and> fire_at x < t0 then fire_at x else t0"]
      by (auto split: if_splits intro: order_trans)
  next
    case 2
    then show ?case
      using Cons(1) [of "if active x \<and> fire_at x < t0 then fire_at x else t0"] Cons(2)
      by (auto split: if_splits intro: order_trans)
  }
qed simp_all

lemma update_next_le: "i < length (events eq) \<Longrightarrow> active (events eq ! i) \<Longrightarrow> next_event (update_next eq) \<le> fire_at (events eq ! i)"
  unfolding update_next_def by (simp add: fold_next_le(2))

lemma pending_of_update_next [simp]: "pending_of (update_next eq) = pending_of eq"
  by (simp add: pending_of_def fun_eq_iff split: option.split)

lemma eq_inv_update_next:
  assumes "length (events eq) = EVENT_QUEUE_MAX"
    and "\<forall>i < EVENT_QUEUE_MAX. \<forall>j < EVENT_QUEUE_MAX. active (events eq ! i) \<longrightarrow> active (events eq ! j) \<longrightarrow>
        ev_id (events eq ! i) = ev_id (events eq ! j) \<longrightarrow> i = j"
  shows "eq_inv (update_next eq)"
  using assms update_next_le [of _ eq] by (simp add: eq_inv_def)

lemma eq_inv_deactivate:
  assumes "eq_inv eq"
  shows "eq_inv (deactivate k eq)"
proof -
  have n: "events (deactivate k eq) ! i = (if i = k \<and> k < length (events eq) then (events eq ! i)\<lparr>active := False\<rparr> else events eq ! i)"
    if "i < length (events eq)" for i
    using that by (simp add: deactivate_def nth_list_update)
  show ?thesis using assms unfolding eq_inv_def
    by (auto simp: n) (simp_all add: deactivate_def)
qed

lemma pending_deactivate:
  assumes "eq_inv eq" "k < EVENT_QUEUE_MAX" "active (events eq ! k)"
  shows "pending_of (deactivate k eq) = (pending_of eq)(ev_id (events eq ! k) := None)"
proof (rule ext, rule option_eqI)
  fix eid and x :: "u64 \<times> 'a"
  obtain t cb where x: "x = (t, cb)" by (cases x)
  have len: "length (events eq) = EVENT_QUEUE_MAX" using assms(1) by (simp add: eq_inv_def)
  have n: "events (deactivate k eq) ! i = (if i = k then (events eq ! i)\<lparr>active := False\<rparr> else events eq ! i)"
    if "i < EVENT_QUEUE_MAX" for i
    using that len by (simp add: deactivate_def nth_list_update)
  have u: "i = k" if "i < EVENT_QUEUE_MAX" "active (events eq ! i)" "ev_id (events eq ! i) = ev_id (events eq ! k)" for i
    using that assms unfolding eq_inv_def by blast
  have pt: "(active (events (deactivate k eq) ! i) \<and> ev_id (events (deactivate k eq) ! i) = eid \<and>
      fire_at (events (deactivate k eq) ! i) = t \<and> callback (events (deactivate k eq) ! i) = cb) \<longleftrightarrow>
    eid \<noteq> ev_id (events eq ! k) \<and> active (events eq ! i) \<and> ev_id (events eq ! i) = eid \<and>
      fire_at (events eq ! i) = t \<and> callback (events eq ! i) = cb" if "i < EVENT_QUEUE_MAX" for i
    using n [OF that] u [OF that] by (cases "i = k") auto
  show "pending_of (deactivate k eq) eid = Some x \<longleftrightarrow> ((pending_of eq)(ev_id (events eq ! k) := None)) eid = Some x"
    unfolding x fun_upd_apply pending_of_iff [OF eq_inv_deactivate [OF assms(1)]]
    using pending_of_iff [OF assms(1), of eid t cb] pt by (cases "eid = ev_id (events eq ! k)") auto
qed

lemma pending_of_slot:
  assumes "eq_inv eq" "find_slot (\<lambda>e. active e \<and> ev_id e = eid) (events eq) 0 = Some i"
  shows "i < EVENT_QUEUE_MAX" "active (events eq ! i)" "ev_id (events eq ! i) = eid"
  using find_slot_Some [OF assms(2)] assms(1) by (simp_all add: eq_inv_def)

lemma cancel_refines:
  assumes "eq_inv eq"
  shows "eq_inv (event_cancel eid eq)" "pending_of (event_cancel eid eq) = (pending_of eq)(eid := None)"
proof -
  have inv: "eq_inv (update_next q)" if "eq_inv q" for q :: "'a event_queue"
    using that by (intro eq_inv_update_next) (simp_all add: eq_inv_def)
  show "eq_inv (event_cancel eid eq)"
    using assms by (auto simp: event_cancel_def intro: inv eq_inv_deactivate split: option.split)
  show "pending_of (event_cancel eid eq) = (pending_of eq)(eid := None)"
  proof (cases "find_slot (\<lambda>e. active e \<and> ev_id e = eid) (events eq) 0")
    case None
    then have "pending_of eq eid = None" by (simp add: pending_of_def)
    then show ?thesis using None by (simp add: event_cancel_def fun_upd_idem)
  next
    case (Some i)
    then show ?thesis using pending_deactivate [OF assms] pending_of_slot [OF assms Some] by (simp add: event_cancel_def)
  qed
qed

text \<open>Writing a slot: free, or the one that holds the identifier already.\<close>

lemma set_slot_refines:
  assumes "eq_inv eq" "k < EVENT_QUEUE_MAX"
    and slot: "active (events eq ! k) \<longrightarrow> ev_id (events eq ! k) = eid" "\<not> active (events eq ! k) \<longrightarrow> pending_of eq eid = None"
    and q: "events q = (events eq)[k := \<lparr>fire_at = t, callback = cb, ev_id = eid, active = True\<rparr>]"
      "next_event q \<le> next_event eq" "next_event q \<le> t"
  shows "eq_inv q" "pending_of q = (pending_of eq)(eid := Some (t, cb))"
proof -
  have len: "length (events eq) = EVENT_QUEUE_MAX" using assms(1) by (simp add: eq_inv_def)
  have n: "events q ! i = (if i = k then \<lparr>fire_at = t, callback = cb, ev_id = eid, active = True\<rparr> else events eq ! i)"
    if "i < EVENT_QUEUE_MAX" for i using that len q(1) by (simp add: nth_list_update)
  have u: "i = k" if "i < EVENT_QUEUE_MAX" "active (events eq ! i)" "ev_id (events eq ! i) = eid" for i
  proof (cases "active (events eq ! k)")
    case True
    then show ?thesis using that slot(1) assms(1,2) unfolding eq_inv_def by blast
  next
    case False
    then have "pending_of eq eid = None" using slot(2) by simp
    moreover have "pending_of eq eid = Some (fire_at (events eq ! i), callback (events eq ! i))"
      using that pending_of_iff [OF assms(1)] by blast
    ultimately show ?thesis by simp
  qed
  show inv: "eq_inv q"
    unfolding eq_inv_def
  proof (intro conjI allI impI)
    show "length (events q) = EVENT_QUEUE_MAX" using len q(1) by simp
  next
    fix i j assume ij: "i < EVENT_QUEUE_MAX" "j < EVENT_QUEUE_MAX" "active (events q ! i)" "active (events q ! j)"
      "ev_id (events q ! i) = ev_id (events q ! j)"
    note n2 = n [OF ij(1)] n [OF ij(2)]
    consider "i = k" "j = k" | "i = k" "j \<noteq> k" | "i \<noteq> k" "j = k" | "i \<noteq> k" "j \<noteq> k" by blast
    then show "i = j"
    proof cases
      case 2
      then have "active (events eq ! j)" "ev_id (events eq ! j) = eid" using n2 ij(4,5) by simp_all
      with u [OF ij(2)] 2 show ?thesis by blast
    next
      case 3
      then have "active (events eq ! i)" "ev_id (events eq ! i) = eid" using n2 ij(3,5) by simp_all
      with u [OF ij(1)] 3 show ?thesis by blast
    next
      case 4
      then have "active (events eq ! i)" "active (events eq ! j)" "ev_id (events eq ! i) = ev_id (events eq ! j)"
        using n2 ij(3-5) by simp_all
      then show ?thesis using assms(1) ij(1,2) unfolding eq_inv_def by blast
    qed simp
  next
    fix i assume i: "i < EVENT_QUEUE_MAX" "active (events q ! i)"
    have "next_event eq \<le> fire_at (events eq ! i)" if "active (events eq ! i)"
      using assms(1) i(1) that unfolding eq_inv_def by blast
    then show "next_event q \<le> fire_at (events q ! i)"
      using n [OF i(1)] i(2) q(2,3) by (cases "i = k") auto
  qed
  show "pending_of q = (pending_of eq)(eid := Some (t, cb))"
  proof (rule ext, rule option_eqI)
    fix j and x :: "u64 \<times> 'a"
    obtain t' cb' where x: "x = (t', cb')" by (cases x)
    have pt: "(active (events q ! i) \<and> ev_id (events q ! i) = j \<and> fire_at (events q ! i) = t' \<and> callback (events q ! i) = cb') \<longleftrightarrow>
      (if i = k then j = eid \<and> t = t' \<and> cb = cb'
       else j \<noteq> eid \<and> active (events eq ! i) \<and> ev_id (events eq ! i) = j \<and> fire_at (events eq ! i) = t' \<and>
         callback (events eq ! i) = cb')" if "i < EVENT_QUEUE_MAX" for i
      using n [OF that] u [OF that] by (cases "i = k") auto
    have ex: "pending_of q j = Some (t', cb') \<longleftrightarrow> (\<exists>i < EVENT_QUEUE_MAX. if i = k then j = eid \<and> t = t' \<and> cb = cb'
       else j \<noteq> eid \<and> active (events eq ! i) \<and> ev_id (events eq ! i) = j \<and> fire_at (events eq ! i) = t' \<and>
         callback (events eq ! i) = cb')"
      unfolding pending_of_iff [OF inv] by (intro ex_cong1 conj_cong refl pt)
    have "pending_of q j = Some (t', cb') \<longleftrightarrow> (if j = eid then t = t' \<and> cb = cb' else pending_of eq j = Some (t', cb'))"
    proof (cases "j = eid")
      case True
      then show ?thesis unfolding ex using assms(2) by (auto split: if_splits)
    next
      case False
      moreover have "i \<noteq> k" if "active (events eq ! i)" "ev_id (events eq ! i) = j" for i
        using that slot(1) False by auto
      ultimately show ?thesis
        unfolding ex pending_of_iff [OF assms(1)] by (auto split: if_splits)
    qed
    then show "pending_of q j = Some x \<longleftrightarrow> ((pending_of eq)(eid := Some (t, cb))) j = Some x" by (auto simp: x)
  qed
qed

lemma schedule_refines:
  assumes "eq_inv eq" "has_room eq \<or> pending_of eq eid \<noteq> None"
  shows "eq_inv (event_schedule eid t cb eq)"
    "pending_of (event_schedule eid t cb eq) = (pending_of eq)(eid := Some (t, cb))"
proof -
  let ?f = "find_slot (\<lambda>e. active e \<and> ev_id e = eid) (events eq) 0"
  obtain k where k: "(case ?f of Some i \<Rightarrow> Some i | None \<Rightarrow> find_slot (\<lambda>e. \<not> active e) (events eq) 0) = Some k"
      "k < EVENT_QUEUE_MAX" "active (events eq ! k) \<longrightarrow> ev_id (events eq ! k) = eid"
      "\<not> active (events eq ! k) \<longrightarrow> pending_of eq eid = None"
  proof (cases ?f)
    case (Some i)
    then show ?thesis using that [of i] pending_of_slot [OF assms(1) Some] by simp
  next
    case None
    then have p: "pending_of eq eid = None" by (simp add: pending_of_def)
    then have "find_slot (\<lambda>e. \<not> active e) (events eq) 0 \<noteq> None"
      using assms(2) by (auto simp: find_slot_None has_room_def)
    then obtain i where i: "find_slot (\<lambda>e. \<not> active e) (events eq) 0 = Some i" by auto
    then show ?thesis using that [of i] None p find_slot_Some [OF i] assms(1) by (simp add: eq_inv_def)
  qed
  let ?q = "event_schedule eid t cb eq"
  have "events ?q = (events eq)[k := \<lparr>fire_at = t, callback = cb, ev_id = eid, active = True\<rparr>]"
    "next_event ?q \<le> next_event eq" "next_event ?q \<le> t"
    unfolding event_schedule_def k(1) by (auto simp: Let_def)
  from set_slot_refines [OF assms(1) k(2-4) this]
  show "eq_inv ?q" "pending_of ?q = (pending_of eq)(eid := Some (t, cb))" by simp_all
qed

lemma schedule_inv: "eq_inv eq \<Longrightarrow> eq_inv (event_schedule eid t cb eq)"
proof (cases "has_room eq \<or> pending_of eq eid \<noteq> None")
  case False
  assume "eq_inv eq"
  then have "find_slot (\<lambda>e. active e \<and> ev_id e = eid) (events eq) 0 = None" "find_slot (\<lambda>e. \<not> active e) (events eq) 0 = None"
    using False by (auto simp: find_slot_None has_room_def pending_of_def split: option.splits)
  then show ?thesis using \<open>eq_inv eq\<close> by (simp add: event_schedule_def)
qed (rule schedule_refines(1))

section \<open>The contract\<close>

locale timer_queue =
  fixes schedule :: "int \<Rightarrow> u64 \<Rightarrow> 'cb \<Rightarrow> 'q \<Rightarrow> 'q" and cancel :: "int \<Rightarrow> 'q \<Rightarrow> 'q"
    and look :: "'q \<Rightarrow> int \<Rightarrow> (u64 \<times> 'cb) option" and due :: "'q \<Rightarrow> u64"
    and room :: "'q \<Rightarrow> bool" and inv :: "'q \<Rightarrow> bool"
  assumes look_schedule: "inv q \<Longrightarrow> room q \<or> look q i \<noteq> None \<Longrightarrow> look (schedule i t cb q) = (look q)(i := Some (t, cb))"
    and look_cancel: "inv q \<Longrightarrow> look (cancel i q) = (look q)(i := None)"
    and due_le: "inv q \<Longrightarrow> look q i = Some (t, cb) \<Longrightarrow> due q \<le> t"
    and inv_schedule: "inv q \<Longrightarrow> inv (schedule i t cb q)"
    and inv_cancel: "inv q \<Longrightarrow> inv (cancel i q)"
begin

lemma not_missed: "inv q \<Longrightarrow> look q i = Some (t, cb) \<Longrightarrow> t \<le> now \<Longrightarrow> due q \<le> now"
  using due_le order_trans by blast

lemma cancel_schedule: "inv q \<Longrightarrow> room q \<Longrightarrow> look q i = None \<Longrightarrow> look (cancel i (schedule i t cb q)) = look q"
  by (simp add: look_cancel inv_schedule look_schedule fun_upd_idem)

end

interpretation eventq: timer_queue event_schedule event_cancel pending_of next_event has_room eq_inv
proof
  fix q :: "'a event_queue" and i t cb
  assume inv: "eq_inv q"
  {
    assume "has_room q \<or> pending_of q i \<noteq> None"
    then show "pending_of (event_schedule i t cb q) = (pending_of q)(i := Some (t, cb))"
      using schedule_refines [OF inv] by blast
  next
    show "pending_of (event_cancel i q) = (pending_of q)(i := None)" by (rule cancel_refines(2) [OF inv])
  next
    assume "pending_of q i = Some (t, cb)"
    then show "next_event q \<le> t" using inv pending_of_iff [OF inv] by (auto simp: eq_inv_def)
  next
    show "eq_inv (event_schedule i t cb q)" by (rule schedule_inv [OF inv])
  next
    show "eq_inv (event_cancel i q)" by (rule cancel_refines(1) [OF inv])
  }
qed

end
