(* ===== verification/Soc.thy ===== *)
theory Soc
  imports Armv7m Events
begin

text \<open>
  The STM32F411 of the machine simulator: the interrupt controller and the SysTick timer
  (\<open>sim/src/arch/armv7m/armv7m_nvic.c\<close>, \<open>armv7m_systick.c\<close>), the peripherals under
  \<open>sim/src/hw/stm32/\<close> (GPIO, external interrupts, port selection, ADC, UART, SPI with I2S, DMA), the
  SPI bus (\<open>core/spi_bus.c\<close>), and the chip that wires them together and its tick
  (\<open>soc/stm32f411.c\<close>).

  The peripherals are one record \<open>soc\<close>, the device state of the memory bus. What is outside the chip,
  the board, is a parameter: a record \<open>board\<close> of the functions behind the output pins, the SPI
  slaves, the I2S sink, the serial lines and the board's own event callbacks, acting on the chip and
  on a state \<open>'e\<close> of the board. Function pointers inside the chip are the values of small types. The
  cycle counter of the core, which the peripherals read through a pointer, is the field \<open>now_cycle\<close>,
  set by the tick to the count the core has during the step. Signal tracing is left out.
\<close>

section \<open>State\<close>

record armv7m_nvic =
  pending :: u64
  scb_icsr :: u32
  scb_shpr3 :: u32
  scb_vtor :: u32
  scb_shcsr :: u32
  iser :: "nat \<Rightarrow> u32"
  needs_update :: bool

record armv7m_systick =
  csr :: u32
  rvr :: u32
  cvr :: u32
  counter :: u64
  next_fire :: u64

record stm32_gpio =
  odr :: u32
  idr :: u32
  idr_change :: "nat \<Rightarrow> nat option"

record stm32_exti =
  imr :: u32
  emr :: u32
  rtsr :: u32
  ftsr :: u32
  swier :: u32
  pr :: u32
  irq_out :: "nat \<Rightarrow> nat option"

record stm32_adc =
  adc_sr :: u32
  adc_cr1 :: u32
  adc_cr2 :: u32
  sqr3 :: u32
  channels :: "nat \<Rightarrow> u32"

record stm32_uart =
  tx_buf :: "u8 list"

record spi_slave =
  transfer :: "nat option"
  cs_active :: bool

record stm32_spi =
  spi_cr1 :: u32
  spi_cr2 :: u32
  spi_sr :: u32
  rx_data :: u8
  slaves :: "spi_slave list"
  spi_cycles_per_byte :: u32
  spi_cycles_override :: bool
  i2scfgr :: u32
  i2spr :: u32
  i2s_mode :: bool
  dma_tx :: "(nat \<times> nat) option"
  spi_evt_id :: int
  i2s_cycles_per_sample :: u32
  i2s_lr :: bool
  i2s_pending_left :: u16

record stm32_dma_stream =
  cr :: u32
  ndtr :: u32
  par :: u32
  m0ar :: u32
  m1ar :: u32
  fcr :: u32
  ndtr_orig :: u32
  m0ar_orig :: u32
  request_pending :: bool

record stm32_dma =
  streams :: "nat \<Rightarrow> stm32_dma_stream"
  lisr :: u32
  hisr :: u32
  any_active :: bool
  any_pending :: bool
  active_mask :: u8

record rcc_state =
  ahb1enr :: u32
  apb1enr :: u32
  apb2enr :: u32
  rcc_cr :: u32

text \<open>The callbacks an event can carry: those of the chip, and those of the board.\<close>

datatype soc_cb = No_cb | Systick_cb | Spi_txe_cb nat | I2s_txe_cb nat | Board_cb nat

record 'e soc =
  nvic :: armv7m_nvic
  systick :: armv7m_systick
  usarts :: "nat \<Rightarrow> stm32_uart"
  spis :: "nat \<Rightarrow> stm32_spi"
  gpio :: "nat \<Rightarrow> stm32_gpio"
  exti :: stm32_exti
  adc :: stm32_adc
  dma :: "nat \<Rightarrow> stm32_dma"
  exticr :: "nat \<Rightarrow> u32"
  rcc :: rcc_state
  demcr_val :: u32
  eq :: "soc_cb event_queue"
  now_cycle :: u64
  board_state :: 'e

record 'e board =
  pin_out :: "nat \<Rightarrow> nat \<Rightarrow> bool \<Rightarrow> 'e soc \<Rightarrow> 'e soc"
  spi_transfer :: "nat \<Rightarrow> u8 \<Rightarrow> 'e \<Rightarrow> u8 \<times> 'e"
  i2s_write :: "nat \<Rightarrow> u16 \<Rightarrow> u16 \<Rightarrow> 'e \<Rightarrow> 'e"
  chardev_write_buf :: "nat \<Rightarrow> u8 list \<Rightarrow> 'e \<Rightarrow> 'e"
  board_event :: "nat \<Rightarrow> 'e soc \<Rightarrow> 'e soc"

section \<open>Interrupt controller\<close>

definition IRQ_VEC_SVC :: nat where "IRQ_VEC_SVC = 11"
definition IRQ_VEC_PENDSV :: nat where "IRQ_VEC_PENDSV = 14"
definition IRQ_VEC_SYSTICK :: nat where "IRQ_VEC_SYSTICK = 15"

definition armv7m_nvic_init :: "armv7m_nvic \<Rightarrow> armv7m_nvic" where
  "armv7m_nvic_init n = n\<lparr>pending := 0, scb_icsr := 0, scb_shpr3 := 0, scb_vtor := 0, scb_shcsr := 0,
     iser := (\<lambda>_. 0)\<rparr>"

definition armv7m_nvic_set_pending :: "nat \<Rightarrow> armv7m_nvic \<Rightarrow> armv7m_nvic" where
  "armv7m_nvic_set_pending vector n = n\<lparr>pending := pending n OR push_bit vector 1, needs_update := True\<rparr>"

text \<open>The scan of the external vectors 16 to 56: pending and enabled.\<close>

fun scan_external :: "armv7m_nvic \<Rightarrow> nat list \<Rightarrow> nat" where
  "scan_external n [] = 0"
| "scan_external n (i # is) =
     (if bit (pending n) i \<and> bit (iser n ((i - 16) div 32)) ((i - 16) mod 32) then i else scan_external n is)"

definition armv7m_nvic_update :: "armv7m_nvic \<Rightarrow> 'd machine \<Rightarrow> armv7m_nvic \<times> 'd machine" where
  "armv7m_nvic_update n cpu =
     (let n = n\<lparr>needs_update := False\<rparr>;
          n = (if bit (scb_icsr n) 28 then n\<lparr>pending := pending n OR push_bit IRQ_VEC_PENDSV 1\<rparr> else n)
      in if pending n = 0 \<or> primask cpu \<noteq> 0 \<or> in_handler cpu \<or> irq_shadow cpu
         then (if pending n \<noteq> 0 then n\<lparr>needs_update := True\<rparr> else n, cpu)
         else (let (vec, n) =
                 (if bit (pending n) IRQ_VEC_SVC then (IRQ_VEC_SVC, n)
                  else if bit (pending n) IRQ_VEC_SYSTICK then (IRQ_VEC_SYSTICK, n)
                  else if bit (pending n) IRQ_VEC_PENDSV
                  then (IRQ_VEC_PENDSV, n\<lparr>scb_icsr := scb_icsr n AND NOT (push_bit 28 1)\<rparr>)
                  else (scan_external n [16..<57], n))
               in if vec \<noteq> 0
                  then (n\<lparr>pending := pending n AND NOT (push_bit vec 1)\<rparr>, armv7m_take_interrupt vec cpu)
                  else (n, cpu)))"

definition armv7m_nvic_scb_read :: "armv7m_nvic \<Rightarrow> u32 \<Rightarrow> u32" where
  "armv7m_nvic_scb_read n off =
     (if off = 0x04 then scb_icsr n else if off = 0x08 then scb_vtor n
      else if off = 0x20 then scb_shpr3 n else if off = 0x24 then scb_shcsr n
      else if off = 0x90 then 0x00000800 else 0)"

definition armv7m_nvic_scb_write :: "armv7m_nvic \<Rightarrow> u32 \<Rightarrow> u32 \<Rightarrow> armv7m_nvic" where
  "armv7m_nvic_scb_write n off val =
     (if off = 0x04 then n\<lparr>scb_icsr := val, needs_update := True\<rparr>
      else if off = 0x08 then n\<lparr>scb_vtor := val\<rparr>
      else if off = 0x20 then n\<lparr>scb_shpr3 := val\<rparr>
      else if off = 0x24 then n\<lparr>scb_shcsr := val\<rparr> else n)"

definition armv7m_nvic_iser_read :: "armv7m_nvic \<Rightarrow> u32 \<Rightarrow> u32" where
  "armv7m_nvic_iser_read n off = (let idx = unat (off div 4) in if idx < 3 then iser n idx else 0)"

definition armv7m_nvic_iser_write :: "armv7m_nvic \<Rightarrow> u32 \<Rightarrow> u32 \<Rightarrow> armv7m_nvic" where
  "armv7m_nvic_iser_write n off val =
     (let idx = unat (off div 4)
      in if idx < 3 then n\<lparr>iser := (iser n)(idx := iser n idx OR val)\<rparr> else n)"

section \<open>SysTick\<close>

abbreviation EVT_SYSTICK :: int where "EVT_SYSTICK \<equiv> 1"
abbreviation EVT_SPI0_TXE :: int where "EVT_SPI0_TXE \<equiv> 2"
abbreviation EVT_SPI1_TXE :: int where "EVT_SPI1_TXE \<equiv> 3"
abbreviation EVT_SPI2_TXE :: int where "EVT_SPI2_TXE \<equiv> 4"

definition armv7m_systick_init :: armv7m_systick where
  "armv7m_systick_init = \<lparr>csr = 0, rvr = 0, cvr = 0, counter = 0, next_fire = UINT64_MAX\<rparr>"

definition armv7m_systick_read :: "'e soc \<Rightarrow> u32 \<Rightarrow> u32" where
  "armv7m_systick_read s off =
     (let st = systick s
      in if off = 0x00 then csr st else if off = 0x04 then rvr st else if off = 0x08 then cvr st else 0)"

definition armv7m_systick_write :: "'e soc \<Rightarrow> u32 \<Rightarrow> u32 \<Rightarrow> 'e soc" where
  "armv7m_systick_write s off val =
     (let st = systick s
      in if off = 0x00 then
           (let s = s\<lparr>systick := st\<lparr>csr := val\<rparr>\<rparr>
            in if val AND 1 \<noteq> 0 \<and> rvr st > 0
               then s\<lparr>eq := event_schedule EVT_SYSTICK (now_cycle s + ucast (rvr st)) Systick_cb (eq s)\<rparr>
               else s\<lparr>eq := event_cancel EVT_SYSTICK (eq s)\<rparr>)
         else if off = 0x04 then s\<lparr>systick := st\<lparr>rvr := val\<rparr>\<rparr>
         else if off = 0x08 then s\<lparr>systick := st\<lparr>cvr := val, counter := 0\<rparr>\<rparr>
         else s)"

definition systick_event_cb :: "'e soc \<Rightarrow> 'e soc" where
  "systick_event_cb s =
     (let s = (if csr (systick s) AND 2 \<noteq> 0 then s\<lparr>nvic := armv7m_nvic_set_pending 15 (nvic s)\<rparr> else s)
      in if csr (systick s) AND 1 \<noteq> 0 \<and> rvr (systick s) > 0
         then s\<lparr>eq := event_schedule EVT_SYSTICK (now_cycle s + ucast (rvr (systick s))) Systick_cb (eq s)\<rparr>
         else s)"

text \<open>The polled form of the timer, an inline function of the header.\<close>

definition armv7m_systick_check :: "armv7m_systick \<Rightarrow> armv7m_nvic \<Rightarrow> u64 \<Rightarrow> armv7m_systick \<times> armv7m_nvic" where
  "armv7m_systick_check st n cycle =
     (if cycle \<ge> next_fire st
      then (st\<lparr>next_fire := cycle + ucast (rvr st), counter := 0\<rparr>,
            if csr st AND 2 \<noteq> 0 then armv7m_nvic_set_pending 15 n else n)
      else (st, n))"

section \<open>External interrupts and pins\<close>

definition nvic_irq_line_handler :: "nat \<Rightarrow> 'e soc \<Rightarrow> 'e soc" where
  "nvic_irq_line_handler irq s = s\<lparr>nvic := armv7m_nvic_set_pending (16 + irq) (nvic s)\<rparr>"

text \<open>\<open>gpio_set\<close> on an output of the interrupt block: the wired handler is called, if any.\<close>

definition gpio_set_irq :: "nat \<Rightarrow> 'e soc \<Rightarrow> 'e soc" where
  "gpio_set_irq i s = (case irq_out (exti s) i of Some irq \<Rightarrow> nvic_irq_line_handler irq s | None \<Rightarrow> s)"

definition stm32_exti_init :: "'e soc \<Rightarrow> 'e soc" where
  "stm32_exti_init s = s\<lparr>exti := \<lparr>imr = 0, emr = 0, rtsr = 0, ftsr = 0, swier = 0, pr = 0, irq_out = (\<lambda>_. None)\<rparr>\<rparr>"

definition stm32_exti_read :: "'e soc \<Rightarrow> u32 \<Rightarrow> u32" where
  "stm32_exti_read s off =
     (let e = exti s
      in if off = 0x00 then imr e else if off = 0x04 then emr e else if off = 0x08 then rtsr e
         else if off = 0x0C then ftsr e else if off = 0x10 then swier e else if off = 0x14 then pr e else 0)"

definition exti_soft :: "u32 \<Rightarrow> nat \<Rightarrow> 'e soc \<Rightarrow> 'e soc" where
  "exti_soft val i s =
     (if bit val i
      then (let s = s\<lparr>exti := (exti s)\<lparr>pr := pr (exti s) OR push_bit i 1\<rparr>\<rparr>
            in if bit (imr (exti s)) i then gpio_set_irq i s else s)
      else s)"

definition stm32_exti_write :: "'e soc \<Rightarrow> u32 \<Rightarrow> u32 \<Rightarrow> 'e soc" where
  "stm32_exti_write s off val =
     (let e = exti s
      in if off = 0x00 then s\<lparr>exti := e\<lparr>imr := val\<rparr>\<rparr>
         else if off = 0x04 then s\<lparr>exti := e\<lparr>emr := val\<rparr>\<rparr>
         else if off = 0x08 then s\<lparr>exti := e\<lparr>rtsr := val\<rparr>\<rparr>
         else if off = 0x0C then s\<lparr>exti := e\<lparr>ftsr := val\<rparr>\<rparr>
         else if off = 0x10 then
           (let s = fold (exti_soft val) [0..<16] s
            in s\<lparr>exti := (exti s)\<lparr>swier := swier (exti s) OR val\<rparr>\<rparr>)
         else if off = 0x14 then s\<lparr>exti := e\<lparr>pr := pr e AND NOT val, swier := swier e AND NOT val\<rparr>\<rparr>
         else s)"

definition stm32_exti_input_handler :: "nat \<Rightarrow> bool \<Rightarrow> 'e soc \<Rightarrow> 'e soc" where
  "stm32_exti_input_handler line level s =
     (let e = exti s; mask = push_bit line 1;
          rising = (level \<and> rtsr e AND mask \<noteq> 0); falling = (\<not> level \<and> ftsr e AND mask \<noteq> 0)
      in if rising \<or> falling
         then (let s = s\<lparr>exti := e\<lparr>pr := pr e OR mask\<rparr>\<rparr>
               in if imr e AND mask \<noteq> 0 then gpio_set_irq line s else s)
         else s)"

definition upd_gpio :: "nat \<Rightarrow> (stm32_gpio \<Rightarrow> stm32_gpio) \<Rightarrow> 'e soc \<Rightarrow> 'e soc" where
  "upd_gpio p f s = s\<lparr>gpio := (gpio s)(p := f (gpio s p))\<rparr>"

definition stm32_gpio_init :: "nat \<Rightarrow> 'e soc \<Rightarrow> 'e soc" where
  "stm32_gpio_init p s = upd_gpio p (\<lambda>_. \<lparr>odr = 0, idr = 0, idr_change = (\<lambda>_. None)\<rparr>) s"

definition stm32_gpio_read :: "nat \<Rightarrow> 'e soc \<Rightarrow> u32 \<Rightarrow> u32" where
  "stm32_gpio_read p s off =
     (if off = 0x10 then idr (gpio s p) else if off = 0x14 then odr (gpio s p) else 0)"

definition gpio_odr_bit :: "'e board \<Rightarrow> nat \<Rightarrow> u32 \<Rightarrow> nat \<Rightarrow> 'e soc \<Rightarrow> 'e soc" where
  "gpio_odr_bit bd p val i s =
     (let new_bit = bit val i; old_bit = bit (odr (gpio s p)) i
      in if new_bit \<noteq> old_bit then pin_out bd p i new_bit s else s)"

definition gpio_bsrr_bit :: "'e board \<Rightarrow> nat \<Rightarrow> u32 \<Rightarrow> nat \<Rightarrow> 'e soc \<Rightarrow> 'e soc" where
  "gpio_bsrr_bit bd p val i s =
     (let s = (if bit val i
               then upd_gpio p (\<lambda>g. g\<lparr>odr := odr g OR push_bit i 1\<rparr>)
                      (if \<not> bit (odr (gpio s p)) i then pin_out bd p i True s else s)
               else s)
      in if bit val (i + 16)
         then upd_gpio p (\<lambda>g. g\<lparr>odr := odr g AND NOT (push_bit i 1)\<rparr>)
                (if bit (odr (gpio s p)) i then pin_out bd p i False s else s)
         else s)"

definition stm32_gpio_write :: "'e board \<Rightarrow> nat \<Rightarrow> 'e soc \<Rightarrow> u32 \<Rightarrow> u32 \<Rightarrow> 'e soc" where
  "stm32_gpio_write bd p s off val =
     (if off = 0x14 then upd_gpio p (\<lambda>g. g\<lparr>odr := val\<rparr>) (fold (gpio_odr_bit bd p val) [0..<16] s)
      else if off = 0x18 then fold (gpio_bsrr_bit bd p val) [0..<16] s
      else s)"

definition stm32_gpio_set_input :: "nat \<Rightarrow> nat \<Rightarrow> bool \<Rightarrow> 'e soc \<Rightarrow> 'e soc" where
  "stm32_gpio_set_input p pin level s =
     (let old = bit (idr (gpio s p)) pin;
          s = upd_gpio p (\<lambda>g. g\<lparr>idr := (if level then idr g OR push_bit pin 1 else idr g AND NOT (push_bit pin 1))\<rparr>) s
      in if level \<noteq> old
         then (case idr_change (gpio s p) pin of Some line \<Rightarrow> stm32_exti_input_handler line level s | None \<Rightarrow> s)
         else s)"

section \<open>Clocks and port selection\<close>

definition rcc_read :: "'e soc \<Rightarrow> u32 \<Rightarrow> u32" where
  "rcc_read s off =
     (if off = 0x00 then rcc_cr (rcc s) else if off = 0x30 then ahb1enr (rcc s)
      else if off = 0x40 then apb1enr (rcc s) else if off = 0x44 then apb2enr (rcc s) else 0)"

definition rcc_write :: "'e soc \<Rightarrow> u32 \<Rightarrow> u32 \<Rightarrow> 'e soc" where
  "rcc_write s off val =
     (let r = rcc s
      in if off = 0x00 then
           (let c = val;
                c = (if val AND push_bit 24 1 \<noteq> 0 then c OR push_bit 25 1 else c);
                c = (if val AND push_bit 26 1 \<noteq> 0 then c OR push_bit 27 1 else c)
            in s\<lparr>rcc := r\<lparr>rcc_cr := c\<rparr>\<rparr>)
         else if off = 0x30 then s\<lparr>rcc := r\<lparr>ahb1enr := ahb1enr r OR val\<rparr>\<rparr>
         else if off = 0x40 then s\<lparr>rcc := r\<lparr>apb1enr := apb1enr r OR val\<rparr>\<rparr>
         else if off = 0x44 then s\<lparr>rcc := r\<lparr>apb2enr := apb2enr r OR val\<rparr>\<rparr>
         else s)"

definition rcc_is_clock_enabled :: "nat \<Rightarrow> nat \<Rightarrow> 'e soc \<Rightarrow> bool" where
  "rcc_is_clock_enabled bus_no n s =
     (if bus_no = 0 then bit (ahb1enr (rcc s)) n else if bus_no = 1 then bit (apb1enr (rcc s)) n
      else if bus_no = 2 then bit (apb2enr (rcc s)) n else False)"

abbreviation STM32F411_NUM_GPIO :: nat where "STM32F411_NUM_GPIO \<equiv> 3"

definition stm32_syscfg_init :: "'e soc \<Rightarrow> 'e soc" where
  "stm32_syscfg_init s = s\<lparr>exticr := (\<lambda>_. 0)\<rparr>"

definition stm32_syscfg_read :: "'e soc \<Rightarrow> u32 \<Rightarrow> u32" where
  "stm32_syscfg_read s off = (if 0x08 \<le> off \<and> off \<le> 0x14 then exticr s (unat ((off - 0x08) div 4)) else 0)"

definition syscfg_line :: "nat \<Rightarrow> u32 \<Rightarrow> u32 \<Rightarrow> nat \<Rightarrow> 'e soc \<Rightarrow> 'e soc" where
  "syscfg_line reg_idx old val i s =
     (let pin = reg_idx * 4 + i;
          old_port = unat (drop_bit (i * 4) old AND 0xF); new_port = unat (drop_bit (i * 4) val AND 0xF)
      in if old_port = new_port \<or> STM32F411_NUM_GPIO \<le> new_port then s
         else (let s = (if old_port < STM32F411_NUM_GPIO
                        then upd_gpio old_port (\<lambda>g. g\<lparr>idr_change := (idr_change g)(pin := None)\<rparr>) s else s)
               in upd_gpio new_port (\<lambda>g. g\<lparr>idr_change := (idr_change g)(pin := Some pin)\<rparr>) s))"

definition stm32_syscfg_write :: "'e soc \<Rightarrow> u32 \<Rightarrow> u32 \<Rightarrow> 'e soc" where
  "stm32_syscfg_write s off val =
     (if off < 0x08 \<or> 0x14 < off \<or> \<not> rcc_is_clock_enabled 2 14 s then s
      else (let reg_idx = unat ((off - 0x08) div 4); old = exticr s reg_idx;
                s = s\<lparr>exticr := (exticr s)(reg_idx := val)\<rparr>
            in fold (syscfg_line reg_idx old val) [0..<4] s))"

section \<open>ADC and UART\<close>

definition stm32_adc_init :: stm32_adc where
  "stm32_adc_init = \<lparr>adc_sr = 0, adc_cr1 = 0, adc_cr2 = 0, sqr3 = 0, channels = (\<lambda>_. 2048)\<rparr>"

definition stm32_adc_read :: "'e soc \<Rightarrow> u32 \<Rightarrow> u32 \<times> 'e soc" where
  "stm32_adc_read s off =
     (let a = adc s
      in if off = 0x00 then (adc_sr a, s) else if off = 0x04 then (adc_cr1 a, s)
         else if off = 0x08 then (adc_cr2 a, s) else if off = 0x34 then (sqr3 a, s)
         else if off = 0x4C then
           (let ch = unat (sqr3 a AND 0xF)
            in (channels a ch, s\<lparr>adc := a\<lparr>adc_sr := adc_sr a AND NOT (push_bit 1 1)\<rparr>\<rparr>))
         else (0, s))"

definition stm32_adc_write :: "'e soc \<Rightarrow> u32 \<Rightarrow> u32 \<Rightarrow> 'e soc" where
  "stm32_adc_write s off val =
     (let a = adc s
      in if off = 0x00 then s\<lparr>adc := a\<lparr>adc_sr := val\<rparr>\<rparr>
         else if off = 0x04 then s\<lparr>adc := a\<lparr>adc_cr1 := val\<rparr>\<rparr>
         else if off = 0x08 then
           s\<lparr>adc := a\<lparr>adc_cr2 := val,
                       adc_sr := (if bit val 30 then adc_sr a OR push_bit 1 1 else adc_sr a)\<rparr>\<rparr>
         else if off = 0x34 then s\<lparr>adc := a\<lparr>sqr3 := val\<rparr>\<rparr>
         else s)"

definition stm32_uart_init :: stm32_uart where
  "stm32_uart_init = \<lparr>tx_buf = []\<rparr>"

definition stm32_uart_read :: "u32 \<Rightarrow> u32" where
  "stm32_uart_read off = (if off = 0x00 then push_bit 7 1 OR push_bit 6 1 else 0)"

definition stm32_uart_write :: "'e board \<Rightarrow> nat \<Rightarrow> 'e soc \<Rightarrow> u32 \<Rightarrow> u32 \<Rightarrow> 'e soc" where
  "stm32_uart_write bd u s off val =
     (if off \<noteq> 0x04 then s
      else (let c = (ucast (val AND 0xFF) :: u8); buf = tx_buf (usarts s u) @ [c]
            in if c = 10 \<or> length buf \<ge> 128
               then s\<lparr>usarts := (usarts s)(u := (usarts s u)\<lparr>tx_buf := []\<rparr>),
                      board_state := chardev_write_buf bd u buf (board_state s)\<rparr>
               else s\<lparr>usarts := (usarts s)(u := (usarts s u)\<lparr>tx_buf := buf\<rparr>)\<rparr>))"

section \<open>SPI\<close>

abbreviation SR_TXE :: u32 where "SR_TXE \<equiv> push_bit 1 1"
abbreviation SR_RXNE :: u32 where "SR_RXNE \<equiv> push_bit 0 1"
abbreviation SR_BSY :: u32 where "SR_BSY \<equiv> push_bit 7 1"

definition SPI_MAX_SLAVES :: nat where "SPI_MAX_SLAVES = 4"

definition spi_bus_attach :: "nat option \<Rightarrow> spi_slave list \<Rightarrow> nat option \<times> spi_slave list" where
  "spi_bus_attach xfer sl =
     (if SPI_MAX_SLAVES \<le> length sl then (None, sl)
      else (Some (length sl), sl @ [\<lparr>transfer = xfer, cs_active = False\<rparr>]))"

text \<open>Every selected slave gets the byte; the answer is the last one's, zero when there is none.\<close>

fun spi_bus_transfer :: "'e board \<Rightarrow> spi_slave list \<Rightarrow> u8 \<Rightarrow> u8 \<Rightarrow> 'e \<Rightarrow> u8 \<times> 'e" where
  "spi_bus_transfer bd [] b r x = (r, x)"
| "spi_bus_transfer bd (sl # sls) b r x =
     (case transfer sl of
        Some dev \<Rightarrow> (if cs_active sl
                     then (case spi_transfer bd dev b x of (r, x) \<Rightarrow> spi_bus_transfer bd sls b r x)
                     else spi_bus_transfer bd sls b r x)
      | None \<Rightarrow> spi_bus_transfer bd sls b r x)"

definition upd_spi :: "nat \<Rightarrow> (stm32_spi \<Rightarrow> stm32_spi) \<Rightarrow> 'e soc \<Rightarrow> 'e soc" where
  "upd_spi i f s = s\<lparr>spis := (spis s)(i := f (spis s i))\<rparr>"

definition spi_compute_baud :: "stm32_spi \<Rightarrow> stm32_spi" where
  "spi_compute_baud p =
     (if spi_cycles_override p then p
      else (let br = unat (drop_bit 3 (spi_cr1 p) AND 7); prescaler = push_bit br 2
            in p\<lparr>spi_cycles_per_byte := 8 * prescaler\<rparr>))"

definition i2s_compute_prescaler :: "stm32_spi \<Rightarrow> stm32_spi" where
  "i2s_compute_prescaler p = p\<lparr>i2s_cycles_per_sample := 16000000 div 22050\<rparr>"

definition stm32_spi_init :: stm32_spi where
  "stm32_spi_init = \<lparr>spi_cr1 = 0, spi_cr2 = 0, spi_sr = SR_TXE, rx_data = 0, slaves = [], spi_cycles_per_byte = 16,
     spi_cycles_override = False, i2scfgr = 0, i2spr = 0, i2s_mode = False, dma_tx = None, spi_evt_id = 0,
     i2s_cycles_per_sample = 16000000 div 22050, i2s_lr = False, i2s_pending_left = 0\<rparr>"

definition stm32_spi_read :: "nat \<Rightarrow> 'e soc \<Rightarrow> u32 \<Rightarrow> u32 \<times> 'e soc" where
  "stm32_spi_read i s off =
     (let p = spis s i
      in if off = 0x00 then (spi_cr1 p, s) else if off = 0x04 then (spi_cr2 p, s)
         else if off = 0x08 then (spi_sr p, s)
         else if off = 0x0C then
           (ucast (rx_data p), upd_spi i (\<lambda>p. p\<lparr>spi_sr := spi_sr p AND NOT SR_RXNE\<rparr>) s)
         else if off = 0x1C then (i2scfgr p, s) else if off = 0x20 then (i2spr p, s) else (0, s))"

definition upd_dma :: "nat \<Rightarrow> (stm32_dma \<Rightarrow> stm32_dma) \<Rightarrow> 'e soc \<Rightarrow> 'e soc" where
  "upd_dma k f s = s\<lparr>dma := (dma s)(k := f (dma s k))\<rparr>"

definition upd_stream :: "nat \<Rightarrow> (stm32_dma_stream \<Rightarrow> stm32_dma_stream) \<Rightarrow> stm32_dma \<Rightarrow> stm32_dma" where
  "upd_stream j f d = d\<lparr>streams := (streams d)(j := f (streams d j))\<rparr>"

definition kick_dma :: "nat \<Rightarrow> 'e soc \<Rightarrow> 'e soc" where
  "kick_dma i s =
     (case dma_tx (spis s i) of
        Some (k, j) \<Rightarrow>
          (if bit (spi_cr2 (spis s i)) 1
           then upd_dma k (\<lambda>d. (upd_stream j (\<lambda>st. st\<lparr>request_pending := True\<rparr>) d)
                             \<lparr>any_active := True, any_pending := True\<rparr>) s
           else s)
      | None \<Rightarrow> s)"

definition spi_txe_callback :: "nat \<Rightarrow> 'e soc \<Rightarrow> 'e soc" where
  "spi_txe_callback i s =
     kick_dma i (upd_spi i (\<lambda>p. p\<lparr>spi_sr := (spi_sr p OR SR_TXE) AND NOT SR_BSY\<rparr>) s)"

definition i2s_txe_callback :: "nat \<Rightarrow> 'e soc \<Rightarrow> 'e soc" where
  "i2s_txe_callback i s = kick_dma i (upd_spi i (\<lambda>p. p\<lparr>spi_sr := spi_sr p OR SR_TXE\<rparr>) s)"

text \<open>The data register: a sample of the left or the right channel in I2S mode, a byte otherwise.\<close>

definition spi_write_dr :: "'e board \<Rightarrow> nat \<Rightarrow> 'e soc \<Rightarrow> u32 \<Rightarrow> 'e soc" where
  "spi_write_dr bd i s val =
     (let p = spis s i
      in if i2s_mode p then
           (if \<not> i2s_lr p
            then kick_dma i (upd_spi i (\<lambda>p. p\<lparr>i2s_pending_left := ucast val, i2s_lr := True,
                                               spi_sr := spi_sr p OR SR_TXE\<rparr>) s)
            else (let s = s\<lparr>board_state := i2s_write bd i (i2s_pending_left p) (ucast val) (board_state s)\<rparr>;
                      s = upd_spi i (\<lambda>p. p\<lparr>i2s_lr := False, spi_sr := spi_sr p AND NOT SR_TXE\<rparr>) s
                  in s\<lparr>eq := event_schedule (spi_evt_id p) (now_cycle s + ucast (i2s_cycles_per_sample p))
                              (I2s_txe_cb i) (eq s)\<rparr>))
         else (case spi_bus_transfer bd (slaves p) (ucast val) 0 (board_state s) of (r, x) \<Rightarrow>
                (let s = s\<lparr>board_state := x\<rparr>;
                     s = upd_spi i (\<lambda>p. p\<lparr>rx_data := r,
                           spi_sr := ((spi_sr p OR SR_RXNE) AND NOT (SR_TXE OR SR_BSY)) OR SR_BSY\<rparr>) s
                 in s\<lparr>eq := event_schedule (spi_evt_id p) (now_cycle s + ucast (spi_cycles_per_byte p))
                             (Spi_txe_cb i) (eq s)\<rparr>)))"

definition stm32_spi_write :: "'e board \<Rightarrow> nat \<Rightarrow> 'e soc \<Rightarrow> u32 \<Rightarrow> u32 \<Rightarrow> 'e soc" where
  "stm32_spi_write bd i s off val =
     (if off = 0x00 then upd_spi i (\<lambda>p. spi_compute_baud (p\<lparr>spi_cr1 := val\<rparr>)) s
      else if off = 0x04 then
        (let s = upd_spi i (\<lambda>p. p\<lparr>spi_cr2 := val\<rparr>) s
         in if bit val 1 \<and> spi_sr (spis s i) AND SR_TXE \<noteq> 0 then kick_dma i s else s)
      else if off = 0x0C then spi_write_dr bd i s val
      else if off = 0x1C then
        upd_spi i (\<lambda>p. let p = p\<lparr>i2scfgr := val, i2s_mode := bit val 11\<rparr>
                       in if i2s_mode p then p\<lparr>i2s_lr := False, spi_sr := spi_sr p OR SR_TXE\<rparr> else p) s
      else if off = 0x20 then upd_spi i (\<lambda>p. i2s_compute_prescaler (p\<lparr>i2spr := val\<rparr>)) s
      else s)"

section \<open>DMA\<close>

abbreviation CR_EN :: nat where "CR_EN \<equiv> 0"
abbreviation CR_HTIE :: nat where "CR_HTIE \<equiv> 3"
abbreviation CR_TCIE :: nat where "CR_TCIE \<equiv> 4"
abbreviation CR_CIRC :: nat where "CR_CIRC \<equiv> 8"
abbreviation CR_MINC :: nat where "CR_MINC \<equiv> 10"

definition tcif_bit :: "nat \<Rightarrow> nat" where "tcif_bit i = [5, 11, 21, 27, 5, 11, 21, 27] ! i"
definition htif_bit :: "nat \<Rightarrow> nat" where "htif_bit i = [4, 10, 20, 26, 4, 10, 20, 26] ! i"
definition dma1_irq_vec :: "nat \<Rightarrow> nat" where
  "dma1_irq_vec i = [16+11, 16+12, 16+13, 16+14, 16+15, 16+16, 16+17, 16+47] ! i"

definition stm32_dma_init :: stm32_dma where
  "stm32_dma_init = \<lparr>streams = (\<lambda>_. \<lparr>cr = 0, ndtr = 0, par = 0, m0ar = 0, m1ar = 0, fcr = 0, ndtr_orig = 0,
     m0ar_orig = 0, request_pending = False\<rparr>), lisr = 0, hisr = 0, any_active = False, any_pending = False,
     active_mask = 0\<rparr>"

text \<open>The stream and the register a register offset names.\<close>

definition stream_idx :: "u32 \<Rightarrow> nat" where "stream_idx off = unat ((off - 0x10) div 0x18)"
definition stream_reg :: "u32 \<Rightarrow> nat" where "stream_reg off = unat ((off - 0x10) mod 0x18)"

definition stm32_dma_read :: "nat \<Rightarrow> 'e soc \<Rightarrow> u32 \<Rightarrow> u32" where
  "stm32_dma_read k s off =
     (let d = dma s k
      in if off = 0x00 then lisr d else if off = 0x04 then hisr d
         else if off = 0x08 then 0 else if off = 0x0C then 0
         else if off \<ge> 0x10 \<and> stream_idx off < 8 then
           (let st = streams d (stream_idx off); r = stream_reg off
            in if r = 0x00 then cr st else if r = 0x04 then ndtr st else if r = 0x08 then par st
               else if r = 0x0C then m0ar st else if r = 0x10 then m1ar st else if r = 0x14 then fcr st else 0)
         else 0)"

definition dma_write_cr :: "nat \<Rightarrow> u32 \<Rightarrow> stm32_dma \<Rightarrow> stm32_dma" where
  "dma_write_cr j val d =
     (let old = cr (streams d j);
          d = (if bit val CR_EN \<and> \<not> bit old CR_EN
               then (let d = (upd_stream j (\<lambda>st. st\<lparr>ndtr_orig := ndtr st, m0ar_orig := m0ar st\<rparr>) d)
                               \<lparr>any_active := True, active_mask := active_mask d OR push_bit j 1\<rparr>
                     in if request_pending (streams d j) then d\<lparr>any_pending := True\<rparr> else d)
               else d);
          d = (if \<not> bit val CR_EN \<and> bit old CR_EN
               then (let d = (upd_stream j (\<lambda>st. st\<lparr>request_pending := False\<rparr>) d)
                               \<lparr>active_mask := active_mask d AND NOT (push_bit j 1)\<rparr>
                     in if active_mask d = 0 then d\<lparr>any_active := False\<rparr> else d)
               else d)
      in upd_stream j (\<lambda>st. st\<lparr>cr := val\<rparr>) d)"

definition stm32_dma_write :: "nat \<Rightarrow> 'e soc \<Rightarrow> u32 \<Rightarrow> u32 \<Rightarrow> 'e soc" where
  "stm32_dma_write k s off val =
     (if off = 0x08 then upd_dma k (\<lambda>d. d\<lparr>lisr := lisr d AND NOT val\<rparr>) s
      else if off = 0x0C then upd_dma k (\<lambda>d. d\<lparr>hisr := hisr d AND NOT val\<rparr>) s
      else if off \<ge> 0x10 \<and> stream_idx off < 8 then
        (let j = stream_idx off; r = stream_reg off
         in if r = 0x00 then upd_dma k (dma_write_cr j val) s
            else if r = 0x04 then upd_dma k (upd_stream j (\<lambda>st. st\<lparr>ndtr := val\<rparr>)) s
            else if r = 0x08 then upd_dma k (upd_stream j (\<lambda>st. st\<lparr>par := val\<rparr>)) s
            else if r = 0x0C then upd_dma k (upd_stream j (\<lambda>st. st\<lparr>m0ar := val\<rparr>)) s
            else if r = 0x10 then upd_dma k (upd_stream j (\<lambda>st. st\<lparr>m1ar := val\<rparr>)) s
            else if r = 0x14 then upd_dma k (upd_stream j (\<lambda>st. st\<lparr>fcr := val\<rparr>)) s
            else s)
      else s)"

text \<open>The tick works on the bus, whose device state holds the controller.\<close>

type_synonym 'e soc_bus = "'e soc membus"

definition upd_soc :: "('e soc \<Rightarrow> 'e soc) \<Rightarrow> 'e soc_bus \<Rightarrow> 'e soc_bus" where
  "upd_soc f b = b\<lparr>devs := f (devs b)\<rparr>"

definition dma_copy :: "nat \<Rightarrow> u32 \<Rightarrow> u32 \<Rightarrow> 'e soc_bus \<Rightarrow> 'e soc_bus" where
  "dma_copy bytes src dst b =
     (if bytes = 2 then (case membus_read16 b src of (v, b) \<Rightarrow> membus_write16 b dst v)
      else if bytes = 4 then (case membus_read32 b src of (v, b) \<Rightarrow> membus_write32 b dst v)
      else (case membus_read8 b src of (v, b) \<Rightarrow> membus_write8 b dst v))"

definition dma_raise :: "nat \<Rightarrow> nat \<Rightarrow> nat \<Rightarrow> 'e soc \<Rightarrow> 'e soc" where
  "dma_raise k i fb s =
     (let s = upd_dma k (\<lambda>d. if i < 4 then d\<lparr>lisr := lisr d OR push_bit fb 1\<rparr>
                              else d\<lparr>hisr := hisr d OR push_bit fb 1\<rparr>) s
      in s\<lparr>nvic := armv7m_nvic_set_pending (dma1_irq_vec i) (nvic s)\<rparr>)"

text \<open>After an item: advance, count down, and raise the half-transfer and transfer-complete flags.\<close>

definition dma_account :: "nat \<Rightarrow> nat \<Rightarrow> nat \<Rightarrow> 'e soc \<Rightarrow> 'e soc" where
  "dma_account k i bytes s =
     (let s = upd_dma k (upd_stream i (\<lambda>st. st\<lparr>
                m0ar := (if bit (cr st) CR_MINC then m0ar st + of_nat bytes else m0ar st), ndtr := ndtr st - 1\<rparr>)) s;
          st = streams (dma s k) i;
          s = (if ndtr st = ndtr_orig st div 2 \<and> bit (cr st) CR_HTIE then dma_raise k i (htif_bit i) s else s);
          st = streams (dma s k) i
      in if ndtr st = 0
         then (let s = (if bit (cr st) CR_CIRC
                        then upd_dma k (upd_stream i (\<lambda>st. st\<lparr>ndtr := ndtr_orig st, m0ar := m0ar_orig st\<rparr>)) s
                        else upd_dma k (\<lambda>d. (upd_stream i (\<lambda>st. st\<lparr>cr := cr st AND NOT (push_bit CR_EN 1)\<rparr>) d)
                               \<lparr>active_mask := active_mask d AND NOT (push_bit i 1)\<rparr>) s)
               in if bit (cr (streams (dma s k) i)) CR_TCIE then dma_raise k i (tcif_bit i) s else s)
         else s)"

definition dma_stream_tick :: "nat \<Rightarrow> nat \<Rightarrow> 'e soc_bus \<Rightarrow> 'e soc_bus" where
  "dma_stream_tick k i b =
     (let st = streams (dma (devs b) k) i
      in if \<not> bit (cr st) CR_EN \<or> \<not> request_pending st then b
         else (let b = upd_soc (upd_dma k (upd_stream i (\<lambda>st. st\<lparr>request_pending := False\<rparr>))) b;
                   psize = unat (drop_bit 11 (cr st) AND 3); bytes = 2 ^ psize;
                   dir = unat (drop_bit 6 (cr st) AND 3);
                   b = (if dir = 1 then dma_copy bytes (m0ar st) (par st) b else dma_copy bytes (par st) (m0ar st) b)
               in upd_soc (dma_account k i bytes) b))"

definition stm32_dma_tick :: "nat \<Rightarrow> 'e soc_bus \<Rightarrow> 'e soc_bus" where
  "stm32_dma_tick k b =
     (let d = dma (devs b) k
      in if \<not> any_active d \<or> \<not> any_pending d then b
         else (let b = upd_soc (upd_dma k (\<lambda>d. d\<lparr>any_pending := False\<rparr>)) b;
                   b = fold (dma_stream_tick k) (filter (bit (active_mask d)) [0..<8]) b;
                   b = upd_soc (upd_dma k (\<lambda>d. d\<lparr>any_active := active_mask d \<noteq> 0\<rparr>)) b
               in upd_soc (upd_dma k (\<lambda>d.
                    if any_active d \<and> \<not> any_pending d \<and>
                       (\<exists>i \<in> {0..<8}. bit (cr (streams d i)) 0 \<and> request_pending (streams d i))
                    then d\<lparr>any_pending := True\<rparr> else d)) b))"

section \<open>The chip\<close>

definition dwt_read :: "'e soc \<Rightarrow> u32 \<Rightarrow> u32" where
  "dwt_read s off = (if off = 0x04 then ucast (now_cycle s) else if off = 0x00 then 1 else 0)"

text \<open>A read callback that leaves the devices alone.\<close>

definition pure_read :: "('e soc \<Rightarrow> u32 \<Rightarrow> u32) \<Rightarrow> 'e soc mem_read_fn" where
  "pure_read f s off = (f s off, s)"

text \<open>The interrupt number of an external line.\<close>

definition exti_irq :: "nat \<Rightarrow> nat" where
  "exti_irq i = (if i < 5 then 6 + i else if i \<le> 9 then 23 else 40)"

definition soc_reset :: "'e soc \<Rightarrow> 'e soc" where
  "soc_reset s =
     (let s = s\<lparr>nvic := armv7m_nvic_init (nvic s), systick := armv7m_systick_init,
                usarts := (\<lambda>_. stm32_uart_init), spis := (\<lambda>_. stm32_spi_init)\<rparr>;
          s = stm32_gpio_init 2 (stm32_gpio_init 1 (stm32_gpio_init 0 s));
          s = (stm32_exti_init s)\<lparr>adc := stm32_adc_init, dma := (\<lambda>_. stm32_dma_init)\<rparr>;
          s = upd_spi 1 (\<lambda>p. p\<lparr>dma_tx := Some (0, 4)\<rparr>) s;
          s = upd_spi 0 (\<lambda>p. p\<lparr>dma_tx := Some (1, 3)\<rparr>) s;
          s = s\<lparr>exti := (exti s)\<lparr>irq_out := (\<lambda>i. if i < 16 then Some (exti_irq i) else None)\<rparr>\<rparr>;
          s = upd_gpio 0 (\<lambda>g. g\<lparr>idr_change := (\<lambda>i. if i < 16 then Some i else None)\<rparr>) s;
          s = (stm32_syscfg_init s)\<lparr>eq := event_queue_init No_cb\<rparr>;
          s = upd_spi 0 (\<lambda>p. p\<lparr>spi_evt_id := EVT_SPI0_TXE\<rparr>) s;
          s = upd_spi 1 (\<lambda>p. p\<lparr>spi_evt_id := EVT_SPI1_TXE\<rparr>) s
      in upd_spi 2 (\<lambda>p. p\<lparr>spi_evt_id := EVT_SPI2_TXE\<rparr>) s)"

text \<open>The regions in the order they are registered: the host arrays 0 and 1 are flash and RAM.\<close>

definition soc_map :: "'e board \<Rightarrow> 'e soc_bus \<Rightarrow> 'e soc_bus" where
  "soc_map bd b =
     (let dev = (\<lambda>a n r w. membus_register a n (Some r) (Some w));
          b = membus_register_ram FLASH_BASE MEMBUS_FLASH_SIZE 0 True (membus_init b);
          b = membus_register_ram RAM_BASE RAM_SIZE 1 False b;
          b = dev 0xE000E010 0x10 (pure_read armv7m_systick_read) armv7m_systick_write b;
          b = dev 0xE000E100 0x10 (pure_read (\<lambda>s. armv7m_nvic_iser_read (nvic s)))
                (\<lambda>s off v. s\<lparr>nvic := armv7m_nvic_iser_write (nvic s) off v\<rparr>) b;
          b = dev 0xE000ED00 0xA4 (pure_read (\<lambda>s. armv7m_nvic_scb_read (nvic s)))
                (\<lambda>s off v. s\<lparr>nvic := armv7m_nvic_scb_write (nvic s) off v\<rparr>) b;
          b = dev 0xE0001000 0x100 (pure_read dwt_read) (\<lambda>s off v. s) b;
          b = dev 0xE000EDF0 0x10 (pure_read (\<lambda>s off. demcr_val s)) (\<lambda>s off v. s\<lparr>demcr_val := v\<rparr>) b;
          b = fold (\<lambda>(a, u). dev a 0x20 (pure_read (\<lambda>s. stm32_uart_read)) (stm32_uart_write bd u))
                [(0x40011000, 0), (0x40004400, 1), (0x40011400, 2)] b;
          b = fold (\<lambda>(a, i). dev a 0x24 (stm32_spi_read i) (stm32_spi_write bd i))
                [(0x40013000, 0), (0x40003800, 1), (0x40003C00, 2)] b;
          b = fold (\<lambda>(a, p). dev a 0x0400 (pure_read (stm32_gpio_read p)) (stm32_gpio_write bd p))
                [(0x40020000, 0), (0x40020400, 1), (0x40020800, 2)] b;
          b = dev 0x40023800 0x100 (pure_read rcc_read) rcc_write b;
          b = dev 0x40013C00 0x18 (pure_read stm32_exti_read) stm32_exti_write b;
          b = dev 0x40013800 0x18 (pure_read stm32_syscfg_read) stm32_syscfg_write b;
          b = dev 0x40012000 0x400 stm32_adc_read stm32_adc_write b
      in fold (\<lambda>(a, k). dev a 0x400 (pure_read (stm32_dma_read k)) (stm32_dma_write k))
           [(0x40026000, 0), (0x40026400, 1)] b)"

definition stm32f411_init :: "'e board \<Rightarrow> 'e soc machine \<Rightarrow> 'e soc machine" where
  "stm32f411_init bd m =
     (let b = (bus m)\<lparr>arrays := (\<lambda>_ _. 0), array_len := (\<lambda>a. if a = 0 then 512 * 1024 else 128 * 1024)\<rparr>
      in (armv7m_cpu_init m)\<lparr>bus := soc_map bd (upd_soc soc_reset b)\<rparr>)"

text \<open>Calling the callback of an event.\<close>

definition run_cb :: "'e board \<Rightarrow> soc_cb \<Rightarrow> soc_cb event_queue \<times> 'e soc \<Rightarrow> soc_cb event_queue \<times> 'e soc" where
  "run_cb bd cb st =
     (case st of (q, s) \<Rightarrow>
        (let s = s\<lparr>eq := q\<rparr>;
             s = (case cb of No_cb \<Rightarrow> s | Systick_cb \<Rightarrow> systick_event_cb s | Spi_txe_cb i \<Rightarrow> spi_txe_callback i s
                  | I2s_txe_cb i \<Rightarrow> i2s_txe_callback i s | Board_cb n \<Rightarrow> board_event bd n s)
         in (eq s, s)))"

definition soc_events :: "'e board \<Rightarrow> u64 \<Rightarrow> 'e soc \<Rightarrow> 'e soc" where
  "soc_events bd cycle s =
     (if cycle \<ge> next_event (eq s)
      then (case event_process (run_cb bd) cycle (eq s, s) of (q, s) \<Rightarrow> s\<lparr>eq := q\<rparr>)
      else s)"

definition stm32f411_tick :: "'e board \<Rightarrow> u32 \<Rightarrow> 'e soc machine \<Rightarrow> step_result \<times> 'e soc machine" where
  "stm32f411_tick bd clock m =
     (let m = m\<lparr>bus := upd_soc (\<lambda>s. s\<lparr>now_cycle := cycle_count m + 1\<rparr>) (bus m)\<rparr>
      in case armv7m_cpu_step clock m of
           (Ret r, m) \<Rightarrow>
             (let b = upd_soc (soc_events bd (cycle_count m)) (bus m);
                  b = stm32_dma_tick 1 (stm32_dma_tick 0 b);
                  m = m\<lparr>bus := b\<rparr>
              in if needs_update (nvic (devs b))
                 then (case armv7m_nvic_update (nvic (devs b)) m of (n, m) \<Rightarrow>
                        (Ret r, m\<lparr>bus := upd_soc (\<lambda>s. s\<lparr>nvic := n\<rparr>) (bus m)\<rparr>))
                 else (Ret r, m))
         | (r, m) \<Rightarrow> (r, m))"

end
