(* ===== verification/Soc_Laws.thy ===== *)
theory Soc_Laws
  imports Soc
begin

text \<open>
  What the simulated chip guarantees of its interrupts: the SysTick timer raises its interrupt every
  reload period and at no other cycle; an edge on a pin reaches the interrupt controller exactly when
  the port is the selected one and the line is enabled; and which interrupt the controller delivers.
\<close>

section \<open>The timer\<close>

text \<open>The timer's event is the one with its identifier.\<close>

definition soc_queue_ok :: "soc_cb event_queue \<Rightarrow> bool" where
  "soc_queue_ok q \<longleftrightarrow> eq_inv q \<and>
     (\<forall>i < EVENT_QUEUE_MAX. active (events q ! i) \<longrightarrow>
        (callback (events q ! i) = Systick_cb \<longleftrightarrow> ev_id (events q ! i) = EVT_SYSTICK))"







text \<open>The callbacks of the SPI ports leave the timer, the queue and the interrupt controller alone.\<close>

lemma kick_dma_frame [simp]:
  "eq (kick_dma i s) = eq s" "systick (kick_dma i s) = systick s" "nvic (kick_dma i s) = nvic s"
  "now_cycle (kick_dma i s) = now_cycle s"
  by (auto simp: kick_dma_def upd_dma_def split: option.split)















section \<open>Ticks of the chip\<close>









text \<open>A chip at reset, on a board that does nothing.\<close>

definition example_board :: "unit board" where
  "example_board = \<lparr>pin_out = (\<lambda>p i l s. s), spi_transfer = (\<lambda>d b x. (0, x)), i2s_write = (\<lambda>i l r x. x),
     chardev_write_buf = (\<lambda>u b x. x), board_event = (\<lambda>n s. s)\<rparr>"

definition example_soc :: "unit soc" where
  "example_soc = soc_reset \<lparr>nvic = \<lparr>pending = 0, scb_icsr = 0, scb_shpr3 = 0, scb_vtor = 0, scb_shcsr = 0,
       iser = (\<lambda>_. 0), needs_update = False\<rparr>, systick = armv7m_systick_init, usarts = (\<lambda>_. stm32_uart_init),
     spis = (\<lambda>_. stm32_spi_init), gpio = (\<lambda>_. \<lparr>odr = 0, idr = 0, idr_change = (\<lambda>_. None)\<rparr>),
     exti = \<lparr>imr = 0, emr = 0, rtsr = 0, ftsr = 0, swier = 0, pr = 0, irq_out = (\<lambda>_. None)\<rparr>,
     adc = stm32_adc_init, dma = (\<lambda>_. stm32_dma_init), exticr = (\<lambda>_. 0),
     rcc = \<lparr>ahb1enr = 0, apb1enr = 0, apb2enr = 0, rcc_cr = 0\<rparr>, demcr_val = 0, eq = event_queue_init No_cb,
     now_cycle = 0, board_state = ()\<rparr>"

lemma example_soc_queue: "soc_queue_ok (eq example_soc)" "has_room (eq example_soc)" "now_cycle example_soc = 0"
    "eq example_soc = event_queue_init No_cb" "pending (nvic example_soc) = 0"
proof -
  have q: "eq example_soc = event_queue_init No_cb" "now_cycle example_soc = 0" "pending (nvic example_soc) = 0"
    by (simp_all add: example_soc_def soc_reset_def Let_def upd_spi_def upd_gpio_def stm32_gpio_init_def
        stm32_exti_init_def stm32_syscfg_init_def armv7m_nvic_init_def)
  then show "soc_queue_ok (eq example_soc)" "has_room (eq example_soc)" "now_cycle example_soc = 0"
    "eq example_soc = event_queue_init No_cb" "pending (nvic example_soc) = 0"
    by (auto simp: soc_queue_ok_def eq_inv_def has_room_def event_queue_init_def EVENT_QUEUE_MAX_def)
qed

section \<open>From a pin to an interrupt\<close>

text \<open>The port that the selection registers choose for a pin, and the wiring they stand for.\<close>

definition selected_port :: "'e soc \<Rightarrow> nat \<Rightarrow> nat" where
  "selected_port s pin = unat (drop_bit (pin mod 4 * 4) (exticr s (pin div 4)) AND 0xF)"

definition routed :: "'e soc \<Rightarrow> bool" where
  "routed s \<longleftrightarrow> (\<forall>pin < 16. selected_port s pin < STM32F411_NUM_GPIO) \<and>
     (\<forall>p < STM32F411_NUM_GPIO. \<forall>pin < 16.
        idr_change (gpio s p) pin = (if p = selected_port s pin then Some pin else None)) \<and>
     (\<forall>line < 16. irq_out (exti s) line = Some (exti_irq line))"

lemma syscfg_line_frame:
  "exticr (syscfg_line r old val i s) = exticr s" "exti (syscfg_line r old val i s) = exti s"
  "nvic (syscfg_line r old val i s) = nvic s"
  "idr (gpio (syscfg_line r old val i s) p) = idr (gpio s p)"
  by (simp_all add: syscfg_line_def Let_def upd_gpio_def)

lemma syscfg_lines_frame:
  "exticr (fold (syscfg_line r old val) is s) = exticr s" "exti (fold (syscfg_line r old val) is s) = exti s"
  "nvic (fold (syscfg_line r old val) is s) = nvic s"
  "idr (gpio (fold (syscfg_line r old val) is s) p) = idr (gpio s p)"
  by (induction "is" arbitrary: s) (simp_all add: syscfg_line_frame)

abbreviation port_field :: "u32 \<Rightarrow> nat \<Rightarrow> nat" where
  "port_field v i \<equiv> unat (drop_bit (i * 4) v AND 0xF)"

text \<open>One line: only the wiring of its own pin changes, to what the new value selects.\<close>

lemma syscfg_line_wires:
  assumes "p < STM32F411_NUM_GPIO" "port_field old i < STM32F411_NUM_GPIO" "port_field val i < STM32F411_NUM_GPIO"
    and "\<And>p. p < STM32F411_NUM_GPIO \<Longrightarrow> idr_change (gpio s p) (r * 4 + i) = (if p = port_field old i then Some (r * 4 + i) else None)"
  shows "idr_change (gpio (syscfg_line r old val i s) p) pin =
    (if pin = r * 4 + i then if p = port_field val i then Some pin else None else idr_change (gpio s p) pin)"
  using assms(1-3) assms(4) [OF assms(1)] by (auto simp: syscfg_line_def Let_def upd_gpio_def)

lemma syscfg_lines_wire:
  assumes "p < STM32F411_NUM_GPIO" "distinct is" "set is \<subseteq> {..<4}"
    and "\<And>i. i < 4 \<Longrightarrow> port_field old i < STM32F411_NUM_GPIO" "\<And>i. i < 4 \<Longrightarrow> port_field val i < STM32F411_NUM_GPIO"
    and "\<And>p i. p < STM32F411_NUM_GPIO \<Longrightarrow> i \<in> set is \<Longrightarrow>
      idr_change (gpio s p) (r * 4 + i) = (if p = port_field old i then Some (r * 4 + i) else None)"
  shows "idr_change (gpio (fold (syscfg_line r old val) is s) p) pin =
    (if \<exists>i \<in> set is. pin = r * 4 + i then if p = port_field val (pin - r * 4) then Some pin else None
     else idr_change (gpio s p) pin)"
  using assms
proof (induction "is" arbitrary: s)
  case Nil
  then show ?case by simp
next
  case (Cons i "is")
  have line: "\<And>p pin. p < STM32F411_NUM_GPIO \<Longrightarrow> idr_change (gpio (syscfg_line r old val i s) p) pin =
      (if pin = r * 4 + i then if p = port_field val i then Some pin else None else idr_change (gpio s p) pin)"
    using Cons.prems by (intro syscfg_line_wires) simp_all
  have "idr_change (gpio (fold (syscfg_line r old val) is (syscfg_line r old val i s)) p) pin =
      (if \<exists>i \<in> set is. pin = r * 4 + i then if p = port_field val (pin - r * 4) then Some pin else None
       else idr_change (gpio (syscfg_line r old val i s) p) pin)"
  proof (rule Cons.IH)
    fix p j assume "p < STM32F411_NUM_GPIO" "j \<in> set is"
    moreover have "r * 4 + j \<noteq> r * 4 + i" using Cons.prems(2) \<open>j \<in> set is\<close> by auto
    ultimately show "idr_change (gpio (syscfg_line r old val i s) p) (r * 4 + j) =
        (if p = port_field old j then Some (r * 4 + j) else None)"
      using line Cons.prems(6) by simp
  qed (use Cons.prems in simp_all)
  then show ?case using line [OF Cons.prems(1), of pin] by auto
qed

lemma syscfg_offset:
  assumes "r < 4"
  shows "8 \<le> (8 + 4 * of_nat r :: u32)" "(8 + 4 * of_nat r :: u32) \<le> 0x14" "unat ((8 + 4 * of_nat r - 8 :: u32) div 4) = r"
proof -
  have "r = 0 \<or> r = 1 \<or> r = 2 \<or> r = 3" using assms by presburger
  then show "8 \<le> (8 + 4 * of_nat r :: u32)" "(8 + 4 * of_nat r :: u32) \<le> 0x14" "unat ((8 + 4 * of_nat r - 8 :: u32) div 4) = r"
    by (elim disjE; simp)+
qed

lemma syscfg_write_eq:
  assumes "rcc_is_clock_enabled 2 14 s" "r < 4"
  shows "stm32_syscfg_write s (8 + 4 * of_nat r) val =
    fold (syscfg_line r (exticr s r) val) [0..<4] (s\<lparr>exticr := (exticr s)(r := val)\<rparr>)"
  using assms(1) syscfg_offset [OF assms(2)] by (simp add: stm32_syscfg_write_def Let_def not_less del: upt.simps)

lemma syscfg_write_routed:
  assumes "routed s" "rcc_is_clock_enabled 2 14 s" "r < 4" "\<And>i. i < 4 \<Longrightarrow> port_field val i < STM32F411_NUM_GPIO"
  shows "routed (stm32_syscfg_write s (8 + 4 * of_nat r) val)"
proof -
  let ?s' = "stm32_syscfg_write s (8 + 4 * of_nat r) val"
  have old: "port_field (exticr s r) i < STM32F411_NUM_GPIO" if "i < 4" for i
    using assms(1) that assms(3) unfolding routed_def selected_port_def
    by (auto dest!: spec [of _ "r * 4 + i"])
  note s' = syscfg_write_eq [OF assms(2,3), of val]
  have sel: "selected_port ?s' pin = (if pin div 4 = r then port_field val (pin mod 4) else selected_port s pin)" for pin
    by (simp add: s' selected_port_def syscfg_lines_frame)
  have wires: "idr_change (gpio ?s' p) pin = (if p = selected_port ?s' pin then Some pin else None)"
    if p: "p < STM32F411_NUM_GPIO" and pin: "pin < 16" for p pin
  proof -
    have "idr_change (gpio ?s' p) pin =
        (if \<exists>i \<in> {0..<4}. pin = r * 4 + i then if p = port_field val (pin - r * 4) then Some pin else None
         else idr_change (gpio s p) pin)"
      unfolding s' set_upt [symmetric]
    proof (subst syscfg_lines_wire)
      fix p i assume pi: "p < STM32F411_NUM_GPIO" "i \<in> set [0..<4]"
      then have i: "i < 4" and x: "r * 4 + i < 16" using assms(3) by simp_all
      have "idr_change (gpio s p) (r * 4 + i) = (if p = selected_port s (r * 4 + i) then Some (r * 4 + i) else None)"
        using assms(1) pi(1) x unfolding routed_def by blast
      then show "idr_change (gpio (s\<lparr>exticr := (exticr s)(r := val)\<rparr>) p) (r * 4 + i) =
          (if p = port_field (exticr s r) i then Some (r * 4 + i) else None)"
        using i by (simp add: selected_port_def)
    qed (use p old assms(4) in \<open>auto simp del: upt.simps\<close>)
    moreover have "(\<exists>i \<in> {0..<4}. pin = r * 4 + i) \<longleftrightarrow> pin div 4 = r"
      by (auto intro!: bexI [of _ "pin mod 4"])
    moreover have "pin - r * 4 = pin mod 4" if "pin div 4 = r" using that by (metis minus_mult_div_eq_mod mult.commute)
    ultimately show ?thesis using assms(1) p pin unfolding sel routed_def by auto
  qed
  have "selected_port ?s' pin < STM32F411_NUM_GPIO" if "pin < 16" for pin
    using assms(1,4) that unfolding sel routed_def by simp
  moreover have "exti ?s' = exti s" by (simp add: s' syscfg_lines_frame)
  ultimately show ?thesis using assms(1) wires unfolding routed_def by simp
qed


lemma routed_reset: "routed (soc_reset s)"
proof -
  have "exticr (soc_reset s) = (\<lambda>_. 0)" "irq_out (exti (soc_reset s)) = (\<lambda>i. if i < 16 then Some (exti_irq i) else None)"
    and "idr_change (gpio (soc_reset s) 0) = (\<lambda>i. if i < 16 then Some i else None)"
    and "idr_change (gpio (soc_reset s) 1) = (\<lambda>_. None)" "idr_change (gpio (soc_reset s) 2) = (\<lambda>_. None)"
    by (simp_all add: soc_reset_def Let_def upd_spi_def upd_gpio_def stm32_gpio_init_def stm32_exti_init_def
        stm32_syscfg_init_def)
  moreover have "p = 0 \<or> p = 1 \<or> p = 2" if "p < STM32F411_NUM_GPIO" for p using that by presburger
  ultimately show ?thesis unfolding routed_def selected_port_def by fastforce
qed

text \<open>An edge on an input pin: the interrupt is requested exactly on the port that is routed.\<close>

lemma edge_interrupt:
  assumes "routed s" "p < STM32F411_NUM_GPIO" "pin < 16" "level \<noteq> bit (idr (gpio s p)) pin"
  shows "nvic (stm32_gpio_set_input p pin level s) =
    (if p = selected_port s pin \<and> bit (imr (exti s)) pin \<and> bit (if level then rtsr (exti s) else ftsr (exti s)) pin
     then armv7m_nvic_set_pending (16 + exti_irq pin) (nvic s) else nvic s)"
proof -
  have m: "x AND 2 ^ pin = 0 \<longleftrightarrow> \<not> bit x pin" for x :: u32
    using assms(3) by (simp add: and_exp_eq_0_iff_not_bit)
  have w: "idr_change (gpio s p) pin = (if p = selected_port s pin then Some pin else None)"
    "irq_out (exti s) pin = Some (exti_irq pin)"
    using assms(1-3) unfolding routed_def by blast+
  show ?thesis
    using assms(4) w by (auto simp: stm32_gpio_set_input_def Let_def upd_gpio_def stm32_exti_input_handler_def m
        gpio_set_irq_def nvic_irq_line_handler_def)
qed

text \<open>
  C25. External interrupts follow the port selection. In a state whose wiring is the one its selection
  registers describe, as at reset, a write to one of the four registers that names existing ports
  gives again such a state, for the new selection. In that state a change of level on an input pin
  requests the interrupt of the pin's line, with its vector, exactly when the pin's port is the selected
  one and the line is unmasked and triggered by that edge; the same pin of another port does nothing.
\<close>

theorem exti_routing:
  assumes "routed s" "rcc_is_clock_enabled 2 14 s" "r < 4" "\<And>i. i < 4 \<Longrightarrow> port_field val i < STM32F411_NUM_GPIO"
    and "p < STM32F411_NUM_GPIO" "pin < 16" "level \<noteq> bit (idr (gpio s p)) pin"
    and "s' = stm32_syscfg_write s (8 + 4 * of_nat r) val"
  shows "routed (soc_reset s0) \<and> routed s' \<and>
    selected_port s' pin = (if pin div 4 = r then port_field val (pin mod 4) else selected_port s pin) \<and>
    nvic (stm32_gpio_set_input p pin level s') =
      (if p = selected_port s' pin \<and> bit (imr (exti s)) pin \<and> bit (if level then rtsr (exti s) else ftsr (exti s)) pin
       then armv7m_nvic_set_pending (16 + exti_irq pin) (nvic s) else nvic s)"
proof (intro conjI)
  have frame: "exti s' = exti s" "nvic s' = nvic s" "idr (gpio s' p) = idr (gpio s p)"
    "exticr s' = (exticr s)(r := val)"
    unfolding assms(8) syscfg_write_eq [OF assms(2,3), of val] by (simp_all add: syscfg_lines_frame)
  show "routed (soc_reset s0)" by (rule routed_reset)
  show r: "routed s'" unfolding assms(8) using assms(1-4) by (rule syscfg_write_routed)
  show "selected_port s' pin = (if pin div 4 = r then port_field val (pin mod 4) else selected_port s pin)"
    by (simp add: selected_port_def frame)
  show "nvic (stm32_gpio_set_input p pin level s') =
      (if p = selected_port s' pin \<and> bit (imr (exti s)) pin \<and> bit (if level then rtsr (exti s) else ftsr (exti s)) pin
       then armv7m_nvic_set_pending (16 + exti_irq pin) (nvic s) else nvic s)"
    using edge_interrupt [OF r assms(5,6), of level] assms(7) unfolding frame by blast
qed

text \<open>
  A port that does not exist breaks the wiring. When the first selection register is written with
  the number of a port the chip does not have, the register takes the value but the old port stays
  connected; the next write, which selects port B, connects that one and does not disconnect port A.
  From then on both ports drive the line: an edge on pin 0 of port A, which is no longer selected,
  still requests the interrupt.
\<close>

lemma exti_stale_route:
  assumes "routed s" "rcc_is_clock_enabled 2 14 s" "exticr s 0 = 0"
    and "bit (imr (exti s)) 0" "bit (rtsr (exti s)) 0" "\<not> bit (idr (gpio s 0)) 0"
    and "s' = stm32_syscfg_write (stm32_syscfg_write s 8 7) 8 1"
  shows "selected_port s' 0 = 1 \<and> idr_change (gpio s' 1) 0 = Some 0 \<and> idr_change (gpio s' 0) 0 = Some 0 \<and>
    nvic (stm32_gpio_set_input 0 0 True s') = armv7m_nvic_set_pending 22 (nvic s)"
proof -
  have w: "idr_change (gpio s 0) 0 = Some 0" "irq_out (exti s) 0 = Some 6"
    using assms(1,3) by (auto simp: routed_def selected_port_def exti_irq_def)
  have up: "[0..<4] = [0, 1, 2, 3 :: nat]" by (simp add: upt_rec)
  have s1: "stm32_syscfg_write s 8 7 = s\<lparr>exticr := (exticr s)(0 := 7)\<rparr>"
    using assms(2,3) unfolding stm32_syscfg_write_def up by (simp add: Let_def syscfg_line_def)
  have "rcc_is_clock_enabled 2 14 (stm32_syscfg_write s 8 7)" using assms(2) unfolding s1 by (simp add: rcc_is_clock_enabled_def)
  then have s2: "s' = upd_gpio 1 (\<lambda>g. g\<lparr>idr_change := (idr_change g)(0 := Some 0)\<rparr>) (s\<lparr>exticr := (exticr s)(0 := 1)\<rparr>)"
    unfolding assms(7) s1 unfolding stm32_syscfg_write_def up by (simp add: Let_def syscfg_line_def)
  have m: "x AND 1 = 0 \<longleftrightarrow> \<not> bit x 0" for x :: u32 using and_exp_eq_0_iff_not_bit [of x 0] by simp
  show ?thesis
    using w assms(4-6) by (simp add: s2 upd_gpio_def selected_port_def stm32_gpio_set_input_def Let_def
        stm32_exti_input_handler_def m gpio_set_irq_def nvic_irq_line_handler_def)
qed

text \<open>The chip at reset with the selection clock on and line 0 set up for rising edges.\<close>

definition example_wired :: "unit soc" where
  "example_wired = stm32_exti_write (stm32_exti_write (rcc_write (example_soc) 0x44 0x4000) 0 1) 8 1"

lemma example_wired:
  "routed example_wired" "rcc_is_clock_enabled 2 14 example_wired" "exticr example_wired = (\<lambda>_. 0)"
  "imr (exti example_wired) = 1" "rtsr (exti example_wired) = 1" "idr (gpio example_wired 0) = 0"
  "idr (gpio example_wired 1) = 0"
proof -
  obtain s0 where s0: "example_soc = soc_reset s0" by (simp add: example_soc_def)
  have "routed example_soc" unfolding s0 by (rule routed_reset)
  moreover have "exticr example_soc = (\<lambda>_. 0)" "idr (gpio example_soc 0) = 0" "idr (gpio example_soc 1) = 0"
    unfolding s0 by (simp_all add: soc_reset_def Let_def upd_spi_def upd_gpio_def stm32_gpio_init_def stm32_exti_init_def
        stm32_syscfg_init_def)
  ultimately show "routed example_wired" "rcc_is_clock_enabled 2 14 example_wired" "exticr example_wired = (\<lambda>_. 0)"
    "imr (exti example_wired) = 1" "rtsr (exti example_wired) = 1" "idr (gpio example_wired 0) = 0"
    "idr (gpio example_wired 1) = 0"
    by (simp_all add: example_wired_def stm32_exti_write_def rcc_write_def Let_def rcc_is_clock_enabled_def routed_def
        selected_port_def bit_or_iff)
qed

theorem exti_routing_witness:
  "nvic (stm32_gpio_set_input 1 0 True (stm32_syscfg_write example_wired 8 1)) =
     armv7m_nvic_set_pending 22 (nvic example_wired)"
proof -
  have "port_field 1 i < STM32F411_NUM_GPIO" if "i < 4" for i
  proof -
    have "i = 0 \<or> i = 1 \<or> i = 2 \<or> i = 3" using that by presburger
    then show ?thesis by (elim disjE; simp add: drop_bit_Suc numeral_eq_Suc)
  qed
  then show ?thesis
    using exti_routing [of example_wired 0 1 1 0 True "stm32_syscfg_write example_wired 8 1" undefined] example_wired
    by (auto simp: exti_irq_def)
qed

section \<open>Delivery of interrupts\<close>

text \<open>
  What the interrupt controller may deliver: a pending system exception, PendSV also when requested
  through its control register, or a pending and enabled external vector. The order is supervisor call,
  SysTick, PendSV, then the external vectors by number.
\<close>

definition eligible :: "armv7m_nvic \<Rightarrow> nat \<Rightarrow> bool" where
  "eligible n v \<longleftrightarrow> (v = 11 \<or> v = 15) \<and> bit (pending n) v \<or> v = 14 \<and> (bit (pending n) 14 \<or> bit (scb_icsr n) 28) \<or>
     16 \<le> v \<and> v < 57 \<and> bit (pending n) v \<and> bit (iser n ((v - 16) div 32)) ((v - 16) mod 32)"

definition rank :: "nat \<Rightarrow> nat" where
  "rank v = (if v = 11 then 0 else if v = 15 then 1 else if v = 14 then 2 else v)"

definition accepts :: "'d machine \<Rightarrow> bool" where
  "accepts cpu \<longleftrightarrow> primask cpu = 0 \<and> \<not> in_handler cpu \<and> \<not> irq_shadow cpu"

lemma scan_external_spec:
  assumes "sorted vs" "0 \<notin> set vs"
  shows "(let P = (\<lambda>v. bit (pending n) v \<and> bit (iser n ((v - 16) div 32)) ((v - 16) mod 32)); x = scan_external n vs
    in (if \<exists>v \<in> set vs. P v then x \<in> set vs \<and> P x \<and> (\<forall>w \<in> set vs. P w \<longrightarrow> x \<le> w) else x = 0))"
  using assms by (induction vs) (auto simp: Let_def)

lemma external_spec:
  assumes "vs = [16..<57]"
  shows "16 \<le> v \<Longrightarrow> v < 57 \<Longrightarrow> bit (pending n) v \<Longrightarrow> bit (iser n ((v - 16) div 32)) ((v - 16) mod 32) \<Longrightarrow>
      16 \<le> scan_external n vs \<and> scan_external n vs < 57 \<and> bit (pending n) (scan_external n vs) \<and>
      bit (iser n ((scan_external n vs - 16) div 32)) ((scan_external n vs - 16) mod 32) \<and> scan_external n vs \<le> v"
    "scan_external n vs \<noteq> 0 \<Longrightarrow> 16 \<le> scan_external n vs \<and> scan_external n vs < 57 \<and> bit (pending n) (scan_external n vs) \<and>
      bit (iser n ((scan_external n vs - 16) div 32)) ((scan_external n vs - 16) mod 32)"
proof -
  have vs: "set vs = {16..<57}" "sorted vs" unfolding assms set_upt by (rule refl, rule sorted_upt)
  then have "0 \<notin> set vs" by simp
  note sp = scan_external_spec [OF vs(2) this, of n, unfolded Let_def vs(1)]
  show "16 \<le> v \<Longrightarrow> v < 57 \<Longrightarrow> bit (pending n) v \<Longrightarrow> bit (iser n ((v - 16) div 32)) ((v - 16) mod 32) \<Longrightarrow>
      16 \<le> scan_external n vs \<and> scan_external n vs < 57 \<and> bit (pending n) (scan_external n vs) \<and>
      bit (iser n ((scan_external n vs - 16) div 32)) ((scan_external n vs - 16) mod 32) \<and> scan_external n vs \<le> v"
    "scan_external n vs \<noteq> 0 \<Longrightarrow> 16 \<le> scan_external n vs \<and> scan_external n vs < 57 \<and> bit (pending n) (scan_external n vs) \<and>
      bit (iser n ((scan_external n vs - 16) div 32)) ((scan_external n vs - 16) mod 32)"
    using sp by (auto split: if_splits)
qed

text \<open>The controller after it has folded the software request of PendSV into the pending set.\<close>

definition with_pendsv :: "armv7m_nvic \<Rightarrow> u64" where
  "with_pendsv n = (if bit (scb_icsr n) 28 then pending n OR push_bit 14 1 else pending n)"

lemma bit_single64: "k < 64 \<Longrightarrow> bit (push_bit k 1 :: u64) v \<longleftrightarrow> v = k"
  by (auto simp: bit_push_bit_iff bit_1_iff bit_exp_iff)

lemma bit_with_pendsv: "bit (with_pendsv n) v \<longleftrightarrow> bit (pending n) v \<or> v = 14 \<and> bit (scb_icsr n) 28"
  using bit_single64 [of 14 v] unfolding with_pendsv_def by (auto simp only: bit_or_iff split: if_splits)

definition nvic_choice :: "armv7m_nvic \<Rightarrow> nat" where
  "nvic_choice n = (if bit (pending n) 11 then 11 else if bit (pending n) 15 then 15
     else if bit (with_pendsv n) 14 then 14 else scan_external n [16..<57])"

lemma scan_external_cong: "(\<And>v. v \<in> set vs \<Longrightarrow> bit (pending n) v = bit (pending n') v) \<Longrightarrow> iser n = iser n' \<Longrightarrow>
    scan_external n vs = scan_external n' vs"
  by (induction vs) auto

lemma nvic_choice_spec:
  "(\<exists>v. eligible n v) \<Longrightarrow> eligible n (nvic_choice n) \<and> (\<forall>w. eligible n w \<longrightarrow> rank (nvic_choice n) \<le> rank w)"
  "(\<nexists>v. eligible n v) \<Longrightarrow> nvic_choice n = 0"
proof -
  obtain x where x: "scan_external n [16..<57] = x" by simp
  note ext = external_spec(1) [OF refl, of _ n, unfolded x] external_spec(2) [OF refl, of n, unfolded x]
  show "(\<exists>v. eligible n v) \<Longrightarrow> eligible n (nvic_choice n) \<and> (\<forall>w. eligible n w \<longrightarrow> rank (nvic_choice n) \<le> rank w)"
    using ext unfolding nvic_choice_def eligible_def rank_def bit_with_pendsv x by auto
  show "(\<nexists>v. eligible n v) \<Longrightarrow> nvic_choice n = 0"
    using ext unfolding nvic_choice_def eligible_def bit_with_pendsv x by auto
qed

lemma nvic_update_spec:
  assumes "accepts cpu" "armv7m_nvic_update n cpu = (n', cpu')"
  shows "pending n' = (if nvic_choice n = 0 then with_pendsv n else with_pendsv n AND NOT (push_bit (nvic_choice n) 1))"
    "cpu' = (if nvic_choice n = 0 then cpu else armv7m_take_interrupt (nvic_choice n) cpu)" "\<not> needs_update n'" "iser n' = iser n"
proof -
  have e: "scan_external (n\<lparr>needs_update := False, pending := with_pendsv n\<rparr>) [16..<57] = scan_external n [16..<57]"
    by (rule scan_external_cong) (use bit_with_pendsv [of n] in \<open>auto simp del: upt.simps\<close>)
  have z: "nvic_choice n = 0" if "with_pendsv n = 0"
    using that nvic_choice_spec(2) [of n] bit_with_pendsv [of n] by (auto simp: eligible_def)
  define n1 where "n1 = n\<lparr>needs_update := False, pending := with_pendsv n\<rparr>"
  have "(let n = n\<lparr>needs_update := False\<rparr> in if bit (scb_icsr n) 28 then n\<lparr>pending := pending n OR push_bit IRQ_VEC_PENDSV 1\<rparr> else n) = n1"
    by (simp add: n1_def with_pendsv_def IRQ_VEC_PENDSV_def)
  then have upd: "armv7m_nvic_update n cpu = (if pending n1 = 0 then (n1, cpu)
      else let (vec, n) =
                 (if bit (pending n1) 11 then (11, n1) else if bit (pending n1) 15 then (15, n1)
                  else if bit (pending n1) 14 then (14, n1\<lparr>scb_icsr := scb_icsr n1 AND NOT (push_bit 28 1)\<rparr>)
                  else (scan_external n1 [16..<57], n1))
           in if vec \<noteq> 0
              then (n\<lparr>pending := pending n AND NOT (push_bit vec 1)\<rparr>, armv7m_take_interrupt vec cpu)
              else (n, cpu))"
    using assms(1) unfolding armv7m_nvic_update_def accepts_def Let_def IRQ_VEC_SVC_def IRQ_VEC_SYSTICK_def
    by (cases "pending n1 = 0") (simp_all only: IRQ_VEC_PENDSV_def simp_thms if_True if_False)
  have n1: "pending n1 = with_pendsv n" "\<not> needs_update n1 \<and> iser n1 = iser n" "scan_external n1 [16..<57] = scan_external n [16..<57]"
    using e by (simp_all add: n1_def)
  have b: "bit (with_pendsv n) 11 = bit (pending n) 11" "bit (with_pendsv n) 15 = bit (pending n) 15"
    unfolding bit_with_pendsv by simp_all
  obtain x where x: "scan_external n [16..<57] = x" by simp
  note upd = upd [unfolded n1(1,3) x b]
  note ch = nvic_choice_def [of n, unfolded x]
  consider "with_pendsv n = 0" | "with_pendsv n \<noteq> 0" "bit (pending n) 11"
    | "with_pendsv n \<noteq> 0" "\<not> bit (pending n) 11" "bit (pending n) 15"
    | "with_pendsv n \<noteq> 0" "\<not> bit (pending n) 11" "\<not> bit (pending n) 15" "bit (with_pendsv n) 14"
    | "with_pendsv n \<noteq> 0" "\<not> bit (pending n) 11" "\<not> bit (pending n) 15" "\<not> bit (with_pendsv n) 14"
    by blast
  then have "pending n' = (if nvic_choice n = 0 then with_pendsv n else with_pendsv n AND NOT (push_bit (nvic_choice n) 1)) \<and>
    cpu' = (if nvic_choice n = 0 then cpu else armv7m_take_interrupt (nvic_choice n) cpu) \<and> \<not> needs_update n' \<and> iser n' = iser n"
    by cases (use assms(2) z n1(1,2) in \<open>auto simp: upd ch split: if_splits\<close>)
  then show "pending n' = (if nvic_choice n = 0 then with_pendsv n else with_pendsv n AND NOT (push_bit (nvic_choice n) 1))"
    "cpu' = (if nvic_choice n = 0 then cpu else armv7m_take_interrupt (nvic_choice n) cpu)" "\<not> needs_update n'" "iser n' = iser n" by blast+
qed

lemma eligible_pending: "eligible n v \<Longrightarrow> bit (with_pendsv n) v" "eligible n v \<Longrightarrow> v < 64" "eligible n v \<Longrightarrow> v \<noteq> 0"
  by (auto simp: eligible_def bit_with_pendsv)

lemma nvic_update_takes:
  assumes "accepts cpu" "eligible n v" "armv7m_nvic_update n cpu = (n', cpu')"
  shows "eligible n (nvic_choice n)" "cpu' = armv7m_take_interrupt (nvic_choice n) cpu"
    "bit (pending n') w \<longleftrightarrow> bit (with_pendsv n) w \<and> w \<noteq> nvic_choice n"
proof -
  show c: "eligible n (nvic_choice n)" using nvic_choice_spec(1) assms(2) by blast
  note up = nvic_update_spec [OF assms(1,3)] eligible_pending [OF c]
  show "cpu' = armv7m_take_interrupt (nvic_choice n) cpu" using up by simp
  show "bit (pending n') w \<longleftrightarrow> bit (with_pendsv n) w \<and> w \<noteq> nvic_choice n"
  proof (cases "w < 64")
    case True
    then show ?thesis using up bit_single64 [OF up(6), of w] by (simp add: bit_and_iff bit_not_iff)
  next
    case False
    then show ?thesis using up(6) bit_imp_le_length [of "pending n'" w] bit_imp_le_length [of "with_pendsv n" w] by auto
  qed
qed

text \<open>
  C24. The interrupt controller delivers by priority and loses nothing from its pending set. When the
  processor accepts interrupts and some exception may be delivered, an update enters the handler of
  the one that comes first in the order supervisor call, SysTick, PendSV, external vectors by number;
  of the pending set only that one is taken out, and a software request of PendSV is in the set.
\<close>

theorem nvic_delivers:
  assumes "accepts cpu" "eligible n v" "armv7m_nvic_update n cpu = (n', cpu')"
  shows "\<exists>u. eligible n u \<and> (\<forall>w. eligible n w \<longrightarrow> rank u \<le> rank w) \<and> cpu' = armv7m_take_interrupt u cpu \<and>
    (\<forall>w. bit (pending n') w \<longleftrightarrow> (bit (pending n) w \<or> w = 14 \<and> bit (scb_icsr n) 28) \<and> w \<noteq> u)"
  using nvic_update_takes [OF assms] nvic_choice_spec(1) assms(2) unfolding bit_with_pendsv by blast

text \<open>
  C35. A second pending interrupt is left waiting. When two exceptions may be delivered, the update
  enters one handler and clears its own mark that there is work, although the other is still pending
  and enabled. From then on a tick of the chip whose instruction leaves the controller alone, with no
  event due and no DMA stream active, does not deliver it, whatever the state of the processor: not even
  after the first handler has returned. It waits until something else marks the controller again.
\<close>

theorem nvic_second_waits:
  assumes "accepts cpu" "eligible n u" "eligible n w" "u \<noteq> w" "armv7m_nvic_update n cpu = (n', cpu')"
    and "armv7m_cpu_step clock (m\<lparr>bus := upd_soc (\<lambda>s. s\<lparr>now_cycle := cycle_count m + 1\<rparr>) (bus m)\<rparr>) = (Ret r, m')"
    and "nvic (devs (bus m')) = n'" "cycle_count m' < next_event (eq (devs (bus m')))"
    and "\<not> any_active (dma (devs (bus m')) 0)" "\<not> any_active (dma (devs (bus m')) 1)"
  shows "(\<exists>v. eligible n' v) \<and> stm32f411_tick bd clock m = (Ret r, m')"
proof
  note up = nvic_update_takes [OF assms(1,2,5)] nvic_update_spec(3,4) [OF assms(1,5)]
  obtain v where "eligible n v" "v \<noteq> nvic_choice n" using assms(2-4) by metis
  then show "\<exists>v. eligible n' v"
    using up(3) [of v] eligible_pending(1) up(5) by (auto simp: eligible_def)
  have same: "upd_soc (soc_events bd (cycle_count m')) (bus m') = bus m'"
    using assms(8) by (simp add: upd_soc_def soc_events_def not_le)
  have "stm32_dma_tick 1 (stm32_dma_tick 0 (bus m')) = bus m'"
    using assms(9,10) by (simp add: stm32_dma_tick_def)
  then show "stm32f411_tick bd clock m = (Ret r, m')"
    using assms(6,7) up(4) by (simp add: stm32f411_tick_def Let_def same)
qed

text \<open>A machine with the chip at reset, in a skipped instruction of an IT block.\<close>

definition example_chip :: "armv7m_nvic \<Rightarrow> unit soc machine" where
  "example_chip n = \<lparr>reg = (\<lambda>_. 0)(REG_PC := 0x20000000, REG_SP := 0x20001000), xpsr = FLAG_T, primask = 0, control = 0,
     msp = 0, psp = 0, in_handler = False, irq_shadow = False, it_state = 8, cycle_count = 0,
     bus = \<lparr>regions = [], hash = (\<lambda>_. None), tlb = (\<lambda>_. None), flash_ptr = Some 0, ram_ptr = Some 1, warned = [],
       arrays = (\<lambda>_ _. 0), array_len = (\<lambda>_. 0x20000), devs = example_soc\<lparr>nvic := n\<rparr>, host_fault = False\<rparr>,
     stderr_out = [], undef = False\<rparr>"

text \<open>SysTick and the external vector 16, which is enabled, are pending.\<close>

definition example_nvic :: armv7m_nvic where
  "example_nvic = armv7m_nvic_set_pending 16 (armv7m_nvic_set_pending 15
     (armv7m_nvic_iser_write (nvic example_soc) 0 1))"

lemma example_nvic:
  "accepts (example_chip n)" "eligible example_nvic 15" "eligible example_nvic 16" "\<not> eligible example_nvic 11"
proof -
  have "pending (nvic example_soc) = 0" by (rule example_soc_queue(5))
  moreover have "scb_icsr (nvic example_soc) = 0"
    by (simp add: example_soc_def soc_reset_def Let_def upd_spi_def upd_gpio_def stm32_gpio_init_def
        stm32_exti_init_def stm32_syscfg_init_def armv7m_nvic_init_def)
  ultimately show "accepts (example_chip n)" "eligible example_nvic 15" "eligible example_nvic 16" "\<not> eligible example_nvic 11"
    by (simp_all add: accepts_def example_chip_def eligible_def example_nvic_def armv7m_nvic_set_pending_def
        armv7m_nvic_iser_write_def Let_def bit_or_iff)
qed

theorem nvic_delivers_witness:
  "snd (armv7m_nvic_update example_nvic (example_chip example_nvic)) = armv7m_take_interrupt 15 (example_chip example_nvic)"
proof -
  obtain u where u: "eligible example_nvic u" "\<forall>w. eligible example_nvic w \<longrightarrow> rank u \<le> rank w"
      "snd (armv7m_nvic_update example_nvic (example_chip example_nvic)) = armv7m_take_interrupt u (example_chip example_nvic)"
    using nvic_delivers [OF example_nvic(1,2) prod.collapse [symmetric]] by blast
  then have "rank u \<le> rank 15" using example_nvic(2) by blast
  then have "u = 15" using u(1) example_nvic(4) by (auto simp: rank_def eligible_def split: if_splits)
  then show ?thesis using u(3) by simp
qed

lemma example_step:
  "\<exists>m'. armv7m_cpu_step 0 ((example_chip n)\<lparr>bus := upd_soc (\<lambda>s. s\<lparr>now_cycle := cycle_count (example_chip n) + 1\<rparr>) (bus (example_chip n))\<rparr>) =
     (Ret 0, m') \<and> devs (bus m') = example_soc\<lparr>nvic := n, now_cycle := 1\<rparr> \<and> cycle_count m' = 1 \<and> reg m' REG_PC = 0x20000002"
  by (simp add: armv7m_cpu_step_def example_chip_def upd_soc_def read16_def membus_read16_def bus_read_def host_load_def
      MEMBUS_RAM_BASE_def MEMBUS_RAM_SIZE_def get16_def get8_def Let_def setr_def cond_check_def FLAG_T_def FLAG_Z_def)

lemma example_idle: "next_event (eq example_soc) = UINT64_MAX" "\<not> any_active (dma example_soc k)"
  using example_soc_queue(4) by (simp_all add: event_queue_init_def example_soc_def soc_reset_def Let_def upd_spi_def
      upd_gpio_def stm32_gpio_init_def stm32_exti_init_def stm32_syscfg_init_def stm32_dma_init_def)

theorem nvic_second_waits_witness:
  "let n' = fst (armv7m_nvic_update example_nvic (example_chip example_nvic))
   in (\<exists>v. eligible n' v) \<and> reg (snd (stm32f411_tick example_board 0 (example_chip n'))) REG_PC = 0x20000002"
proof -
  let ?n = "fst (armv7m_nvic_update example_nvic (example_chip example_nvic))"
  obtain m' where m': "armv7m_cpu_step 0 ((example_chip ?n)\<lparr>bus := upd_soc (\<lambda>s. s\<lparr>now_cycle := cycle_count (example_chip ?n) + 1\<rparr>)
      (bus (example_chip ?n))\<rparr>) = (Ret 0, m')" "devs (bus m') = example_soc\<lparr>nvic := ?n, now_cycle := 1\<rparr>"
      "cycle_count m' = 1" "reg m' REG_PC = 0x20000002"
    using example_step by blast
  have one_less: "(1 :: u64) < - 1" by code_simp
  have "(\<exists>v. eligible ?n v) \<and> stm32f411_tick example_board 0 (example_chip ?n) = (Ret 0, m')"
    using m' example_idle by (intro nvic_second_waits [OF example_nvic(1-3) _ prod.collapse [symmetric]])
      (simp_all add: UINT64_MAX_def one_less)
  then show ?thesis using m'(4) by simp
qed

section \<open>A machine with the timer running\<close>
















end
