(* ===== verification/Soc_Wf.thy ===== *)
theory Soc_Wf
  imports Armv7m_Inv Soc_Laws
begin

text \<open>
  The well-formedness of the simulated chip, for every program and every sequence of ticks: the event
  queue keeps its invariant, no serial buffer overflows, and the flags that let the DMA tick skip its
  scan never hide a stream with work. Each register callback, event and DMA transfer keeps it; the
  contract of the bus carries it through the instructions of the processor.
\<close>

section \<open>The invariant\<close>

text \<open>
  The active mask has the enabled streams. When an enabled stream has a request the two flags are set,
  so that the tick does not return early; this part does not hold for the controllers \<open>K\<close> that are in
  the middle of their tick.
\<close>

definition mask_ok :: "stm32_dma \<Rightarrow> bool" where
  "mask_ok d \<longleftrightarrow> (\<forall>i < 8. bit (active_mask d) i \<longleftrightarrow> bit (cr (streams d i)) 0)"

definition flags_ok :: "stm32_dma \<Rightarrow> bool" where
  "flags_ok d \<longleftrightarrow> (\<forall>i < 8. bit (cr (streams d i)) 0 \<longrightarrow> request_pending (streams d i) \<longrightarrow> any_active d \<and> any_pending d)"

definition dma_ok :: "bool \<Rightarrow> stm32_dma \<Rightarrow> bool" where
  "dma_ok ticking d \<longleftrightarrow> mask_ok d \<and> (ticking \<or> flags_ok d)"

definition chip_wf :: "nat set \<Rightarrow> 'e soc \<Rightarrow> bool" where
  "chip_wf K s \<longleftrightarrow> eq_inv (eq s) \<and> (\<forall>k. dma_ok (k \<in> K) (dma s k)) \<and> (\<forall>u. length (tx_buf (usarts s u)) < 128)"

text \<open>The board keeps it: output pins and board events.\<close>

definition board_keeps :: "'e board \<Rightarrow> bool" where
  "board_keeps bd \<longleftrightarrow> (\<forall>K p i l s. chip_wf K s \<longrightarrow> chip_wf K (pin_out bd p i l s)) \<and>
     (\<forall>K n s. chip_wf K s \<longrightarrow> chip_wf K (board_event bd n s))"

lemmas dma_defs = dma_ok_def mask_ok_def flags_ok_def

lemma wf_Let: "(\<And>x. x = a \<Longrightarrow> chip_wf K (f x)) \<Longrightarrow> chip_wf K (Let a f)"
  by simp

named_theorems wf_keep

lemma wf_other [simp]:
  "chip_wf K (s\<lparr>nvic := a\<rparr>) = chip_wf K s" "chip_wf K (s\<lparr>systick := b\<rparr>) = chip_wf K s" "chip_wf K (s\<lparr>spis := c\<rparr>) = chip_wf K s"
  "chip_wf K (s\<lparr>gpio := d\<rparr>) = chip_wf K s" "chip_wf K (s\<lparr>exti := e\<rparr>) = chip_wf K s" "chip_wf K (s\<lparr>adc := f\<rparr>) = chip_wf K s"
  "chip_wf K (s\<lparr>exticr := g\<rparr>) = chip_wf K s" "chip_wf K (s\<lparr>rcc := h\<rparr>) = chip_wf K s" "chip_wf K (s\<lparr>demcr_val := i\<rparr>) = chip_wf K s"
  "chip_wf K (s\<lparr>now_cycle := j\<rparr>) = chip_wf K s" "chip_wf K (s\<lparr>board_state := k\<rparr>) = chip_wf K s"
  by (simp_all add: chip_wf_def)

lemma wf_upd [simp]: "chip_wf K (upd_gpio p f s) = chip_wf K s" "chip_wf K (upd_spi i g s) = chip_wf K s"
  by (simp_all add: upd_gpio_def upd_spi_def)

lemma wf_schedule: "chip_wf K s \<Longrightarrow> chip_wf K (s\<lparr>eq := event_schedule eid t cb (eq s)\<rparr>)"
  "chip_wf K s \<Longrightarrow> chip_wf K (s\<lparr>eq := event_cancel eid (eq s)\<rparr>)"
  by (simp_all add: chip_wf_def schedule_inv cancel_refines(1))

section \<open>Interrupts, pins and timers\<close>

lemma wf_fold: "(\<And>x s. chip_wf K s \<Longrightarrow> chip_wf K (f x s)) \<Longrightarrow> chip_wf K s \<Longrightarrow> chip_wf K (fold f xs s)"
  by (induction xs arbitrary: s) simp_all

lemma wf_irq [simp]: "chip_wf K (gpio_set_irq i s) = chip_wf K s"
  by (simp add: gpio_set_irq_def nvic_irq_line_handler_def split: option.split)

lemma wf_exti [wf_keep]: "chip_wf K s \<Longrightarrow> chip_wf K (stm32_exti_write s off v)"
  by (auto simp: stm32_exti_write_def Let_def exti_soft_def intro!: wf_fold simp del: upt.simps)

lemma wf_input: "chip_wf K s \<Longrightarrow> chip_wf K (stm32_gpio_set_input p pin l s)"
  by (simp add: stm32_gpio_set_input_def stm32_exti_input_handler_def Let_def split: option.split)

lemma wf_gpio [wf_keep]: "board_keeps bd \<Longrightarrow> chip_wf K s \<Longrightarrow> chip_wf K (stm32_gpio_write bd p s off v)"
  by (auto simp: stm32_gpio_write_def gpio_odr_bit_def gpio_bsrr_bit_def Let_def board_keeps_def intro!: wf_fold simp del: upt.simps)

lemma wf_syscfg [wf_keep]: "chip_wf K s \<Longrightarrow> chip_wf K (stm32_syscfg_write s off v)"
  by (auto simp: stm32_syscfg_write_def syscfg_line_def Let_def intro!: wf_fold simp del: upt.simps)

lemma wf_systick [wf_keep]: "chip_wf K s \<Longrightarrow> chip_wf K (armv7m_systick_write s off v)"
  using wf_schedule [of K "s\<lparr>systick := (systick s)\<lparr>csr := v\<rparr>\<rparr>"] by (simp add: armv7m_systick_write_def Let_def)

lemma wf_small [wf_keep]:
  "chip_wf K s \<Longrightarrow> chip_wf K (rcc_write s off v)" "chip_wf K s \<Longrightarrow> chip_wf K (stm32_adc_write s off v)"
  "chip_wf K s \<Longrightarrow> chip_wf K (snd (stm32_adc_read s off))" "chip_wf K s \<Longrightarrow> chip_wf K (snd (stm32_spi_read i s off))"
  by (simp_all add: rcc_write_def stm32_adc_write_def stm32_adc_read_def stm32_spi_read_def Let_def)

lemma wf_uart [wf_keep]: "chip_wf K s \<Longrightarrow> chip_wf K (stm32_uart_write bd u s off v)"
  by (auto simp: stm32_uart_write_def Let_def chip_wf_def)

section \<open>DMA requests and registers\<close>

lemma bit_single8: "j < 8 \<Longrightarrow> bit (push_bit j 1 :: u8) i \<longleftrightarrow> i = j"
  by (auto simp: bit_push_bit_iff bit_1_iff bit_exp_iff)

lemma wf_upd_dma: "(dma_ok (k \<in> K) (dma s k) \<Longrightarrow> dma_ok (k \<in> K) (f (dma s k))) \<Longrightarrow> chip_wf K s \<Longrightarrow> chip_wf K (upd_dma k f s)"
  by (simp add: chip_wf_def upd_dma_def)

lemma wf_kick: "chip_wf K s \<Longrightarrow> chip_wf K (kick_dma i s)"
  by (auto simp: kick_dma_def dma_defs upd_stream_def intro!: wf_upd_dma split: option.split)

lemma dma_ok_fields:
  "dma_ok t d \<Longrightarrow> dma_ok t (upd_stream j (\<lambda>st. st\<lparr>ndtr := a\<rparr>) d)" "dma_ok t d \<Longrightarrow> dma_ok t (upd_stream j (\<lambda>st. st\<lparr>par := a\<rparr>) d)"
  "dma_ok t d \<Longrightarrow> dma_ok t (upd_stream j (\<lambda>st. st\<lparr>m0ar := a\<rparr>) d)" "dma_ok t d \<Longrightarrow> dma_ok t (upd_stream j (\<lambda>st. st\<lparr>m1ar := a\<rparr>) d)"
  "dma_ok t d \<Longrightarrow> dma_ok t (upd_stream j (\<lambda>st. st\<lparr>fcr := a\<rparr>) d)" "dma_ok t d \<Longrightarrow> dma_ok t (d\<lparr>lisr := b\<rparr>)" "dma_ok t d \<Longrightarrow> dma_ok t (d\<lparr>hisr := b\<rparr>)"
  by (auto simp: dma_defs upd_stream_def)

lemma dma_ok_cr:
  assumes "dma_ok t d" "j < 8"
  shows "dma_ok t (dma_write_cr j val d)"
proof -
  have m: "bit (active_mask d OR push_bit j 1) i \<longleftrightarrow> bit (active_mask d) i \<or> i = j"
    "bit (active_mask d AND NOT (push_bit j 1)) i \<longleftrightarrow> bit (active_mask d) i \<and> i \<noteq> j" if "i < 8" for i
    using that bit_single8 [OF assms(2), of i] by (simp_all add: bit_or_iff bit_and_iff bit_not_iff)
  consider (on) "bit val 0" "\<not> bit (cr (streams d j)) 0" | (off) "\<not> bit val 0" "bit (cr (streams d j)) 0"
    | (same) "bit val 0 = bit (cr (streams d j)) 0" by blast
  then show ?thesis
  proof cases
    case on
    then show ?thesis using assms m by (auto simp: dma_write_cr_def dma_defs upd_stream_def Let_def)
  next
    case off
    let ?m = "active_mask d AND NOT (push_bit j 1)"
    have "?m \<noteq> 0" if "i < 8" "i \<noteq> j" "bit (cr (streams d i)) 0" for i
    proof
      assume "?m = 0"
      then have "\<not> bit ?m i" by simp
      then show False using m(2) [OF that(1)] that assms(1) by (simp add: dma_defs)
    qed
    then show ?thesis using off assms m by (auto simp: dma_write_cr_def dma_defs upd_stream_def Let_def)
  next
    case same
    then show ?thesis using assms by (auto simp: dma_write_cr_def dma_defs upd_stream_def Let_def)
  qed
qed

lemma wf_dma [wf_keep]: "chip_wf K s \<Longrightarrow> chip_wf K (stm32_dma_write k s off v)"
  by (auto simp: stm32_dma_write_def Let_def intro!: wf_upd_dma dma_ok_fields dma_ok_cr)

lemma wf_spi [wf_keep]: "chip_wf K s \<Longrightarrow> chip_wf K (stm32_spi_write bd i s off v)"
  unfolding stm32_spi_write_def spi_write_dr_def Let_def case_prod_beta
  by (auto simp: wf_kick intro!: wf_schedule)

section \<open>Events\<close>

lemma wf_systick_event: "chip_wf K s \<Longrightarrow> chip_wf K (systick_event_cb s)"
  using wf_schedule(1) [of K s] wf_schedule(1) [of K "s\<lparr>nvic := armv7m_nvic_set_pending 15 (nvic s)\<rparr>"]
  by (simp add: systick_event_cb_def Let_def)

lemma wf_callback:
  assumes "board_keeps bd" "chip_wf K (s\<lparr>eq := q\<rparr>)" "run_cb bd cb (q, s) = (q', s')"
  shows "chip_wf K (s'\<lparr>eq := q'\<rparr>)"
proof -
  have "q' = eq s'" using assms(3) by (auto simp: run_cb_def Let_def)
  moreover have "chip_wf K s'"
    using assms by (auto simp: run_cb_def spi_txe_callback_def i2s_txe_callback_def board_keeps_def Let_def
        wf_kick wf_systick_event split: soc_cb.splits)
  ultimately show ?thesis by simp
qed

lemma wf_process:
  assumes "board_keeps bd" "chip_wf K (s\<lparr>eq := q\<rparr>)" "process_slots (run_cb bd) c is (q, s) = (q', s')"
  shows "chip_wf K (s'\<lparr>eq := q'\<rparr>)"
  using assms(2,3)
proof (induction "is" arbitrary: q s)
  case (Cons i "is")
  obtain q1 s1 where st: "(if active (events q ! i) \<and> fire_at (events q ! i) \<le> c
      then run_cb bd (callback (events q ! i)) (deactivate i q, s) else (q, s)) = (q1, s1)"
    by (metis surj_pair)
  have "chip_wf K (s\<lparr>eq := deactivate i q\<rparr>)" using Cons.prems(1) by (simp add: chip_wf_def eq_inv_deactivate)
  then have "chip_wf K (s1\<lparr>eq := q1\<rparr>)"
    using st Cons.prems(1) wf_callback [OF assms(1)] by (auto split: if_splits)
  then show ?case using Cons.IH Cons.prems(2) st by (simp add: Let_def)
qed simp

lemma wf_events:
  assumes "board_keeps bd" "chip_wf K s"
  shows "chip_wf K (soc_events bd c s)"
proof -
  obtain q' s' where p: "process_slots (run_cb bd) c [0..<EVENT_QUEUE_MAX] (eq s, s) = (q', s')" by (metis surj_pair)
  then have "chip_wf K (s'\<lparr>eq := q'\<rparr>)" using wf_process [OF assms(1) _ p] assms(2) by simp
  moreover from this have "eq_inv (update_next q')"
    using eq_inv_update_next [of q'] unfolding chip_wf_def eq_inv_def [of "eq (s'\<lparr>eq := q'\<rparr>)"] by simp
  ultimately have "chip_wf K (s'\<lparr>eq := update_next q'\<rparr>)" by (simp add: chip_wf_def)
  then show ?thesis using assms(2) p by (simp add: soc_events_def event_process_def)
qed

section \<open>DMA transfers\<close>

text \<open>The chip's bus: well-formed, with callbacks that keep the invariant.\<close>

abbreviation chip_bus :: "nat set \<Rightarrow> 'e soc_bus \<Rightarrow> bool" where
  "chip_bus K b \<equiv> bus_wf chip_wf K b"

lemma chip_bus_upd: "chip_bus K b \<Longrightarrow> (chip_wf K (devs b) \<Longrightarrow> chip_wf K' (f (devs b))) \<Longrightarrow> chip_bus K' (upd_soc f b)"
  by (simp add: bus_wf_def upd_soc_def bus_inv_def)

lemma chip_bus_copy: "chip_bus K b \<Longrightarrow> chip_bus K (dma_copy n src dst b)"
  by (simp add: dma_copy_def case_prod_beta wf.keep_read32 wf.keep_read16 wf.keep_read8 wf.keep_write32
      wf.keep_write16 wf.keep_write8)

lemma dma_ok_request: "dma_ok t d \<Longrightarrow> dma_ok t (upd_stream i (\<lambda>st. st\<lparr>request_pending := False\<rparr>) d)"
  by (auto simp: dma_defs upd_stream_def)

lemma wf_raise: "chip_wf K s \<Longrightarrow> chip_wf K (dma_raise k i fb s)"
  by (auto simp: dma_raise_def Let_def intro!: wf_upd_dma dma_ok_fields)

lemma dma_ok_stop:
  assumes "dma_ok True d" "i < 8"
  shows "dma_ok True ((upd_stream i (\<lambda>st. st\<lparr>cr := cr st AND NOT (push_bit CR_EN 1)\<rparr>) d)
    \<lparr>active_mask := active_mask d AND NOT (push_bit i 1)\<rparr>)"
proof -
  have "bit (active_mask d AND NOT (push_bit i 1)) j \<longleftrightarrow> bit (active_mask d) j \<and> j \<noteq> i" if "j < 8" for j
    using that bit_single8 [OF assms(2), of j] by (simp add: bit_and_iff bit_not_iff)
  moreover have "\<not> bit (x AND NOT (push_bit CR_EN 1)) 0" for x :: u32 by (simp add: bit_and_iff bit_not_iff bit_1_iff)
  ultimately show ?thesis using assms(1) by (auto simp: dma_defs upd_stream_def)
qed

lemma wf_upd_tick: "k \<in> K \<Longrightarrow> (\<And>d. dma_ok True d \<Longrightarrow> dma_ok True (f d)) \<Longrightarrow> chip_wf K s \<Longrightarrow> chip_wf K (upd_dma k f s)"
  by (rule wf_upd_dma) simp_all

lemma wf_account:
  assumes "chip_wf K s" "k \<in> K" "i < 8"
  shows "chip_wf K (dma_account k i n s)"
proof -
  have adv: "dma_ok True (upd_stream i (\<lambda>st. st\<lparr>m0ar := f st, ndtr := g st\<rparr>) d)" if "dma_ok True d" for f g d
    using that by (auto simp: dma_defs upd_stream_def)
  have rst: "dma_ok True (upd_stream i (\<lambda>st. st\<lparr>ndtr := f st, m0ar := g st\<rparr>) d)" if "dma_ok True d" for f g d
    using that by (auto simp: dma_defs upd_stream_def)
  show ?thesis unfolding dma_account_def
  proof (intro wf_Let)
    fix s1 s2 st st2
    assume s1: "s1 = upd_dma k (upd_stream i (\<lambda>st. st\<lparr>m0ar := (if bit (cr st) CR_MINC then m0ar st + of_nat n else m0ar st),
        ndtr := ndtr st - 1\<rparr>)) s"
      and s2: "s2 = (if ndtr st = ndtr_orig st div 2 \<and> bit (cr st) CR_HTIE then dma_raise k i (htif_bit i) s1 else s1)"
    have "chip_wf K s1" unfolding s1 by (rule wf_upd_tick [OF assms(2) adv assms(1)])
    then have s2: "chip_wf K s2" unfolding s2 by (simp add: wf_raise)
    have "chip_wf K (if bit (cr st2) CR_CIRC then upd_dma k (upd_stream i (\<lambda>st. st\<lparr>ndtr := ndtr_orig st, m0ar := m0ar_orig st\<rparr>)) s2
        else upd_dma k (\<lambda>d. (upd_stream i (\<lambda>st. st\<lparr>cr := cr st AND NOT (push_bit CR_EN 1)\<rparr>) d)
               \<lparr>active_mask := active_mask d AND NOT (push_bit i 1)\<rparr>) s2)" (is "chip_wf K ?s3")
      using wf_upd_tick [OF assms(2) rst s2] wf_upd_tick [OF assms(2) dma_ok_stop [OF _ assms(3)] s2] by (simp only: simp_thms split: if_split)
    then show "chip_wf K (if ndtr st2 = 0 then let s3 = ?s3 in if bit (cr (streams (dma s3 k) i)) CR_TCIE
        then dma_raise k i (tcif_bit i) s3 else s3 else s2)"
      using s2 by (simp add: Let_def wf_raise)
  qed
qed

lemma chip_bus_stream:
  assumes "chip_bus K b" "k \<in> K" "i < 8"
  shows "chip_bus K (dma_stream_tick k i b)"
  unfolding dma_stream_tick_def Let_def using assms
  by (auto intro!: chip_bus_upd [of K] chip_bus_copy wf_account wf_upd_dma dma_ok_request)

lemma chip_bus_streams: "chip_bus K b \<Longrightarrow> k \<in> K \<Longrightarrow> set is \<subseteq> {..<8} \<Longrightarrow> chip_bus K (fold (dma_stream_tick k) is b)"
  by (induction "is" arbitrary: b) (auto simp: chip_bus_stream)

text \<open>After the scan the flags are recomputed from the streams.\<close>

lemma dma_ok_recompute:
  assumes "dma_ok True d"
  shows "dma_ok False (let d = d\<lparr>any_active := active_mask d \<noteq> 0\<rparr>
    in if any_active d \<and> \<not> any_pending d \<and> (\<exists>i \<in> {0..<8}. bit (cr (streams d i)) 0 \<and> request_pending (streams d i))
       then d\<lparr>any_pending := True\<rparr> else d)"
proof -
  have "active_mask d \<noteq> 0" if "i < 8" "bit (cr (streams d i)) 0" for i
    using assms that by (auto simp: dma_defs)
  then show ?thesis using assms by (auto simp: dma_defs Let_def)
qed

lemma chip_bus_dma:
  assumes "chip_bus {} b"
  shows "chip_bus {} (stm32_dma_tick k b)"
proof (cases "\<not> any_active (dma (devs b) k) \<or> \<not> any_pending (dma (devs b) k)")
  case True
  then show ?thesis using assms by (simp add: stm32_dma_tick_def)
next
  case False
  define b1 where "b1 = upd_soc (upd_dma k (\<lambda>d. d\<lparr>any_pending := False\<rparr>)) b"
  define b2 where "b2 = fold (dma_stream_tick k) (filter (bit (active_mask (dma (devs b) k))) [0..<8]) b1"
  define f :: "stm32_dma \<Rightarrow> stm32_dma" where "f = (\<lambda>d. let d = d\<lparr>any_active := active_mask d \<noteq> 0\<rparr>
    in if any_active d \<and> \<not> any_pending d \<and> (\<exists>i \<in> {0..<8}. bit (cr (streams d i)) 0 \<and> request_pending (streams d i))
       then d\<lparr>any_pending := True\<rparr> else d)"
  have tick: "stm32_dma_tick k b = upd_soc (upd_dma k f) b2"
    unfolding stm32_dma_tick_def Let_def if_not_P [OF False] b1_def [symmetric] b2_def [symmetric]
    by (auto simp: upd_soc_def upd_dma_def f_def Let_def)
  have fin: "dma_ok False (f d)" if "dma_ok True d" for d unfolding f_def by (rule dma_ok_recompute [OF that])
  have "chip_bus {k} b1" unfolding b1_def
    by (rule chip_bus_upd [OF assms]) (auto simp: chip_wf_def upd_dma_def dma_defs)
  then have "chip_bus {k} b2" unfolding b2_def by (rule chip_bus_streams) auto
  then show ?thesis unfolding tick
  proof (rule chip_bus_upd)
    assume "chip_wf {k} (devs b2)"
    then show "chip_wf {} (upd_dma k f (devs b2))"
      using fin [of "dma (devs b2) k"] unfolding chip_wf_def upd_dma_def by auto (metis (full_types))+
  qed
qed

section \<open>The chip\<close>

lemma reset_wf: "chip_wf {} (soc_reset s)"
proof -
  have "eq (soc_reset s) = event_queue_init No_cb" "dma (soc_reset s) = (\<lambda>_. stm32_dma_init)"
    "usarts (soc_reset s) = (\<lambda>_. stm32_uart_init)"
    by (simp_all add: soc_reset_def Let_def upd_spi_def upd_gpio_def stm32_gpio_init_def stm32_exti_init_def stm32_syscfg_init_def)
  then show ?thesis
    by (simp add: chip_wf_def event_queue_init_def eq_inv_def dma_defs stm32_dma_init_def stm32_uart_init_def)
qed

lemma chip_bus_map:
  assumes "board_keeps bd" "chip_wf {} (devs b)"
  shows "chip_bus {} (soc_map bd b)"
proof -
  have dev: "chip_bus {} (membus_register a n (Some r) (Some w) b)"
    if "chip_bus {} b" "\<And>K s off. chip_wf K s \<Longrightarrow> chip_wf K (snd (r s off))" "\<And>K s off v. chip_wf K s \<Longrightarrow> chip_wf K (w s off v)"
    for a n r w and b :: "'a soc_bus"
    using that by (intro bus_wf_register(1)) (auto simp: keeps_devs_def)
  have "chip_bus {} (membus_init b)" using assms(2) by (simp add: bus_wf_def membus_init_def bus_inv_def fast_inv_def)
  then show ?thesis
    unfolding soc_map_def Let_def fold.simps comp_def id_def split
    by (intro dev bus_wf_register(2)) (simp_all add: pure_read_def wf_keep assms(1))
qed

lemma chip_bus_nvic:
  assumes "chip_bus K (bus m)" "armv7m_nvic_update n m = (n', m')"
  shows "chip_bus K (bus m')"
proof -
  define Q :: "armv7m_nvic \<times> 'a soc machine \<Rightarrow> bool" where "Q = (\<lambda>p. chip_bus K (bus (snd p)))"
  have rules: "\<And>a f. (\<And>x :: armv7m_nvic. Q (f x)) \<Longrightarrow> Q (Let a f)" "\<And>a g. (\<And>x y. Q (g x y)) \<Longrightarrow> Q (case a of (x, y) \<Rightarrow> g x y)"
    "\<And>c x y. Q x \<Longrightarrow> Q y \<Longrightarrow> Q (if c then x else y)" "\<And>n. Q (n, m)" "\<And>n v. Q (n, armv7m_take_interrupt v m)"
    using assms(1) by (simp_all add: Q_def wf.interrupt split: prod.split)
  have let2: "(\<And>x y. Q (g x y)) \<Longrightarrow> Q (let (x, y) = a in g x y)" for a g by (simp add: rules(2))
  have "Q (armv7m_nvic_update n m)" unfolding armv7m_nvic_update_def by (intro rules let2)
  then show ?thesis using assms(2) by (simp add: Q_def)
qed

lemma chip_bus_tick:
  assumes "board_keeps bd" "chip_bus {} (bus m)"
  shows "chip_bus {} (bus (snd (stm32f411_tick bd clock m)))"
proof -
  let ?m0 = "m\<lparr>bus := upd_soc (\<lambda>s. s\<lparr>now_cycle := cycle_count m + 1\<rparr>) (bus m)\<rparr>"
  obtain r m1 where st: "armv7m_cpu_step clock ?m0 = (r, m1)" by (cases "armv7m_cpu_step clock ?m0")
  have "chip_bus {} (bus ?m0)" using assms(2) by (simp add: chip_bus_upd)
  then have m1: "chip_bus {} (bus m1)" using wf.step [of chip_wf "{}" ?m0 clock] st by simp
  show ?thesis
  proof (cases r)
    case (Ret v)
    define b where "b = stm32_dma_tick 1 (stm32_dma_tick 0 (upd_soc (soc_events bd (cycle_count m1)) (bus m1)))"
    have b: "chip_bus {} b" unfolding b_def
      using m1 wf_events [OF assms(1)] by (intro chip_bus_dma) (auto intro: chip_bus_upd)
    obtain n' m2 where up: "armv7m_nvic_update (nvic (devs b)) (m1\<lparr>bus := b\<rparr>) = (n', m2)" by (metis surj_pair)
    then have "chip_bus {} (bus m2)" using b by (intro chip_bus_nvic [OF _ up]) simp
    then have "chip_bus {} (upd_soc (\<lambda>s. s\<lparr>nvic := n'\<rparr>) (bus m2))" by (simp add: chip_bus_upd)
    then show ?thesis
      using b unfolding stm32f411_tick_def Let_def st Ret prod.case step_result.case b_def [symmetric] up by simp
  qed (use m1 st in \<open>simp_all add: stm32f411_tick_def Let_def\<close>)
qed

text \<open>The states of a simulated machine: set up, programmed, reset, stepped, with inputs from outside.\<close>

inductive machine_reach :: "'e board \<Rightarrow> 'e soc machine \<Rightarrow> bool" for bd where
  init: "machine_reach bd (stm32f411_init bd m)"
| load: "machine_reach bd m \<Longrightarrow> machine_reach bd (m\<lparr>bus := (bus m)\<lparr>arrays := img\<rparr>\<rparr>)"
| reset: "machine_reach bd m \<Longrightarrow> machine_reach bd (armv7m_cpu_reset m)"
| tick: "machine_reach bd m \<Longrightarrow> machine_reach bd (snd (stm32f411_tick bd clock m))"
| input: "machine_reach bd m \<Longrightarrow> machine_reach bd (m\<lparr>bus := upd_soc (stm32_gpio_set_input p pin level) (bus m)\<rparr>)"

lemma machine_reach_wf:
  assumes "board_keeps bd" "machine_reach bd m"
  shows "chip_bus {} (bus m)"
  using assms(2)
proof induction
  case (init m)
  show ?case by (simp add: stm32f411_init_def Let_def upd_soc_def chip_bus_map [OF assms(1)] reset_wf)
next
  case (load m img)
  then show ?case by (simp add: bus_wf_def bus_inv_def)
qed (simp_all add: wf.reset chip_bus_tick assms(1) chip_bus_upd wf_input)

end
