(* ===== verification/Inflate.thy ===== *)
theory Inflate
  imports Buffers
begin

text \<open>
  The decompressor of the kernel (\<open>kernel/lib/inflate.c\<close>): the bit reader, canonical Huffman tables,
  the decoding of a block, the fixed and dynamic tables, raw DEFLATE streams and the gzip container
  with its checksum. Input and output are byte buffers with their lengths. The loops over blocks and
  symbols run until the data says so and are \<open>option\<close>-valued, with \<open>None\<close> for a call that does not
  return. A \<open>long\<close> has 32 bits on the target, so a length is read back as a signed 32-bit number.
\<close>

lemma unat_succ32:
  assumes "unat (a :: u32) < unat (b :: u32)"
  shows "unat (a + 1) = unat a + 1"
proof -
  have "unat a + unat (1 :: u32) < 4294967296" using assms unat_bound32 [of b] by (simp only: unat_1)
  from unat_add32 [OF this] show ?thesis by simp
qed

section \<open>Bit reader\<close>

record bitr =
  src :: buffer
  len :: u32
  pos :: u32
  bitbuf :: u32
  bitcnt :: u32
  err :: bool

text \<open>The loop of \<open>bits\<close>: bytes are appended until enough bits are held; false at the end of the input.\<close>

function fill :: "bitr \<Rightarrow> nat \<Rightarrow> bool \<times> bitr" where
  "fill b n =
     (if bitcnt b < of_nat n
      then (if len b \<le> pos b then (False, b\<lparr>err := True\<rparr>)
            else fill (b\<lparr>bitbuf := bitbuf b OR push_bit (unat (bitcnt b)) (ucast (src b (unat (pos b)))),
                         pos := pos b + 1, bitcnt := bitcnt b + 8\<rparr>) n)
      else (True, b))"
  by pat_completeness auto
termination
proof (relation "measure (\<lambda>(b, n). unat (len b) - unat (pos b))")
  fix b :: bitr and n :: nat
  assume "\<not> len b \<le> pos b"
  then have "unat (pos b) < unat (len b)" by (simp add: word_le_nat_alt)
  moreover from this have "unat (pos b + 1) = unat (pos b) + 1" by (rule unat_succ32)
  ultimately show "((b\<lparr>bitbuf := bitbuf b OR push_bit (unat (bitcnt b)) (ucast (src b (unat (pos b)))),
      pos := pos b + 1, bitcnt := bitcnt b + 8\<rparr>, n), b, n) \<in> measure (\<lambda>(b, n). unat (len b) - unat (pos b))"
    by simp
qed simp

declare fill.simps [simp del]

definition bits :: "bitr \<Rightarrow> nat \<Rightarrow> u32 \<times> bitr" where
  "bits b n =
     (case fill b n of
        (False, b) \<Rightarrow> (0, b)
      | (True, b) \<Rightarrow> (bitbuf b AND (push_bit n 1 - 1),
                       b\<lparr>bitbuf := drop_bit n (bitbuf b), bitcnt := bitcnt b - of_nat n\<rparr>))"

section \<open>Huffman tables\<close>

definition MAXBITS :: nat where "MAXBITS = 15"

record huff =
  count :: "nat \<Rightarrow> int"
  symbol :: "nat \<Rightarrow> int"

text \<open>The lengths of the codes are bytes; the number of codes of each length.\<close>

definition count_lengths :: "buffer \<Rightarrow> nat \<Rightarrow> (nat \<Rightarrow> int) \<Rightarrow> nat \<Rightarrow> int" where
  "count_lengths lens n c =
     fold (\<lambda>s c. c(unat (lens s) := c (unat (lens s)) + 1)) [0..<n] (\<lambda>l. if l \<le> MAXBITS then 0 else c l)"

text \<open>The check of the counts: \<open>None\<close> when the set is over-subscribed, otherwise the codes left over.\<close>

fun check_left :: "(nat \<Rightarrow> int) \<Rightarrow> nat list \<Rightarrow> int \<Rightarrow> int option" where
  "check_left c [] left = Some left"
| "check_left c (l # ls) left =
     (let left = 2 * left - c l in if left < 0 then None else check_left c ls left)"

text \<open>The offset of the first symbol of each code length.\<close>

fun offs :: "(nat \<Rightarrow> int) \<Rightarrow> nat \<Rightarrow> int" where
  "offs c 0 = 0"
| "offs c (Suc 0) = 0"
| "offs c (Suc (Suc l)) = offs c (Suc l) + c (Suc l)"

definition place_symbol :: "buffer \<Rightarrow> nat \<Rightarrow> (nat \<Rightarrow> int) \<times> (nat \<Rightarrow> int) \<Rightarrow> (nat \<Rightarrow> int) \<times> (nat \<Rightarrow> int)" where
  "place_symbol lens s st =
     (case st of (o1, sy) \<Rightarrow>
        if lens s \<noteq> 0
        then (o1(unat (lens s) := o1 (unat (lens s)) + 1), sy(nat (o1 (unat (lens s))) := int s))
        else (o1, sy))"

definition huff_build :: "huff \<Rightarrow> buffer \<Rightarrow> nat \<Rightarrow> int \<times> huff" where
  "huff_build h lens n =
     (let h = h\<lparr>count := count_lengths lens n (count h)\<rparr>
      in if count h 0 = int n then (0, h)
         else (case check_left (count h) [1..<MAXBITS + 1] 1 of
                 None \<Rightarrow> (-1, h)
               | Some left \<Rightarrow>
                   (left, h\<lparr>symbol := snd (fold (place_symbol lens) [0..<n] (offs (count h), symbol h))\<rparr>)))"

text \<open>The loop of \<open>huff_decode\<close> over the code lengths.\<close>

fun decode_loop :: "nat list \<Rightarrow> huff \<Rightarrow> int \<Rightarrow> int \<Rightarrow> int \<Rightarrow> bitr \<Rightarrow> int \<times> bitr" where
  "decode_loop [] h code first index b = (-1, b)"
| "decode_loop (l # ls) h code first index b =
     (case bits b 1 of (v, b) \<Rightarrow>
        (let code = code OR int (unat v); cnt = count h l
         in if code - first < cnt then (symbol h (nat (index + (code - first))), b)
            else decode_loop ls h (2 * code) (2 * (first + cnt)) (index + cnt) b))"

definition huff_decode :: "bitr \<Rightarrow> huff \<Rightarrow> int \<times> bitr" where
  "huff_decode b h = decode_loop [1..<MAXBITS + 1] h 0 0 0 b"

section \<open>Blocks\<close>

definition len_base :: "nat list" where
  "len_base = [3,4,5,6,7,8,9,10,11,13,15,17,19,23,27,31,35,43,51,59,67,83,99,115,131,163,195,227,258]"

definition len_extra :: "nat list" where
  "len_extra = [0,0,0,0,0,0,0,0,1,1,1,1,2,2,2,2,3,3,3,3,4,4,4,4,5,5,5,5,0]"

definition dist_base :: "nat list" where
  "dist_base = [1,2,3,4,5,7,9,13,17,25,33,49,65,97,129,193,257,385,513,769,
     1025,1537,2049,3073,4097,6145,8193,12289,16385,24577]"

definition dist_extra :: "nat list" where
  "dist_extra = [0,0,0,0,1,1,2,2,3,3,4,4,5,5,6,6,7,7,8,8,9,9,10,10,11,11,12,12,13,13]"

text \<open>The copy of a match, byte by byte: source and destination may overlap.\<close>

fun copy_match :: "nat \<Rightarrow> u32 \<Rightarrow> u32 \<Rightarrow> buffer \<Rightarrow> buffer" where
  "copy_match 0 from out dst = dst"
| "copy_match (Suc n) from out dst =
     copy_match n (from + 1) (out + 1) (dst(unat out := dst (unat from)))"

text \<open>A return of \<open>(long)out\<close>.\<close>

definition long_of :: "u32 \<Rightarrow> cint" where
  "long_of n = sint n"

partial_function (option) inflate_block ::
    "bitr \<Rightarrow> huff \<Rightarrow> huff \<Rightarrow> buffer \<Rightarrow> u32 \<Rightarrow> u32 \<Rightarrow> (cint \<times> bitr \<times> buffer) option" where
  "inflate_block b lh dh dst dstcap out =
     (case huff_decode b lh of (sy, b) \<Rightarrow>
        if err b \<or> sy < 0 then Some (-1, b, dst)
        else if sy = 256 then Some (long_of out, b, dst)
        else if sy < 256 then
          (if dstcap \<le> out then Some (-2, b, dst)
           else inflate_block b lh dh (dst(unat out := word_of_int sy)) dstcap (out + 1))
        else (let sy = nat (sy - 257)
              in if 29 \<le> sy then Some (-3, b, dst)
                 else (case bits b (len_extra ! sy) of (ext, b) \<Rightarrow>
                   (let mlen = of_nat (len_base ! sy) + ext
                    in case huff_decode b dh of (dsy, b) \<Rightarrow>
                      if err b \<or> dsy < 0 \<or> 30 \<le> dsy then Some (-4, b, dst)
                      else (case bits b (dist_extra ! nat dsy) of (dext, b) \<Rightarrow>
                        (let dist = of_nat (dist_base ! nat dsy) + dext
                         in if out < dist then Some (-5, b, dst)
                            else if dstcap < out + mlen then Some (-6, b, dst)
                            else inflate_block b lh dh (copy_match (unat mlen) (out - dist) out dst) dstcap
                                   (out + mlen)))))))"

section \<open>Fixed and dynamic tables\<close>

definition fixed_lengths :: buffer where
  "fixed_lengths i = (if i < 144 then 8 else if i < 256 then 9 else if i < 280 then 7 else 8)"

definition build_fixed :: "huff \<Rightarrow> huff \<Rightarrow> huff \<times> huff" where
  "build_fixed lh dh = (snd (huff_build lh fixed_lengths 288), snd (huff_build dh (\<lambda>_. 5) 30))"

definition clc_order :: "nat list" where
  "clc_order = [16,17,18,0,8,7,9,6,10,5,11,4,12,3,13,2,14,1,15]"

fun read_clc :: "nat list \<Rightarrow> bitr \<Rightarrow> buffer \<Rightarrow> bitr \<times> buffer" where
  "read_clc [] b l = (b, l)"
| "read_clc (i # is) b l = (case bits b 3 of (v, b) \<Rightarrow> read_clc is b (l(i := ucast v)))"

text \<open>\<open>while (rep-- && n < tot) lengths[n++] = v\<close>.\<close>

fun repeat_len :: "nat \<Rightarrow> nat \<Rightarrow> u8 \<Rightarrow> nat \<Rightarrow> buffer \<Rightarrow> nat \<times> buffer" where
  "repeat_len 0 tot v n l = (n, l)"
| "repeat_len (Suc rep) tot v n l = (if n < tot then repeat_len rep tot v (n + 1) (l(n := v)) else (n, l))"

text \<open>The loop over the code lengths: \<open>Inl\<close> an error.\<close>

partial_function (option) read_lengths :: "huff \<Rightarrow> nat \<Rightarrow> nat \<Rightarrow> bitr \<Rightarrow> buffer \<Rightarrow> (int + bitr \<times> buffer) option" where
  "read_lengths clc tot n b l =
     (if n < tot
      then (case huff_decode b clc of (sy, b) \<Rightarrow>
             if err b \<or> sy < 0 then Some (Inl (-3))
             else if sy < 16 then read_lengths clc tot (n + 1) b (l(n := word_of_int sy))
             else if sy = 16 then
               (if n = 0 then Some (Inl (-4))
                else (case bits b 2 of (v, b) \<Rightarrow>
                       (case repeat_len (3 + unat v) tot (l (n - 1)) n l of (n, l) \<Rightarrow> read_lengths clc tot n b l)))
             else if sy = 17 then
               (case bits b 3 of (v, b) \<Rightarrow>
                  (case repeat_len (3 + unat v) tot 0 n l of (n, l) \<Rightarrow> read_lengths clc tot n b l))
             else
               (case bits b 7 of (v, b) \<Rightarrow>
                  (case repeat_len (11 + unat v) tot 0 n l of (n, l) \<Rightarrow> read_lengths clc tot n b l)))
      else Some (Inr (b, l)))"

text \<open>\<open>build_dynamic\<close>: the result code, the reader and the two tables. \<open>u0\<close> is the table on the stack.\<close>

definition build_dynamic :: "huff \<Rightarrow> bitr \<Rightarrow> huff \<Rightarrow> huff \<Rightarrow> (int \<times> bitr \<times> huff \<times> huff) option" where
  "build_dynamic u0 b lh dh =
     (let (v, b) = bits b 5; hlit = unat v + 257;
          (v, b) = bits b 5; hdist = unat v + 1;
          (v, b) = bits b 4; hclen = unat v + 4
      in if 286 < hlit \<or> 30 < hdist then Some (-1, b, lh, dh)
         else (let (b, clc_len) = read_clc (take hclen clc_order) b (\<lambda>_. 0);
                   (r, clc) = huff_build u0 clc_len 19
               in if r < 0 then Some (-2, b, lh, dh)
                  else (case read_lengths clc (hlit + hdist) 0 b (\<lambda>_. 0) of
                          None \<Rightarrow> None
                        | Some (Inl e) \<Rightarrow> Some (e, b, lh, dh)
                        | Some (Inr (b, lengths)) \<Rightarrow>
                            if lengths 256 = 0 then Some (-5, b, lh, dh)
                            else (let (r, lh) = huff_build lh lengths hlit
                                  in if r < 0 then Some (-6, b, lh, dh)
                                     else (let (r, dh) = huff_build dh (\<lambda>i. lengths (hlit + i)) hdist
                                           in if r < 0 then Some (-7, b, lh, dh) else Some (0, b, lh, dh))))))"

section \<open>Raw streams\<close>

definition src16 :: "bitr \<Rightarrow> u32 \<Rightarrow> u32" where
  "src16 b p = ucast (src b (unat p)) OR push_bit 8 (ucast (src b (unat (p + 1))))"

text \<open>A stored block: \<open>Inl\<close> an error and the output so far, or the reader, the output and its length.\<close>

definition inflate_stored :: "bitr \<Rightarrow> buffer \<Rightarrow> u32 \<Rightarrow> u32 \<Rightarrow> cint \<times> buffer + bitr \<times> buffer \<times> u32" where
  "inflate_stored b dst dstcap out =
     (let b = b\<lparr>bitbuf := 0, bitcnt := 0\<rparr>
      in if len b < pos b + 4 then Inl (-11, dst)
         else (let n = src16 b (pos b); nlen = src16 b (pos b + 2); b = b\<lparr>pos := pos b + 4\<rparr>
               in if n XOR 0xFFFF \<noteq> nlen then Inl (-12, dst)
                  else if len b < pos b + n then Inl (-13, dst)
                  else if dstcap < out + n then Inl (-14, dst)
                  else Inr (b\<lparr>pos := pos b + n\<rparr>, mcpy dst (unat out) (src b) (unat (pos b)) (unat n), out + n)))"

text \<open>A compressed block of type 1 or 2.\<close>

definition inflate_coded :: "huff \<Rightarrow> u32 \<Rightarrow> bitr \<Rightarrow> buffer \<Rightarrow> u32 \<Rightarrow> u32 \<Rightarrow> (cint \<times> buffer + bitr \<times> buffer \<times> u32) option" where
  "inflate_coded u0 type b dst dstcap out =
     (case (if type = 1 then (case build_fixed u0 u0 of (lh, dh) \<Rightarrow> Some (0, b, lh, dh)) else build_dynamic u0 b u0 u0) of
        None \<Rightarrow> None
      | Some (r, b, lh, dh) \<Rightarrow>
          if r \<noteq> 0 then Some (Inl (-15, dst))
          else (case inflate_block b lh dh dst dstcap out of
                  None \<Rightarrow> None
                | Some (r, b, dst) \<Rightarrow> if r < 0 then Some (Inl (r, dst)) else Some (Inr (b, dst, word_of_int r))))"

text \<open>
  The loop over the blocks. The result is the return value and the output buffer. The Huffman tables are
  variables on the stack; \<open>u0\<close> is what the stack holds.
\<close>

partial_function (option) inflate_blocks :: "huff \<Rightarrow> bitr \<Rightarrow> buffer \<Rightarrow> u32 \<Rightarrow> u32 \<Rightarrow> (cint \<times> buffer) option" where
  "inflate_blocks u0 b dst dstcap out =
     (case bits b 1 of (final, b) \<Rightarrow>
        (case bits b 2 of (type, b) \<Rightarrow>
           if err b then Some (-10, dst)
           else (case (if type = 0 then Some (inflate_stored b dst dstcap out)
                       else if type = 1 \<or> type = 2 then inflate_coded u0 type b dst dstcap out
                       else Some (Inl (-16, dst))) of
                   None \<Rightarrow> None
                 | Some (Inl r) \<Rightarrow> Some r
                 | Some (Inr (b, dst, out)) \<Rightarrow>
                     if final = 0 then inflate_blocks u0 b dst dstcap out else Some (long_of out, dst))))"

definition inflate_raw :: "huff \<Rightarrow> buffer \<Rightarrow> u32 \<Rightarrow> buffer \<Rightarrow> u32 \<Rightarrow> (cint \<times> buffer) option" where
  "inflate_raw u0 s srclen dst dstcap =
     inflate_blocks u0 \<lparr>src = s, len = srclen, pos = 0, bitbuf = 0, bitcnt = 0, err = False\<rparr> dst dstcap 0"

section \<open>The gzip container\<close>

definition crc_bit :: "u32 \<Rightarrow> u32" where
  "crc_bit crc = drop_bit 1 crc XOR (0xEDB88320 AND - (crc AND 1))"

definition crc32 :: "buffer \<Rightarrow> nat \<Rightarrow> u32" where
  "crc32 p n = fold (\<lambda>i crc. (crc_bit ^^ 8) (crc XOR ucast (p i))) [0..<n] 0xFFFFFFFF XOR 0xFFFFFFFF"

definition is_gzip :: "buffer \<Rightarrow> u32 \<Rightarrow> bool" where
  "is_gzip s srclen \<longleftrightarrow> 2 \<le> srclen \<and> s 0 = 0x1f \<and> s 1 = 0x8b"

definition gzip_isize :: "buffer \<Rightarrow> u32 \<Rightarrow> u32" where
  "gzip_isize s srclen = (if srclen < 4 then 0 else get32 s (unat (srclen - 4)))"

text \<open>\<open>while (p < srclen && src[p++]) ;\<close> skips a name with its NUL.\<close>

function skip_name :: "buffer \<Rightarrow> u32 \<Rightarrow> u32 \<Rightarrow> u32" where
  "skip_name s srclen p = (if p < srclen then if s (unat p) \<noteq> 0 then skip_name s srclen (p + 1) else p + 1 else p)"
  by pat_completeness auto
termination
proof (relation "measure (\<lambda>(s, srclen, p). unat srclen - unat p)")
  fix s :: buffer and srclen p :: u32
  assume "p < srclen"
  then have "unat p < unat srclen" by (simp add: word_less_nat_alt)
  moreover from this have "unat (p + 1) = unat p + 1" by (rule unat_succ32)
  ultimately show "((s, srclen, p + 1), s, srclen, p) \<in> measure (\<lambda>(s, srclen, p). unat srclen - unat p)" by simp
qed simp

declare skip_name.simps [simp del]

definition gzip_payload :: "buffer \<Rightarrow> u32 \<Rightarrow> cint + u32" where
  "gzip_payload s srclen =
     (let flg = s 3; p = 10;
          xlen = ucast (s (unat p)) OR push_bit 8 (ucast (s (unat (p + 1))))
      in if flg AND 4 \<noteq> 0 \<and> srclen < p + 2 then Inl (-22)
         else (let p = (if flg AND 4 \<noteq> 0 then p + 2 + xlen else p);
                   p = (if flg AND 8 \<noteq> 0 then skip_name s srclen p else p);
                   p = (if flg AND 0x10 \<noteq> 0 then skip_name s srclen p else p);
                   p = (if flg AND 2 \<noteq> 0 then p + 2 else p)
               in if srclen < p + 8 then Inl (-23) else Inr p))"

definition gunzip :: "huff \<Rightarrow> buffer \<Rightarrow> u32 \<Rightarrow> buffer \<Rightarrow> u32 \<Rightarrow> (cint \<times> buffer) option" where
  "gunzip u0 s srclen dst dstcap =
     (if \<not> is_gzip s srclen \<or> srclen < 18 then Some (-20, dst)
      else if s 2 \<noteq> 8 then Some (-21, dst)
      else (case gzip_payload s srclen of
              Inl e \<Rightarrow> Some (e, dst)
            | Inr p \<Rightarrow>
                (case inflate_raw u0 (\<lambda>i. s (unat p + i)) (srclen - 8 - p) dst dstcap of
                   None \<Rightarrow> None
                 | Some (n, dst) \<Rightarrow>
                     if n < 0 then Some (n, dst)
                     else if word_of_int n \<noteq> gzip_isize s srclen then Some (-24, dst)
                     else if crc32 dst (unat (word_of_int n :: u32)) \<noteq> get32 s (unat (srclen - 8)) then Some (-25, dst)
                     else Some (n, dst))))"

end
