(* ===== verification/Inflate_Bits.thy ===== *)
theory Inflate_Bits
  imports Inflate
begin

text \<open>
  The bit reader of the decompressor delivers the bits of the input in order, and says so when they run
  out. The state of the reader is read as the list of the bits still to come.
\<close>

section \<open>The bit stream\<close>

definition byte_bits :: "u8 \<Rightarrow> bool list" where
  "byte_bits c = map (bit c) [0..<8]"

text \<open>The bits still to be read: those held, then those of the bytes not yet fetched.\<close>

definition stream :: "bitr \<Rightarrow> bool list" where
  "stream b = map (bit (bitbuf b)) [0..<unat (bitcnt b)] @
     concat (map (\<lambda>i. byte_bits (src b i)) [unat (pos b)..<unat (len b)])"

text \<open>At most \<open>k\<close> bits are held, and nothing lies above them.\<close>

definition reader_ok :: "nat \<Rightarrow> bitr \<Rightarrow> bool" where
  "reader_ok k b \<longleftrightarrow> unat (bitcnt b) \<le> k \<and> pos b \<le> len b \<and> (\<forall>i \<ge> unat (bitcnt b). \<not> bit (bitbuf b) i)"

lemma length_byte_bits [simp]: "length (byte_bits c) = 8"
  by (simp add: byte_bits_def)

lemma length_stream: "length (stream b) = unat (bitcnt b) + 8 * (unat (len b) - unat (pos b))"
proof -
  have "length (concat (map (\<lambda>i. byte_bits (src b i)) xs)) = 8 * length xs" for xs by (induction xs) simp_all
  then show ?thesis by (simp add: stream_def)
qed

definition fetched :: "bitr \<Rightarrow> bitr" where
  "fetched b = b\<lparr>bitbuf := bitbuf b OR push_bit (unat (bitcnt b)) (ucast (src b (unat (pos b)))),
     pos := pos b + 1, bitcnt := bitcnt b + 8\<rparr>"

lemma fill_step: "fill b n = (if bitcnt b < of_nat n then if len b \<le> pos b then (False, b\<lparr>err := True\<rparr>) else fill (fetched b) n
    else (True, b))"
  by (subst fill.simps) (simp add: fetched_def)

lemma fetched_stream:
  assumes "reader_ok k b" "k \<le> 24" "\<not> len b \<le> pos b"
  shows "stream (fetched b) = stream b" "reader_ok (k + 8) (fetched b)" "unat (bitcnt (fetched b)) = unat (bitcnt b) + 8"
proof -
  have k: "unat (bitcnt b) \<le> 24" and hi: "\<And>i. unat (bitcnt b) \<le> i \<Longrightarrow> \<not> bit (bitbuf b) i"
    using assms(1,2) by (auto simp: reader_ok_def)
  have p: "unat (pos b) < unat (len b)" using assms(3) by (simp add: word_le_nat_alt)
  have p1: "unat (pos b + 1) = unat (pos b) + 1" by (rule unat_succ32 [OF p])
  show cnt: "unat (bitcnt (fetched b)) = unat (bitcnt b) + 8"
    using unat_add32 [of "bitcnt b" 8] k by (simp add: fetched_def)
  have new: "bit (bitbuf (fetched b)) i \<longleftrightarrow> bit (bitbuf b) i \<or> unat (bitcnt b) \<le> i \<and> i < 32 \<and> bit (src b (unat (pos b))) (i - unat (bitcnt b))" for i
    by (auto simp: fetched_def bit_or_iff bit_push_bit_iff bit_ucast_iff dest: bit_imp_le_length)
  have "bit (bitbuf (fetched b)) i = bit (src b (unat (pos b))) (i - unat (bitcnt b))"
    if "unat (bitcnt b) \<le> i" "i < unat (bitcnt b) + 8" for i
    using new [of i] hi [OF that(1)] that k by auto
  then have "map (bit (bitbuf (fetched b))) [unat (bitcnt b)..<unat (bitcnt b) + 8] = byte_bits (src b (unat (pos b)))"
    unfolding byte_bits_def by (intro nth_equalityI) (auto simp: nth_upt simp del: upt.simps)
  moreover have "map (bit (bitbuf (fetched b))) [0..<unat (bitcnt b)] = map (bit (bitbuf b)) [0..<unat (bitcnt b)]"
    using new by auto
  ultimately have "map (bit (bitbuf (fetched b))) [0..<unat (bitcnt b) + 8] =
      map (bit (bitbuf b)) [0..<unat (bitcnt b)] @ byte_bits (src b (unat (pos b)))"
    by (simp only: upt_add_eq_append [of 0] map_append le0)
  moreover have "[unat (pos b)..<unat (len b)] = unat (pos b) # [unat (pos b + 1)..<unat (len b)]"
    using p p1 by (simp add: upt_conv_Cons)
  ultimately show "stream (fetched b) = stream b"
    unfolding stream_def cnt by (simp add: fetched_def)
  show "reader_ok (k + 8) (fetched b)"
    unfolding reader_ok_def cnt using assms(1) p p1 new hi k
    by (auto simp: reader_ok_def fetched_def word_le_nat_alt dest: bit_imp_le_length)
qed

text \<open>The loop that fetches bytes succeeds exactly when enough bits are left.\<close>

lemma fill_spec:
  assumes "reader_ok (n + 7) b" "n \<le> 16"
  shows "fst (fill b n) \<longleftrightarrow> n \<le> length (stream b)"
    "n \<le> length (stream b) \<Longrightarrow> stream (snd (fill b n)) = stream b \<and> reader_ok (n + 7) (snd (fill b n)) \<and>
       n \<le> unat (bitcnt (snd (fill b n))) \<and> err (snd (fill b n)) = err b"
    "\<not> n \<le> length (stream b) \<Longrightarrow> err (snd (fill b n))" "src (snd (fill b n)) = src b" "len (snd (fill b n)) = len b"
proof -
  have n: "unat (of_nat n :: u32) = n" using assms(2) by (intro unat_of_nat32) simp
  have "(fst (fill b n) \<longleftrightarrow> n \<le> length (stream b)) \<and>
    (n \<le> length (stream b) \<longrightarrow> stream (snd (fill b n)) = stream b \<and> reader_ok (n + 7) (snd (fill b n)) \<and>
       n \<le> unat (bitcnt (snd (fill b n))) \<and> err (snd (fill b n)) = err b) \<and>
    (\<not> n \<le> length (stream b) \<longrightarrow> err (snd (fill b n))) \<and> src (snd (fill b n)) = src b \<and> len (snd (fill b n)) = len b"
    using assms(1)
  proof (induction "unat (len b) - unat (pos b)" arbitrary: b rule: less_induct)
    case less
    have lt: "bitcnt b < of_nat n \<longleftrightarrow> unat (bitcnt b) < n" by (simp add: word_less_nat_alt n)
    consider (full) "n \<le> unat (bitcnt b)" | (none) "unat (bitcnt b) < n" "len b \<le> pos b"
      | (more) "unat (bitcnt b) < n" "\<not> len b \<le> pos b" by linarith
    then show ?case
    proof cases
      case full
      then show ?thesis using less.prems lt by (simp add: fill_step [of b] length_stream)
    next
      case none
      then show ?thesis using lt by (simp add: fill_step [of b] length_stream word_le_nat_alt)
    next
      case more
      have ok: "reader_ok (n - 1) b" using less.prems more(1) by (auto simp: reader_ok_def)
      have "n - 1 \<le> 24" using assms(2) by simp
      note f = fetched_stream [OF ok this more(2)]
      have "unat (len (fetched b)) - unat (pos (fetched b)) < unat (len b) - unat (pos b)"
        using more(2) unat_succ32 [of "pos b" "len b"] by (simp add: fetched_def word_le_nat_alt)
      moreover have "reader_ok (n + 7) (fetched b)" using f(2) more(1) by (simp add: add.commute)
      ultimately have IH: "(fst (fill (fetched b) n) \<longleftrightarrow> n \<le> length (stream (fetched b))) \<and>
        (n \<le> length (stream (fetched b)) \<longrightarrow> stream (snd (fill (fetched b) n)) = stream (fetched b) \<and>
           reader_ok (n + 7) (snd (fill (fetched b) n)) \<and> n \<le> unat (bitcnt (snd (fill (fetched b) n))) \<and>
           err (snd (fill (fetched b) n)) = err (fetched b)) \<and>
        (\<not> n \<le> length (stream (fetched b)) \<longrightarrow> err (snd (fill (fetched b) n))) \<and>
        src (snd (fill (fetched b) n)) = src (fetched b) \<and> len (snd (fill (fetched b) n)) = len (fetched b)"
        by (rule less.hyps)
      moreover have "fill b n = fill (fetched b) n" using more lt by (simp add: fill_step [of b])
      moreover have "err (fetched b) = err b" "src (fetched b) = src b" "len (fetched b) = len b" by (simp_all add: fetched_def)
      ultimately show ?thesis unfolding f(1) by metis
    qed
  qed
  then show "fst (fill b n) \<longleftrightarrow> n \<le> length (stream b)"
    "n \<le> length (stream b) \<Longrightarrow> stream (snd (fill b n)) = stream b \<and> reader_ok (n + 7) (snd (fill b n)) \<and>
       n \<le> unat (bitcnt (snd (fill b n))) \<and> err (snd (fill b n)) = err b"
    "\<not> n \<le> length (stream b) \<Longrightarrow> err (snd (fill b n))" "src (snd (fill b n)) = src b" "len (snd (fill b n)) = len b"
    by blast+
qed

text \<open>The value of bits, least significant first.\<close>

abbreviation lsb_val :: "bool list \<Rightarrow> nat" where
  "lsb_val \<equiv> horner_sum of_bool 2"

lemma low_bits_val:
  assumes "n < 32"
  shows "unat (v AND (push_bit n 1 - 1) :: u32) = lsb_val (map (bit v) [0..<n])"
proof (rule bit_eqI)
  fix i
  have m: "(push_bit n 1 - 1 :: u32) = mask n" by (simp add: mask_eq_exp_minus_1)
  show "bit (unat (v AND (push_bit n 1 - 1) :: u32)) i = bit (lsb_val (map (bit v) [0..<n])) i"
    unfolding m using assms
    by (auto simp: bit_unsigned_iff bit_and_iff bit_mask_iff bit_horner_sum_bit_iff)
qed

lemma bits_spec:
  assumes "reader_ok 7 b" "n \<le> 16" "n \<le> length (stream b)"
  shows "unat (fst (bits b n)) = lsb_val (take n (stream b))" "stream (snd (bits b n)) = drop n (stream b)"
    "reader_ok 7 (snd (bits b n))" "err (snd (bits b n)) = err b"
proof -
  have ok: "reader_ok (n + 7) b" using assms(1) by (auto simp: reader_ok_def)
  obtain b1 where b1: "fill b n = (True, b1)" using fill_spec(1) [OF ok assms(2)] assms(3) by (metis prod.collapse)
  have f: "stream b1 = stream b" "reader_ok (n + 7) b1" "n \<le> unat (bitcnt b1)" "err b1 = err b"
    using fill_spec(2) [OF ok assms(2,3)] b1 by auto
  have n: "unat (of_nat n :: u32) = n" using assms(2) by (intro unat_of_nat32) simp
  have c: "unat (bitcnt b1 - of_nat n) = unat (bitcnt b1) - n" using f(3) unat_diff32 [of "of_nat n" "bitcnt b1"] n by (simp add: word_le_nat_alt)
  have up: "[0..<unat (bitcnt b1)] = [0..<n] @ [n..<unat (bitcnt b1)]"
    using f(3) upt_add_eq_append [of 0 n "unat (bitcnt b1) - n"] by simp
  have b: "bits b n = (bitbuf b1 AND (push_bit n 1 - 1), b1\<lparr>bitbuf := drop_bit n (bitbuf b1), bitcnt := bitcnt b1 - of_nat n\<rparr>)"
    by (simp add: bits_def b1)
  have take: "take n (stream b1) = map (bit (bitbuf b1)) [0..<n]"
    "drop n (stream b1) = map (bit (bitbuf b1)) [n..<unat (bitcnt b1)] @ concat (map (\<lambda>i. byte_bits (src b1 i)) [unat (pos b1)..<unat (len b1)])"
    unfolding stream_def up by simp_all
  show "unat (fst (bits b n)) = lsb_val (take n (stream b))"
    using low_bits_val [of n "bitbuf b1"] assms(2) take(1) f(1) by (simp add: b)
  have "map (bit (drop_bit n (bitbuf b1))) [0..<unat (bitcnt b1) - n] = map (bit (bitbuf b1)) [n..<unat (bitcnt b1)]"
    by (intro nth_equalityI) (auto simp: bit_drop_bit_eq)
  then show "stream (snd (bits b n)) = drop n (stream b)"
    unfolding f(1) [symmetric] take(2) by (simp add: b stream_def c)
  show "reader_ok 7 (snd (bits b n))" using f(2,3) c by (auto simp: b reader_ok_def bit_drop_bit_eq)
  show "err (snd (bits b n)) = err b" by (simp add: b f(4))
qed

lemma bits_end:
  assumes "reader_ok 7 b" "n \<le> 16" "\<not> n \<le> length (stream b)"
  shows "fst (bits b n) = 0" "err (snd (bits b n))"
proof -
  have "reader_ok (n + 7) b" using assms(1) by (auto simp: reader_ok_def)
  from fill_spec(1,3) [OF this assms(2)] assms(3)
  show "fst (bits b n) = 0" "err (snd (bits b n))" by (auto simp: bits_def split: prod.split bool.split)
qed

section \<open>Progress on any input\<close>

text \<open>
  At the end of the input the reader keeps what it holds and raises its flag, which is never lowered. A read
  that does not raise it consumes what was asked for.
\<close>

definition reader_safe :: "bitr \<Rightarrow> bool" where
  "reader_safe b \<longleftrightarrow> unat (bitcnt b) \<le> 20 \<and> pos b \<le> len b"

definition consumed :: "nat \<Rightarrow> bitr \<Rightarrow> bitr \<Rightarrow> bool" where
  "consumed n b b1 \<longleftrightarrow> reader_safe b1 \<and> src b1 = src b \<and> len b1 = len b \<and> (err b \<longrightarrow> err b1) \<and>
     length (stream b1) \<le> length (stream b) \<and> (\<not> err b1 \<longrightarrow> length (stream b1) + n \<le> length (stream b))"

lemma reader_ok_safe: "reader_ok 7 b \<Longrightarrow> reader_safe b"
  by (simp add: reader_ok_def reader_safe_def)

lemma consumed_refl: "reader_safe b \<Longrightarrow> consumed 0 b b"
  by (simp add: consumed_def)

lemma consumed_trans: "consumed m a b \<Longrightarrow> consumed n b c \<Longrightarrow> consumed (m + n) a c"
  by (auto simp: consumed_def)

lemma consumed_le: "consumed n a b \<Longrightarrow> m \<le> n \<Longrightarrow> consumed m a b"
  by (auto simp: consumed_def)

lemma consumed_safe: "consumed n a b \<Longrightarrow> reader_safe b"
  by (simp add: consumed_def)

lemma fill_safe:
  assumes "reader_safe b" "n \<le> 13"
  shows "consumed 0 b (snd (fill b n)) \<and> (if fst (fill b n) then n \<le> unat (bitcnt (snd (fill b n))) else err (snd (fill b n)))"
  using assms(1)
proof (induction "unat (len b) - unat (pos b)" arbitrary: b rule: less_induct)
  case less
  have n: "unat (of_nat n :: u32) = n" using assms(2) by (intro unat_of_nat32) simp
  have lt: "bitcnt b < of_nat n \<longleftrightarrow> unat (bitcnt b) < n" by (simp add: word_less_nat_alt n)
  consider (full) "n \<le> unat (bitcnt b)" | (none) "unat (bitcnt b) < n" "len b \<le> pos b"
    | (more) "unat (bitcnt b) < n" "\<not> len b \<le> pos b" by linarith
  then show ?case
  proof cases
    case full
    then show ?thesis using less.prems lt by (simp add: fill_step [of b] consumed_refl)
  next
    case none
    then show ?thesis using lt less.prems
      by (simp add: fill_step [of b] consumed_def reader_safe_def length_stream)
  next
    case more
    have p: "unat (pos b) < unat (len b)" using more(2) by (simp add: word_le_nat_alt)
    have p1: "unat (pos b + 1) = unat (pos b) + 1" by (rule unat_succ32 [OF p])
    have c: "unat (bitcnt b + 8) = unat (bitcnt b) + 8" using unat_add32 [of "bitcnt b" 8] more(1) assms(2) by simp
    have f: "consumed 0 b (fetched b)"
      using p p1 c more(1) assms(2) by (auto simp: consumed_def reader_safe_def fetched_def length_stream word_le_nat_alt)
    have "unat (len (fetched b)) - unat (pos (fetched b)) < unat (len b) - unat (pos b)"
      using p p1 by (simp add: fetched_def)
    from less.hyps [OF this consumed_safe [OF f]]
    have IH: "consumed 0 (fetched b) (snd (fill (fetched b) n)) \<and> (if fst (fill (fetched b) n)
        then n \<le> unat (bitcnt (snd (fill (fetched b) n))) else err (snd (fill (fetched b) n)))" .
    moreover have "fill b n = fill (fetched b) n" using more lt by (simp add: fill_step [of b])
    ultimately show ?thesis using consumed_trans [OF f] by fastforce
  qed
qed

lemma bits_safe:
  assumes "reader_safe b" "n \<le> 13"
  shows "consumed n b (snd (bits b n))"
proof -
  obtain k b1 where f: "fill b n = (k, b1)" by fastforce
  have n: "unat (of_nat n :: u32) = n" using assms(2) by (intro unat_of_nat32) simp
  have s: "consumed 0 b b1" "if k then n \<le> unat (bitcnt b1) else err b1" using fill_safe [OF assms] unfolding f by (simp_all split: if_splits)
  show ?thesis
  proof (cases k)
    case True
    then have c: "unat (bitcnt b1 - of_nat n) = unat (bitcnt b1) - n" "n \<le> unat (bitcnt b1)"
      using s(2) unat_diff32 [of "of_nat n" "bitcnt b1"] n by (simp_all add: word_le_nat_alt)
    then show ?thesis using s(1) True f by (auto simp: bits_def consumed_def reader_safe_def length_stream)
  next
    case False
    then show ?thesis using s f by (auto simp: bits_def consumed_def)
  qed
qed

end
