(* ===== verification/Inflate_Huff.thy ===== *)
theory Inflate_Huff
  imports Inflate_Bits
begin

text \<open>
  Canonical Huffman codes. The table that \<open>huff_build\<close> makes from a list of code lengths holds the
  symbols sorted by length and number, the check of the lengths is the inequality of Kraft, and
  \<open>huff_decode\<close> reads the canonical code of every symbol back as that symbol.
\<close>

section \<open>The canonical code\<close>

text \<open>The symbols with codes of \<open>l\<close> bits, all symbols in the order of the table, and the first code of \<open>l\<close> bits.\<close>

definition syms :: "buffer \<Rightarrow> nat \<Rightarrow> nat \<Rightarrow> nat list" where
  "syms lens n l = filter (\<lambda>s. unat (lens s) = l) [0..<n]"

definition sorted_syms :: "buffer \<Rightarrow> nat \<Rightarrow> nat \<Rightarrow> nat list" where
  "sorted_syms lens n l = concat (map (syms lens n) [1..<l])"

fun first_code :: "buffer \<Rightarrow> nat \<Rightarrow> nat \<Rightarrow> nat" where
  "first_code lens n 0 = 0"
| "first_code lens n (Suc l) = (if l = 0 then 0 else 2 * (first_code lens n l + length (syms lens n l)))"

text \<open>The lengths can be the lengths of a prefix code.\<close>

definition kraft :: "buffer \<Rightarrow> nat \<Rightarrow> bool" where
  "kraft lens n \<longleftrightarrow> (\<forall>l \<in> set [1..<MAXBITS + 1]. first_code lens n l + length (syms lens n l) \<le> 2 ^ l)"

text \<open>The code of a symbol is the first one of its length plus the number of smaller symbols of that length.\<close>

definition code_of :: "buffer \<Rightarrow> nat \<Rightarrow> nat \<Rightarrow> nat" where
  "code_of lens n s = first_code lens n (unat (lens s)) + length (syms lens s (unat (lens s)))"

definition code_bits :: "buffer \<Rightarrow> nat \<Rightarrow> nat \<Rightarrow> bool list" where
  "code_bits lens n s = map (bit (code_of lens n s)) (rev [0..<unat (lens s)])"

definition lengths_ok :: "buffer \<Rightarrow> nat \<Rightarrow> bool" where
  "lengths_ok lens n \<longleftrightarrow> (\<forall>s \<in> set [0..<n]. unat (lens s) \<le> MAXBITS)"

lemma first_code_0 [simp]: "first_code lens n (Suc 0) = 0"
  by simp

lemma first_code_step: "0 < l \<Longrightarrow> first_code lens n (Suc l) = 2 * (first_code lens n l + length (syms lens n l))"
  by simp

declare first_code.simps(2) [simp del]

lemma sorted_syms_Suc [simp]: "0 < l \<Longrightarrow> sorted_syms lens n (Suc l) = sorted_syms lens n l @ syms lens n l"
  by (cases l) (simp_all add: sorted_syms_def)

lemma sorted_syms_1 [simp]: "sorted_syms lens n (Suc 0) = []"
  by (simp add: sorted_syms_def)

lemma syms_Suc: "syms lens (Suc n) l = (if unat (lens n) = l then syms lens n l @ [n] else syms lens n l)"
  by (simp add: syms_def)

lemma set_syms: "set (syms lens n l) = {s. s < n \<and> unat (lens s) = l}"
  by (auto simp: syms_def)

lemma length_syms_mono: "m \<le> n \<Longrightarrow> length (syms lens m l) \<le> length (syms lens n l)"
  by (induction n rule: dec_induct) (simp_all add: syms_Suc)

lemma syms_nth:
  assumes "s < n"
  shows "length (syms lens s (unat (lens s))) < length (syms lens n (unat (lens s)))"
    "syms lens n (unat (lens s)) ! length (syms lens s (unat (lens s))) = s"
proof -
  let ?l = "unat (lens s)"
  have "[0..<n] = [0..<s] @ [s..<n]" using upt_add_eq_append [of 0 s "n - s"] assms by simp
  moreover have "[s..<n] = s # [Suc s..<n]" using assms by (rule upt_conv_Cons)
  ultimately have "[0..<n] = [0..<s] @ s # [Suc s..<n]" by simp
  then have "syms lens n ?l = syms lens s ?l @ s # filter (\<lambda>t. unat (lens t) = ?l) [Suc s..<n]"
    by (simp add: syms_def)
  then show "length (syms lens s ?l) < length (syms lens n ?l)" "syms lens n ?l ! length (syms lens s ?l) = s"
    by simp_all
qed

lemma length_sorted_mono: "l \<le> m \<Longrightarrow> 1 \<le> l \<Longrightarrow> length (sorted_syms lens n l) \<le> length (sorted_syms lens n m)"
proof (induction m rule: dec_induct)
  case (step m)
  then show ?case by (cases m) simp_all
qed simp

lemma sorted_syms_bound:
  assumes "1 \<le> l" "l < m" "i < length (syms lens n l)"
  shows "length (sorted_syms lens n l) + i < length (sorted_syms lens n m)"
  using length_sorted_mono [of "Suc l" m lens n] assms by simp

lemma sorted_syms_nth:
  assumes "1 \<le> l" "l < m" "i < length (syms lens n l)"
  shows "sorted_syms lens n m ! (length (sorted_syms lens n l) + i) = syms lens n l ! i"
proof -
  have "Suc l \<le> m" using assms(2) by simp
  then show ?thesis
  proof (induction m rule: dec_induct)
    case base
    show ?case using assms(1) by (simp add: nth_append)
  next
    case (step k)
    then show ?case using sorted_syms_bound [OF assms(1) _ assms(3), of k] assms(1) by (simp add: nth_append)
  qed
qed

lemma sorted_syms_cases:
  assumes "i < length (sorted_syms lens n (Suc m))"
  shows "\<exists>l j. 1 \<le> l \<and> l \<le> m \<and> j < length (syms lens n l) \<and> i = length (sorted_syms lens n l) + j"
  using assms
proof (induction m)
  case (Suc m)
  show ?case
  proof (cases "i < length (sorted_syms lens n (Suc m))")
    case True
    from Suc.IH [OF this] obtain l j where "1 \<le> l" "l \<le> m" "j < length (syms lens n l)" "i = length (sorted_syms lens n l) + j"
      by auto
    then have "1 \<le> l \<and> l \<le> Suc m \<and> j < length (syms lens n l) \<and> i = length (sorted_syms lens n l) + j" by simp
    then show ?thesis by (intro exI)
  next
    case False
    then have "1 \<le> Suc m \<and> Suc m \<le> Suc m \<and> i - length (sorted_syms lens n (Suc m)) < length (syms lens n (Suc m)) \<and>
        i = length (sorted_syms lens n (Suc m)) + (i - length (sorted_syms lens n (Suc m)))"
      using Suc.prems by auto
    then show ?thesis by (intro exI)
  qed
qed simp

section \<open>Building a table\<close>

definition is_table :: "huff \<Rightarrow> buffer \<Rightarrow> nat \<Rightarrow> bool" where
  "is_table h lens n \<longleftrightarrow> (\<forall>l. 1 \<le> l \<and> l \<le> MAXBITS \<longrightarrow> count h l = int (length (syms lens n l))) \<and>
     (\<forall>i < length (sorted_syms lens n (MAXBITS + 1)). symbol h i = int (sorted_syms lens n (MAXBITS + 1) ! i))"

lemma count_lengths_syms: "l \<le> MAXBITS \<Longrightarrow> count_lengths lens n c l = int (length (syms lens n l))"
proof (induction n)
  case 0
  then show ?case by (simp add: count_lengths_def syms_def)
next
  case (Suc n)
  then show ?case by (auto simp: count_lengths_def syms_Suc)
qed

lemma offs_sorted:
  assumes "\<And>k. 1 \<le> k \<Longrightarrow> k < l \<Longrightarrow> c k = int (length (syms lens n k))" "1 \<le> l"
  shows "offs c l = int (length (sorted_syms lens n l))"
  using assms(2,1)
proof (induction l rule: dec_induct)
  case (step l)
  then show ?case by (cases l) simp_all
qed simp

lemma check_left_kraft:
  assumes "\<And>k. 1 \<le> k \<Longrightarrow> k < u \<Longrightarrow> c k = int (length (syms lens n k))"
    and "l \<le> u" "1 \<le> l" "2 * left = 2 ^ l - int (first_code lens n l)"
  shows "(\<exists>r. check_left c [l..<u] left = Some r) \<longleftrightarrow> (\<forall>k \<in> {l..<u}. first_code lens n k + length (syms lens n k) \<le> 2 ^ k)"
    "0 \<le> left \<Longrightarrow> check_left c [l..<u] left = Some r \<Longrightarrow> 0 \<le> r"
proof -
  have "((\<exists>r. check_left c [l..<u] left = Some r) \<longleftrightarrow> (\<forall>k \<in> {l..<u}. first_code lens n k + length (syms lens n k) \<le> 2 ^ k)) \<and>
      (0 \<le> left \<longrightarrow> (\<forall>r. check_left c [l..<u] left = Some r \<longrightarrow> 0 \<le> r))"
    using assms(2,3,4)
  proof (induction l arbitrary: left rule: inc_induct)
    case base
    show ?case by simp
  next
    case (step l)
    let ?new = "2 * left - c l"
    have c: "c l = int (length (syms lens n l))" using assms(1) step by simp
    have v: "?new = 2 ^ l - int (first_code lens n l + length (syms lens n l))" using step.prems(2) c by simp
    have le: "?new < 0 \<longleftrightarrow> \<not> first_code lens n l + length (syms lens n l) \<le> 2 ^ l"
      unfolding v by (metis (mono_tags) diff_less_0_iff_less linorder_not_le of_nat_less_iff of_nat_numeral of_nat_power)
    have "2 * ?new = 2 ^ Suc l - int (first_code lens n (Suc l))"
      using v step.prems(1) by (simp add: first_code_step)
    from step.IH [OF _ this] have IH: "((\<exists>r. check_left c [Suc l..<u] ?new = Some r) \<longleftrightarrow>
        (\<forall>k \<in> {Suc l..<u}. first_code lens n k + length (syms lens n k) \<le> 2 ^ k)) \<and>
      (0 \<le> ?new \<longrightarrow> (\<forall>r. check_left c [Suc l..<u] ?new = Some r \<longrightarrow> 0 \<le> r))"
      by simp
    have "[l..<u] = l # [Suc l..<u]" "{l..<u} = insert l {Suc l..<u}" using step by (auto simp: upt_conv_Cons)
    then show ?case using IH le by (auto simp: Let_def)
  qed
  then show "(\<exists>r. check_left c [l..<u] left = Some r) \<longleftrightarrow> (\<forall>k \<in> {l..<u}. first_code lens n k + length (syms lens n k) \<le> 2 ^ k)"
    "0 \<le> left \<Longrightarrow> check_left c [l..<u] left = Some r \<Longrightarrow> 0 \<le> r" by blast+
qed

lemma kraft_check: "kraft lens n \<longleftrightarrow> check_left (\<lambda>l. int (length (syms lens n l))) [1..<MAXBITS + 1] 1 \<noteq> None"
  using check_left_kraft(1) [of "MAXBITS + 1" "\<lambda>l. int (length (syms lens n l))" lens n 1 1]
  by (auto simp: kraft_def MAXBITS_def)

text \<open>The placing of the symbols is a counting sort: each length has its own range of the array.\<close>

lemma place_symbols:
  assumes "lengths_ok lens n" "k \<le> n" "\<And>l. 1 \<le> l \<Longrightarrow> l \<le> MAXBITS \<Longrightarrow> o0 l = int (length (sorted_syms lens n l))"
  shows "\<forall>l. 1 \<le> l \<and> l \<le> MAXBITS \<longrightarrow>
    fst (fold (place_symbol lens) [0..<k] (o0, sy0)) l = int (length (sorted_syms lens n l) + length (syms lens k l)) \<and>
    (\<forall>i < length (syms lens k l). snd (fold (place_symbol lens) [0..<k] (o0, sy0)) (length (sorted_syms lens n l) + i) = int (syms lens k l ! i))"
  using assms(2)
proof (induction k)
  case 0
  then show ?case using assms(3) by (simp add: syms_def)
next
  case (Suc k)
  let ?L = "unat (lens k)" and ?st = "fold (place_symbol lens) [0..<k] (o0, sy0)"
  obtain o1 sy where st: "?st = (o1, sy)" by fastforce
  have nx: "fold (place_symbol lens) [0..<Suc k] (o0, sy0) = place_symbol lens k (o1, sy)" by (simp add: st)
  have IH: "o1 l = int (length (sorted_syms lens n l) + length (syms lens k l))"
    "i < length (syms lens k l) \<Longrightarrow> sy (length (sorted_syms lens n l) + i) = int (syms lens k l ! i)"
    if "1 \<le> l" "l \<le> MAXBITS" for l i
    using Suc that st by simp_all
  show ?case
  proof (cases "lens k = 0")
    case True
    then show ?thesis unfolding nx using IH by (auto simp: place_symbol_def syms_Suc)
  next
    case False
    then have L: "1 \<le> ?L" "?L \<le> MAXBITS" using assms(1) Suc.prems unat_gt_0 [of "lens k"] by (auto simp: lengths_ok_def)
    let ?j = "length (sorted_syms lens n ?L) + length (syms lens k ?L)"
    have kn: "length (syms lens k ?L) < length (syms lens n ?L)" using syms_nth(1) Suc.prems by simp
    have new: "fold (place_symbol lens) [0..<Suc k] (o0, sy0) = (o1(?L := int (Suc ?j)), sy(?j := int k))"
      unfolding nx using False IH(1) [OF L] by (simp add: place_symbol_def nat_add_distrib add.commute)
    have ne: "length (sorted_syms lens n l) + i \<noteq> ?j" if "1 \<le> l" "l \<noteq> ?L" "i < length (syms lens n l)" for l i
    proof (cases "l < ?L")
      case True
      then show ?thesis using sorted_syms_bound [OF that(1) True that(3)] by simp
    next
      case False
      then have "?L < l" using that(2) by simp
      from sorted_syms_bound [OF L(1) this kn] show ?thesis by simp
    qed
    have sub: "length (syms lens k l) \<le> length (syms lens n l)" for l by (rule length_syms_mono) (use Suc.prems in simp)
    show ?thesis
    proof (intro allI impI, elim conjE)
      fix l assume l: "1 \<le> l" "l \<le> MAXBITS"
      show "fst (fold (place_symbol lens) [0..<Suc k] (o0, sy0)) l = int (length (sorted_syms lens n l) + length (syms lens (Suc k) l)) \<and>
        (\<forall>i < length (syms lens (Suc k) l). snd (fold (place_symbol lens) [0..<Suc k] (o0, sy0)) (length (sorted_syms lens n l) + i) = int (syms lens (Suc k) l ! i))"
      proof (cases "l = ?L")
        case True
        then show ?thesis unfolding new using IH(2) [OF L] by (auto simp: syms_Suc nth_append)
      next
        case False
        then show ?thesis unfolding new using IH [OF l] ne [OF l(1) False] sub [of l] by (auto simp: syms_Suc)
      qed
    qed
  qed
qed

lemma first_code_none:
  assumes "\<And>k. 1 \<le> k \<Longrightarrow> syms lens n k = []"
  shows "first_code lens n l = 0"
  by (induction l) (simp_all add: first_code.simps assms)

lemma no_codes:
  assumes "length (syms lens n 0) = n" "1 \<le> l"
  shows "syms lens n l = []"
proof -
  have "\<forall>s < n. unat (lens s) = 0"
  proof (rule ccontr)
    assume "\<not> (\<forall>s < n. unat (lens s) = 0)"
    then obtain s where "s \<in> set [0..<n]" "unat (lens s) \<noteq> 0" by auto
    from length_filter_less [of s "[0..<n]" "\<lambda>s. unat (lens s) = 0", OF this] show False using assms(1) by (simp add: syms_def)
  qed
  then show ?thesis using assms(2) by (auto simp: syms_def filter_empty_conv)
qed

text \<open>The table is built exactly when the lengths satisfy the inequality.\<close>

lemma huff_build_spec:
  assumes "lengths_ok lens n"
  shows "0 \<le> fst (huff_build h lens n) \<longleftrightarrow> kraft lens n"
    "kraft lens n \<Longrightarrow> is_table (snd (huff_build h lens n)) lens n"
proof -
  let ?c = "count_lengths lens n (count h)"
  have c: "?c l = int (length (syms lens n l))" if "l \<le> MAXBITS" for l by (rule count_lengths_syms [OF that])
  have K: "(\<exists>r. check_left ?c [1..<MAXBITS + 1] 1 = Some r) \<longleftrightarrow> kraft lens n"
    "check_left ?c [1..<MAXBITS + 1] 1 = Some r \<Longrightarrow> 0 \<le> r" for r
    using check_left_kraft [of "MAXBITS + 1" ?c lens n 1 1] c by (auto simp: kraft_def MAXBITS_def)
  have "(0 \<le> fst (huff_build h lens n) \<longleftrightarrow> kraft lens n) \<and> (kraft lens n \<longrightarrow> is_table (snd (huff_build h lens n)) lens n)"
  proof (cases "?c 0 = int n")
    case True
    then have e: "syms lens n l = []" if "1 \<le> l" for l using no_codes [of lens n l] c [of 0] that by simp
    then have s: "sorted_syms lens n m = []" for m by (simp add: sorted_syms_def)
    have "kraft lens n" unfolding kraft_def using e first_code_none [of lens n] by auto
    moreover have "is_table (snd (huff_build h lens n)) lens n"
      using True c s by (simp add: is_table_def huff_build_def)
    ultimately show ?thesis using True by (simp add: huff_build_def)
  next
    case False
    show ?thesis
    proof (cases "check_left ?c [1..<MAXBITS + 1] 1")
      case None
      then show ?thesis using K(1) False by (simp add: huff_build_def)
    next
      case (Some r)
      let ?f = "fold (place_symbol lens) [0..<n] (offs ?c, symbol h)"
      have o: "offs ?c l = int (length (sorted_syms lens n l))" if "1 \<le> l" "l \<le> MAXBITS" for l
        using offs_sorted [of l ?c lens n] c that by simp
      have b: "huff_build h lens n = (r, h\<lparr>count := ?c, symbol := snd ?f\<rparr>)"
        using False Some by (simp add: huff_build_def Let_def)
      have "snd ?f i = int (sorted_syms lens n (MAXBITS + 1) ! i)" if i: "i < length (sorted_syms lens n (MAXBITS + 1))" for i
      proof -
        from sorted_syms_cases [of i lens n MAXBITS] i obtain l j where l: "1 \<le> l" "l \<le> MAXBITS"
          "j < length (syms lens n l)" "i = length (sorted_syms lens n l) + j" by auto
        then show ?thesis using place_symbols [OF assms order_refl o, of "symbol h"]
          sorted_syms_nth [of l "MAXBITS + 1" j lens n] by simp
      qed
      then have "is_table (snd (huff_build h lens n)) lens n" unfolding b is_table_def using c by simp
      then show ?thesis using K Some by (auto simp: b)
    qed
  qed
  then show "0 \<le> fst (huff_build h lens n) \<longleftrightarrow> kraft lens n"
    "kraft lens n \<Longrightarrow> is_table (snd (huff_build h lens n)) lens n" by blast+
qed

section \<open>Decoding\<close>

lemma bits_one:
  assumes "reader_ok 7 b" "stream b = x # xs"
  obtains b1 where "bits b 1 = (of_bool x, b1)" "stream b1 = xs" "reader_ok 7 b1" "err b1 = err b"
proof -
  have n: "1 \<le> length (stream b)" using assms(2) by simp
  have "unat (fst (bits b 1)) = unat (of_bool x :: u32)" using bits_spec(1) [OF assms(1) _ n] assms(2) by simp
  then have "fst (bits b 1) = of_bool x" by (simp only: word_unat_eq_iff)
  then have "bits b 1 = (of_bool x, snd (bits b 1))" by (metis prod.collapse)
  then show ?thesis using bits_spec(2-4) [OF assms(1) _ n] assms(2) that by simp
qed

lemma or_low_bit: "2 * p OR of_bool x = 2 * p + (of_bool x :: int)"
  by (cases x) (simp_all add: or_one_eq)

lemma div_pow_bit: "(k :: nat) div 2 ^ m = 2 * (k div 2 ^ Suc m) + of_bool (bit k m)"
proof -
  have "k div 2 ^ Suc m = k div 2 ^ m div 2" by (metis div_mult2_eq power_Suc2)
  then show ?thesis by (simp add: bit_iff_odd div_mult_mod_eq [symmetric] mod_2_eq_odd)
qed

lemma code_step: "2 * int (k div 2 ^ Suc m) OR of_bool (bit k m) = int (k div 2 ^ m)"
  using arg_cong [OF div_pow_bit [of k m], of int] unfolding or_low_bit by (simp only: of_nat_add of_nat_mult of_nat_of_bool of_nat_numeral)

lemma decode_loop_step:
  assumes "bits b 1 = (of_bool x, b1)" "code OR of_bool x = c1"
  shows "decode_loop (l # ls) h code f i b =
    (if c1 - f < count h l then (symbol h (nat (i + (c1 - f))), b1)
     else decode_loop ls h (2 * c1) (2 * (f + count h l)) (i + count h l) b1)"
  using assms by (cases x) (auto simp: Let_def)

lemma first_code_mono:
  assumes "l < L" "1 \<le> l"
  shows "2 ^ (L - l) * (first_code lens n l + length (syms lens n l)) \<le> first_code lens n L"
proof -
  have "Suc l \<le> L" using assms(1) by simp
  then show ?thesis
  proof (induction L rule: dec_induct)
    case base
    show ?case using assms(2) by (simp add: first_code_step)
  next
    case (step m)
    have "2 ^ (Suc m - l) * (first_code lens n l + length (syms lens n l)) =
        2 * (2 ^ (m - l) * (first_code lens n l + length (syms lens n l)))"
      using step by (simp add: Suc_diff_le)
    also have "\<dots> \<le> 2 * first_code lens n m" using step.IH by simp
    also have "\<dots> \<le> first_code lens n (Suc m)" using step by (simp add: first_code_step)
    finally show ?case .
  qed
qed

lemma decode_loop_code:
  assumes "is_table h lens n" "s < n" "L = unat (lens s)" "L \<le> MAXBITS" "k = code_of lens n s"
    and "l \<le> L" "1 \<le> l" "reader_ok 7 b" "stream b = map (bit k) (rev [0..<Suc L - l]) @ rest"
  shows "\<exists>b1. decode_loop [l..<MAXBITS + 1] h (2 * int (k div 2 ^ (Suc L - l))) (int (first_code lens n l))
      (int (length (sorted_syms lens n l))) b = (int s, b1) \<and> stream b1 = rest \<and> reader_ok 7 b1 \<and> err b1 = err b"
  using assms(6-9)
proof (induction l arbitrary: b rule: inc_induct)
  case base
  have k: "k = first_code lens n L + length (syms lens s L)" by (simp add: assms(3,5) code_of_def)
  have r: "length (syms lens s L) < length (syms lens n L)" "syms lens n L ! length (syms lens s L) = s"
    using syms_nth [OF assms(2)] assms(3) by simp_all
  have "stream b = bit k 0 # rest" using base by simp
  from bits_one [OF base.prems(2) this] obtain b1 where b1: "bits b 1 = (of_bool (bit k 0), b1)" "stream b1 = rest"
    "reader_ok 7 b1" "err b1 = err b" by blast
  have code: "2 * int (k div 2 ^ (Suc L - L)) OR of_bool (bit k 0) = int k"
    using code_step [of k 0] by simp
  have "symbol h (length (sorted_syms lens n L) + length (syms lens s L)) = int s"
    using assms(1,4) base.prems(1) r sorted_syms_bound [of L "MAXBITS + 1" "length (syms lens s L)" lens n]
      sorted_syms_nth [of L "MAXBITS + 1" "length (syms lens s L)" lens n] by (simp add: is_table_def)
  moreover have "count h L = int (length (syms lens n L))" using assms(1,4) base.prems(1) by (simp add: is_table_def)
  moreover have up: "[L..<MAXBITS + 1] = L # [Suc L..<MAXBITS + 1]" using assms(4) by (simp add: upt_conv_Cons)
  ultimately show ?case unfolding up decode_loop_step [OF b1(1) code] using b1 k r(1) by (simp add: nat_add_distrib)
next
  case (step l)
  let ?m = "L - l"
  have m: "Suc L - l = Suc ?m" using step by simp
  have "stream b = bit k ?m # map (bit k) (rev [0..<?m]) @ rest" using step.prems(3) m by simp
  from bits_one [OF step.prems(2) this] obtain b1 where b1: "bits b 1 = (of_bool (bit k ?m), b1)"
    "stream b1 = map (bit k) (rev [0..<?m]) @ rest" "reader_ok 7 b1" "err b1 = err b" by blast
  have code: "2 * int (k div 2 ^ Suc ?m) OR of_bool (bit k ?m) = int (k div 2 ^ ?m)"
    by (rule code_step)
  have c: "count h l = int (length (syms lens n l))" using assms(1,4) step by (simp add: is_table_def)
  have "first_code lens n L \<le> k" by (simp add: assms(3,5) code_of_def)
  then have "2 ^ ?m * (first_code lens n l + length (syms lens n l)) \<le> k"
    using first_code_mono [of l L lens n] step by simp
  then have ge: "first_code lens n l + length (syms lens n l) \<le> k div 2 ^ ?m"
    by (simp add: less_eq_div_iff_mult_less_eq mult.commute)
  have up: "[l..<MAXBITS + 1] = l # [Suc l..<MAXBITS + 1]" using assms(4) step by (simp add: upt_conv_Cons)
  have eq: "decode_loop [l..<MAXBITS + 1] h (2 * int (k div 2 ^ (Suc L - l))) (int (first_code lens n l))
      (int (length (sorted_syms lens n l))) b =
    decode_loop [Suc l..<MAXBITS + 1] h (2 * int (k div 2 ^ (Suc L - Suc l))) (int (first_code lens n (Suc l)))
      (int (length (sorted_syms lens n (Suc l)))) b1"
    unfolding up m decode_loop_step [OF b1(1) code] using c ge step.prems(1) by (simp add: first_code_step del: upt_Suc)
  show ?case unfolding eq using step.IH [of b1] b1 step.prems(1) by simp
qed

lemma code_of_less:
  assumes "kraft lens n" "s < n" "lens s \<noteq> 0" "unat (lens s) \<le> MAXBITS"
  shows "code_of lens n s < 2 ^ unat (lens s)"
proof -
  have "1 \<le> unat (lens s)" using assms(3) unat_gt_0 [of "lens s"] by (simp add: Suc_le_eq)
  then have "first_code lens n (unat (lens s)) + length (syms lens n (unat (lens s))) \<le> 2 ^ unat (lens s)"
    using assms(1,4) by (simp add: kraft_def Ball_def del: upt_Suc)
  then show ?thesis using syms_nth(1) [OF assms(2), of lens] by (simp add: code_of_def)
qed

text \<open>A table decodes the code of every symbol to that symbol, and reads no more than the code.\<close>

lemma huff_decode_code:
  assumes "is_table h lens n" "kraft lens n" "lengths_ok lens n" "s < n" "lens s \<noteq> 0"
    and "reader_ok 7 b" "stream b = code_bits lens n s @ rest"
  shows "\<exists>b1. huff_decode b h = (int s, b1) \<and> stream b1 = rest \<and> reader_ok 7 b1 \<and> err b1 = err b"
proof -
  have L: "unat (lens s) \<le> MAXBITS" using assms(3,4) by (simp add: lengths_ok_def)
  have "1 \<le> unat (lens s)" using assms(5) unat_gt_0 [of "lens s"] by (simp add: Suc_le_eq)
  moreover have "code_of lens n s div 2 ^ (Suc (unat (lens s)) - 1) = 0" using code_of_less [OF assms(2,4,5) L] by simp
  ultimately show ?thesis
    using decode_loop_code [OF assms(1,4) refl L refl _ _ assms(6), of 1 rest] assms(7)
    by (simp add: huff_decode_def code_bits_def del: upt_Suc)
qed

text \<open>
  On any input the decoder reads only the part of the table that was built: it answers with a symbol that has a
  code or with -1, and what else the table holds does not matter.
\<close>

lemma bits_bit: "\<exists>x b1. bits b 1 = (of_bool x, b1)"
proof -
  have "v AND (push_bit 1 1 - 1) = (of_bool (bit v 0) :: u32)" for v :: u32
    by (rule bit_word_eqI) (auto simp: bit_and_iff bit_1_iff intro: gr0I)
  then show ?thesis by (cases "fill b 1"; cases "fst (fill b 1)") (auto simp: bits_def intro: exI [of _ False])
qed

lemma decode_loop_range:
  assumes "is_table h lens n" "is_table h' lens n" "l \<le> MAXBITS + 1" "1 \<le> l" "int (first_code lens n l) \<le> 2 * p"
  shows "decode_loop [l..<MAXBITS + 1] h (2 * p) (int (first_code lens n l)) (int (length (sorted_syms lens n l))) b =
      decode_loop [l..<MAXBITS + 1] h' (2 * p) (int (first_code lens n l)) (int (length (sorted_syms lens n l))) b \<and>
    fst (decode_loop [l..<MAXBITS + 1] h (2 * p) (int (first_code lens n l)) (int (length (sorted_syms lens n l))) b)
      \<in> insert (- 1) (int ` set (sorted_syms lens n (MAXBITS + 1)))"
  using assms(3-5)
proof (induction l arbitrary: b p rule: inc_induct)
  case (step l)
  obtain x b1 where b1: "bits b 1 = (of_bool x, b1)" using bits_bit by blast
  let ?N = "length (syms lens n l)" and ?f = "int (first_code lens n l)" and ?i = "int (length (sorted_syms lens n l))"
  define c where "c = 2 * p + of_bool x"
  note d = decode_loop_step [OF b1 or_low_bit [of p x], folded c_def]
  have cnt: "count h l = int ?N" "count h' l = int ?N" using assms(1,2) step by (simp_all add: is_table_def)
  have up: "[l..<MAXBITS + 1] = l # [Suc l..<MAXBITS + 1]" using step by (simp add: upt_conv_Cons)
  have ge: "?f \<le> c" using step.prems by (simp add: c_def)
  show ?case
  proof (cases "c - ?f < int ?N")
    case True
    let ?j = "nat (c - ?f)"
    have j: "?j < ?N" "nat (?i + (c - ?f)) = length (sorted_syms lens n l) + ?j" using True ge by (auto simp: nat_add_distrib)
    have jl: "length (sorted_syms lens n l) + ?j < length (sorted_syms lens n (MAXBITS + 1))"
      using sorted_syms_bound [of l "MAXBITS + 1" ?j lens n] j(1) step by simp
    then have "symbol h (length (sorted_syms lens n l) + ?j) = int (sorted_syms lens n (MAXBITS + 1) ! (length (sorted_syms lens n l) + ?j))"
      "symbol h' (length (sorted_syms lens n l) + ?j) = int (sorted_syms lens n (MAXBITS + 1) ! (length (sorted_syms lens n l) + ?j))"
      using assms(1,2) by (simp_all add: is_table_def)
    then show ?thesis unfolding up d using True j jl cnt by (simp add: del: upt_Suc)
  next
    case False
    then have "int (first_code lens n (Suc l)) \<le> 2 * c" using step.prems by (simp add: first_code_step)
    from step.IH [OF _ this, of b1] show ?thesis
      unfolding up d using False cnt step.prems by (auto simp: first_code_step simp del: upt_Suc)
  qed
qed simp

lemma huff_decode_tables: "is_table h lens n \<Longrightarrow> is_table h' lens n \<Longrightarrow> huff_decode b h = huff_decode b h'"
  using decode_loop_range [of h lens n h' 1 0 b] by (simp add: huff_decode_def del: upt_Suc)

lemma huff_decode_range:
  assumes "is_table h lens n" "huff_decode b h = (r, b1)" "0 \<le> r"
  shows "nat r < n \<and> lens (nat r) \<noteq> 0 \<and> unat (lens (nat r)) \<le> MAXBITS"
proof -
  have "r \<in> int ` set (sorted_syms lens n (MAXBITS + 1))"
    using decode_loop_range [OF assms(1,1), of 1 0 b] assms(2,3) by (auto simp: huff_decode_def simp del: upt_Suc)
  then show ?thesis by (auto simp: sorted_syms_def set_syms MAXBITS_def simp del: upt_Suc)
qed

lemma decode_loop_safe: "reader_safe b \<Longrightarrow> consumed (of_bool (ls \<noteq> [])) b (snd (decode_loop ls h c f i b))"
proof (induction ls arbitrary: b c f i)
  case Nil
  then show ?case by (simp add: consumed_refl)
next
  case (Cons l ls)
  obtain x b1 where b1: "bits b 1 = (of_bool x, b1)" using bits_bit by blast
  have s: "consumed 1 b b1" using bits_safe [OF Cons.prems, of 1] b1 by simp
  have "consumed 1 b (snd (decode_loop ls h c f i b1))" for c f i
    using consumed_trans [OF s Cons.IH [OF consumed_safe [OF s]], of c f i] by (rule consumed_le) simp
  then show ?case using s b1 by (auto simp: Let_def)
qed

lemma huff_decode_safe: "reader_safe b \<Longrightarrow> consumed 1 b (snd (huff_decode b h))"
  using decode_loop_safe [of b "[1..<MAXBITS + 1]" h 0 0 0] by (simp add: huff_decode_def MAXBITS_def del: upt_Suc upt.simps)

section \<open>The code and its table\<close>

text \<open>
  C18. A table is built exactly when the code lengths satisfy the inequality of Kraft, whatever the table held
  before. The table then decodes the canonical code of every symbol to that symbol, consumes the bits of
  the code and no others, and on any input answers only with symbols that have a code, or with -1.
\<close>

theorem huff_code_correct:
  assumes "lengths_ok lens n"
  shows "(0 \<le> fst (huff_build h lens n) \<longleftrightarrow> kraft lens n) \<and>
    (kraft lens n \<longrightarrow>
      (\<forall>s b rest. s < n \<and> lens s \<noteq> 0 \<and> reader_ok 7 b \<and> stream b = code_bits lens n s @ rest \<longrightarrow>
        (\<exists>b1. huff_decode b (snd (huff_build h lens n)) = (int s, b1) \<and> stream b1 = rest \<and> reader_ok 7 b1 \<and> err b1 = err b)) \<and>
      (\<forall>b r b1. huff_decode b (snd (huff_build h lens n)) = (r, b1) \<and> 0 \<le> r \<longrightarrow> nat r < n \<and> lens (nat r) \<noteq> 0))"
  using huff_build_spec [OF assms] huff_decode_code [OF _ _ assms] huff_decode_range by blast

theorem huff_code_correct_witness:
  "\<exists>b1. huff_decode \<lparr>src = \<lambda>_. 0x0F, len = 1, pos = 0, bitbuf = 0, bitcnt = 0, err = False\<rparr>
     (snd (huff_build \<lparr>count = \<lambda>_. 7, symbol = \<lambda>_. 9\<rparr> (\<lambda>i. [2, 1, 3, 3] ! i) 4)) = (3, b1) \<and>
     stream b1 = [True, False, False, False, False]"
proof -
  let ?b = "\<lparr>src = \<lambda>_. 0x0F, len = 1, pos = 0, bitbuf = 0, bitcnt = 0, err = False\<rparr>" and ?l = "\<lambda>i. [2, 1, 3, 3 :: u8] ! i"
  have "lengths_ok ?l 4" by code_simp
  moreover have "kraft ?l 4" unfolding kraft_check by code_simp
  moreover have "reader_ok 7 ?b" by (simp add: reader_ok_def)
  moreover have "stream ?b = code_bits ?l 4 3 @ [True, False, False, False, False]" by code_simp
  moreover have "(3 :: nat) < 4 \<and> ?l 3 \<noteq> 0" by simp
  ultimately show ?thesis
    using huff_code_correct [of ?l 4 "\<lparr>count = \<lambda>_. 7, symbol = \<lambda>_. 9\<rparr>"] by (metis of_nat_numeral)
qed

end
