(* ===== verification/Deflate.thy ===== *)
theory Deflate
  imports Inflate_Huff
begin

text \<open>
  The DEFLATE format as an encoder, and the proof that the decompressor inverts it: the literals and
  matches of a block with any tables, the description of dynamic tables, and streams of stored, fixed and
  dynamic blocks. An encoded stream means a list of bytes, given by \<open>expand\<close> and \<open>blocks_out\<close>.
\<close>

section \<open>Reading what was written\<close>

definition lsb_bits :: "nat \<Rightarrow> nat \<Rightarrow> bool list" where
  "lsb_bits n v = map (bit v) [0..<n]"

lemma length_lsb_bits [simp]: "length (lsb_bits n v) = n"
  by (simp add: lsb_bits_def)

lemma bits_lsb:
  assumes "reader_ok 7 b" "stream b = lsb_bits n v @ rest" "n \<le> 16" "v < 2 ^ n"
  obtains b1 where "bits b n = (of_nat v, b1)" "stream b1 = rest" "reader_ok 7 b1" "err b1 = err b"
proof -
  have n: "n \<le> length (stream b)" using assms(2) by simp
  have "(2 :: nat) ^ n \<le> 2 ^ 16" using assms(3) by (intro power_increasing) simp_all
  then have v: "unat (of_nat v :: u32) = v" using assms(4) by (intro unat_of_nat32) simp
  have "take n (stream b) = map (bit v) [0..<n]" using assms(2) by (simp add: lsb_bits_def)
  then have "unat (fst (bits b n)) = v"
    using bits_spec(1) [OF assms(1,3) n] assms(4) by (simp add: horner_sum_bit_eq_take_bit take_bit_nat_eq_self)
  then have "fst (bits b n) = of_nat v" using v by (simp only: word_unat_eq_iff)
  then have "bits b n = (of_nat v, snd (bits b n))" by (metis prod.collapse)
  then show ?thesis using bits_spec(2-4) [OF assms(1,3) n] assms(2) that by simp
qed

text \<open>A buffer with a list of bytes at its start.\<close>

definition put :: "buffer \<Rightarrow> u8 list \<Rightarrow> buffer" where
  "put dst xs = (\<lambda>i. if i < length xs then xs ! i else dst i)"

lemma put_nth [simp]: "i < length xs \<Longrightarrow> put dst xs i = xs ! i"
  by (simp add: put_def)

lemma put_Nil [simp]: "put dst [] = dst"
  by (simp add: put_def)

lemma put_snoc: "(put dst xs)(length xs := c) = put dst (xs @ [c])"
  by (auto simp: put_def nth_append)

section \<open>The tables of the format\<close>

text \<open>
  The tables of RFC 1951 by the rules behind them. The match length code \<open>257 + l\<close> has no extra bits for the
  first eight codes; then every four codes share a count of extra bits, and a code begins where the one
  before ends; the last is length 258. Distance codes go in pairs (section 3.2.5). Fixed codes have 8, 9, 7
  and 8 bits on the four ranges of symbols (section 3.2.6). The lengths of the code length code are in the
  order 16, 17, 18, 0 and then outward from 8 (section 3.2.7).
\<close>

definition std_len_extra :: "nat \<Rightarrow> nat" where
  "std_len_extra l = (if l < 8 \<or> l = 28 then 0 else l div 4 - 1)"

definition std_len_base :: "nat \<Rightarrow> nat" where
  "std_len_base l = (if l < 8 then 3 + l else if l = 28 then 258 else 3 + (4 + l mod 4) * 2 ^ (l div 4 - 1))"

definition std_dist_extra :: "nat \<Rightarrow> nat" where
  "std_dist_extra d = (if d < 4 then 0 else d div 2 - 1)"

definition std_dist_base :: "nat \<Rightarrow> nat" where
  "std_dist_base d = (if d < 4 then 1 + d else 1 + (2 + d mod 2) * 2 ^ (d div 2 - 1))"

definition std_fixed :: buffer where
  "std_fixed i = (if 144 \<le> i \<and> i \<le> 255 then 9 else if 256 \<le> i \<and> i \<le> 279 then 7 else 8)"

definition std_clc_order :: "nat list" where
  "std_clc_order = [16, 17, 18, 0, 8] @ concat (map (\<lambda>k. [8 - k, 8 + k]) [1..<8])"

text \<open>The tables in the code are those tables.\<close>

lemma std_tables:
  "l < 29 \<Longrightarrow> len_base ! l = std_len_base l" "l < 29 \<Longrightarrow> len_extra ! l = std_len_extra l"
  "d < 30 \<Longrightarrow> dist_base ! d = std_dist_base d" "d < 30 \<Longrightarrow> dist_extra ! d = std_dist_extra d"
proof -
  have l: "len_base = map std_len_base [0..<29]" "len_extra = map std_len_extra [0..<29]"
    by (simp_all add: len_base_def len_extra_def std_len_base_def std_len_extra_def upt_rec)
  have d: "dist_base = map std_dist_base [0..<30]" "dist_extra = map std_dist_extra [0..<30]"
    by (simp_all add: dist_base_def dist_extra_def std_dist_base_def std_dist_extra_def upt_rec)
  show "l < 29 \<Longrightarrow> len_base ! l = std_len_base l" "l < 29 \<Longrightarrow> len_extra ! l = std_len_extra l"
    "d < 30 \<Longrightarrow> dist_base ! d = std_dist_base d" "d < 30 \<Longrightarrow> dist_extra ! d = std_dist_extra d"
    unfolding l d by (simp_all del: upt.simps)
qed

lemma std_order: "clc_order = std_clc_order"
  by (simp add: clc_order_def std_clc_order_def upt_rec)

lemma std_fixed_lengths: "fixed_lengths = std_fixed"
  by (auto simp: fixed_lengths_def std_fixed_def fun_eq_iff)

section \<open>Literals and matches\<close>

datatype token = Lit u8 | Match nat nat nat nat

text \<open>The bytes that a list of tokens stands for, after the bytes already written.\<close>

fun lz_copy :: "nat \<Rightarrow> nat \<Rightarrow> u8 list \<Rightarrow> u8 list" where
  "lz_copy 0 d xs = xs"
| "lz_copy (Suc n) d xs = lz_copy n d (xs @ [xs ! (length xs - d)])"

fun expand :: "token list \<Rightarrow> u8 list \<Rightarrow> u8 list option" where
  "expand [] xs = Some xs"
| "expand (Lit c # ts) xs = expand ts (xs @ [c])"
| "expand (Match l e d f # ts) xs =
     (if std_dist_base d + f \<le> length xs then expand ts (lz_copy (std_len_base l + e) (std_dist_base d + f) xs) else None)"

fun token_ok :: "buffer \<Rightarrow> nat \<Rightarrow> buffer \<Rightarrow> nat \<Rightarrow> token \<Rightarrow> bool" where
  "token_ok ll nl dl nd (Lit c) \<longleftrightarrow> unat c < nl \<and> ll (unat c) \<noteq> 0"
| "token_ok ll nl dl nd (Match l e d f) \<longleftrightarrow> l < 29 \<and> 257 + l < nl \<and> ll (257 + l) \<noteq> 0 \<and> e < 2 ^ (std_len_extra l) \<and>
     d < 30 \<and> d < nd \<and> dl d \<noteq> 0 \<and> f < 2 ^ (std_dist_extra d)"

fun token_bits :: "buffer \<Rightarrow> nat \<Rightarrow> buffer \<Rightarrow> nat \<Rightarrow> token \<Rightarrow> bool list" where
  "token_bits ll nl dl nd (Lit c) = code_bits ll nl (unat c)"
| "token_bits ll nl dl nd (Match l e d f) =
     code_bits ll nl (257 + l) @ lsb_bits (std_len_extra l) e @ code_bits dl nd d @ lsb_bits (std_dist_extra d) f"

lemma length_lz_copy [simp]: "length (lz_copy n d xs) = length xs + n"
  by (induction n d xs rule: lz_copy.induct) simp_all

lemma expand_length: "expand ts xs = Some ys \<Longrightarrow> length xs \<le> length ys"
  by (induction ts xs rule: expand.induct) (auto split: if_splits)

lemma of_nat_Suc32: "of_nat n + 1 = (of_nat (Suc n) :: u32)"
  by simp

lemma copy_match_put:
  assumes "1 \<le> d" "d \<le> length xs" "length xs + n < 4294967296"
  shows "copy_match n (of_nat (length xs - d)) (of_nat (length xs)) (put dst xs) = put dst (lz_copy n d xs)"
  using assms
proof (induction n arbitrary: xs)
  case (Suc n)
  let ?y = "xs @ [xs ! (length xs - d)]"
  have u: "unat (of_nat (length xs) :: u32) = length xs" "unat (of_nat (length xs - d) :: u32) = length xs - d"
    by (rule unat_of_nat32, use Suc.prems in simp)+
  have "length xs - d + 1 = length ?y - d" using Suc.prems by simp
  then have f: "of_nat (length xs - d) + 1 = (of_nat (length ?y - d) :: u32)" by (metis of_nat_1 of_nat_add)
  have o: "of_nat (length xs) + 1 = (of_nat (length ?y) :: u32)" by simp
  have "(put dst xs)(length xs := put dst xs (length xs - d)) = put dst ?y" using Suc.prems by (simp add: put_snoc)
  then show ?case unfolding copy_match.simps lz_copy.simps u f o using Suc.IH [of ?y] Suc.prems by simp
qed simp

lemma base_bounds:
  "l < 29 \<Longrightarrow> len_extra ! l \<le> 5 \<and> len_base ! l \<le> 258"
  "d < 30 \<Longrightarrow> dist_extra ! d \<le> 13 \<and> 1 \<le> dist_base ! d \<and> dist_base ! d \<le> 24577"
proof -
  have "\<forall>l \<in> set [0..<29]. len_extra ! l \<le> 5 \<and> len_base ! l \<le> 258"
    "\<forall>d \<in> set [0..<30]. dist_extra ! d \<le> 13 \<and> 1 \<le> dist_base ! d \<and> dist_base ! d \<le> 24577"
    by (simp_all add: len_extra_def len_base_def dist_extra_def dist_base_def upt_rec)
  then show "l < 29 \<Longrightarrow> len_extra ! l \<le> 5 \<and> len_base ! l \<le> 258"
    "d < 30 \<Longrightarrow> dist_extra ! d \<le> 13 \<and> 1 \<le> dist_base ! d \<and> dist_base ! d \<le> 24577" by simp_all
qed

lemma match_bounds:
  assumes "token_ok ll nl dl nd (Match l e d f)"
  shows "std_len_extra l \<le> 16" "std_dist_extra d \<le> 16" "std_len_base l + e < 1000" "1 \<le> std_dist_base d" "std_dist_base d + f < 40000"
proof -
  have b: "std_len_extra l \<le> 5" "std_len_base l \<le> 258" "std_dist_extra d \<le> 13" "1 \<le> std_dist_base d" "std_dist_base d \<le> 24577"
    using base_bounds [of l] base_bounds(2) [of d] std_tables assms by auto
  have "(2 :: nat) ^ (std_len_extra l) \<le> 2 ^ 5" "(2 :: nat) ^ (std_dist_extra d) \<le> 2 ^ 13"
    using b by (intro power_increasing; simp)+
  then have "e < 32" "f < 8192" using assms by auto
  then show "std_len_extra l \<le> 16" "std_dist_extra d \<le> 16" "std_len_base l + e < 1000" "1 \<le> std_dist_base d" "std_dist_base d + f < 40000"
    using b by simp_all
qed

lemma long_of_nat: "n < 2147483648 \<Longrightarrow> long_of (of_nat n) = int n"
  by (simp add: long_of_def signed_of_nat signed_take_bit_int_eq_self)

text \<open>The two tables of a block.\<close>

definition coded :: "huff \<Rightarrow> buffer \<Rightarrow> nat \<Rightarrow> bool" where
  "coded h lens n \<longleftrightarrow> is_table h lens n \<and> kraft lens n \<and> lengths_ok lens n"

lemma coded_decode:
  assumes "coded h lens n" "s < n" "lens s \<noteq> 0" "reader_ok 7 b" "stream b = code_bits lens n s @ rest"
  obtains b1 where "huff_decode b h = (int s, b1)" "stream b1 = rest" "reader_ok 7 b1" "err b1 = err b"
  using huff_decode_code [of h lens n s b rest] assms by (auto simp: coded_def)

lemma inflate_block_lit:
  assumes "coded lh ll nl" "token_ok ll nl dl nd (Lit c)" "reader_ok 7 b" "\<not> err b"
    and "stream b = token_bits ll nl dl nd (Lit c) @ rest" "length xs < unat cap"
  obtains b1 where "inflate_block b lh dh (put dst xs) cap (of_nat (length xs)) =
      inflate_block b1 lh dh (put dst (xs @ [c])) cap (of_nat (length (xs @ [c])))"
    "stream b1 = rest" "reader_ok 7 b1" "\<not> err b1"
proof -
  obtain b1 where b1: "huff_decode b lh = (int (unat c), b1)" "stream b1 = rest" "reader_ok 7 b1" "err b1 = err b"
    using coded_decode [OF assms(1) _ _ assms(3), of "unat c" rest] assms(2,5) by auto
  have u: "unat (of_nat (length xs) :: u32) = length xs" by (rule unat_of_nat32 [OF less_trans [OF assms(6) unat_bound32]])
  have lt: "uint c < 256" using uint_bounded [of c] by simp
  have w: "(put dst xs)(length xs := word_of_int (int (unat c))) = put dst (xs @ [c])" by (simp add: put_snoc)
  have cap: "\<not> cap \<le> of_nat (length xs)" using assms(6) u by (simp add: word_le_nat_alt)
  have "inflate_block b lh dh (put dst xs) cap (of_nat (length xs)) =
      inflate_block b1 lh dh (put dst (xs @ [c])) cap (of_nat (length (xs @ [c])))"
    by (subst inflate_block.simps) (use b1(1,4) assms(4) cap lt u w in \<open>simp add: add.commute\<close>)
  then show ?thesis using that b1 assms(4) by simp
qed

lemma inflate_block_match:
  assumes "coded lh ll nl" "coded dh dl nd" "token_ok ll nl dl nd (Match l e d f)" "reader_ok 7 b" "\<not> err b"
    and "stream b = token_bits ll nl dl nd (Match l e d f) @ rest" "std_dist_base d + f \<le> length xs"
    and "length xs + (std_len_base l + e) \<le> unat cap" "unat cap < 2147483648"
  obtains b1 where "inflate_block b lh dh (put dst xs) cap (of_nat (length xs)) =
      inflate_block b1 lh dh (put dst (lz_copy (std_len_base l + e) (std_dist_base d + f) xs)) cap
        (of_nat (length (lz_copy (std_len_base l + e) (std_dist_base d + f) xs)))"
    "stream b1 = rest" "reader_ok 7 b1" "\<not> err b1"
proof -
  let ?n = "std_len_base l + e" and ?d = "std_dist_base d + f" and ?o = "of_nat (length xs) :: u32"
  note m = match_bounds [OF assms(3)]
  obtain b1 where b1: "huff_decode b lh = (int (257 + l), b1)" "stream b1 = lsb_bits (std_len_extra l) e @ code_bits dl nd d @ lsb_bits (std_dist_extra d) f @ rest"
    "reader_ok 7 b1" "err b1 = err b"
    by (rule coded_decode [OF assms(1) _ _ assms(4), of "257 + l"]) (use assms(3,6) in auto)
  obtain b2 where b2: "bits b1 (std_len_extra l) = (of_nat e, b2)" "stream b2 = code_bits dl nd d @ lsb_bits (std_dist_extra d) f @ rest"
    "reader_ok 7 b2" "err b2 = err b1"
    by (rule bits_lsb [OF b1(3,2) m(1)]) (use assms(3) in auto)
  obtain b3 where b3: "huff_decode b2 dh = (int d, b3)" "stream b3 = lsb_bits (std_dist_extra d) f @ rest" "reader_ok 7 b3" "err b3 = err b2"
    by (rule coded_decode [OF assms(2) _ _ b2(3), of d]) (use assms(3) b2(2) in auto)
  obtain b4 where b4: "bits b3 (std_dist_extra d) = (of_nat f, b4)" "stream b4 = rest" "reader_ok 7 b4" "err b4 = err b3"
    by (rule bits_lsb [OF b3(3,2) m(2)]) (use assms(3) in auto)
  have u: "unat ?o = length xs" "unat (of_nat ?n :: u32) = ?n" "unat (of_nat ?d :: u32) = ?d" "unat (of_nat (length xs + ?n) :: u32) = length xs + ?n"
    by (rule unat_of_nat32, use assms(7-9) in simp)+
  have s: "of_nat (std_len_base l) + of_nat e = (of_nat ?n :: u32)" "of_nat (std_dist_base d) + of_nat f = (of_nat ?d :: u32)"
    "?o + of_nat ?n = of_nat (length xs + ?n)" "?o - of_nat ?d = of_nat (length xs - ?d)"
    using assms(7) by (simp_all add: of_nat_diff)
  have c: "\<not> ?o < of_nat ?d" "\<not> cap < of_nat (length xs + ?n)"
    unfolding word_less_nat_alt u using assms(7,8) by simp_all
  have cm: "copy_match ?n (of_nat (length xs - ?d)) ?o (put dst xs) = put dst (lz_copy ?n ?d xs)"
    by (rule copy_match_put) (use m(4) assms(7-9) in simp_all)
  have tab: "len_base ! l = std_len_base l" "len_extra ! l = std_len_extra l" "dist_base ! d = std_dist_base d" "dist_extra ! d = std_dist_extra d"
    using std_tables assms(3) by auto
  have sy: "\<not> int (257 + l) < 0" "int (257 + l) \<noteq> 256" "\<not> int (257 + l) < 256" "nat (int (257 + l) - 257) = l" "\<not> 29 \<le> l"
    "\<not> (err b3 \<or> int d < 0 \<or> 30 \<le> int d)" "nat (int d) = d"
    using assms(3,5) b3(4) b2(4) b1(4) by auto
  have "inflate_block b lh dh (put dst xs) cap ?o = inflate_block b4 lh dh (put dst (lz_copy ?n ?d xs)) cap (of_nat (length xs + ?n))"
    by (subst inflate_block.simps) (use b1(4) assms(5) in \<open>simp only: tab b1(1) b2(1) b3(1) b4(1) Let_def prod.case s u c cm sy if_False simp_thms\<close>)
  then show ?thesis using that b4 b3(4) b2(4) b1(4) assms(5) by simp
qed

text \<open>A block expands to what its tokens say, up to the end-of-block symbol and not further.\<close>

lemma inflate_block_tokens:
  assumes "coded lh ll nl" "coded dh dl nd" "256 < nl" "ll 256 \<noteq> 0" "unat cap < 2147483648"
    and "\<forall>t \<in> set ts. token_ok ll nl dl nd t" "expand ts xs = Some ys" "length ys \<le> unat cap"
    and "reader_ok 7 b" "\<not> err b" "stream b = concat (map (token_bits ll nl dl nd) ts) @ code_bits ll nl 256 @ rest"
  shows "\<exists>b1. inflate_block b lh dh (put dst xs) cap (of_nat (length xs)) = Some (int (length ys), b1, put dst ys) \<and>
    stream b1 = rest \<and> reader_ok 7 b1 \<and> \<not> err b1"
  using assms(6-11)
proof (induction ts xs arbitrary: b rule: expand.induct)
  case (1 xs)
  obtain b1 where b1: "huff_decode b lh = (int 256, b1)" "stream b1 = rest" "reader_ok 7 b1" "err b1 = err b"
    by (rule coded_decode [OF assms(1,3,4)]) (use 1 in auto)
  have "long_of (of_nat (length xs)) = int (length xs)" by (rule long_of_nat) (use 1 assms(5) in simp)
  then have "inflate_block b lh dh (put dst xs) cap (of_nat (length xs)) = Some (int (length xs), b1, put dst xs)"
    by (subst inflate_block.simps) (use b1(1,4) 1 in simp)
  then show ?case using b1 1 by simp
next
  case (2 c ts xs)
  let ?rest = "concat (map (token_bits ll nl dl nd) ts) @ code_bits ll nl 256 @ rest"
  have "length xs < unat cap" using expand_length [of ts "xs @ [c]" ys] 2 by simp
  moreover have "token_ok ll nl dl nd (Lit c)" "stream b = token_bits ll nl dl nd (Lit c) @ ?rest" using 2 by simp_all
  ultimately obtain b1 where b1: "inflate_block b lh dh (put dst xs) cap (of_nat (length xs)) =
      inflate_block b1 lh dh (put dst (xs @ [c])) cap (of_nat (length (xs @ [c])))"
    "stream b1 = ?rest" "reader_ok 7 b1" "\<not> err b1"
    using inflate_block_lit [OF assms(1) _ "2.prems"(4,5)] by metis
  show ?case unfolding b1(1) by (rule "2.IH") (use b1 2 in simp_all)
next
  case (3 l e d f ts xs)
  let ?n = "std_len_base l + e" and ?d = "std_dist_base d + f"
  let ?rest = "concat (map (token_bits ll nl dl nd) ts) @ code_bits ll nl 256 @ rest"
  have d: "?d \<le> length xs" "expand ts (lz_copy ?n ?d xs) = Some ys" using 3 by (auto split: if_splits)
  have "length xs + ?n \<le> unat cap" using expand_length [OF d(2)] 3 by simp
  moreover have "token_ok ll nl dl nd (Match l e d f)" "stream b = token_bits ll nl dl nd (Match l e d f) @ ?rest" using 3 by simp_all
  ultimately obtain b1 where b1: "inflate_block b lh dh (put dst xs) cap (of_nat (length xs)) =
      inflate_block b1 lh dh (put dst (lz_copy ?n ?d xs)) cap (of_nat (length (lz_copy ?n ?d xs)))"
    "stream b1 = ?rest" "reader_ok 7 b1" "\<not> err b1"
    using inflate_block_match [OF assms(1,2) _ "3.prems"(4,5) _ d(1) _ assms(5)] by metis
  show ?case unfolding b1(1) by (rule "3.IH" [OF d(1)]) (use b1 d 3 in simp_all)
qed

section \<open>Tables\<close>

lemma coded_build:
  assumes "lengths_ok lens n" "kraft lens n"
  shows "coded (snd (huff_build h lens n)) lens n" "0 \<le> fst (huff_build h lens n)"
  using huff_build_spec [OF assms(1)] assms by (simp_all add: coded_def)

lemma fixed_ok: "lengths_ok fixed_lengths 288" "kraft fixed_lengths 288" "lengths_ok (\<lambda>_. 5) 30" "kraft (\<lambda>_. 5) 30"
proof -
  show "lengths_ok fixed_lengths 288" "lengths_ok (\<lambda>_. 5) 30"
    by (simp_all add: lengths_ok_def fixed_lengths_def MAXBITS_def)
  show "kraft (\<lambda>_. 5) 30" unfolding kraft_check by code_simp
  have up: "[0..<288] = [0..<144] @ [144..<256] @ [256..<280] @ [280..<288 :: nat]"
    using upt_add_eq_append [of 0 144 144] upt_add_eq_append [of 144 256 32] upt_add_eq_append [of 256 280 8] by (simp del: upt.simps)
  have seg: "filter (\<lambda>s. unat (fixed_lengths s) = l) [i..<j] = (if l = v then [i..<j] else [])"
    if "\<And>s. i \<le> s \<Longrightarrow> s < j \<Longrightarrow> unat (fixed_lengths s) = v" for i j l v
    using that by (auto simp: filter_empty_conv filter_id_conv)
  have "length (syms fixed_lengths 288 l) = (if l = 7 then 24 else if l = 8 then 152 else if l = 9 then 112 else 0)" for l
    unfolding syms_def up filter_append
    by (subst seg [of 0 144 8], simp add: fixed_lengths_def) (subst seg [of 144 256 9], simp add: fixed_lengths_def,
      subst seg [of 256 280 7], simp add: fixed_lengths_def, subst seg [of 280 288 8], simp add: fixed_lengths_def, simp del: upt.simps)
  then show "kraft fixed_lengths 288" unfolding kraft_check by (simp only:) code_simp
qed

section \<open>Dynamic tables\<close>

text \<open>The code lengths of a dynamic block are themselves run-length coded and Huffman coded.\<close>

datatype cl_token = Cl nat | Rep nat | Zeros3 nat | Zeros11 nat

fun cl_expand :: "cl_token list \<Rightarrow> u8 list \<Rightarrow> u8 list option" where
  "cl_expand [] xs = Some xs"
| "cl_expand (Cl v # ts) xs = cl_expand ts (xs @ [of_nat v])"
| "cl_expand (Rep k # ts) xs = (if xs = [] then None else cl_expand ts (xs @ replicate (3 + k) (last xs)))"
| "cl_expand (Zeros3 k # ts) xs = cl_expand ts (xs @ replicate (3 + k) 0)"
| "cl_expand (Zeros11 k # ts) xs = cl_expand ts (xs @ replicate (11 + k) 0)"

fun cl_ok :: "buffer \<Rightarrow> cl_token \<Rightarrow> bool" where
  "cl_ok cl (Cl v) \<longleftrightarrow> v < 16 \<and> cl v \<noteq> 0"
| "cl_ok cl (Rep k) \<longleftrightarrow> k < 4 \<and> cl 16 \<noteq> 0"
| "cl_ok cl (Zeros3 k) \<longleftrightarrow> k < 8 \<and> cl 17 \<noteq> 0"
| "cl_ok cl (Zeros11 k) \<longleftrightarrow> k < 128 \<and> cl 18 \<noteq> 0"

fun cl_bits :: "buffer \<Rightarrow> cl_token \<Rightarrow> bool list" where
  "cl_bits cl (Cl v) = code_bits cl 19 v"
| "cl_bits cl (Rep k) = code_bits cl 19 16 @ lsb_bits 2 k"
| "cl_bits cl (Zeros3 k) = code_bits cl 19 17 @ lsb_bits 3 k"
| "cl_bits cl (Zeros11 k) = code_bits cl 19 18 @ lsb_bits 7 k"

lemma cl_expand_length: "cl_expand ts xs = Some ys \<Longrightarrow> length xs + length ts \<le> length ys"
  by (induction ts xs rule: cl_expand.induct) (fastforce split: if_splits)+

lemma cl_expand_small:
  "cl_expand ts xs = Some ys \<Longrightarrow> \<forall>t \<in> set ts. cl_ok cl t \<Longrightarrow> \<forall>x \<in> set xs. unat x \<le> MAXBITS \<Longrightarrow> \<forall>x \<in> set ys. unat x \<le> MAXBITS"
proof (induction ts xs rule: cl_expand.induct)
  case (2 v ts xs)
  have "unat (of_nat v :: u8) \<le> MAXBITS" using 2 by (simp add: unat_of_nat MAXBITS_def)
  then show ?case using 2 by auto
qed (auto split: if_splits)

lemma repeat_len_put:
  "length xs + r \<le> tot \<Longrightarrow> repeat_len r tot v (length xs) (put z xs) = (length xs + r, put z (xs @ replicate r v))"
proof (induction r arbitrary: xs)
  case (Suc r)
  then show ?case using Suc.IH [of "xs @ [v]"] by (simp add: put_snoc replicate_app_Cons_same)
qed simp

lemma read_lengths_run:
  assumes "coded clc cl 19" "reader_ok 7 b" "\<not> err b" "s \<in> {16, 17, 18}" "cl s \<noteq> 0" "n \<le> 7" "k < 2 ^ n"
    and "stream b = code_bits cl 19 s @ lsb_bits n k @ rest"
  obtains b1 b2 where "huff_decode b clc = (int s, b1)" "bits b1 n = (of_nat k, b2)" "unat (of_nat k :: u32) = k"
    "stream b2 = rest" "reader_ok 7 b2" "\<not> err b1" "\<not> err b2"
proof -
  have s: "s < 19" using assms(4) by auto
  obtain b1 where b1: "huff_decode b clc = (int s, b1)" "stream b1 = lsb_bits n k @ rest" "reader_ok 7 b1" "err b1 = err b"
    by (rule coded_decode [OF assms(1) s assms(5,2,8)])
  have n: "n \<le> 16" using assms(6) by simp
  obtain b2 where b2: "bits b1 n = (of_nat k, b2)" "stream b2 = rest" "reader_ok 7 b2" "err b2 = err b1"
    by (rule bits_lsb [OF b1(3,2) n assms(7)])
  have "(2 :: nat) ^ n \<le> 2 ^ 7" using assms(6) by (intro power_increasing) simp_all
  then have "unat (of_nat k :: u32) = k" using assms(7) by (intro unat_of_nat32) simp
  then show ?thesis using that b1 b2 assms(3) by simp
qed

lemma read_lengths_tokens:
  assumes "coded clc cl 19"
    and "\<forall>t \<in> set ts. cl_ok cl t" "cl_expand ts xs = Some ys" "length ys = tot"
    and "reader_ok 7 b" "\<not> err b" "stream b = concat (map (cl_bits cl) ts) @ rest"
  shows "\<exists>b1. read_lengths clc tot (length xs) b (put z xs) = Some (Inr (b1, put z ys)) \<and>
    stream b1 = rest \<and> reader_ok 7 b1 \<and> \<not> err b1"
  using assms(2-7)
proof (induction ts xs arbitrary: b rule: cl_expand.induct)
  case (1 xs)
  then show ?case by (subst read_lengths.simps) simp
next
  case (2 v ts xs)
  have v: "v < 19" "cl v \<noteq> 0" "v < 16" using 2 by auto
  obtain b1 where b1: "huff_decode b clc = (int v, b1)" "stream b1 = concat (map (cl_bits cl) ts) @ rest" "reader_ok 7 b1" "err b1 = err b"
    by (rule coded_decode [OF assms(1) v(1,2) "2.prems"(4)]) (use 2 in auto)
  have n: "length xs < tot" using cl_expand_length [OF "2.prems"(2)] 2 by simp
  have "read_lengths clc tot (length xs) b (put z xs) = read_lengths clc tot (length (xs @ [of_nat v])) b1 (put z (xs @ [of_nat v]))"
    by (subst read_lengths.simps) (use b1(1,4) n v 2 in \<open>simp add: put_snoc\<close>)
  then show ?case using "2.IH" [of b1] b1 2 by simp
next
  case (3 k ts xs)
  have e: "xs \<noteq> []" "cl_expand ts (xs @ replicate (3 + k) (last xs)) = Some ys" using 3 by (auto split: if_splits)
  obtain b1 b2 where b: "huff_decode b clc = (int 16, b1)" "bits b1 2 = (of_nat k, b2)" "unat (of_nat k :: u32) = k"
    "stream b2 = concat (map (cl_bits cl) ts) @ rest" "reader_ok 7 b2" "\<not> err b1" "\<not> err b2"
    by (rule read_lengths_run [OF assms(1) "3.prems"(4,5), of 16 2 k]) (use 3 in auto)
  have n: "length xs < tot" "length xs + (3 + k) \<le> tot" using cl_expand_length [OF e(2)] 3 by simp_all
  have "put z xs (length xs - 1) = last xs" using e(1) by (simp add: last_conv_nth)
  then have "read_lengths clc tot (length xs) b (put z xs) =
      read_lengths clc tot (length xs + (3 + k)) b2 (put z (xs @ replicate (3 + k) (last xs)))"
    by (subst read_lengths.simps) (use b(1,2,3,6) n(1) e(1) repeat_len_put [OF n(2)] in simp)
  then show ?case using "3.IH" [OF e(1), of b2] b 3 e by simp
next
  case (4 k ts xs)
  obtain b1 b2 where b: "huff_decode b clc = (int 17, b1)" "bits b1 3 = (of_nat k, b2)" "unat (of_nat k :: u32) = k"
    "stream b2 = concat (map (cl_bits cl) ts) @ rest" "reader_ok 7 b2" "\<not> err b1" "\<not> err b2"
    by (rule read_lengths_run [OF assms(1) "4.prems"(4,5), of 17 3 k]) (use 4 in auto)
  have n: "length xs < tot" "length xs + (3 + k) \<le> tot" using cl_expand_length [of ts _ ys] 4 by fastforce+
  have "read_lengths clc tot (length xs) b (put z xs) =
      read_lengths clc tot (length xs + (3 + k)) b2 (put z (xs @ replicate (3 + k) 0))"
    by (subst read_lengths.simps) (use b(1,2,3,6) n(1) repeat_len_put [OF n(2)] in simp)
  then show ?case using "4.IH" [of b2] b 4 by simp
next
  case (5 k ts xs)
  obtain b1 b2 where b: "huff_decode b clc = (int 18, b1)" "bits b1 7 = (of_nat k, b2)" "unat (of_nat k :: u32) = k"
    "stream b2 = concat (map (cl_bits cl) ts) @ rest" "reader_ok 7 b2" "\<not> err b1" "\<not> err b2"
    by (rule read_lengths_run [OF assms(1) "5.prems"(4,5), of 18 7 k]) (use 5 in auto)
  have n: "length xs < tot" "length xs + (11 + k) \<le> tot" using cl_expand_length [of ts _ ys] 5 by fastforce+
  have "read_lengths clc tot (length xs) b (put z xs) =
      read_lengths clc tot (length xs + (11 + k)) b2 (put z (xs @ replicate (11 + k) 0))"
    by (subst read_lengths.simps) (use b(1,2,3,6) n(1) repeat_len_put [OF n(2)] in simp)
  then show ?case using "5.IH" [of b2] b 5 by simp
qed

lemma read_clc_lengths:
  assumes "\<forall>i \<in> set is. unat (cl i) < 8" "reader_ok 7 b" "stream b = concat (map (\<lambda>i. lsb_bits 3 (unat (cl i))) is) @ rest"
  shows "\<exists>b1. read_clc is b l = (b1, \<lambda>i. if i \<in> set is then cl i else l i) \<and> stream b1 = rest \<and> reader_ok 7 b1 \<and> err b1 = err b"
  using assms
proof (induction "is" arbitrary: b l)
  case (Cons i "is")
  obtain b1 where b1: "bits b 3 = (of_nat (unat (cl i)), b1)" "stream b1 = concat (map (\<lambda>i. lsb_bits 3 (unat (cl i))) is) @ rest"
    "reader_ok 7 b1" "err b1 = err b"
    by (rule bits_lsb [of b 3 "unat (cl i)"]) (use Cons in auto)
  have u: "ucast (of_nat (unat (cl i)) :: u32) = cl i" by (simp add: ucast_up_ucast_id is_up)
  show ?case using Cons.IH [of b1 "l(i := cl i)"] b1 Cons.prems(1) u by (fastforce simp: fun_eq_iff)
qed auto

record dyn_tables =
  d_hlit :: nat
  d_hdist :: nat
  d_hclen :: nat
  d_clens :: buffer
  d_tokens :: "cl_token list"

definition dyn_bits :: "dyn_tables \<Rightarrow> bool list" where
  "dyn_bits d = lsb_bits 5 (d_hlit d - 257) @ lsb_bits 5 (d_hdist d - 1) @ lsb_bits 4 (d_hclen d - 4) @
     concat (map (\<lambda>i. lsb_bits 3 (unat (d_clens d i))) (take (d_hclen d) std_clc_order)) @
     concat (map (cl_bits (d_clens d)) (d_tokens d))"

text \<open>The code lengths of the two tables.\<close>

definition dyn_lens :: "dyn_tables \<Rightarrow> u8 list" where
  "dyn_lens d = (case cl_expand (d_tokens d) [] of Some ls \<Rightarrow> ls | None \<Rightarrow> [])"

definition dyn_lit :: "dyn_tables \<Rightarrow> buffer" where
  "dyn_lit d = bytes_of (dyn_lens d)"

definition dyn_dist :: "dyn_tables \<Rightarrow> buffer" where
  "dyn_dist d i = bytes_of (dyn_lens d) (d_hlit d + i)"

definition dyn_ok :: "dyn_tables \<Rightarrow> bool" where
  "dyn_ok d \<longleftrightarrow> 257 \<le> d_hlit d \<and> d_hlit d \<le> 286 \<and> 1 \<le> d_hdist d \<and> d_hdist d \<le> 30 \<and> 4 \<le> d_hclen d \<and> d_hclen d \<le> 19 \<and>
     (\<forall>i \<in> set (take (d_hclen d) std_clc_order). unat (d_clens d i) < 8) \<and>
     (\<forall>i \<in> set (drop (d_hclen d) std_clc_order). d_clens d i = 0) \<and> kraft (d_clens d) 19 \<and>
     (\<forall>t \<in> set (d_tokens d). cl_ok (d_clens d) t) \<and> length (dyn_lens d) = d_hlit d + d_hdist d \<and>
     dyn_lit d 256 \<noteq> 0 \<and> kraft (dyn_lit d) (d_hlit d) \<and> kraft (dyn_dist d) (d_hdist d)"

lemma put_zero: "put (\<lambda>_. 0) xs = bytes_of xs"
  by (simp add: put_def bytes_of_def fun_eq_iff)

lemma kraft_cong:
  assumes "\<And>i. i < n \<Longrightarrow> f i = g i"
  shows "kraft f n = kraft g n" "is_table h f n = is_table h g n" "lengths_ok f n = lengths_ok g n" "s < n \<Longrightarrow> code_bits f n s = code_bits g n s"
proof -
  have s: "syms f m l = syms g m l" if "m \<le> n" for m l using assms that by (auto simp: syms_def intro!: filter_cong)
  then have sn: "syms f n = syms g n" by (simp add: fun_eq_iff)
  have c: "first_code f n l = first_code g n l" for l by (induction l) (simp_all add: first_code.simps sn)
  show "kraft f n = kraft g n" "is_table h f n = is_table h g n" "lengths_ok f n = lengths_ok g n" "s < n \<Longrightarrow> code_bits f n s = code_bits g n s"
    using s sn c assms by (simp_all add: kraft_def is_table_def sorted_syms_def lengths_ok_def code_bits_def code_of_def)
qed

lemma std_clc_order_set: "i < 19 \<Longrightarrow> i \<in> set std_clc_order"
proof -
  have "\<forall>i \<in> set [0..<19]. i \<in> set std_clc_order" by (simp add: std_clc_order_def upt_rec)
  then show "i < 19 \<Longrightarrow> i \<in> set std_clc_order" by simp
qed

text \<open>The tables that a dynamic block describes are the ones that are built.\<close>

lemma build_dynamic_spec:
  assumes "dyn_ok d" "reader_ok 7 b" "\<not> err b" "stream b = dyn_bits d @ rest"
  shows "\<exists>b1 lh1 dh1. build_dynamic u0 b lh dh = Some (0, b1, lh1, dh1) \<and> stream b1 = rest \<and> reader_ok 7 b1 \<and> \<not> err b1 \<and>
    coded lh1 (dyn_lit d) (d_hlit d) \<and> coded dh1 (dyn_dist d) (d_hdist d)"
proof -
  let ?cl = "d_clens d" and ?is = "take (d_hclen d) std_clc_order"
  note d = assms(1) [unfolded dyn_ok_def]
  obtain b1 where b1: "bits b 5 = (of_nat (d_hlit d - 257), b1)" "stream b1 = drop 5 (stream b)" "reader_ok 7 b1" "err b1 = err b"
    by (rule bits_lsb [of b 5 "d_hlit d - 257" "drop 5 (stream b)"]) (use assms d in \<open>auto simp: dyn_bits_def\<close>)
  obtain b2 where b2: "bits b1 5 = (of_nat (d_hdist d - 1), b2)" "stream b2 = drop 10 (stream b)" "reader_ok 7 b2" "err b2 = err b1"
    by (rule bits_lsb [of b1 5 "d_hdist d - 1" "drop 10 (stream b)"]) (use assms d b1 in \<open>auto simp: dyn_bits_def\<close>)
  obtain b3 where b3: "bits b2 4 = (of_nat (d_hclen d - 4), b3)" "stream b3 = drop 14 (stream b)" "reader_ok 7 b3" "err b3 = err b2"
    by (rule bits_lsb [of b2 4 "d_hclen d - 4" "drop 14 (stream b)"]) (use assms d b2 in \<open>auto simp: dyn_bits_def\<close>)
  have "drop 14 (stream b) = concat (map (\<lambda>i. lsb_bits 3 (unat (?cl i))) ?is) @ concat (map (cl_bits ?cl) (d_tokens d)) @ rest"
    using assms(4) by (simp add: dyn_bits_def)
  then obtain b4 where b4: "read_clc ?is b3 (\<lambda>_. 0) = (b4, \<lambda>i. if i \<in> set ?is then ?cl i else 0)"
    "stream b4 = concat (map (cl_bits ?cl) (d_tokens d)) @ rest" "reader_ok 7 b4" "err b4 = err b3"
    using read_clc_lengths [of ?is ?cl b3 "concat (map (cl_bits ?cl) (d_tokens d)) @ rest" "\<lambda>_. 0"] b3 d by auto
  define cl where "cl = (\<lambda>i. if i \<in> set ?is then ?cl i else 0)"
  have cl: "cl i = ?cl i" if "i < 19" for i
    using std_clc_order_set [OF that] d set_append [of ?is "drop (d_hclen d) std_clc_order"] by (auto simp: cl_def)
  have "unat (?cl i) \<le> MAXBITS" if "i < 19" for i
    using std_clc_order_set [OF that] d set_append [of ?is "drop (d_hclen d) std_clc_order"] by (fastforce simp: MAXBITS_def)
  then have ok: "lengths_ok ?cl 19" by (simp add: lengths_ok_def)
  have "coded (snd (huff_build u0 cl 19)) cl 19" "0 \<le> fst (huff_build u0 cl 19)"
    using coded_build [of cl 19 u0] ok d kraft_cong [of 19 cl ?cl, OF cl] by simp_all
  then obtain r clc where hb: "huff_build u0 cl 19 = (r, clc)" "0 \<le> r" "coded clc ?cl 19"
    using kraft_cong [of 19 cl ?cl, OF cl] by (cases "huff_build u0 cl 19") (auto simp: coded_def)
  have L: "cl_expand (d_tokens d) [] = Some (dyn_lens d)" using d by (auto simp: dyn_lens_def split: option.splits)
  obtain b5 where b5: "read_lengths clc (d_hlit d + d_hdist d) 0 b4 (\<lambda>_. 0) = Some (Inr (b5, bytes_of (dyn_lens d)))"
    "stream b5 = rest" "reader_ok 7 b5" "\<not> err b5"
    using read_lengths_tokens [OF hb(3) _ L, of "d_hlit d + d_hdist d" b4 rest "\<lambda>_. 0"] d b4 b3 b2 b1 assms(3) by (auto simp: put_zero [of "dyn_lens d"])
  have "\<forall>x \<in> set (dyn_lens d). unat x \<le> MAXBITS" using cl_expand_small [OF L, of ?cl] d by simp
  then have small: "unat (bytes_of (dyn_lens d) i) \<le> MAXBITS" for i by (simp add: bytes_of_def)
  have "coded (snd (huff_build lh (dyn_lit d) (d_hlit d))) (dyn_lit d) (d_hlit d)" "0 \<le> fst (huff_build lh (dyn_lit d) (d_hlit d))"
    "coded (snd (huff_build dh (dyn_dist d) (d_hdist d))) (dyn_dist d) (d_hdist d)" "0 \<le> fst (huff_build dh (dyn_dist d) (d_hdist d))"
    using coded_build [of "dyn_lit d" "d_hlit d" lh] coded_build [of "dyn_dist d" "d_hdist d" dh] small d
    by (simp_all add: lengths_ok_def dyn_lit_def dyn_dist_def)
  then obtain r1 lh1 r2 dh1 where t: "huff_build lh (dyn_lit d) (d_hlit d) = (r1, lh1)" "huff_build dh (dyn_dist d) (d_hdist d) = (r2, dh1)"
    "0 \<le> r1" "0 \<le> r2" "coded lh1 (dyn_lit d) (d_hlit d)" "coded dh1 (dyn_dist d) (d_hdist d)"
    by (metis prod.collapse)
  have u: "unat (of_nat (d_hlit d - 257) :: u32) + 257 = d_hlit d" "unat (of_nat (d_hdist d - 1) :: u32) + 1 = d_hdist d"
    "unat (of_nat (d_hclen d - 4) :: u32) + 4 = d_hclen d"
    using d by (subst unat_of_nat32; linarith)+
  have dd: "(\<lambda>i. dyn_lit d (d_hlit d + i)) = dyn_dist d" "bytes_of (dyn_lens d) = dyn_lit d"
    by (simp_all add: dyn_dist_def dyn_lit_def fun_eq_iff)
  have "build_dynamic u0 b lh dh = Some (0, b5, lh1, dh1)"
    unfolding build_dynamic_def std_order b1(1) b2(1) b3(1) Let_def prod.case u b4(1) cl_def [symmetric] hb(1) b5(1) option.case sum.case dd t(1,2)
    using d hb(2) t(3,4) by simp
  then show ?thesis using b5 t by blast
qed

end
