(* ===== verification/Gzip.thy ===== *)
theory Gzip
  imports Deflate
begin

text \<open>
  Streams of blocks and the gzip container: whatever file an encoder writes, with stored, fixed and dynamic
  blocks in any order and with any optional fields in the header, the decompressor returns the bytes
  that the file stands for.
\<close>

section \<open>Stored blocks\<close>

definition bytes_bits :: "u8 list \<Rightarrow> bool list" where
  "bytes_bits xs = concat (map byte_bits xs)"

lemma bytes_bits_simps [simp]: "bytes_bits [] = []" "bytes_bits (x # xs) = byte_bits x @ bytes_bits xs"
  "bytes_bits (xs @ ys) = bytes_bits xs @ bytes_bits ys" "length (bytes_bits xs) = 8 * length xs"
proof -
  show "length (bytes_bits xs) = 8 * length xs" by (induction xs) (simp_all add: bytes_bits_def)
qed (simp_all add: bytes_bits_def)

lemma byte_bits_inj: "byte_bits c = byte_bits d \<Longrightarrow> c = d"
proof (rule bit_word_eqI)
  fix i assume e: "byte_bits c = byte_bits d" and i: "i < LENGTH(8)"
  have "byte_bits c ! i = byte_bits d ! i" using e by simp
  then show "bit c i = bit d i" using i by (simp add: byte_bits_def del: upt.simps)
qed

lemma bytes_bits_prefix: "bytes_bits ys = bytes_bits xs @ rest \<Longrightarrow> \<exists>zs. ys = xs @ zs \<and> rest = bytes_bits zs"
proof (induction xs arbitrary: ys)
  case (Cons x xs)
  then obtain y ys1 where y: "ys = y # ys1" by (cases ys) (auto dest: arg_cong [of _ _ length])
  have "byte_bits y = byte_bits x \<and> bytes_bits ys1 = bytes_bits xs @ rest"
    using Cons.prems y by (simp add: append_eq_append_conv)
  then show ?case using Cons.IH [of ys1] byte_bits_inj y by auto
qed simp

lemma align8: "a + 8 * m = p + 8 * n + 8 * k \<Longrightarrow> a < 8 \<Longrightarrow> p < 8 \<Longrightarrow> a = (p :: nat)"
  by presburger

lemma aligned_bytes:
  assumes "reader_ok 7 b" "stream b = pad @ bytes_bits xs @ rest" "length pad < 8" "8 dvd length rest"
  shows "unat (pos b) + length xs \<le> unat (len b)" "i < length xs \<Longrightarrow> src b (unat (pos b) + i) = xs ! i"
    "n = length xs \<Longrightarrow> stream (b\<lparr>bitbuf := 0, bitcnt := 0, pos := pos b + of_nat n\<rparr>) = rest"
    "n = length xs \<Longrightarrow> reader_ok 7 (b\<lparr>bitbuf := 0, bitcnt := 0, pos := pos b + of_nat n\<rparr>)"
proof -
  let ?ys = "map (src b) [unat (pos b)..<unat (len b)]"
  have pl: "unat (pos b) \<le> unat (len b)" using assms(1) by (simp add: reader_ok_def word_le_nat_alt)
  have "unat (bitcnt b) + 8 * (unat (len b) - unat (pos b)) = length pad + 8 * length xs + length rest"
    using length_stream [of b] assms(2) by simp
  moreover have "unat (bitcnt b) < 8" using assms(1) by (auto simp: reader_ok_def)
  moreover obtain k where "length rest = 8 * k" using assms(4) by (auto simp: dvd_def)
  ultimately have "unat (bitcnt b) = length pad" using assms(3) align8 by metis
  moreover have "map (bit (bitbuf b)) [0..<unat (bitcnt b)] @ bytes_bits ?ys = pad @ bytes_bits xs @ rest"
    using assms(2) by (simp add: stream_def bytes_bits_def comp_def)
  ultimately have "bytes_bits ?ys = bytes_bits xs @ rest" by (simp add: append_eq_append_conv)
  from bytes_bits_prefix [OF this] obtain zs where zs: "?ys = xs @ zs" "rest = bytes_bits zs" by blast
  have len: "unat (len b) - unat (pos b) = length xs + length zs" using arg_cong [OF zs(1), of length] by simp
  then show l: "unat (pos b) + length xs \<le> unat (len b)" using pl by simp
  show "src b (unat (pos b) + i) = xs ! i" if "i < length xs"
  proof -
    have "?ys ! i = xs ! i" using zs(1) that by (simp add: nth_append)
    then show ?thesis using that len by simp
  qed
  have p: "unat (pos b + of_nat (length xs)) = unat (pos b) + length xs"
  proof -
    have "unat (pos b) + length xs < 4294967296" using l unat_bound32 [of "len b"] by (rule le_less_trans)
    then show ?thesis using unat_add32 [of "pos b" "of_nat (length xs)"] by (simp add: unat_of_nat32)
  qed
  have "drop (length xs) ?ys = zs" using zs(1) by simp
  then have "map (src b) [unat (pos b) + length xs..<unat (len b)] = zs" by (simp add: drop_map)
  then show "stream (b\<lparr>bitbuf := 0, bitcnt := 0, pos := pos b + of_nat n\<rparr>) = rest" if "n = length xs"
    using p zs(2) that by (auto simp: stream_def bytes_bits_def comp_def)
  show "reader_ok 7 (b\<lparr>bitbuf := 0, bitcnt := 0, pos := pos b + of_nat n\<rparr>)" if "n = length xs"
    using p l that by (simp add: reader_ok_def word_le_nat_alt)
qed

definition stored_head :: "nat \<Rightarrow> u8 list" where
  "stored_head n = [of_nat n, of_nat (n div 256), NOT (of_nat n), NOT (of_nat (n div 256))]"

lemma word16_bytes:
  assumes "n < 65536"
  shows "ucast (of_nat n :: u8) OR push_bit 8 (ucast (of_nat (n div 256) :: u8)) = (of_nat n :: u32)"
    "ucast (NOT (of_nat n) :: u8) OR push_bit 8 (ucast (NOT (of_nat (n div 256)) :: u8)) = (of_nat n XOR 0xFFFF :: u32)"
proof -
  have hi: "bit (n div 256) i \<longleftrightarrow> bit n (i + 8)" for i
    by (simp add: bit_iff_odd div_mult2_eq [symmetric] power_add mult.commute)
  have top: "i < 16" if "bit n i" for i
  proof (rule ccontr)
    assume "\<not> i < 16"
    then have "(2 :: nat) ^ 16 \<le> 2 ^ i" by (intro power_increasing) simp_all
    then show False using assms that by (simp add: bit_iff_odd)
  qed
  have m: "(0xFFFF :: u32) = mask 16" by code_simp
  show "ucast (of_nat n :: u8) OR push_bit 8 (ucast (of_nat (n div 256) :: u8)) = (of_nat n :: u32)"
    by (rule bit_word_eqI) (auto simp: bit_simps hi not_less dest: top)
  show "ucast (NOT (of_nat n) :: u8) OR push_bit 8 (ucast (NOT (of_nat (n div 256)) :: u8)) = (of_nat n XOR 0xFFFF :: u32)"
    unfolding m by (rule bit_word_eqI) (auto simp: bit_simps hi not_less dest: top)
qed

lemma inflate_stored_spec:
  assumes "reader_ok 7 b" "stream b = pad @ bytes_bits (stored_head (length zs) @ zs) @ rest" "length pad < 8" "8 dvd length rest"
    and "length zs < 65536" "length xs + length zs \<le> unat cap" "unat cap < 2147483648"
  obtains b1 where "inflate_stored b (put dst xs) cap (of_nat (length xs)) = Inr (b1, put dst (xs @ zs), of_nat (length (xs @ zs)))"
    "stream b1 = rest" "reader_ok 7 b1" "err b1 = err b"
proof -
  let ?n = "length zs" and ?hz = "stored_head (length zs) @ zs"
  have h: "length ?hz = 4 + ?n" by (simp add: stored_head_def)
  note al = aligned_bytes [OF assms(1-4)]
  have l: "unat (pos b) + (4 + ?n) \<le> unat (len b)" using al(1) h by simp
  have p: "unat (pos b + of_nat k) = unat (pos b) + k" if "k \<le> 4 + ?n" for k
  proof -
    have "unat (pos b) + k \<le> unat (len b)" using l that by simp
    then have "unat (pos b) + k < 4294967296" using unat_bound32 [of "len b"] by (rule le_less_trans)
    then show ?thesis using unat_add32 [of "pos b" "of_nat k"] by (simp add: unat_of_nat32)
  qed
  have s: "src b (unat (pos b)) = of_nat ?n" "src b (unat (pos b) + 1) = of_nat (?n div 256)"
    "src b (unat (pos b) + 2) = NOT (of_nat ?n)" "src b (unat (pos b) + 3) = NOT (of_nat (?n div 256))"
    using al(2) [of 0] al(2) [of 1] al(2) [of 2] al(2) [of 3] by (simp_all add: stored_head_def)
  have data: "src b (unat (pos b) + 4 + i) = zs ! i" if "i < ?n" for i
    using al(2) [of "4 + i"] that by (simp add: stored_head_def add.assoc)
  let ?b = "b\<lparr>bitbuf := 0, bitcnt := 0\<rparr>"
  have n1: "src16 ?b (pos b) = of_nat ?n" "src16 ?b (pos b + 2) = of_nat ?n XOR 0xFFFF"
    using word16_bytes [OF assms(5)] s p [of 1] p [of 2] p [of 3] by (simp_all add: src16_def add.assoc)
  have u: "unat (of_nat ?n :: u32) = ?n" "unat (of_nat (length xs) :: u32) = length xs" "unat (of_nat (length (xs @ zs)) :: u32) = length (xs @ zs)"
    by (rule unat_of_nat32, use assms(5-7) in simp)+
  have c: "\<not> len b < pos b + 4" "\<not> len b < pos b + 4 + of_nat ?n" "\<not> cap < of_nat (length xs) + of_nat ?n"
  proof -
    show "\<not> len b < pos b + 4" using p [of 4] l by (simp add: word_less_nat_alt)
    show "\<not> len b < pos b + 4 + of_nat ?n" using p [of "4 + ?n"] l by (simp add: word_less_nat_alt add.assoc)
    have "of_nat (length xs) + of_nat ?n = (of_nat (length (xs @ zs)) :: u32)" by simp
    then show "\<not> cap < of_nat (length xs) + of_nat ?n" using u(3) assms(6) by (simp only: word_less_nat_alt length_append not_less)
  qed
  have cp: "mcpy (put dst xs) (length xs) (src b) (unat (pos b) + 4) ?n = put dst (xs @ zs)"
  proof (rule ext)
    fix x
    show "mcpy (put dst xs) (length xs) (src b) (unat (pos b) + 4) ?n x = put dst (xs @ zs) x"
      using data [of "x - length xs"] by (auto simp: mcpy_apply put_def nth_append)
  qed
  let ?b1 = "b\<lparr>bitbuf := 0, bitcnt := 0, pos := pos b + of_nat (4 + ?n)\<rparr>"
  have e: "pos b + 4 + of_nat ?n = pos b + of_nat (4 + ?n)" by simp
  have "inflate_stored b (put dst xs) cap (of_nat (length xs)) = Inr (?b1, put dst (xs @ zs), of_nat (length (xs @ zs)))"
    using n1 c u p [of 4] cp by (simp add: inflate_stored_def Let_def e)
  moreover have "stream ?b1 = rest" "reader_ok 7 ?b1" using al(3,4) h by simp_all
  ultimately show ?thesis using that by simp
qed

section \<open>Streams of blocks\<close>

datatype block = Stored "u8 list" | Fixed "token list" | Dynamic dyn_tables "token list"

abbreviation fixed_dist :: buffer where
  "fixed_dist \<equiv> \<lambda>_. 5"

fun block_ok :: "block \<Rightarrow> bool" where
  "block_ok (Stored zs) \<longleftrightarrow> length zs < 65536"
| "block_ok (Fixed ts) \<longleftrightarrow> (\<forall>t \<in> set ts. token_ok std_fixed 288 fixed_dist 30 t)"
| "block_ok (Dynamic d ts) \<longleftrightarrow> dyn_ok d \<and> (\<forall>t \<in> set ts. token_ok (dyn_lit d) (d_hlit d) (dyn_dist d) (d_hdist d) t)"

fun block_out :: "block \<Rightarrow> u8 list \<Rightarrow> u8 list option" where
  "block_out (Stored zs) xs = Some (xs @ zs)"
| "block_out (Fixed ts) xs = expand ts xs"
| "block_out (Dynamic d ts) xs = expand ts xs"

fun blocks_out :: "block list \<Rightarrow> u8 list \<Rightarrow> u8 list option" where
  "blocks_out [] xs = Some xs"
| "blocks_out (k # ks) xs = (case block_out k xs of None \<Rightarrow> None | Some ys \<Rightarrow> blocks_out ks ys)"

fun block_type :: "block \<Rightarrow> nat" where
  "block_type (Stored zs) = 0"
| "block_type (Fixed ts) = 1"
| "block_type (Dynamic d ts) = 2"

text \<open>The bits of a block that starts at bit \<open>p\<close> of the stream; a stored block starts at a byte.\<close>

fun block_bits :: "nat \<Rightarrow> block \<Rightarrow> bool list" where
  "block_bits p (Stored zs) = replicate ((8 - p mod 8) mod 8) False @ bytes_bits (stored_head (length zs) @ zs)"
| "block_bits p (Fixed ts) = concat (map (token_bits std_fixed 288 fixed_dist 30) ts) @ code_bits std_fixed 288 256"
| "block_bits p (Dynamic d ts) = dyn_bits d @
     concat (map (token_bits (dyn_lit d) (d_hlit d) (dyn_dist d) (d_hdist d)) ts) @ code_bits (dyn_lit d) (d_hlit d) 256"

fun deflate :: "nat \<Rightarrow> block list \<Rightarrow> bool list" where
  "deflate p [] = []"
| "deflate p (k # ks) = lsb_bits 1 (of_bool (ks = [])) @ lsb_bits 2 (block_type k) @ block_bits (p + 3) k @
     deflate (p + 3 + length (block_bits (p + 3) k)) ks"

lemma block_out_length: "block_out k xs = Some ys \<Longrightarrow> length xs \<le> length ys"
  by (cases k) (auto dest: expand_length)

lemma blocks_out_length: "blocks_out ks xs = Some ys \<Longrightarrow> length xs \<le> length ys"
  by (induction ks arbitrary: xs) (fastforce dest: block_out_length split: option.splits)+

lemma pad_aligned: "8 dvd p + (8 - p mod 8) mod (8 :: nat)"
proof -
  obtain q r where p: "p = 8 * q + r" "r < 8" using that [of "p div 8" "p mod 8"] by simp
  then have r: "p mod 8 = r" by simp
  show ?thesis
  proof (cases "r = 0")
    case True
    then show ?thesis using p by simp
  next
    case False
    then have "(8 - r) mod 8 = 8 - r" by simp
    then have "p + (8 - p mod 8) mod 8 = 8 * (q + 1)" unfolding r using p by simp
    then show ?thesis by simp
  qed
qed

lemma stored_aligned: "8 dvd p + length (block_bits p (Stored zs))"
proof -
  have "p + length (block_bits p (Stored zs)) = p + (8 - p mod 8) mod 8 + 8 * (4 + length zs)"
    by (simp add: stored_head_def)
  then show ?thesis using pad_aligned [of p] by (metis dvd_add dvd_triv_left)
qed

text \<open>One block, whatever its type.\<close>

lemma inflate_coded_fixed:
  assumes "block_ok (Fixed ts)" "expand ts xs = Some ys" "length ys \<le> unat cap" "unat cap < 2147483648"
    and "reader_ok 7 b" "\<not> err b" "stream b = block_bits p (Fixed ts) @ rest"
  shows "\<exists>b1. inflate_coded u0 1 b (put dst xs) cap (of_nat (length xs)) = Some (Inr (b1, put dst ys, of_nat (length ys))) \<and>
    stream b1 = rest \<and> reader_ok 7 b1 \<and> \<not> err b1"
proof -
  obtain lh dh where f: "build_fixed u0 u0 = (lh, dh)" "coded lh std_fixed 288" "coded dh fixed_dist 30"
    using coded_build(1) [OF fixed_ok(1,2)] coded_build(1) [OF fixed_ok(3,4)] by (auto simp: build_fixed_def std_fixed_lengths)
  have "(256 :: nat) < 288" "std_fixed 256 \<noteq> 0" by (simp_all add: std_fixed_def)
  from inflate_block_tokens [OF f(2,3) this assms(4) _ assms(2,3,5,6), of rest dst]
  show ?thesis using assms(1,7) f(1) by (auto simp: inflate_coded_def)
qed

lemma inflate_coded_dynamic:
  assumes "block_ok (Dynamic d ts)" "expand ts xs = Some ys" "length ys \<le> unat cap" "unat cap < 2147483648"
    and "reader_ok 7 b" "\<not> err b" "stream b = block_bits p (Dynamic d ts) @ rest"
  shows "\<exists>b1. inflate_coded u0 2 b (put dst xs) cap (of_nat (length xs)) = Some (Inr (b1, put dst ys, of_nat (length ys))) \<and>
    stream b1 = rest \<and> reader_ok 7 b1 \<and> \<not> err b1"
proof -
  let ?r = "concat (map (token_bits (dyn_lit d) (d_hlit d) (dyn_dist d) (d_hdist d)) ts) @ code_bits (dyn_lit d) (d_hlit d) 256 @ rest"
  have d: "dyn_ok d" using assms(1) by simp
  from build_dynamic_spec [OF this assms(5,6), of ?r u0 u0 u0] assms(7) obtain b1 lh dh where
    b: "build_dynamic u0 b u0 u0 = Some (0, b1, lh, dh)" "stream b1 = ?r" "reader_ok 7 b1" "\<not> err b1"
      "coded lh (dyn_lit d) (d_hlit d)" "coded dh (dyn_dist d) (d_hdist d)" by auto
  have "256 < d_hlit d" "dyn_lit d 256 \<noteq> 0" using d by (auto simp: dyn_ok_def)
  from inflate_block_tokens [OF b(5,6) this assms(4) _ assms(2,3) b(3,4,2), of dst]
  show ?thesis using assms(1) b(1) by (auto simp: inflate_coded_def)
qed

lemma block_type_less: "block_type k < 4"
  by (cases k) simp_all

lemma inflate_one_block:
  assumes "block_ok k" "block_out k xs = Some ys" "length ys \<le> unat cap" "unat cap < 2147483648"
    and "reader_ok 7 b" "\<not> err b" "stream b = block_bits p k @ rest" "8 dvd p + length (stream b)"
  obtains b1 where "(if of_nat (block_type k) = (0 :: u32) then Some (inflate_stored b (put dst xs) cap (of_nat (length xs)))
      else if of_nat (block_type k) = (1 :: u32) \<or> of_nat (block_type k) = (2 :: u32)
        then inflate_coded u0 (of_nat (block_type k)) b (put dst xs) cap (of_nat (length xs))
        else Some (Inl (-16, put dst xs))) = Some (Inr (b1, put dst ys, of_nat (length ys)))"
    "stream b1 = rest" "reader_ok 7 b1" "\<not> err b1"
proof (cases k)
  case (Stored zs)
  have "8 dvd p + length (block_bits p k) + length rest" using assms(7,8) by (simp add: add.assoc)
  then have "8 dvd length rest" using stored_aligned [of p zs] Stored by (metis dvd_add_right_iff)
  moreover have "length (replicate ((8 - p mod 8) mod 8) False) < 8" by simp
  moreover have "stream b = replicate ((8 - p mod 8) mod 8) False @ bytes_bits (stored_head (length zs) @ zs) @ rest"
    using assms(7) Stored by simp
  moreover have "length zs < 65536" "ys = xs @ zs" using assms(1,2) Stored by auto
  ultimately obtain b1 where "inflate_stored b (put dst xs) cap (of_nat (length xs)) = Inr (b1, put dst (xs @ zs), of_nat (length (xs @ zs)))"
    "stream b1 = rest" "reader_ok 7 b1" "err b1 = err b"
    using inflate_stored_spec [OF assms(5), of _ zs rest xs cap dst] assms(3,4) by (metis length_append)
  then show ?thesis using that assms(6) Stored \<open>ys = xs @ zs\<close> by simp
next
  case (Fixed ts)
  then show ?thesis
    using inflate_coded_fixed [of ts xs ys cap b p rest u0 dst] assms that by auto
next
  case (Dynamic d ts)
  then show ?thesis
    using inflate_coded_dynamic [of d ts xs ys cap b p rest u0 dst] assms that by auto
qed

lemma inflate_blocks_spec:
  assumes "ks \<noteq> []" "\<forall>k \<in> set ks. block_ok k" "blocks_out ks xs = Some ys" "length ys \<le> unat cap" "unat cap < 2147483648"
    and "reader_ok 7 b" "\<not> err b" "stream b = deflate p ks @ rest" "8 dvd p + length (stream b)"
  shows "inflate_blocks u0 b (put dst xs) cap (of_nat (length xs)) = Some (int (length ys), put dst ys)"
  using assms(1-3,6-9)
proof (induction ks arbitrary: xs b p)
  case (Cons k ks)
  let ?p = "p + 3 + length (block_bits (p + 3) k)"
  obtain zs where zs: "block_out k xs = Some zs" "blocks_out ks zs = Some ys" using Cons.prems(3) by (auto split: option.splits)
  have lz: "length zs \<le> unat cap" using blocks_out_length [OF zs(2)] assms(4) by simp
  obtain b1 where b1: "bits b 1 = (of_nat (of_bool (ks = [])), b1)" "stream b1 = lsb_bits 2 (block_type k) @ block_bits (p + 3) k @ deflate ?p ks @ rest"
    "reader_ok 7 b1" "err b1 = err b"
    by (rule bits_lsb [OF Cons.prems(4), of 1 "of_bool (ks = [])"]) (use Cons.prems(6) in auto)
  obtain b2 where b2: "bits b1 2 = (of_nat (block_type k), b2)" "stream b2 = block_bits (p + 3) k @ deflate ?p ks @ rest"
    "reader_ok 7 b2" "err b2 = err b1"
    by (rule bits_lsb [OF b1(3,2)]) (use block_type_less [of k] in auto)
  have e: "\<not> err b2" using b1(4) b2(4) Cons.prems(5) by simp
  have al: "p + length (stream b) = p + 3 + length (stream b2)" "p + length (stream b) = ?p + length (deflate ?p ks @ rest)"
    using Cons.prems(6) b2(2) by simp_all
  obtain b3 where b3: "(if of_nat (block_type k) = (0 :: u32) then Some (inflate_stored b2 (put dst xs) cap (of_nat (length xs)))
      else if of_nat (block_type k) = (1 :: u32) \<or> of_nat (block_type k) = (2 :: u32)
        then inflate_coded u0 (of_nat (block_type k)) b2 (put dst xs) cap (of_nat (length xs))
        else Some (Inl (-16, put dst xs))) = Some (Inr (b3, put dst zs, of_nat (length zs)))"
    "stream b3 = deflate ?p ks @ rest" "reader_ok 7 b3" "\<not> err b3"
    by (rule inflate_one_block [OF _ zs(1) lz assms(5) b2(3) e b2(2), where dst = dst and ?u0.0 = u0])
      (use Cons.prems(2,7) al(1) in simp_all)
  have st: "inflate_blocks u0 b (put dst xs) cap (of_nat (length xs)) =
    (if (of_nat (of_bool (ks = [])) :: u32) = 0 then inflate_blocks u0 b3 (put dst zs) cap (of_nat (length zs))
     else Some (long_of (of_nat (length zs)), put dst zs))"
    by (subst inflate_blocks.simps) (simp only: b1(1) b2(1) prod.case e if_False b3(1) option.case sum.case)
  show ?case
  proof (cases "ks = []")
    case True
    then have "ys = zs" using zs(2) by simp
    then show ?thesis unfolding st using True long_of_nat [of "length zs"] lz assms(5) by simp
  next
    case False
    have "inflate_blocks u0 b3 (put dst zs) cap (of_nat (length zs)) = Some (int (length ys), put dst ys)"
      by (rule Cons.IH [OF False _ zs(2) b3(3,4,2)]) (use Cons.prems(2,7) b3(2) al(2) in simp_all)
    then show ?thesis unfolding st using False by simp
  qed
qed simp

section \<open>Bits in bytes\<close>

function pack :: "bool list \<Rightarrow> u8 list" where
  "pack [] = []"
| "pack (x # xs) = horner_sum of_bool 2 (take 8 (x # xs)) # pack (drop 8 (x # xs))"
  by pat_completeness auto
termination by (relation "measure length") auto

lemma byte_bits_horner:
  assumes "length xs \<le> 8"
  shows "byte_bits (horner_sum of_bool 2 xs) = xs @ replicate (8 - length xs) False"
  unfolding byte_bits_def using assms
  by (intro nth_equalityI) (auto simp: bit_horner_sum_bit_iff nth_append simp del: upt.simps)

lemma bytes_bits_pack: "\<exists>pad. bytes_bits (pack bs) = bs @ pad"
proof (induction bs rule: pack.induct)
  case (2 x xs)
  let ?bs = "x # xs"
  have h: "byte_bits (horner_sum of_bool 2 (take 8 ?bs)) = take 8 ?bs @ replicate (8 - length (take 8 ?bs)) False"
    by (rule byte_bits_horner) simp
  obtain pad where pad: "bytes_bits (pack (drop 8 ?bs)) = drop 8 ?bs @ pad" using "2.IH" by blast
  show ?case
  proof (cases "8 \<le> length ?bs")
    case True
    then have "length (take 8 ?bs) = 8" by simp
    then have "bytes_bits (pack ?bs) = take 8 ?bs @ drop 8 ?bs @ pad" using h pad by (simp only: pack.simps bytes_bits_simps) simp
    then show ?thesis by (metis append.assoc append_take_drop_id)
  next
    case False
    then have "take 8 ?bs = ?bs" "drop 8 ?bs = []" by simp_all
    then have "bytes_bits (pack ?bs) = ?bs @ replicate (8 - length ?bs) False @ pad" using h pad by (simp only: pack.simps bytes_bits_simps) simp
    then show ?thesis by blast
  qed
qed simp

text \<open>A raw stream, packed into bytes, is decompressed to what its blocks stand for.\<close>

lemma inflate_raw_spec:
  assumes "ks \<noteq> []" "\<forall>k \<in> set ks. block_ok k" "blocks_out ks [] = Some ys" "length ys \<le> unat cap" "unat cap < 2147483648"
    and "n = length (pack (deflate 0 ks))" "n < 4294967296" "\<And>i. i < n \<Longrightarrow> s i = pack (deflate 0 ks) ! i"
  shows "inflate_raw u0 s (of_nat n) dst cap = Some (int (length ys), put dst ys)"
proof -
  let ?b = "\<lparr>src = s, len = of_nat n, pos = 0, bitbuf = 0, bitcnt = 0, err = False\<rparr>"
  have u: "unat (of_nat n :: u32) = n" by (rule unat_of_nat32 [OF assms(7)])
  have pk: "pack (deflate 0 ks) = map s [0..<n]" using assms(6,8) by (intro nth_equalityI) simp_all
  have st: "stream ?b = bytes_bits (pack (deflate 0 ks))"
    unfolding pk using u by (simp add: stream_def bytes_bits_def comp_def)
  obtain pad where pad: "stream ?b = deflate 0 ks @ pad" using bytes_bits_pack st by metis
  have al: "8 dvd 0 + length (stream ?b)" unfolding st by simp
  have "reader_ok 7 ?b" by (simp add: reader_ok_def)
  from inflate_blocks_spec [OF assms(1-5) this _ pad al, of u0 dst]
  show ?thesis by (simp add: inflate_raw_def)
qed

section \<open>The checksum\<close>

text \<open>
  The checksum of RFC 1952 as ISO 3309 defines it: a polynomial over the field of two elements. The bits of
  the message, least significant bit of every byte first, are the coefficients of a polynomial, highest
  first. It is multiplied by \<open>x^32\<close>, its first 32 coefficients are complemented, and the complement of the
  remainder after division by the generator is the checksum.
\<close>

definition crc_generator :: "nat set" where
  "crc_generator = {32, 26, 23, 22, 16, 12, 11, 10, 8, 7, 5, 4, 2, 1, 0}"

fun add_bits :: "bool list \<Rightarrow> bool list \<Rightarrow> bool list" where
  "add_bits [] ys = ys"
| "add_bits xs [] = xs"
| "add_bits (x # xs) (y # ys) = (x \<noteq> y) # add_bits xs ys"

lemma length_add_bits [simp]: "length (add_bits xs ys) = max (length xs) (length ys)"
  by (induction xs ys rule: add_bits.induct) simp_all

function poly_rem :: "bool list \<Rightarrow> bool list" where
  "poly_rem xs = (if length xs \<le> 32 then xs
     else poly_rem (if hd xs then tl (add_bits (map (\<lambda>i. i \<in> crc_generator) (rev [0..<33])) xs) else tl xs))"
  by pat_completeness auto
termination by (relation "measure length") auto

declare poly_rem.simps [simp del]

definition gz_crc :: "u8 list \<Rightarrow> u32" where
  "gz_crc ys = horner_sum of_bool 2 (map Not (poly_rem (add_bits (replicate 32 True) (bytes_bits ys @ replicate 32 False))))"

text \<open>The register of the code holds the first 32 coefficients, the highest in bit 0.\<close>

definition reg_bits :: "u32 \<Rightarrow> bool list" where
  "reg_bits c = map (bit c) [0..<32]"

lemma nth_add_bits: "i < max (length xs) (length ys) \<Longrightarrow>
  add_bits xs ys ! i = ((i < length xs \<and> xs ! i) \<noteq> (i < length ys \<and> ys ! i))"
proof (induction xs ys arbitrary: i rule: add_bits.induct)
  case (3 x xs y ys)
  then show ?case by (cases i) auto
qed auto

lemma length_reg_bits [simp]: "length (reg_bits c) = 32"
  by (simp add: reg_bits_def)

lemma nth_reg_bits [simp]: "i < 32 \<Longrightarrow> reg_bits c ! i = bit c i"
  by (simp add: reg_bits_def)

lemma add_byte:
  assumes "24 \<le> length rest"
  shows "add_bits (reg_bits c) (byte_bits y @ rest) = add_bits (reg_bits (c XOR ucast y)) (replicate 8 False @ rest)"
proof (rule nth_equalityI)
  fix i assume i: "i < length (add_bits (reg_bits c) (byte_bits y @ rest))"
  then have "i < 8 + length rest" using assms by simp
  then show "add_bits (reg_bits c) (byte_bits y @ rest) ! i = add_bits (reg_bits (c XOR ucast y)) (replicate 8 False @ rest) ! i"
    using i assms bit_imp_le_length [of y i] by (cases "i < 8")
      (auto simp: nth_add_bits nth_append byte_bits_def bit_simps simp del: upt.simps)
qed (use assms in simp)

lemma generator_bits: "i < 32 \<Longrightarrow> map (\<lambda>i. i \<in> crc_generator) (rev [0..<33]) ! Suc i \<longleftrightarrow> bit (0xEDB88320 :: u32) i"
proof -
  have "\<forall>i \<in> set [0..<32]. map (\<lambda>i. i \<in> crc_generator) (rev [0..<33]) ! Suc i \<longleftrightarrow> bit (0xEDB88320 :: u32) i"
    by code_simp
  then show "i < 32 \<Longrightarrow> map (\<lambda>i. i \<in> crc_generator) (rev [0..<33]) ! Suc i \<longleftrightarrow> bit (0xEDB88320 :: u32) i" by simp
qed

lemma bit_crc_bit: "i < 32 \<Longrightarrow> bit (crc_bit c) i = (bit c (Suc i) \<noteq> (bit (0xEDB88320 :: u32) i \<and> bit c 0))"
proof -
  have "c AND 1 = of_bool (bit c 0)" by (simp add: and_one_eq mod_2_eq_odd bit_0)
  then show "i < 32 \<Longrightarrow> bit (crc_bit c) i = (bit c (Suc i) \<noteq> (bit (0xEDB88320 :: u32) i \<and> bit c 0))"
    by (cases "bit c 0") (simp_all add: crc_bit_def bit_simps)
qed

lemma division_step:
  assumes "32 \<le> length rest"
  shows "poly_rem (add_bits (reg_bits c) (False # rest)) = poly_rem (add_bits (reg_bits (crc_bit c)) rest)"
proof -
  let ?xs = "add_bits (reg_bits c) (False # rest)" and ?g = "map (\<lambda>i. i \<in> crc_generator) (rev [0..<33])"
  have l: "length ?xs = Suc (length rest)" "length ?g = 33" using assms by simp_all
  have "?xs \<noteq> []" using l(1) by (cases ?xs) auto
  then have x0: "hd ?xs = bit c 0" using l(1) by (simp add: hd_conv_nth nth_add_bits)
  have "(if hd ?xs then tl (add_bits ?g ?xs) else tl ?xs) = add_bits (reg_bits (crc_bit c)) rest"
  proof (rule nth_equalityI)
    show "length (if hd ?xs then tl (add_bits ?g ?xs) else tl ?xs) = length (add_bits (reg_bits (crc_bit c)) rest)"
      using l assms by (simp del: upt.simps)
    fix i assume "i < length (if hd ?xs then tl (add_bits ?g ?xs) else tl ?xs)"
    then have i: "i < length rest" using l assms by (simp del: upt.simps split: if_splits)
    have xs: "?xs ! Suc i = ((i < 31 \<and> bit c (Suc i)) \<noteq> rest ! i)"
      using i l by (auto simp: nth_add_bits)
    have gi: "add_bits ?g ?xs ! Suc i = ((i < 32 \<and> ?g ! Suc i) \<noteq> ?xs ! Suc i)"
      using i l by (subst nth_add_bits) auto
    have "\<not> bit c 32" using bit_imp_le_length [of c 32] by auto
    then have top: "i < 32 \<Longrightarrow> bit c (Suc i) = (i < 31 \<and> bit c (Suc i))" by (cases "i = 31") auto
    have "(if hd ?xs then tl (add_bits ?g ?xs) else tl ?xs) ! i = (if bit c 0 then add_bits ?g ?xs ! Suc i else ?xs ! Suc i)"
      using i l x0 by (auto simp: nth_tl)
    also have "\<dots> = ((i < 32 \<and> bit (crc_bit c) i) \<noteq> rest ! i)"
      unfolding gi xs using generator_bits [of i] bit_crc_bit [of i c] top by auto
    also have "\<dots> = add_bits (reg_bits (crc_bit c)) rest ! i" using i assms by (subst nth_add_bits) auto
    finally show "(if hd ?xs then tl (add_bits ?g ?xs) else tl ?xs) ! i = add_bits (reg_bits (crc_bit c)) rest ! i" .
  qed
  then show ?thesis using l assms by (subst poly_rem.simps) (simp del: upt.simps)
qed

lemma division_steps:
  "32 \<le> length rest \<Longrightarrow> poly_rem (add_bits (reg_bits c) (replicate n False @ rest)) = poly_rem (add_bits (reg_bits ((crc_bit ^^ n) c)) rest)"
  by (induction n arbitrary: c) (simp_all add: division_step funpow_swap1)

lemma division_bytes:
  "poly_rem (add_bits (reg_bits c) (bytes_bits ys @ replicate 32 False)) =
     reg_bits (fold (\<lambda>y crc. (crc_bit ^^ 8) (crc XOR ucast y)) ys c)"
proof (induction ys arbitrary: c)
  case Nil
  have "add_bits (reg_bits c) (replicate 32 False) = reg_bits c"
    by (rule nth_equalityI) (simp_all add: nth_add_bits)
  then show ?case by (simp add: poly_rem.simps)
next
  case (Cons y ys)
  let ?rest = "bytes_bits ys @ replicate 32 False"
  have "poly_rem (add_bits (reg_bits c) (bytes_bits (y # ys) @ replicate 32 False)) =
      poly_rem (add_bits (reg_bits (c XOR ucast y)) (replicate 8 False @ ?rest))"
    using add_byte [of ?rest c y] by simp
  also have "\<dots> = poly_rem (add_bits (reg_bits ((crc_bit ^^ 8) (c XOR ucast y))) ?rest)"
    by (rule division_steps) simp
  finally show ?case using Cons.IH by simp
qed

lemma crc32_division: "crc32 (bytes_of ys) (length ys) = gz_crc ys"
proof -
  have ones: "reg_bits 0xFFFFFFFF = replicate 32 True" by code_simp
  have "map (bytes_of ys) [0..<length ys] = ys" by (rule nth_equalityI) (simp_all add: bytes_of_def)
  then have fold: "fold (\<lambda>i crc. (crc_bit ^^ 8) (crc XOR ucast (bytes_of ys i))) [0..<length ys] c =
      fold (\<lambda>y crc. (crc_bit ^^ 8) (crc XOR ucast y)) ys c" for c
    using fold_map [of "\<lambda>y crc. (crc_bit ^^ 8) (crc XOR ucast y)" "bytes_of ys" "[0..<length ys]"] by (simp add: comp_def)
  have compl: "(c :: u32) XOR 0xFFFFFFFF = horner_sum of_bool 2 (map Not (reg_bits c))" for c
  proof (rule bit_word_eqI)
    fix i assume "i < LENGTH(32)"
    moreover have "bit (0xFFFFFFFF :: u32) i" if "i < 32" for i
      using ones nth_reg_bits [OF that, of "0xFFFFFFFF"] that by simp
    ultimately show "bit (c XOR 0xFFFFFFFF) i = bit (horner_sum of_bool 2 (map Not (reg_bits c)) :: u32) i"
      by (simp add: bit_horner_sum_bit_iff bit_simps)
  qed
  show ?thesis unfolding crc32_def fold compl gz_crc_def ones [symmetric] division_bytes by (rule refl)
qed

section \<open>The container\<close>

record gz_head =
  g_misc :: "u8 list"
  g_text :: bool
  g_extra :: "u8 list option"
  g_name :: "u8 list option"
  g_comment :: "u8 list option"
  g_hcrc :: "u8 list option"

definition opt_bytes :: "(u8 list \<Rightarrow> u8 list) \<Rightarrow> u8 list option \<Rightarrow> u8 list" where
  "opt_bytes f x = (case x of None \<Rightarrow> [] | Some xs \<Rightarrow> f xs)"

definition len_prefixed :: "u8 list \<Rightarrow> u8 list" where
  "len_prefixed xs = [of_nat (length xs), of_nat (length xs div 256)] @ xs"

definition gz_flags :: "gz_head \<Rightarrow> u8" where
  "gz_flags g = of_bool (g_text g) + 2 * of_bool (g_hcrc g \<noteq> None) + 4 * of_bool (g_extra g \<noteq> None) +
     8 * of_bool (g_name g \<noteq> None) + 16 * of_bool (g_comment g \<noteq> None)"

definition gz_header :: "gz_head \<Rightarrow> u8 list" where
  "gz_header g = [0x1f, 0x8b, 8, gz_flags g] @ g_misc g @ opt_bytes len_prefixed (g_extra g) @
     opt_bytes (\<lambda>xs. xs @ [0]) (g_name g) @ opt_bytes (\<lambda>xs. xs @ [0]) (g_comment g) @ opt_bytes (\<lambda>xs. xs) (g_hcrc g)"

definition gz_ok :: "gz_head \<Rightarrow> bool" where
  "gz_ok g \<longleftrightarrow> length (g_misc g) = 6 \<and> (\<forall>xs \<in> set_option (g_extra g). length xs < 65536) \<and>
     (\<forall>xs \<in> set_option (g_name g). 0 \<notin> set xs) \<and> (\<forall>xs \<in> set_option (g_comment g). 0 \<notin> set xs) \<and>
     (\<forall>xs \<in> set_option (g_hcrc g). length xs = 2)"

definition le32 :: "u32 \<Rightarrow> u8 list" where
  "le32 v = [ucast v, ucast (drop_bit 8 v), ucast (drop_bit 16 v), ucast (drop_bit 24 v)]"

text \<open>The file for a header and blocks that stand for the bytes \<open>ys\<close>.\<close>

definition gzip :: "gz_head \<Rightarrow> block list \<Rightarrow> u8 list \<Rightarrow> u8 list" where
  "gzip g ks ys = gz_header g @ pack (deflate 0 ks) @ le32 (gz_crc ys) @ le32 (of_nat (length ys))"

lemma gz_flag_bits:
  fixes f :: u8
  assumes "f = of_bool a + 2 * of_bool b + 4 * of_bool c + 8 * of_bool d + 16 * of_bool e"
  shows "f AND 2 \<noteq> 0 \<longleftrightarrow> b" "f AND 4 \<noteq> 0 \<longleftrightarrow> c" "f AND 8 \<noteq> 0 \<longleftrightarrow> d" "f AND 16 \<noteq> 0 \<longleftrightarrow> e"
  unfolding assms by (cases a; cases b; cases c; cases d; cases e; simp)+

lemma le32_get:
  assumes "\<And>i. i < 4 \<Longrightarrow> s (p + i) = le32 v ! i"
  shows "get32 s p = v"
proof -
  have "s p = ucast v" "s (p + 1) = ucast (drop_bit 8 v)" "s (p + 2) = ucast (drop_bit 16 v)" "s (p + 3) = ucast (drop_bit 24 v)"
    using assms [of 0] assms [of 1] assms [of 2] assms [of 3] by (simp_all add: le32_def)
  then have "get32 s p = get32 (put32 p v s) p" by (simp add: get32_def put32_def)
  then show ?thesis by simp
qed

lemma skip_name_spec:
  assumes "0 \<notin> set xs" "p + length xs + 1 \<le> n" "n < 4294967296" "\<And>i. i < length xs + 1 \<Longrightarrow> s (p + i) = (xs @ [0]) ! i"
  shows "skip_name s (of_nat n) (of_nat p) = of_nat (p + length xs + 1)"
  using assms
proof (induction xs arbitrary: p)
  case Nil
  have u: "unat (of_nat n :: u32) = n" "unat (of_nat p :: u32) = p" by (rule unat_of_nat32, use Nil in simp)+
  then show ?case using Nil.prems(2) Nil.prems(4) [of 0] by (subst skip_name.simps) (simp add: word_less_nat_alt)
next
  case (Cons x xs)
  have u: "unat (of_nat n :: u32) = n" "unat (of_nat p :: u32) = p" by (rule unat_of_nat32, use Cons in simp)+
  have "s p = x" using Cons.prems(4) [of 0] by simp
  then have "skip_name s (of_nat n) (of_nat p) = skip_name s (of_nat n) (of_nat (Suc p))"
    using u Cons.prems(1,2) by (subst skip_name.simps) (simp add: word_less_nat_alt add.commute)
  moreover have "s (Suc p + i) = (xs @ [0]) ! i" if "i < length xs + 1" for i
    using Cons.prems(4) [of "Suc i"] that by simp
  ultimately show ?case using Cons.IH [of "Suc p"] Cons.prems by simp
qed

lemma segment:
  assumes "\<And>i. i < length file \<Longrightarrow> s i = file ! i" "file = pre @ mid @ post" "i < length mid"
  shows "s (length pre + i) = mid ! i"
  using assms(1) [of "length pre + i"] assms(2,3) by (simp add: nth_append)

lemma skip_opt:
  assumes "\<And>i. i < length file \<Longrightarrow> s i = file ! i" "file = pre @ opt_bytes (\<lambda>xs. xs @ [0]) x @ post" "length file < 4294967296"
    and "\<forall>xs \<in> set_option x. 0 \<notin> set xs" "c \<longleftrightarrow> x \<noteq> None"
  shows "(if c then skip_name s (of_nat (length file)) (of_nat (length pre)) else of_nat (length pre)) =
    of_nat (length (pre @ opt_bytes (\<lambda>xs. xs @ [0]) x))"
proof (cases x)
  case (Some xs)
  have "skip_name s (of_nat (length file)) (of_nat (length pre)) = of_nat (length pre + length xs + 1)"
    by (rule skip_name_spec) (use assms Some segment [OF assms(1,2)] in \<open>auto simp: opt_bytes_def\<close>)
  then show ?thesis using Some assms(5) by (simp add: opt_bytes_def add.assoc)
qed (use assms(5) in \<open>simp add: opt_bytes_def\<close>)

lemma gzip_payload_spec:
  assumes "\<And>i. i < length file \<Longrightarrow> s i = file ! i" "file = gz_header g @ rest" "gz_ok g" "8 \<le> length rest" "length file < 4294967296"
  shows "gzip_payload s (of_nat (length file)) = Inr (of_nat (length (gz_header g)))"
proof -
  let ?A = "[0x1f, 0x8b, 8, gz_flags g] @ g_misc g" and ?E = "opt_bytes len_prefixed (g_extra g)"
  let ?N = "opt_bytes (\<lambda>xs. xs @ [0]) (g_name g)" and ?C = "opt_bytes (\<lambda>xs. xs @ [0]) (g_comment g)"
  let ?H = "opt_bytes (\<lambda>xs. xs) (g_hcrc g)"
  note g = assms(3) [unfolded gz_ok_def]
  have A: "length ?A = 10" using g by simp
  have fl: "file = ?A @ ?E @ ?N @ ?C @ ?H @ rest" using assms(2) by (simp add: gz_header_def)
  have f: "s 3 = gz_flags g" using assms(1) [of 3] fl by simp
  note fb = gz_flag_bits [OF gz_flags_def [of g, unfolded add.assoc [symmetric]]]
  have u: "unat (of_nat (length file) :: u32) = length file" by (rule unat_of_nat32 [OF assms(5)])
  let ?xlen = "ucast (s (unat (10 :: u32))) OR push_bit 8 (ucast (s (unat (10 + 1 :: u32)))) :: u32"
  have E: "(if gz_flags g AND 4 \<noteq> 0 then 10 + 2 + ?xlen else 10) = of_nat (length (?A @ ?E))"
    "\<not> (gz_flags g AND 4 \<noteq> 0 \<and> of_nat (length file) < (10 + 2 :: u32))"
  proof -
    show "(if gz_flags g AND 4 \<noteq> 0 then 10 + 2 + ?xlen else 10) = of_nat (length (?A @ ?E))"
    proof (cases "g_extra g")
      case None
      then show ?thesis using fb(2) A by (simp add: opt_bytes_def)
    next
      case (Some xs)
      then have xs: "length xs < 65536" "?E = len_prefixed xs" using g by (simp_all add: opt_bytes_def)
      have "s 10 = ?E ! 0" "s 11 = ?E ! 1"
        using segment [OF assms(1) fl, of 0] segment [OF assms(1) fl, of 1] A xs(2) by (simp_all add: len_prefixed_def)
      then have "?xlen = of_nat (length xs)" using word16_bytes(1) [OF xs(1)] xs(2) by (simp add: len_prefixed_def)
      then show ?thesis using fb(2) Some A xs(2) by (simp add: len_prefixed_def)
    qed
    have "12 \<le> length file" using fl A assms(4) by simp
    then show "\<not> (gz_flags g AND 4 \<noteq> 0 \<and> of_nat (length file) < (10 + 2 :: u32))" using u by (simp add: word_less_nat_alt)
  qed
  have N: "(if gz_flags g AND 8 \<noteq> 0 then skip_name s (of_nat (length file)) (of_nat (length (?A @ ?E))) else of_nat (length (?A @ ?E))) =
      of_nat (length ((?A @ ?E) @ ?N))"
    by (rule skip_opt [OF assms(1), where post = "?C @ ?H @ rest"]) (use fl g fb(3) assms(5) in simp_all)
  have C: "(if gz_flags g AND 0x10 \<noteq> 0 then skip_name s (of_nat (length file)) (of_nat (length ((?A @ ?E) @ ?N)))
      else of_nat (length ((?A @ ?E) @ ?N))) = of_nat (length (((?A @ ?E) @ ?N) @ ?C))"
    by (rule skip_opt [OF assms(1), where post = "?H @ rest"]) (use fl g fb(4) assms(5) in simp_all)
  have H: "(if gz_flags g AND 2 \<noteq> 0 then of_nat (length (((?A @ ?E) @ ?N) @ ?C)) + 2 else of_nat (length (((?A @ ?E) @ ?N) @ ?C))) =
      (of_nat (length (gz_header g)) :: u32)"
    using fb(1) g by (cases "g_hcrc g") (simp_all add: gz_header_def opt_bytes_def)
  have "unat (of_nat (length (gz_header g) + 8) :: u32) = length (gz_header g) + 8"
    by (rule unat_of_nat32) (use assms(2,4,5) in simp)
  then have "\<not> of_nat (length file) < (of_nat (length (gz_header g)) + 8 :: u32)"
    using u assms(2,4) by (simp add: word_less_nat_alt)
  then show ?thesis unfolding gzip_payload_def Let_def f E(1) N C H if_not_P [OF E(2)] by (rule if_not_P)
qed

lemma crc32_put: "crc32 (put dst ys) (length ys) = gz_crc ys"
proof -
  have "fold (\<lambda>i crc. (crc_bit ^^ 8) (crc XOR ucast (put dst ys i))) [0..<length ys] c =
      fold (\<lambda>i crc. (crc_bit ^^ 8) (crc XOR ucast (bytes_of ys i))) [0..<length ys] c" for c
    by (rule fold_cong) (auto simp: bytes_of_def)
  then have "crc32 (put dst ys) (length ys) = crc32 (bytes_of ys) (length ys)" by (simp only: crc32_def)
  then show ?thesis by (simp only: crc32_division)
qed

text \<open>
  C4. Every gzip file is decompressed to the bytes it stands for: for any header with any of the optional
  fields, and any sequence of stored, fixed and dynamic blocks whose literals and matches are valid for
  their tables, the call returns the length, the output buffer holds the bytes and is unchanged after them,
  when they fit into a buffer below 2 GB and the file is below 4 GB. The files are those of RFC 1951 and 1952:
  lengths, distances, fixed codes and the order of the code lengths are given by the rules of the standard
  and the checksum by polynomial division, none of them by the tables of the code. The Huffman tables that
  earlier calls left on the stack play no part.
\<close>

theorem gunzip_round_trip:
  assumes "gz_ok g" "ks \<noteq> []" "\<forall>k \<in> set ks. block_ok k" "blocks_out ks [] = Some ys"
    and "length ys \<le> unat dstcap" "unat dstcap < 2147483648" "length (gzip g ks ys) < 4294967296"
  shows "gunzip u0 (put rest (gzip g ks ys)) (of_nat (length (gzip g ks ys))) dst dstcap = Some (int (length ys), put dst ys)"
proof -
  let ?f = "gzip g ks ys" and ?s = "put rest (gzip g ks ys)" and ?P = "pack (deflate 0 ks)" and ?h = "length (gz_header g)"
  let ?c = "le32 (gz_crc ys)" and ?z = "le32 (of_nat (length ys))" and ?n = "of_nat (length (gzip g ks ys)) :: u32"
  have s: "?s i = ?f ! i" if "i < length ?f" for i using that by simp
  have l4: "length (le32 v) = 4" for v by (simp add: le32_def)
  have len: "length ?f = ?h + length ?P + 8" by (simp add: gzip_def l4)
  have P: "1 \<le> length ?P" using assms(2) by (cases ks; cases "deflate 0 ks") (auto simp: lsb_bits_def)
  have h: "10 \<le> ?h" using assms(1) by (auto simp: gz_header_def gz_ok_def)
  have u: "unat ?n = length ?f" by (rule unat_of_nat32 [OF assms(7)])
  obtain t where t: "?f = [] @ [0x1f, 0x8b, 8] @ t" by (simp add: gzip_def gz_header_def)
  have b: "?s 0 = 0x1f" "?s 1 = 0x8b" "?s 2 = 8"
    using segment [OF s t, of 0] segment [OF s t, of 1] segment [OF s t, of 2] by (simp_all add: numeral_2_eq_2)
  have gz: "is_gzip ?s ?n" "\<not> ?n < 18" using b(1,2) u len h P by (simp_all add: is_gzip_def word_le_nat_alt word_less_nat_alt)
  have pay: "gzip_payload ?s ?n = Inr (of_nat ?h)"
    by (rule gzip_payload_spec [OF s, of g "?P @ ?c @ ?z"]) (use assms(1,7) in \<open>auto simp: gzip_def l4\<close>)
  have hu: "unat (of_nat ?h :: u32) = ?h" by (rule unat_of_nat32) (use assms(7) len in simp)
  have sub: "?n - 8 - of_nat ?h = of_nat (length ?P)" "unat (?n - 8) = ?h + length ?P" "unat (?n - 4) = ?h + length ?P + 4"
  proof -
    show "?n - 8 - of_nat ?h = of_nat (length ?P)" unfolding len by simp
    show "unat (?n - 8) = ?h + length ?P" "unat (?n - 4) = ?h + length ?P + 4"
      using unat_diff32 [of 8 ?n] unat_diff32 [of 4 ?n] u len by (simp_all add: word_le_nat_alt)
  qed
  have raw: "inflate_raw u0 (\<lambda>i. ?s (?h + i)) (of_nat (length ?P)) dst dstcap = Some (int (length ys), put dst ys)"
    by (rule inflate_raw_spec [OF assms(2-6) refl]) (use assms(7) len in \<open>auto simp: gzip_def put_def nth_append\<close>)
  have yl: "(word_of_int (int (length ys)) :: u32) = of_nat (length ys)" "unat (of_nat (length ys) :: u32) = length ys"
    using assms(5,6) by (simp_all add: unat_of_nat32)
  have f1: "?f = (gz_header g @ ?P) @ ?c @ ?z" and f2: "?f = (gz_header g @ ?P @ ?c) @ ?z @ []" by (simp_all add: gzip_def)
  have crc: "get32 ?s (?h + length ?P) = gz_crc ys"
    by (rule le32_get) (use segment [OF s f1] in \<open>simp add: l4\<close>)
  have isz: "get32 ?s (?h + length ?P + 4) = of_nat (length ys)"
    by (rule le32_get) (use segment [OF s f2] in \<open>simp add: l4 add.assoc\<close>)
  have "gzip_isize ?s ?n = of_nat (length ys)" using isz sub(3) u len by (simp add: gzip_isize_def word_less_nat_alt)
  then show ?thesis unfolding gunzip_def
    using gz b(3) pay hu sub raw yl crc crc32_put [of dst ys] by simp
qed

text \<open>A file with an extra field, a name and a header checksum, and one block of each type.\<close>

definition sample_head :: gz_head where
  "sample_head = \<lparr>g_misc = [0, 0, 0, 0, 0, 3], g_text = False, g_extra = Some [1, 2, 3], g_name = Some [97],
     g_comment = None, g_hcrc = Some [0, 0]\<rparr>"

definition sample_tables :: dyn_tables where
  "sample_tables = \<lparr>d_hlit = 257, d_hdist = 1, d_hclen = 18, d_clens = (\<lambda>i. if i = 1 \<or> i = 18 then 1 else 0),
     d_tokens = [Zeros11 86, Cl 1, Zeros11 127, Zeros11 9, Cl 1, Cl 1]\<rparr>"

definition sample_blocks :: "block list" where
  "sample_blocks = [Stored [104, 105], Fixed [Lit 97, Match 0 0 0 0], Dynamic sample_tables [Lit 97]]"

lemma kraft_list:
  assumes "k + n \<le> length ls"
  shows "kraft (\<lambda>i. bytes_of ls (k + i)) n \<longleftrightarrow>
    check_left (\<lambda>l. int (length (filter (\<lambda>x. unat x = l) (take n (drop k ls))))) [1..<MAXBITS + 1] 1 \<noteq> None"
proof -
  have "take n (drop k ls) = map (\<lambda>i. bytes_of ls (k + i)) [0..<n]"
    using assms by (intro nth_equalityI) (simp_all add: bytes_of_def)
  then have "length (syms (\<lambda>i. bytes_of ls (k + i)) n l) = length (filter (\<lambda>x. unat x = l) (take n (drop k ls)))" for l
    by (simp add: syms_def filter_map comp_def)
  then show ?thesis unfolding kraft_check by (simp only:)
qed

lemma sample_lens: "dyn_lens sample_tables = replicate 97 0 @ [1] @ replicate 158 0 @ [1, 1]"
  by code_simp

lemma sample_ok: "dyn_ok sample_tables"
proof -
  have "kraft (\<lambda>i. bytes_of (dyn_lens sample_tables) (0 + i)) 257" "kraft (\<lambda>i. bytes_of (dyn_lens sample_tables) (257 + i)) 1"
    unfolding sample_lens by (subst kraft_list, simp, code_simp)+
  then have "kraft (dyn_lit sample_tables) 257" "kraft (dyn_dist sample_tables) 1"
    by (simp_all add: dyn_lit_def dyn_dist_def [abs_def] sample_tables_def)
  moreover have "kraft (d_clens sample_tables) 19" unfolding kraft_check by code_simp
  moreover have "dyn_lit sample_tables 256 \<noteq> 0" "length (dyn_lens sample_tables) = 258"
    by (simp_all add: dyn_lit_def sample_lens bytes_of_def nth_append)
  ultimately show ?thesis unfolding dyn_ok_def by (simp add: sample_tables_def std_order [symmetric] clc_order_def)
qed

lemma length_pack: "length (pack bs) \<le> length bs"
  by (induction bs rule: pack.induct) auto

lemma length_code_bits: "length (code_bits lens n s) = unat (lens s)"
  by (simp add: code_bits_def)

lemma sample_fields: "d_hlit sample_tables = 257" "d_hclen sample_tables = 18" "d_clens sample_tables = (\<lambda>i. if i = 1 \<or> i = 18 then 1 else 0)"
  "d_tokens sample_tables = [Zeros11 86, Cl 1, Zeros11 127, Zeros11 9, Cl 1, Cl 1]"
  by (simp_all add: sample_tables_def)

lemma sample_blocks_ok: "\<forall>k \<in> set sample_blocks. block_ok k"
  using sample_ok by (simp add: sample_blocks_def std_fixed_def std_len_extra_def std_dist_extra_def dyn_lit_def sample_lens bytes_of_def
      nth_append sample_fields)

lemma sample_out: "blocks_out sample_blocks [] = Some [104, 105, 97, 97, 97, 97, 97]"
  by (simp add: sample_blocks_def std_len_base_def std_dist_base_def numeral_3_eq_3)

lemma sample_length: "length (gzip sample_head sample_blocks [104, 105, 97, 97, 97, 97, 97]) < 4294967296"
proof -
  have "length (deflate 0 sample_blocks) < 1000"
    by (simp add: sample_blocks_def length_code_bits dyn_bits_def sample_fields std_order [symmetric] clc_order_def stored_head_def std_fixed_def
        std_len_extra_def std_dist_extra_def dyn_lit_def bytes_of_def sample_lens nth_append)
  then show ?thesis using length_pack [of "deflate 0 sample_blocks"]
    by (simp add: gzip_def gz_header_def sample_head_def opt_bytes_def len_prefixed_def le32_def)
qed

theorem gunzip_round_trip_witness:
  "gunzip \<lparr>count = \<lambda>_. 0, symbol = \<lambda>_. 0\<rparr> (put (\<lambda>_. 0) (gzip sample_head sample_blocks [104, 105, 97, 97, 97, 97, 97]))
     (of_nat (length (gzip sample_head sample_blocks [104, 105, 97, 97, 97, 97, 97]))) (\<lambda>_. 0) 100 =
   Some (7, put (\<lambda>_. 0) [104, 105, 97, 97, 97, 97, 97])"
proof -
  have "gz_ok sample_head" by (simp add: gz_ok_def sample_head_def)
  moreover have "sample_blocks \<noteq> []" by (simp add: sample_blocks_def)
  ultimately show ?thesis
    using gunzip_round_trip [OF _ _ sample_blocks_ok sample_out, of sample_head 100] sample_length by simp
qed

end
