(* ===== verification/Inflate_Safe.thy ===== *)
theory Inflate_Safe
  imports Gzip
begin

text \<open>
  The decompressor on any input, valid or not: it returns, it writes only inside the output buffer, and what
  it returns depends only on the bytes of the input. The proof follows two calls side by side that
  agree on the input and differ in everything else: the memory after the input, the old contents of
  the output and of the tables on the stack.
\<close>

section \<open>Two readers of the same input\<close>

definition same_reader :: "bitr \<Rightarrow> bitr \<Rightarrow> bool" where
  "same_reader b c \<longleftrightarrow> len b = len c \<and> pos b = pos c \<and> bitbuf b = bitbuf c \<and> bitcnt b = bitcnt c \<and> err b = err c \<and>
     (\<forall>i < unat (len b). src b i = src c i)"

lemma fill_two:
  assumes "same_reader b c"
  shows "fst (fill b n) = fst (fill c n) \<and> same_reader (snd (fill b n)) (snd (fill c n))"
  using assms
proof (induction "unat (len b) - unat (pos b)" arbitrary: b c rule: less_induct)
  case less
  have eq: "bitcnt c = bitcnt b" "len c = len b" "pos c = pos b" using less.prems by (auto simp: same_reader_def)
  show ?case
  proof (cases "bitcnt b < of_nat n \<and> \<not> len b \<le> pos b")
    case True
    have p: "unat (pos b) < unat (len b)" using True by (simp add: word_le_nat_alt)
    have p1: "unat (pos b + 1) = unat (pos b) + 1" by (rule unat_succ32 [OF p])
    have "same_reader (fetched b) (fetched c)" using less.prems p by (auto simp: same_reader_def fetched_def)
    moreover have "unat (len (fetched b)) - unat (pos (fetched b)) < unat (len b) - unat (pos b)"
      using p p1 by (simp add: fetched_def)
    moreover have "fill b n = fill (fetched b) n" "fill c n = fill (fetched c) n"
      using True eq by (simp_all add: fill_step [of b] fill_step [of c])
    ultimately show ?thesis using less.hyps [of "fetched b" "fetched c"] by simp
  next
    case False
    then show ?thesis using less.prems eq by (auto simp: fill_step [of b] fill_step [of c] same_reader_def)
  qed
qed

lemma bits_two:
  assumes "same_reader b c"
  obtains v b1 c1 where "bits b n = (v, b1)" "bits c n = (v, c1)" "same_reader b1 c1"
proof -
  obtain k b1 c1 where f: "fill b n = (k, b1)" "fill c n = (k, c1)" "same_reader b1 c1"
    using fill_two [OF assms, of n] by (cases "fill b n"; cases "fill c n") auto
  then have "fst (bits b n) = fst (bits c n) \<and> same_reader (snd (bits b n)) (snd (bits c n))"
    by (cases k) (auto simp: bits_def same_reader_def)
  then show ?thesis using that [of "fst (bits b n)" "snd (bits b n)" "snd (bits c n)"] by (simp add: prod_eq_iff)
qed

lemma decode_loop_two:
  assumes "same_reader b c"
  shows "fst (decode_loop ls h q f i b) = fst (decode_loop ls h q f i c) \<and>
    same_reader (snd (decode_loop ls h q f i b)) (snd (decode_loop ls h q f i c))"
  using assms
proof (induction ls arbitrary: b c q f i)
  case (Cons l ls)
  obtain v b1 c1 where "bits b 1 = (v, b1)" "bits c 1 = (v, c1)" "same_reader b1 c1" by (rule bits_two [OF Cons.prems])
  then show ?case using Cons.IH [of b1 c1] by (simp add: Let_def)
qed simp

text \<open>A read of two readers, and what it leaves of the input.\<close>

definition read_two :: "nat \<Rightarrow> bitr \<Rightarrow> bitr \<Rightarrow> bitr \<Rightarrow> bitr \<Rightarrow> bool" where
  "read_two n b c b1 c1 \<longleftrightarrow> same_reader b1 c1 \<and> consumed n b b1"

definition readers :: "bitr \<Rightarrow> bitr \<Rightarrow> bool" where
  "readers b c \<longleftrightarrow> same_reader b c \<and> reader_safe b"

lemma read_two_readers: "read_two n b c b1 c1 \<Longrightarrow> readers b1 c1"
  by (simp add: read_two_def readers_def consumed_def)

lemma read_two_trans: "read_two m a c b d \<Longrightarrow> read_two n b d e f \<Longrightarrow> read_two (m + n) a c e f"
  by (auto simp: read_two_def intro: consumed_trans)

lemma read_two_le: "read_two n b c b1 c1 \<Longrightarrow> m \<le> n \<Longrightarrow> read_two m b c b1 c1"
  by (auto simp: read_two_def intro: consumed_le)

lemma bits_both:
  assumes "readers b c" "n \<le> 13"
  obtains v b1 c1 where "bits b n = (v, b1)" "bits c n = (v, c1)" "read_two n b c b1 c1"
proof -
  obtain v b1 c1 where b: "bits b n = (v, b1)" "bits c n = (v, c1)" "same_reader b1 c1"
    by (rule bits_two) (use assms in \<open>auto simp: readers_def\<close>)
  then show ?thesis using that bits_safe [of b n] assms by (simp add: readers_def read_two_def)
qed

definition same_table :: "huff \<Rightarrow> huff \<Rightarrow> buffer \<Rightarrow> nat \<Rightarrow> bool" where
  "same_table h k lens n \<longleftrightarrow> is_table h lens n \<and> is_table k lens n"

lemma huff_both:
  assumes "readers b c" "same_table h k lens n"
  obtains r b1 c1 where "huff_decode b h = (r, b1)" "huff_decode c k = (r, c1)" "read_two 1 b c b1 c1" "r < int n"
proof -
  have eq: "huff_decode c k = huff_decode c h" using huff_decode_tables [of k lens n h] assms(2) by (simp add: same_table_def)
  obtain r b1 where b: "huff_decode b h = (r, b1)" by fastforce
  obtain c1 where c: "huff_decode c h = (r, c1)" "same_reader b1 c1"
    using decode_loop_two [of b c "[1..<MAXBITS + 1]" h 0 0 0] assms(1) b
    unfolding readers_def huff_decode_def by (cases "decode_loop [1..<MAXBITS + 1] h 0 0 0 c") (auto simp del: upt_Suc)
  have "r < int n" using huff_decode_range [of h lens n b r b1] assms(2) b by (cases "0 \<le> r") (auto simp: same_table_def)
  then show ?thesis using that b c eq huff_decode_safe [of b h] assms(1) by (simp add: readers_def read_two_def)
qed

lemma build_both:
  assumes "lengths_ok lens n"
  obtains r h1 q k1 where "huff_build h lens n = (r, h1)" "huff_build k lens n = (q, k1)" "r < 0 \<longleftrightarrow> q < 0"
    "0 \<le> r \<Longrightarrow> same_table h1 k1 lens n"
proof -
  obtain r h1 q k1 where "huff_build h lens n = (r, h1)" "huff_build k lens n = (q, k1)" by fastforce
  then show ?thesis using that [of r h1 q k1] huff_build_spec [OF assms, of h] huff_build_spec [OF assms, of k]
    by (auto simp: same_table_def)
qed

section \<open>Blocks\<close>

definition agree :: "nat \<Rightarrow> buffer \<Rightarrow> buffer \<Rightarrow> bool" where
  "agree n d e \<longleftrightarrow> (\<forall>i < n. d i = e i)"

definition frame :: "nat \<Rightarrow> buffer \<Rightarrow> buffer \<Rightarrow> bool" where
  "frame cap d d1 \<longleftrightarrow> (\<forall>i \<ge> cap. d1 i = d i)"

lemma frame_refl [simp]: "frame cap d d"
  by (simp add: frame_def)

lemma frame_trans: "frame cap d d1 \<Longrightarrow> frame cap d1 d2 \<Longrightarrow> frame cap d d2"
  by (simp add: frame_def)

lemma copy_match_two:
  assumes "unat q < unat p" "unat p + n \<le> cap" "cap < 4294967296" "agree (unat p) d e"
  shows "agree (unat p + n) (copy_match n q p d) (copy_match n q p e) \<and> frame cap d (copy_match n q p d) \<and> frame cap e (copy_match n q p e)"
  using assms(1,2,4)
proof (induction n arbitrary: q p d e)
  case (Suc n)
  have p: "unat (p + 1) = unat p + 1" "unat (q + 1) = unat q + 1"
    using unat_add32 [of p 1] unat_add32 [of q 1] Suc.prems(1,2) assms(3) by simp_all
  obtain d1 e1 where d1: "d1 = d(unat p := d (unat q))" "e1 = e(unat p := e (unat q))" by blast
  have a: "agree (unat (p + 1)) d1 e1" using Suc.prems(1,3) p by (auto simp: agree_def less_Suc_eq d1)
  have f: "frame cap d d1" "frame cap e e1" using Suc.prems(2) by (auto simp: frame_def d1)
  have "unat (q + 1) < unat (p + 1)" "unat (p + 1) + n \<le> cap" using Suc.prems(1,2) p by simp_all
  from Suc.IH [OF this a] have "agree (unat p + Suc n) (copy_match n (q + 1) (p + 1) d1) (copy_match n (q + 1) (p + 1) e1)"
    "frame cap d (copy_match n (q + 1) (p + 1) d1)" "frame cap e (copy_match n (q + 1) (p + 1) e1)"
    using frame_trans [OF f(1)] frame_trans [OF f(2)] p by simp_all
  then show ?case by (simp add: d1)
qed simp

lemma bits_less:
  assumes "bits b n = (v, b1)" "n \<le> 16"
  shows "unat v < 2 ^ n"
proof -
  have "w AND (push_bit n 1 - 1) = take_bit n w" for w :: u32 by (simp add: take_bit_eq_mask mask_eq_exp_minus_1)
  then have "unat (w AND (push_bit n 1 - 1) :: u32) < 2 ^ n" for w by (simp only: unat_take_bit) simp
  then show ?thesis using assms(1) by (auto simp: bits_def split: prod.splits bool.splits)
qed

definition block_both :: "nat \<Rightarrow> bitr \<Rightarrow> bitr \<Rightarrow> buffer \<Rightarrow> buffer \<Rightarrow> (cint \<times> bitr \<times> buffer) option \<Rightarrow> (cint \<times> bitr \<times> buffer) option \<Rightarrow> bool" where
  "block_both cap b c d e x y \<longleftrightarrow> (\<exists>r b1 c1 d1 e1. x = Some (r, b1, d1) \<and> y = Some (r, c1, e1) \<and> read_two 1 b c b1 c1 \<and>
     frame cap d d1 \<and> frame cap e e1 \<and> (r < 0 \<or> r \<le> int cap \<and> agree (nat r) d1 e1))"

lemma block_bothI:
  "x = Some (r, b1, d1) \<Longrightarrow> y = Some (r, c1, e1) \<Longrightarrow> read_two 1 b c b1 c1 \<Longrightarrow> frame cap d d1 \<Longrightarrow> frame cap e e1 \<Longrightarrow>
     r < 0 \<or> r \<le> int cap \<and> agree (nat r) d1 e1 \<Longrightarrow> block_both cap b c d e x y"
  unfolding block_both_def by blast

lemma block_both_stop:
  "x = Some (r, b1, d) \<Longrightarrow> y = Some (r, c1, e) \<Longrightarrow> read_two 1 b c b1 c1 \<Longrightarrow> r < 0 \<or> r \<le> int cap \<and> agree (nat r) d e \<Longrightarrow>
     block_both cap b c d e x y"
  by (rule block_bothI) simp_all

lemma block_both_step:
  assumes "read_two 1 b c b1 c1" "frame cap d d1" "frame cap e e1" "block_both cap b1 c1 d1 e1 x y"
  shows "block_both cap b c d e x y"
proof -
  from assms(4) obtain r b2 c2 d2 e2 where q: "x = Some (r, b2, d2)" "y = Some (r, c2, e2)" "read_two 1 b1 c1 b2 c2"
    "frame cap d1 d2" "frame cap e1 e2" "r < 0 \<or> r \<le> int cap \<and> agree (nat r) d2 e2" unfolding block_both_def by blast
  have "read_two 1 b c b2 c2" by (rule read_two_le [OF read_two_trans [OF assms(1) q(3)]]) simp
  then show ?thesis using q frame_trans [OF assms(2) q(4)] frame_trans [OF assms(3) q(5)] by (intro block_bothI)
qed

text \<open>What is left of the input, with nothing left once the flag is up.\<close>

definition left :: "bitr \<Rightarrow> nat" where
  "left b = (if err b then 0 else Suc (length (stream b)))"

lemma left_less: "read_two n b c b1 c1 \<Longrightarrow> 0 < n \<Longrightarrow> \<not> err b \<Longrightarrow> left b1 < left b"
  by (auto simp: read_two_def consumed_def left_def)

lemma read_two_err: "read_two n b c b1 c1 \<Longrightarrow> \<not> err b1 \<Longrightarrow> \<not> err b \<and> \<not> err c1"
  by (auto simp: read_two_def consumed_def same_reader_def)

lemma read_two_same_err: "read_two n b c b1 c1 \<Longrightarrow> err c1 = err b1"
  by (auto simp: read_two_def same_reader_def)

lemma extra_bounds:
  assumes "bits b (len_extra ! l) = (v, b1)" "l < 29"
  shows "unat (of_nat (len_base ! l) + v) < 1000"
proof -
  have b: "len_extra ! l \<le> 5" "len_base ! l \<le> 258" using base_bounds(1) [OF assms(2)] by auto
  have "unat v < 2 ^ (len_extra ! l)" by (rule bits_less [OF assms(1)]) (use b in simp)
  also have "(2 :: nat) ^ (len_extra ! l) \<le> 2 ^ 5" using b by (intro power_increasing) simp_all
  finally show ?thesis using b(2) unat_add32 [of "of_nat (len_base ! l)" v] by (simp add: unat_of_nat32)
qed

lemma dist_bounds:
  assumes "bits b (dist_extra ! l) = (v, b1)" "l < 30"
  shows "1 \<le> unat (of_nat (dist_base ! l) + v)"
proof -
  have b: "dist_extra ! l \<le> 13" "1 \<le> dist_base ! l" "dist_base ! l \<le> 24577" using base_bounds(2) [OF assms(2)] by auto
  have "unat v < 2 ^ (dist_extra ! l)" by (rule bits_less [OF assms(1)]) (use b in simp)
  also have "(2 :: nat) ^ (dist_extra ! l) \<le> 2 ^ 13" using b by (intro power_increasing) simp_all
  finally show ?thesis using b(2,3) unat_add32 [of "of_nat (dist_base ! l)" v] by (simp add: unat_of_nat32)
qed

lemma inflate_block_step_match:
  assumes "readers b c" "same_table dh dk dl nd" "\<not> err b" "l < 29" "unat out \<le> unat cap" "unat cap < 2147483648" "agree (unat out) d e"
    and huff: "huff_decode a lh = (int l + 257, b)" "huff_decode a' lk = (int l + 257, c)"
    and IH: "\<And>b1 c1 d1 e1 out1. left b1 \<le> left b \<Longrightarrow> readers b1 c1 \<Longrightarrow> unat out1 \<le> unat cap \<Longrightarrow> agree (unat out1) d1 e1 \<Longrightarrow>
      block_both (unat cap) b1 c1 d1 e1 (inflate_block b1 lh dh d1 cap out1) (inflate_block c1 lk dk e1 cap out1)"
    and pre: "read_two 1 a a' b c"
  shows "block_both (unat cap) a a' d e (inflate_block a lh dh d cap out) (inflate_block a' lk dk e cap out)"
proof -
  have ec: "\<not> err c" using read_two_same_err [OF pre] assms(3) by simp
  have x: "len_extra ! l \<le> 13" using base_bounds(1) [OF assms(4)] by simp
  obtain v b1 c1 where b1: "bits b (len_extra ! l) = (v, b1)" "bits c (len_extra ! l) = (v, c1)" "read_two (len_extra ! l) b c b1 c1"
    by (rule bits_both [OF assms(1) x])
  obtain r b2 c2 where b2: "huff_decode b1 dh = (r, b2)" "huff_decode c1 dk = (r, c2)" "read_two 1 b1 c1 b2 c2"
    by (rule huff_both [OF read_two_readers [OF b1(3)] assms(2)])
  define m where "m = of_nat (len_base ! l) + v"
  have m: "unat m < 1000" unfolding m_def by (rule extra_bounds [OF b1(1) assms(4)])
  have t2: "read_two 1 a a' b2 c2"
    by (rule read_two_le [OF read_two_trans [OF read_two_trans [OF pre b1(3)] b2(3)]]) simp
  have sy: "\<not> int l + 257 < 0" "int l + 257 \<noteq> 256" "\<not> int l + 257 < 256" "nat (int l + 257 - 257) = l" "\<not> 29 \<le> l"
    using assms(4) by auto
  have u1: "inflate_block a lh dh d cap out = (if err b2 \<or> r < 0 \<or> 30 \<le> r then Some (-4, b2, d)
      else (case bits b2 (dist_extra ! nat r) of (dext, b) \<Rightarrow>
        (let dist = of_nat (dist_base ! nat r) + dext
         in if out < dist then Some (-5, b, d) else if cap < out + m then Some (-6, b, d)
            else inflate_block b lh dh (copy_match (unat m) (out - dist) out d) cap (out + m))))"
    by (subst inflate_block.simps) (simp only: huff(1) b1(1) b2(1) prod.case assms(3) sy simp_thms if_False Let_def m_def)
  have u2: "inflate_block a' lk dk e cap out = (if err c2 \<or> r < 0 \<or> 30 \<le> r then Some (-4, c2, e)
      else (case bits c2 (dist_extra ! nat r) of (dext, b) \<Rightarrow>
        (let dist = of_nat (dist_base ! nat r) + dext
         in if out < dist then Some (-5, b, e) else if cap < out + m then Some (-6, b, e)
            else inflate_block b lk dk (copy_match (unat m) (out - dist) out e) cap (out + m))))"
    by (subst inflate_block.simps) (simp only: huff(2) b1(2) b2(2) prod.case ec sy simp_thms if_False Let_def m_def)
  show ?thesis
  proof (cases "err b2 \<or> r < 0 \<or> 30 \<le> r")
    case True
    then show ?thesis using read_two_same_err [OF b2(3)]
      by (intro block_both_stop [where r = "- 4", OF _ _ t2]) (simp_all add: u1 u2)
  next
    case False
    then have r: "nat r < 30" by auto
    then have "dist_extra ! nat r \<le> 13" using base_bounds(2) by simp
    then obtain w b3 c3 where b3: "bits b2 (dist_extra ! nat r) = (w, b3)" "bits c2 (dist_extra ! nat r) = (w, c3)"
      "read_two (dist_extra ! nat r) b2 c2 b3 c3"
      using bits_both [OF read_two_readers [OF b2(3)]] by metis
    define q where "q = of_nat (dist_base ! nat r) + w"
    have q: "1 \<le> unat q" unfolding q_def by (rule dist_bounds [OF b3(1) r])
    have t3: "read_two 1 a a' b3 c3" by (rule read_two_le [OF read_two_trans [OF t2 b3(3)]]) simp
    have v1: "inflate_block a lh dh d cap out = (if out < q then Some (-5, b3, d) else if cap < out + m then Some (-6, b3, d)
        else inflate_block b3 lh dh (copy_match (unat m) (out - q) out d) cap (out + m))"
      unfolding u1 using False b3(1) by (simp add: Let_def q_def)
    have v2: "inflate_block a' lk dk e cap out = (if out < q then Some (-5, c3, e) else if cap < out + m then Some (-6, c3, e)
        else inflate_block c3 lk dk (copy_match (unat m) (out - q) out e) cap (out + m))"
      unfolding u2 using False b3(2) read_two_same_err [OF b2(3)] by (simp add: Let_def q_def)
    show ?thesis
    proof (cases "out < q \<or> cap < out + m")
      case True
      then show ?thesis by (intro block_both_stop [where r = "if out < q then - 5 else - 6", OF _ _ t3]) (auto simp: v1 v2)
    next
      case False
      have o: "unat (out + m) = unat out + unat m" using unat_add32 [of out m] assms(5,6) m by simp
      have le: "unat out + unat m \<le> unat cap" using False o by (simp add: word_less_nat_alt)
      have "unat (out - q) = unat out - unat q" using False by (intro unat_diff32) (simp add: not_less)
      moreover have "unat q \<le> unat out" using False by (simp add: word_less_nat_alt)
      ultimately have "unat (out - q) < unat out" using q by simp
      note cm = copy_match_two [OF this le _ assms(7)]
      have "left b3 \<le> left b"
        using read_two_trans [OF b1(3) read_two_trans [OF b2(3) b3(3)]] by (auto simp: left_def read_two_def consumed_def)
      then have "block_both (unat cap) b3 c3 (copy_match (unat m) (out - q) out d) (copy_match (unat m) (out - q) out e)
          (inflate_block b3 lh dh (copy_match (unat m) (out - q) out d) cap (out + m))
          (inflate_block c3 lk dk (copy_match (unat m) (out - q) out e) cap (out + m))"
        using IH [OF _ read_two_readers [OF b3(3)]] cm o le by simp
      moreover have "frame (unat cap) d (copy_match (unat m) (out - q) out d)" "frame (unat cap) e (copy_match (unat m) (out - q) out e)"
        using cm by simp_all
      ultimately have "block_both (unat cap) a a' d e (inflate_block b3 lh dh (copy_match (unat m) (out - q) out d) cap (out + m))
          (inflate_block c3 lk dk (copy_match (unat m) (out - q) out e) cap (out + m))"
        using block_both_step [OF t3] by blast
      then show ?thesis using False by (simp add: v1 v2)
    qed
  qed
qed

lemma inflate_block_two:
  assumes "same_table lh lk ll nl" "same_table dh dk dl nd" "unat cap < 2147483648"
    and "readers b c" "unat out \<le> unat cap" "agree (unat out) d e"
  shows "block_both (unat cap) b c d e (inflate_block b lh dh d cap out) (inflate_block c lk dk e cap out)"
  using assms(4-6)
proof (induction "left b" arbitrary: b c d e out rule: less_induct)
  case less
  obtain r b1 c1 where h: "huff_decode b lh = (r, b1)" "huff_decode c lk = (r, c1)" "read_two 1 b c b1 c1"
    by (rule huff_both [OF less.prems(1) assms(1)])
  note ec = read_two_same_err [OF h(3)]
  have lo: "long_of out = int (unat out)" using long_of_nat [of "unat out"] less.prems(2) assms(3) by simp
  consider (bad) "err b1 \<or> r < 0" | (final) "\<not> err b1" "r = 256" | (full) "\<not> err b1" "0 \<le> r" "r < 256" "cap \<le> out"
    | (lit) "\<not> err b1" "0 \<le> r" "r < 256" "\<not> cap \<le> out" | (inval) "\<not> err b1" "286 \<le> r" | (match) "\<not> err b1" "257 \<le> r" "r < 286"
    by linarith
  then show ?case
  proof cases
    case bad
    then have "inflate_block b lh dh d cap out = Some (-1, b1, d)" "inflate_block c lk dk e cap out = Some (-1, c1, e)"
      using ec by (subst inflate_block.simps, simp add: h)+
    then show ?thesis by (rule block_both_stop [OF _ _ h(3)]) simp
  next
    case final
    then have "inflate_block b lh dh d cap out = Some (long_of out, b1, d)" "inflate_block c lk dk e cap out = Some (long_of out, c1, e)"
      using ec by (subst inflate_block.simps, simp add: h)+
    then show ?thesis by (rule block_both_stop [OF _ _ h(3)]) (use less.prems in \<open>simp only: lo nat_int of_nat_le_iff simp_thms\<close>)
  next
    case full
    then have "inflate_block b lh dh d cap out = Some (-2, b1, d)" "inflate_block c lk dk e cap out = Some (-2, c1, e)"
      using ec by (subst inflate_block.simps, simp add: h)+
    then show ?thesis by (rule block_both_stop [OF _ _ h(3)]) simp
  next
    case lit
    have lt: "unat out < unat cap" using lit(4) by (simp add: word_le_nat_alt)
    have o: "unat (out + 1) = unat out + 1" by (rule unat_succ32 [OF lt])
    let ?d = "d(unat out := word_of_int r)" and ?e = "e(unat out := word_of_int r)"
    have u: "inflate_block b lh dh d cap out = inflate_block b1 lh dh ?d cap (out + 1)"
      "inflate_block c lk dk e cap out = inflate_block c1 lk dk ?e cap (out + 1)"
      using lit ec by (subst inflate_block.simps, simp add: h)+
    have "left b1 < left b" using left_less [OF h(3)] read_two_err [OF h(3) lit(1)] by simp
    moreover have "agree (unat (out + 1)) ?d ?e" using less.prems(3) o by (auto simp: agree_def)
    ultimately have "block_both (unat cap) b1 c1 ?d ?e (inflate_block b1 lh dh ?d cap (out + 1)) (inflate_block c1 lk dk ?e cap (out + 1))"
      using less.hyps read_two_readers [OF h(3)] o lt by simp
    moreover have "frame (unat cap) d ?d" "frame (unat cap) e ?e" using lt by (auto simp: frame_def)
    ultimately show ?thesis unfolding u using block_both_step [OF h(3)] by blast
  next
    case inval
    then have "29 \<le> nat (r - 257)" by linarith
    then have "inflate_block b lh dh d cap out = Some (-3, b1, d)" "inflate_block c lk dk e cap out = Some (-3, c1, e)"
      using inval ec by (subst inflate_block.simps, simp add: h)+
    then show ?thesis by (rule block_both_stop [OF _ _ h(3)]) simp
  next
    case match
    let ?l = "nat (r - 257)"
    have r: "r = int ?l + 257" "?l < 29" using match by auto
    have "left b1 < left b" using left_less [OF h(3)] read_two_err [OF h(3) match(1)] by simp
    then show ?thesis
      using inflate_block_step_match [OF read_two_readers [OF h(3)] assms(2) match(1) r(2) less.prems(2) assms(3) less.prems(3), of b lh c lk]
        h r(1) less.hyps by simp
  qed
qed

section \<open>Dynamic tables\<close>

definition small :: "buffer \<Rightarrow> bool" where
  "small l \<longleftrightarrow> (\<forall>i. unat (l i) \<le> MAXBITS)"

lemma small_upd [intro]: "small l \<Longrightarrow> unat v \<le> MAXBITS \<Longrightarrow> small (l(i := v))"
  by (simp add: small_def)

lemma small_lengths: "small l \<Longrightarrow> lengths_ok l n" "small l \<Longrightarrow> lengths_ok (\<lambda>i. l (k + i)) n"
  by (simp_all add: small_def lengths_ok_def)

lemma read_two_refl: "readers b c \<Longrightarrow> read_two 0 b c b c"
  by (simp add: readers_def read_two_def consumed_refl)

lemma read_two_chain: "read_two m a c b d \<Longrightarrow> read_two n b d e f \<Longrightarrow> read_two 0 a c e f"
  by (rule read_two_le [OF read_two_trans]) simp_all

lemma read_clc_two:
  assumes "readers b c" "small l"
  obtains b1 c1 l1 where "read_clc is b l = (b1, l1)" "read_clc is c l = (c1, l1)" "read_two 0 b c b1 c1" "small l1"
  using assms
proof (induction "is" arbitrary: b c l thesis)
  case Nil
  then show ?case using read_two_refl by simp
next
  case (Cons i "is")
  obtain v b1 c1 where v: "bits b 3 = (v, b1)" "bits c 3 = (v, c1)" "read_two 3 b c b1 c1"
    by (rule bits_both [OF Cons.prems(2), of 3]) simp_all
  have "unat v < 8" using bits_less [OF v(1)] by simp
  then have "unat (ucast v :: u8) \<le> MAXBITS" by (simp add: unsigned_ucast_eq unsigned_take_bit_eq take_bit_nat_eq_self MAXBITS_def)
  then have s: "small (l(i := ucast v))" using Cons.prems(3) by (rule small_upd [rotated])
  obtain b2 c2 l2 where "read_clc is b1 (l(i := ucast v)) = (b2, l2)" "read_clc is c1 (l(i := ucast v)) = (c2, l2)"
    "read_two 0 b1 c1 b2 c2" "small l2"
    using Cons.IH [OF _ read_two_readers [OF v(3)] s] by blast
  then show ?case using Cons.prems(1) v read_two_chain [OF v(3)] by simp
qed

lemma repeat_len_small:
  assumes "small l" "unat v \<le> MAXBITS" "repeat_len r tot v n l = (n1, l1)"
  shows "small l1" "n \<le> n1" "0 < r \<Longrightarrow> n < tot \<Longrightarrow> n < n1"
proof -
  have "small l1 \<and> n \<le> n1 \<and> (0 < r \<and> n < tot \<longrightarrow> n < n1)"
    using assms
  proof (induction r tot v n l rule: repeat_len.induct)
    case (2 r tot v n l)
    then show ?case by (fastforce split: if_splits)
  qed simp
  then show "small l1" "n \<le> n1" "0 < r \<Longrightarrow> n < tot \<Longrightarrow> n < n1" by auto
qed

definition lengths_both :: "bitr \<Rightarrow> bitr \<Rightarrow> (int + bitr \<times> buffer) option \<Rightarrow> (int + bitr \<times> buffer) option \<Rightarrow> bool" where
  "lengths_both b c x y \<longleftrightarrow> (\<exists>r. x = Some (Inl r) \<and> y = Some (Inl r) \<and> r < 0) \<or>
     (\<exists>b1 c1 l1. x = Some (Inr (b1, l1)) \<and> y = Some (Inr (c1, l1)) \<and> read_two 0 b c b1 c1 \<and> small l1)"

lemma lengths_both_step: "read_two n b c b1 c1 \<Longrightarrow> lengths_both b1 c1 x y \<Longrightarrow> lengths_both b c x y"
  unfolding lengths_both_def using read_two_chain by blast

lemma read_lengths_two:
  assumes "same_table h k lens m" "readers b c" "small l"
  shows "lengths_both b c (read_lengths h tot n b l) (read_lengths k tot n c l)"
  using assms(2,3)
proof (induction "tot - n" arbitrary: n b c l rule: less_induct)
  case less
  show ?case
  proof (cases "n < tot")
    case False
    then show ?thesis using less.prems read_two_refl
      by (subst read_lengths.simps, subst (2) read_lengths.simps) (auto simp: lengths_both_def)
  next
    case True
    obtain r b1 c1 where h: "huff_decode b h = (r, b1)" "huff_decode c k = (r, c1)" "read_two 1 b c b1 c1"
      by (rule huff_both [OF less.prems(1) assms(1)])
    note ec = read_two_same_err [OF h(3)]
    have run: "lengths_both b c (case repeat_len q tot v n l of (n, l) \<Rightarrow> read_lengths h tot n b2 l)
        (case repeat_len q tot v n l of (n, l) \<Rightarrow> read_lengths k tot n c2 l)"
      if "read_two w b1 c1 b2 c2" "0 < q" "unat v \<le> MAXBITS" for q v b2 c2 w
    proof -
      obtain n1 l1 where n1: "repeat_len q tot v n l = (n1, l1)" by fastforce
      note s = repeat_len_small [OF less.prems(2) that(3) n1]
      have "lengths_both b2 c2 (read_lengths h tot n1 b2 l1) (read_lengths k tot n1 c2 l1)"
        using s True that(2) by (intro less.hyps read_two_readers [OF that(1)]) auto
      then show ?thesis using n1 lengths_both_step [OF read_two_chain [OF h(3) that(1)]] by simp
    qed
    consider (bad) "err b1 \<or> r < 0" | (len) "\<not> err b1" "0 \<le> r" "r < 16" | (none) "\<not> err b1" "r = 16" "n = 0"
      | (rep) "\<not> err b1" "r = 16" "n \<noteq> 0" | (z3) "\<not> err b1" "r = 17" | (z11) "\<not> err b1" "18 \<le> r" by linarith
    then show ?thesis
    proof cases
      case bad
      then have "read_lengths h tot n b l = Some (Inl (-3))" "read_lengths k tot n c l = Some (Inl (-3))"
        using True ec by (subst read_lengths.simps, simp add: h)+
      then show ?thesis by (simp add: lengths_both_def)
    next
      case len
      have e: "read_lengths h tot n b l = read_lengths h tot (n + 1) b1 (l(n := word_of_int r))"
        "read_lengths k tot n c l = read_lengths k tot (n + 1) c1 (l(n := word_of_int r))"
        using True ec len by (subst read_lengths.simps, simp add: h)+
      have "word_of_int r = (of_nat (nat r) :: u8)" using len(2) by (metis nat_0_le of_int_of_nat_eq)
      moreover have "nat r < 16" using len by simp
      ultimately have "unat (word_of_int r :: u8) \<le> MAXBITS" by (simp add: unat_of_nat MAXBITS_def)
      then have "lengths_both b1 c1 (read_lengths h tot (n + 1) b1 (l(n := word_of_int r))) (read_lengths k tot (n + 1) c1 (l(n := word_of_int r)))"
        using True less.prems(2) by (intro less.hyps read_two_readers [OF h(3)]) auto
      then show ?thesis unfolding e by (rule lengths_both_step [OF h(3)])
    next
      case none
      then have "read_lengths h tot n b l = Some (Inl (-4))" "read_lengths k tot n c l = Some (Inl (-4))"
        using True ec by (subst read_lengths.simps, simp add: h)+
      then show ?thesis by (simp add: lengths_both_def)
    next
      case rep
      obtain v b2 c2 where v: "bits b1 2 = (v, b2)" "bits c1 2 = (v, c2)" "read_two 2 b1 c1 b2 c2"
        by (rule bits_both [OF read_two_readers [OF h(3)], of 2]) simp_all
      have "unat (l (n - 1)) \<le> MAXBITS" using less.prems(2) by (simp add: small_def)
      from run [OF v(3) _ this, of "3 + unat v"] show ?thesis
        by (subst read_lengths.simps, subst (2) read_lengths.simps) (use True ec rep h v in simp)
    next
      case z3
      obtain v b2 c2 where v: "bits b1 3 = (v, b2)" "bits c1 3 = (v, c2)" "read_two 3 b1 c1 b2 c2"
        by (rule bits_both [OF read_two_readers [OF h(3)], of 3]) simp_all
      from run [OF v(3), of "3 + unat v" 0] show ?thesis
        by (subst read_lengths.simps, subst (2) read_lengths.simps) (use True ec z3 h v in simp)
    next
      case z11
      obtain v b2 c2 where v: "bits b1 7 = (v, b2)" "bits c1 7 = (v, c2)" "read_two 7 b1 c1 b2 c2"
        by (rule bits_both [OF read_two_readers [OF h(3)], of 7]) simp_all
      from run [OF v(3), of "11 + unat v" 0] show ?thesis
        by (subst read_lengths.simps, subst (2) read_lengths.simps) (use True ec z11 h v in simp)
    qed
  qed
qed

definition tables_both :: "bitr \<Rightarrow> bitr \<Rightarrow> (int \<times> bitr \<times> huff \<times> huff) option \<Rightarrow> (int \<times> bitr \<times> huff \<times> huff) option \<Rightarrow> bool" where
  "tables_both b c x y \<longleftrightarrow> (\<exists>r b1 h1 d1 c1 k1 e1. x = Some (r, b1, h1, d1) \<and> y = Some (r, c1, k1, e1) \<and>
     (r = 0 \<longrightarrow> read_two 0 b c b1 c1 \<and> (\<exists>ll nl dl nd. same_table h1 k1 ll nl \<and> same_table d1 e1 dl nd)))"

lemma tables_bothI:
  "x = Some (r, b1, h1, d1) \<Longrightarrow> y = Some (r, c1, k1, e1) \<Longrightarrow>
     r = 0 \<longrightarrow> read_two 0 b c b1 c1 \<and> same_table h1 k1 ll nl \<and> same_table d1 e1 dl nd \<Longrightarrow> tables_both b c x y"
  unfolding tables_both_def by blast

lemma build_dynamic_two:
  assumes "readers b c"
  shows "tables_both b c (build_dynamic u b lh dh) (build_dynamic w c lk dk)"
proof -
  obtain v1 b1 c1 where b1: "bits b 5 = (v1, b1)" "bits c 5 = (v1, c1)" "read_two 5 b c b1 c1"
    by (rule bits_both [OF assms, of 5]) simp_all
  obtain v2 b2 c2 where b2: "bits b1 5 = (v2, b2)" "bits c1 5 = (v2, c2)" "read_two 5 b1 c1 b2 c2"
    by (rule bits_both [OF read_two_readers [OF b1(3)], of 5]) simp_all
  obtain v3 b3 c3 where b3: "bits b2 4 = (v3, b3)" "bits c2 4 = (v3, c3)" "read_two 4 b2 c2 b3 c3"
    by (rule bits_both [OF read_two_readers [OF b2(3)], of 4]) simp_all
  have "small (\<lambda>_. 0)" by (simp add: small_def)
  then obtain b4 c4 l4 where b4: "read_clc (take (unat v3 + 4) clc_order) b3 (\<lambda>_. 0) = (b4, l4)"
    "read_clc (take (unat v3 + 4) clc_order) c3 (\<lambda>_. 0) = (c4, l4)" "read_two 0 b3 c3 b4 c4" "small l4"
    using read_clc_two [OF read_two_readers [OF b3(3)]] by metis
  have t4: "read_two 0 b c b4 c4" by (rule read_two_chain [OF b1(3) read_two_chain [OF b2(3) read_two_chain [OF b3(3) b4(3)]]])
  obtain r h1 q k1 where hb: "huff_build u l4 19 = (r, h1)" "huff_build w l4 19 = (q, k1)" "r < 0 \<longleftrightarrow> q < 0" "0 \<le> r \<Longrightarrow> same_table h1 k1 l4 19"
    by (rule build_both [OF small_lengths(1) [OF b4(4), where n = 19], of u w]) blast
  let ?hl = "unat v1 + 257" and ?hd = "unat v2 + 1"
  define R where "R h g b x = (case x of None \<Rightarrow> None | Some (Inl e) \<Rightarrow> Some (e, b, h, g)
      | Some (Inr (b, lengths)) \<Rightarrow> if lengths 256 = 0 then Some (-5, b, h, g)
          else (let (r, h) = huff_build h lengths ?hl in if r < 0 then Some (-6, b, h, g)
            else (let (r, g) = huff_build g (\<lambda>i. lengths (?hl + i)) ?hd in if r < 0 then Some (-7, b, h, g) else Some (0, b, h, g))))"
    for h g b and x :: "(int + bitr \<times> buffer) option"
  have e: "build_dynamic u b lh dh = (if 286 < ?hl \<or> 30 < ?hd then Some (-1, b3, lh, dh) else if r < 0 then Some (-2, b4, lh, dh)
      else R lh dh b4 (read_lengths h1 (?hl + ?hd) 0 b4 (\<lambda>_. 0)))"
    "build_dynamic w c lk dk = (if 286 < ?hl \<or> 30 < ?hd then Some (-1, c3, lk, dk) else if r < 0 then Some (-2, c4, lk, dk)
      else R lk dk c4 (read_lengths k1 (?hl + ?hd) 0 c4 (\<lambda>_. 0)))"
    unfolding build_dynamic_def b1(1,2) b2(1,2) b3(1,2) Let_def prod.case b4(1,2) hb(1,2) hb(3) R_def by (rule refl)+
  have R: "tables_both b c (R lh dh b4 x) (R lk dk c4 y)" if xy: "lengths_both b4 c4 x y" for x y
  proof -
    consider (stop) j where "x = Some (Inl j)" "y = Some (Inl j)" "j < 0"
      | (go) b5 c5 l5 where "x = Some (Inr (b5, l5))" "y = Some (Inr (c5, l5))" "read_two 0 b4 c4 b5 c5" "small l5"
      using xy unfolding lengths_both_def by blast
    then show ?thesis
    proof cases
      case stop
      then show ?thesis by (intro tables_bothI [where r = j]) (simp_all add: R_def)
    next
      case go
      obtain r1 h2 q1 k2 where p: "huff_build lh l5 ?hl = (r1, h2)" "huff_build lk l5 ?hl = (q1, k2)" "r1 < 0 \<longleftrightarrow> q1 < 0"
        "0 \<le> r1 \<Longrightarrow> same_table h2 k2 l5 ?hl"
        by (rule build_both [OF small_lengths(1) [OF go(4)]]) blast
      obtain r2 d2 q2 e2 where o: "huff_build dh (\<lambda>i. l5 (?hl + i)) ?hd = (r2, d2)" "huff_build dk (\<lambda>i. l5 (?hl + i)) ?hd = (q2, e2)"
        "r2 < 0 \<longleftrightarrow> q2 < 0" "0 \<le> r2 \<Longrightarrow> same_table d2 e2 (\<lambda>i. l5 (?hl + i)) ?hd"
        by (rule build_both [OF small_lengths(2) [OF go(4)]]) blast
      have "read_two 0 b c b5 c5" by (rule read_two_chain [OF t4 go(3)])
      then show ?thesis unfolding go(1,2) R_def option.case sum.case prod.case p(1,2) o(1,2) Let_def tables_both_def
        using p(3,4) o(3,4) by auto blast+
    qed
  qed
  show ?thesis
  proof (cases "286 < ?hl \<or> 30 < ?hd \<or> r < 0")
    case True
    then show ?thesis unfolding e tables_both_def by auto
  next
    case False
    then have "lengths_both b4 c4 (read_lengths h1 (?hl + ?hd) 0 b4 (\<lambda>_. 0)) (read_lengths k1 (?hl + ?hd) 0 c4 (\<lambda>_. 0))"
      using hb(4) read_lengths_two [OF _ read_two_readers [OF b4(3)] \<open>small (\<lambda>_. 0)\<close>] by simp
    from R [OF this] show ?thesis unfolding e using False by simp
  qed
qed

section \<open>Streams\<close>

definition step_both :: "nat \<Rightarrow> bitr \<Rightarrow> bitr \<Rightarrow> buffer \<Rightarrow> buffer \<Rightarrow> (cint \<times> buffer + bitr \<times> buffer \<times> u32) option \<Rightarrow>
    (cint \<times> buffer + bitr \<times> buffer \<times> u32) option \<Rightarrow> bool" where
  "step_both cap b c d e x y \<longleftrightarrow>
     (\<exists>r d1 e1. x = Some (Inl (r, d1)) \<and> y = Some (Inl (r, e1)) \<and> r < 0 \<and> frame cap d d1 \<and> frame cap e e1) \<or>
     (\<exists>b1 c1 d1 e1 out. x = Some (Inr (b1, d1, out)) \<and> y = Some (Inr (c1, e1, out)) \<and> read_two 0 b c b1 c1 \<and>
        frame cap d d1 \<and> frame cap e e1 \<and> unat out \<le> cap \<and> agree (unat out) d1 e1)"

lemma step_both_err: "x = Some (Inl (r, d)) \<Longrightarrow> y = Some (Inl (r, e)) \<Longrightarrow> r < 0 \<Longrightarrow> step_both cap b c d e x y"
  unfolding step_both_def by (metis frame_refl)

lemma same_table_fixed:
  assumes "build_fixed u u = (lh, dh)" "build_fixed w w = (lk, dk)"
  shows "same_table lh lk fixed_lengths 288" "same_table dh dk fixed_dist 30"
  using assms huff_build_spec(2) [OF fixed_ok(1,2)] huff_build_spec(2) [OF fixed_ok(3,4)]
  by (auto simp: build_fixed_def same_table_def)

lemma inflate_coded_two:
  assumes "readers b c" "unat out \<le> unat cap" "unat cap < 2147483648" "agree (unat out) d e"
  shows "step_both (unat cap) b c d e (inflate_coded u t b d cap out) (inflate_coded w t c e cap out)"
proof -
  have T: "tables_both b c (if t = 1 then (case build_fixed u u of (lh, dh) \<Rightarrow> Some (0, b, lh, dh)) else build_dynamic u b u u)
      (if t = 1 then (case build_fixed w w of (lh, dh) \<Rightarrow> Some (0, c, lh, dh)) else build_dynamic w c w w)"
  proof (cases "t = 1")
    case True
    obtain lh dh lk dk where f: "build_fixed u u = (lh, dh)" "build_fixed w w = (lk, dk)" by fastforce
    show ?thesis using True same_table_fixed [OF f] f read_two_refl [OF assms(1)] by (auto simp: tables_both_def)
  next
    case False
    then show ?thesis using build_dynamic_two [OF assms(1)] by simp
  qed
  then obtain r b1 h1 d1 c1 k1 e1 where t: "(if t = 1 then (case build_fixed u u of (lh, dh) \<Rightarrow> Some (0, b, lh, dh)) else build_dynamic u b u u) = Some (r, b1, h1, d1)"
    "(if t = 1 then (case build_fixed w w of (lh, dh) \<Rightarrow> Some (0, c, lh, dh)) else build_dynamic w c w w) = Some (r, c1, k1, e1)"
    "r = 0 \<longrightarrow> read_two 0 b c b1 c1 \<and> (\<exists>ll nl dl nd. same_table h1 k1 ll nl \<and> same_table d1 e1 dl nd)"
    unfolding tables_both_def by blast
  show ?thesis
  proof (cases "r = 0")
    case False
    then show ?thesis unfolding inflate_coded_def t by (intro step_both_err [where r = "-15"]) simp_all
  next
    case True
    then obtain ll nl dl nd where T: "read_two 0 b c b1 c1" "same_table h1 k1 ll nl" "same_table d1 e1 dl nd" using t(3) by blast
    from inflate_block_two [OF T(2,3) assms(3) read_two_readers [OF T(1)] assms(2,4)]
    obtain q b2 c2 d2 e2 where q: "inflate_block b1 h1 d1 d cap out = Some (q, b2, d2)" "inflate_block c1 k1 e1 e cap out = Some (q, c2, e2)"
      "read_two 1 b1 c1 b2 c2" "frame (unat cap) d d2" "frame (unat cap) e e2" "q < 0 \<or> q \<le> int (unat cap) \<and> agree (nat q) d2 e2"
      unfolding block_both_def by blast
    have t2: "read_two 0 b c b2 c2" by (rule read_two_chain [OF T(1) q(3)])
    show ?thesis
    proof (cases "q < 0")
      case True
      then show ?thesis unfolding inflate_coded_def t step_both_def using \<open>r = 0\<close> q by auto
    next
      case False
      then have n: "q = int (nat q)" "nat q \<le> unat cap" using q(6) by linarith+
      have "nat q < 4294967296" using n(2) assms(3) by linarith
      then have "unat (of_nat (nat q) :: u32) = nat q" by (rule unat_of_nat32)
      moreover have "word_of_int q = (of_nat (nat q) :: u32)" using n(1) by (metis of_int_of_nat_eq)
      ultimately have "unat (word_of_int q :: u32) = nat q" by simp
      then show ?thesis unfolding inflate_coded_def t step_both_def using \<open>r = 0\<close> q False t2 n by auto
    qed
  qed
qed

lemma two_bytes_less: "unat (ucast (x :: u8) OR push_bit 8 (ucast (y :: u8)) :: u32) < 65536"
proof -
  let ?w = "ucast x OR push_bit 8 (ucast y) :: u32"
  have t: "take_bit 16 ?w = ?w" by (rule bit_word_eqI) (auto simp: bit_simps dest: bit_imp_le_length)
  have "unat (take_bit 16 ?w) < 65536" by (simp only: unat_take_bit) simp
  then show ?thesis by (simp only: t)
qed

lemma inflate_stored_two:
  assumes "readers b c" "unat (len b) < 2147483648" "unat out \<le> unat cap" "unat cap < 2147483648" "agree (unat out) d e"
  shows "step_both (unat cap) b c d e (Some (inflate_stored b d cap out)) (Some (inflate_stored c e cap out))"
proof -
  let ?b = "b\<lparr>bitbuf := 0, bitcnt := 0\<rparr>" and ?c = "c\<lparr>bitbuf := 0, bitcnt := 0\<rparr>"
  have same: "len c = len b" "pos c = pos b" "\<And>i. i < unat (len b) \<Longrightarrow> src c i = src b i" "err c = err b"
    using assms(1) by (auto simp: readers_def same_reader_def)
  have pl: "unat (pos b) \<le> unat (len b)" using assms(1) by (simp add: readers_def reader_safe_def word_le_nat_alt)
  have p: "unat (pos b + k) = unat (pos b) + unat k" if "unat k < 100000" for k
    using unat_add32 [of "pos b" k] pl assms(2) that by simp
  show ?thesis
  proof (cases "len b < pos b + 4")
    case True
    then show ?thesis using same by (intro step_both_err [where r = "-11"]) (simp_all add: inflate_stored_def Let_def)
  next
    case False
    then have l4: "unat (pos b) + 4 \<le> unat (len b)" using p [of 4] by (simp add: word_less_nat_alt)
    define n where "n = src16 ?b (pos b)"
    have s16: "src16 ?c (pos b) = n" "src16 ?c (pos b + 2) = src16 ?b (pos b + 2)"
      using same(3) l4 p [of 1] p [of 2] p [of 3] by (simp_all add: src16_def n_def add.assoc)
    have n: "unat n < 65536" unfolding n_def src16_def by (rule two_bytes_less)
    have x: "inflate_stored b d cap out = (if n XOR 0xFFFF \<noteq> src16 ?b (pos b + 2) then Inl (-12, d) else if len b < pos b + 4 + n then Inl (-13, d)
        else if cap < out + n then Inl (-14, d)
        else Inr (?b\<lparr>pos := pos b + 4 + n\<rparr>, mcpy d (unat out) (src b) (unat (pos b + 4)) (unat n), out + n))"
      using False by (simp add: inflate_stored_def Let_def n_def)
    have y: "inflate_stored c e cap out = (if n XOR 0xFFFF \<noteq> src16 ?b (pos b + 2) then Inl (-12, e) else if len b < pos b + 4 + n then Inl (-13, e)
        else if cap < out + n then Inl (-14, e)
        else Inr (?c\<lparr>pos := pos b + 4 + n\<rparr>, mcpy e (unat out) (src c) (unat (pos b + 4)) (unat n), out + n))"
      using False same(1,2) s16 by (simp add: inflate_stored_def Let_def)
    show ?thesis
    proof (cases "n XOR 0xFFFF \<noteq> src16 ?b (pos b + 2) \<or> len b < pos b + 4 + n \<or> cap < out + n")
      case True
      then show ?thesis unfolding x y step_both_def by auto
    next
      case ok: False
      have pn: "unat (pos b + 4 + n) = unat (pos b) + 4 + unat n"
        using unat_add32 [of 4 n] p [of "4 + n"] n by (simp add: add.assoc)
      have on: "unat (out + n) = unat out + unat n" using unat_add32 [of out n] assms(3,4) n by simp
      have le: "unat (pos b) + 4 + unat n \<le> unat (len b)" "unat out + unat n \<le> unat cap"
        using ok pn on by (auto simp: word_less_nat_alt)
      let ?d = "mcpy d (unat out) (src b) (unat (pos b + 4)) (unat n)" and ?e = "mcpy e (unat out) (src c) (unat (pos b + 4)) (unat n)"
      have "agree (unat (out + n)) ?d ?e" using assms(5) same(3) le p [of 4] by (auto simp: agree_def mcpy_apply on)
      moreover have "frame (unat cap) d ?d" "frame (unat cap) e ?e" using le by (auto simp: frame_def mcpy_apply)
      moreover have "read_two 0 b c (?b\<lparr>pos := pos b + 4 + n\<rparr>) (?c\<lparr>pos := pos b + 4 + n\<rparr>)"
        using assms(1) le pn by (auto simp: read_two_def readers_def same_reader_def consumed_def reader_safe_def length_stream word_le_nat_alt)
      moreover have "unat (out + n) \<le> unat cap" using le on by simp
      ultimately show ?thesis unfolding x y step_both_def using ok by auto
    qed
  qed
qed

definition stream_both :: "nat \<Rightarrow> buffer \<Rightarrow> buffer \<Rightarrow> (cint \<times> buffer) option \<Rightarrow> (cint \<times> buffer) option \<Rightarrow> bool" where
  "stream_both cap d e x y \<longleftrightarrow> (\<exists>r d1 e1. x = Some (r, d1) \<and> y = Some (r, e1) \<and> frame cap d d1 \<and> frame cap e e1 \<and>
     r \<le> int cap \<and> agree (nat r) d1 e1)"

lemma stream_both_err: "x = Some (r, d1) \<Longrightarrow> y = Some (r, e1) \<Longrightarrow> r < 0 \<Longrightarrow> frame cap d d1 \<Longrightarrow> frame cap e e1 \<Longrightarrow> stream_both cap d e x y"
  by (simp add: stream_both_def agree_def)

lemma stream_both_step: "frame cap d d1 \<Longrightarrow> frame cap e e1 \<Longrightarrow> stream_both cap d1 e1 x y \<Longrightarrow> stream_both cap d e x y"
  unfolding stream_both_def using frame_trans by blast

lemma inflate_blocks_two:
  assumes "unat (len b) < 2147483648" "unat cap < 2147483648" "readers b c" "unat out \<le> unat cap" "agree (unat out) d e"
  shows "stream_both (unat cap) d e (inflate_blocks u b d cap out) (inflate_blocks w c e cap out)"
  using assms(1,3-5)
proof (induction "left b" arbitrary: b c d e out rule: less_induct)
  case less
  obtain f b1 c1 where b1: "bits b 1 = (f, b1)" "bits c 1 = (f, c1)" "read_two 1 b c b1 c1"
    by (rule bits_both [OF less.prems(2), of 1]) simp_all
  obtain t b2 c2 where b2: "bits b1 2 = (t, b2)" "bits c1 2 = (t, c2)" "read_two 2 b1 c1 b2 c2"
    by (rule bits_both [OF read_two_readers [OF b1(3)], of 2]) simp_all
  have t2: "read_two 1 b c b2 c2" by (rule read_two_le [OF read_two_trans [OF b1(3) b2(3)]]) simp
  note ec = read_two_same_err [OF t2]
  show ?case
  proof (cases "err b2")
    case True
    then have "inflate_blocks u b d cap out = Some (-10, d)" "inflate_blocks w c e cap out = Some (-10, e)"
      by (subst inflate_blocks.simps, simp only: b1(1,2) b2(1,2) prod.case ec if_True)+
    then show ?thesis by (rule stream_both_err) simp_all
  next
    case False
    let ?x = "if t = 0 then Some (inflate_stored b2 d cap out) else if t = 1 \<or> t = 2 then inflate_coded u t b2 d cap out else Some (Inl (-16, d))"
    let ?y = "if t = 0 then Some (inflate_stored c2 e cap out) else if t = 1 \<or> t = 2 then inflate_coded w t c2 e cap out else Some (Inl (-16, e))"
    have len2: "len b2 = len b" using t2 by (simp add: read_two_def consumed_def)
    have S: "step_both (unat cap) b2 c2 d e ?x ?y"
      using inflate_stored_two [OF read_two_readers [OF t2] _ less.prems(3) assms(2) less.prems(4)] len2 less.prems(1)
        inflate_coded_two [OF read_two_readers [OF t2] less.prems(3) assms(2) less.prems(4), of u t w]
      by (auto intro: step_both_err)
    let ?k = "\<lambda>u x. case x of None \<Rightarrow> None | Some (Inl r) \<Rightarrow> Some r
        | Some (Inr (b, dst, out)) \<Rightarrow> if f = 0 then inflate_blocks u b dst cap out else Some (long_of out, dst)"
    have e: "inflate_blocks u b d cap out = ?k u ?x" "inflate_blocks w c e cap out = ?k w ?y"
      by (subst inflate_blocks.simps, simp only: b1(1,2) b2(1,2) prod.case ec False if_False)+
    consider (stop) r d1 e1 where "?x = Some (Inl (r, d1))" "?y = Some (Inl (r, e1))" "r < 0" "frame (unat cap) d d1" "frame (unat cap) e e1"
      | (go) b3 c3 d1 e1 out1 where "?x = Some (Inr (b3, d1, out1))" "?y = Some (Inr (c3, e1, out1))" "read_two 0 b2 c2 b3 c3"
        "frame (unat cap) d d1" "frame (unat cap) e e1" "unat out1 \<le> unat cap" "agree (unat out1) d1 e1"
      using S unfolding step_both_def by blast
    then show ?thesis
    proof cases
      case stop
      then show ?thesis unfolding e stop(1,2) by (intro stream_both_err [where r = r]) simp_all
    next
      case go
      have t3: "read_two 1 b c b3 c3" using read_two_trans [OF t2 go(3)] by simp
      have "len b3 = len b" "left b3 < left b"
        using t3 left_less [OF t3] read_two_err [OF t2 False] by (simp_all add: read_two_def consumed_def)
      then have "stream_both (unat cap) d1 e1 (inflate_blocks u b3 d1 cap out1) (inflate_blocks w c3 e1 cap out1)"
        using less.hyps read_two_readers [OF t3] less.prems(1) go(6,7) by simp
      moreover have "long_of out1 = int (unat out1)" using long_of_nat [of "unat out1"] go(6) assms(2) by simp
      then have "stream_both (unat cap) d1 e1 (Some (long_of out1, d1)) (Some (long_of out1, e1))"
        using go(6,7) by (simp only: stream_both_def option.inject prod.inject) (metis frame_refl nat_int of_nat_le_iff)
      ultimately show ?thesis unfolding e go(1,2) using stream_both_step [OF go(4,5)] by simp
    qed
  qed
qed

section \<open>The container\<close>

lemma skip_name_two:
  assumes "\<forall>i < unat n. s i = t i"
  shows "skip_name s n p = skip_name t n p"
  using assms
proof (induction s n p rule: skip_name.induct)
  case (1 s n p)
  show ?case
  proof (cases "p < n")
    case True
    then have "s (unat p) = t (unat p)" using 1(2) by (simp add: word_less_nat_alt)
    then show ?thesis using 1 True by (subst skip_name.simps, subst (2) skip_name.simps) simp
  next
    case False
    then show ?thesis by (subst skip_name.simps, subst (2) skip_name.simps) simp
  qed
qed

lemma skip_name_bound: "unat (skip_name s n p) \<le> max (unat p) (unat n)"
proof (induction s n p rule: skip_name.induct)
  case (1 s n p)
  show ?case
  proof (cases "p < n")
    case True
    have lt: "unat p < unat n" using True by (simp add: word_less_nat_alt)
    have "unat (p + 1) = unat p + 1" by (rule unat_succ32 [OF lt])
    then show ?thesis using 1 True lt by (subst skip_name.simps) auto
  next
    case False
    then show ?thesis by (subst skip_name.simps) simp
  qed
qed

lemma gzip_payload_two:
  assumes "\<forall>i < unat n. s i = t i" "18 \<le> unat n"
  shows "gzip_payload s n = gzip_payload t n"
proof -
  have "s 3 = t 3" "s 10 = t 10" "s 11 = t 11" using assms by simp_all
  moreover have "skip_name s n = skip_name t n" using skip_name_two [OF assms(1)] by (simp add: fun_eq_iff)
  ultimately show ?thesis by (simp add: gzip_payload_def Let_def)
qed

lemma gzip_payload_bound:
  assumes "gzip_payload s n = Inr p" "unat n < 2147483648"
  shows "unat p + 8 \<le> unat n"
proof -
  let ?x = "ucast (s (unat (10 :: u32))) OR push_bit 8 (ucast (s (unat (10 + 1 :: u32)))) :: u32"
  define p1 where "p1 = (if s 3 AND 4 \<noteq> 0 then 10 + 2 + ?x else 10)"
  define p2 where "p2 = (if s 3 AND 8 \<noteq> 0 then skip_name s n p1 else p1)"
  define p3 where "p3 = (if s 3 AND 0x10 \<noteq> 0 then skip_name s n p2 else p2)"
  have "unat (10 + 2 + ?x) = 12 + unat ?x" using unat_add32 [of 12 ?x] two_bytes_less [of "s (unat (10 :: u32))" "s (unat (10 + 1 :: u32))"] by simp
  then have "unat p1 < 2147500000" using two_bytes_less [of "s (unat (10 :: u32))" "s (unat (10 + 1 :: u32))"] by (simp add: p1_def)
  then have "unat p2 < 2147500000" using skip_name_bound [of s n p1] assms(2) by (auto simp: p2_def)
  then have p3: "unat p3 < 2147500000" using skip_name_bound [of s n p2] assms(2) by (auto simp: p3_def)
  have "gzip_payload s n = (if s 3 AND 4 \<noteq> 0 \<and> n < 10 + 2 then Inl (-22) else
      if n < (if s 3 AND 2 \<noteq> 0 then p3 + 2 else p3) + 8 then Inl (-23) else Inr (if s 3 AND 2 \<noteq> 0 then p3 + 2 else p3))"
    unfolding gzip_payload_def Let_def p1_def p2_def p3_def by (rule refl)
  then have p: "p = (if s 3 AND 2 \<noteq> 0 then p3 + 2 else p3)" "\<not> n < p + 8" using assms(1) by (auto split: if_splits)
  have "unat p < 2147600000" using p(1) p3 unat_add32 [of p3 2] by auto
  then have "unat (p + 8) = unat p + 8" using unat_add32 [of p 8] by simp
  then show ?thesis using p(2) by (simp add: word_less_nat_alt)
qed

lemma inflate_raw_two:
  assumes "unat n < 2147483648" "unat cap < 2147483648" "\<forall>i < unat n. s i = t i"
  shows "stream_both (unat cap) d e (inflate_raw u s n d cap) (inflate_raw w t n e cap)"
  unfolding inflate_raw_def
  by (rule inflate_blocks_two) (use assms in \<open>simp_all add: readers_def same_reader_def reader_safe_def agree_def\<close>)

lemma crc32_two: "agree n d e \<Longrightarrow> crc32 d n = crc32 e n"
proof -
  assume a: "agree n d e"
  have "fold (\<lambda>i crc. (crc_bit ^^ 8) (crc XOR ucast (d i))) [0..<n] c = fold (\<lambda>i crc. (crc_bit ^^ 8) (crc XOR ucast (e i))) [0..<n] c" for c
    by (rule fold_cong) (use a in \<open>auto simp: agree_def\<close>)
  then show ?thesis by (simp only: crc32_def)
qed

lemma get32_two: "\<forall>i < n. s i = t i \<Longrightarrow> p + 4 \<le> n \<Longrightarrow> get32 s p = get32 t p"
  by (simp add: get32_def)

text \<open>
  C6. The decompressor is safe on every input, valid or not: it returns, it writes nothing beyond the capacity
  of the output buffer and reports no more than that, and its result depends only on the bytes of the input.
  Two calls that agree on the input return the same value and the same output bytes, whatever lies behind the
  input, was in the output buffer, or was left in the tables on the stack.
\<close>

theorem gunzip_safe:
  assumes "unat srclen < 2147483648" "unat dstcap < 2147483648" "\<forall>i < unat srclen. s i = s' i"
  shows "\<exists>r d d'. gunzip u0 s srclen dst dstcap = Some (r, d) \<and> gunzip u1 s' srclen dst' dstcap = Some (r, d') \<and>
    (\<forall>i \<ge> unat dstcap. d i = dst i \<and> d' i = dst' i) \<and> r \<le> int (unat dstcap) \<and> (\<forall>i < nat r. d i = d' i)"
proof -
  have "stream_both (unat dstcap) dst dst' (gunzip u0 s srclen dst dstcap) (gunzip u1 s' srclen dst' dstcap)"
  proof (cases "is_gzip s srclen \<and> 18 \<le> srclen \<and> s 2 = 8")
    case False
    have "is_gzip s' srclen = is_gzip s srclen" using assms(3) by (auto simp: is_gzip_def word_le_nat_alt)
    moreover have "s' 2 = s 2" if "18 \<le> srclen" using assms(3) that by (simp add: word_le_nat_alt)
    ultimately show ?thesis using False
      by (intro stream_both_err [where r = "if is_gzip s srclen \<and> 18 \<le> srclen then - 21 else - 20"]) (auto simp: gunzip_def not_less)
  next
    case True
    then have n: "18 \<le> unat srclen" by (simp add: word_le_nat_alt)
    have g: "is_gzip s' srclen" "s' 2 = 8" "\<not> srclen < 18" using True assms(3) n by (auto simp: is_gzip_def word_less_nat_alt)
    have pay: "gzip_payload s' srclen = gzip_payload s srclen" by (rule gzip_payload_two [OF assms(3) n, symmetric])
    show ?thesis
    proof (cases "gzip_payload s srclen")
      case (Inl r)
      then have "r < 0" by (auto simp: gzip_payload_def Let_def split: if_splits)
      then show ?thesis by (rule stream_both_err [rotated 2]) (use True g pay Inl in \<open>simp_all add: gunzip_def\<close>)
    next
      case (Inr p)
      have p: "unat p + 8 \<le> unat srclen" by (rule gzip_payload_bound [OF Inr assms(1)])
      have u: "unat (srclen - 8) = unat srclen - 8" "unat (srclen - 4) = unat srclen - 4" "unat (srclen - 8 - p) = unat srclen - 8 - unat p"
        using unat_diff32 [of 8 srclen] unat_diff32 [of 4 srclen] unat_diff32 [of p "srclen - 8"] p n by (simp_all add: word_le_nat_alt)
      have "unat (srclen - 8 - p) < 2147483648" "\<forall>i < unat (srclen - 8 - p). s (unat p + i) = s' (unat p + i)"
        unfolding u(3) using assms(1,3) p by simp_all
      then have "stream_both (unat dstcap) dst dst' (inflate_raw u0 (\<lambda>i. s (unat p + i)) (srclen - 8 - p) dst dstcap)
          (inflate_raw u1 (\<lambda>i. s' (unat p + i)) (srclen - 8 - p) dst' dstcap)"
        by (intro inflate_raw_two assms(2))
      then obtain r d d' where r: "inflate_raw u0 (\<lambda>i. s (unat p + i)) (srclen - 8 - p) dst dstcap = Some (r, d)"
        "inflate_raw u1 (\<lambda>i. s' (unat p + i)) (srclen - 8 - p) dst' dstcap = Some (r, d')"
        "frame (unat dstcap) dst d" "frame (unat dstcap) dst' d'" "r \<le> int (unat dstcap)" "agree (nat r) d d'"
        unfolding stream_both_def by blast
      have t: "get32 s' (unat (srclen - 8)) = get32 s (unat (srclen - 8))" "gzip_isize s' srclen = gzip_isize s srclen"
        unfolding gzip_isize_def using get32_two [OF assms(3)] u n by (simp_all add: word_less_nat_alt)
      define q where "q = (if r < 0 then r else if word_of_int r \<noteq> gzip_isize s srclen then -24
        else if crc32 d (unat (word_of_int r :: u32)) \<noteq> get32 s (unat (srclen - 8)) then -25 else r)"
      have c: "crc32 d' (unat (word_of_int r :: u32)) = crc32 d (unat (word_of_int r :: u32))" if "0 \<le> r"
      proof -
        have "nat r < 4294967296" using r(5) assms(2) by linarith
        then have "unat (of_nat (nat r) :: u32) = nat r" by (rule unat_of_nat32)
        moreover have "word_of_int r = (of_nat (nat r) :: u32)" using that by (metis nat_0_le of_int_of_nat_eq)
        ultimately show ?thesis using crc32_two [OF r(6)] by simp
      qed
      have "gunzip u0 s srclen dst dstcap = Some (q, d)" using True g(3) Inr r(1) by (simp add: gunzip_def q_def)
      moreover have "gunzip u1 s' srclen dst' dstcap = Some (q, d')" using g Inr pay r(2) t c by (cases "0 \<le> r") (auto simp: gunzip_def q_def)
      moreover have "q \<le> int (unat dstcap)" "agree (nat q) d d'" using r(5,6) by (auto simp: q_def agree_def)
      ultimately show ?thesis using r(3,4) by (simp add: stream_both_def)
    qed
  qed
  then show ?thesis unfolding stream_both_def frame_def agree_def by blast
qed

theorem gunzip_safe_witness:
  "\<exists>r d d'. gunzip \<lparr>count = \<lambda>_. 0, symbol = \<lambda>_. 0\<rparr> (bytes_of [0x1f, 0x8b, 8, 0, 0, 0, 0, 0, 0, 3, 0x4b]) 19 (\<lambda>_. 0) 4 = Some (r, d) \<and>
     gunzip \<lparr>count = \<lambda>_. 7, symbol = \<lambda>_. 9\<rparr> (\<lambda>i. if i < 19 then bytes_of [0x1f, 0x8b, 8, 0, 0, 0, 0, 0, 0, 3, 0x4b] i else 0xff) 19 (\<lambda>_. 1) 4 = Some (r, d') \<and>
     (\<forall>i \<ge> 4. d i = 0 \<and> d' i = 1) \<and> r \<le> 4 \<and> (\<forall>i < nat r. d i = d' i)"
  using gunzip_safe [of 19 4 "bytes_of [0x1f, 0x8b, 8, 0, 0, 0, 0, 0, 0, 3, 0x4b]"
      "\<lambda>i. if i < 19 then bytes_of [0x1f, 0x8b, 8, 0, 0, 0, 0, 0, 0, 3, 0x4b] i else 0xff"
      "\<lparr>count = \<lambda>_. 0, symbol = \<lambda>_. 0\<rparr>" "\<lambda>_. 0" "\<lparr>count = \<lambda>_. 7, symbol = \<lambda>_. 9\<rparr>" "\<lambda>_. 1"]
  by simp

end
