(* ===== verification/Spec2Isabelle.thy ===== *)
theory Spec2Isabelle
  imports Libk Pmm Kmalloc Vm Ramfs Sync Msgq Memslab Udp Tinyfs Soc_Wf Inflate_Safe
begin

text \<open>
  A verification development for the \<open>embedded\<close> repository, which holds an operating-system kernel for
  ARM application processors (\<open>kernel/\<close>), an RTOS for Cortex-M microcontrollers (\<open>rtos/\<close>), a simulator of
  such a microcontroller and its board (\<open>sim/\<close>), and the libraries, tools and products around them. The
  development models the memory management, the filesystem and the decompressor of the kernel, the core of
  the RTOS with its network and file-system stack, and the simulated chip that the RTOS runs on in its tests.

  \<^bold>\<open>How the parts interact.\<close> The kernel runs on one core. Its page allocator hands out frames of a window
  of DRAM; the heap takes pages from it and cuts them into objects; the address spaces take pages from it
  for their translation tables; the filesystem keeps its inodes and page arrays on the heap and the data
  of its files in frames. The initial filesystem is unpacked by the decompressor. The RTOS schedules tasks by priority; mutexes, semaphores and message
  queues block and wake tasks through the scheduler; the UDP stack sits on an Ethernet driver; the file
  system sits on the flash driver, which talks to a W25Q chip over SPI. The simulator is a memory bus, a
  processor that reaches everything through that bus, an event queue, and the peripherals of an
  STM32F411, which raise interrupts in the interrupt controller.

  \<^bold>\<open>How C becomes HOL.\<close> Integers are words of their width, so that wrap-around is in the model. Pointers of
  the kernel are addresses in one byte-addressed memory, \<open>phys\<close>, and every kernel state record extends
  the one below it (\<open>phys\<close>, \<open>pmm\<close>, \<open>kheap\<close>, \<open>vm\<close>, \<open>ramfs\<close>), so that the operations of a lower layer apply unchanged
  in the upper ones. Static variables are fields of the component's record. A loop that follows data
  and may not end is an \<open>option\<close>-valued function with \<open>None\<close> for not returning, and the theorems show that
  it returns; no fuel is used, and the bounds in the model (32 events, 32 regions, 8 message slots, 32768
  frames) are those of the sources. Code outside the sources (the Ethernet controller, the board around the chip)
  is an argument, with its documented behaviour as named hypotheses. A critical section is one step;
  what tasks do in between is a step relation over all interleavings.

  \<^bold>\<open>Base.\<close>
  \<^item> \<open>Prelude\<close>: word arithmetic, byte-addressed memory with little-endian words, counting loops.
  \<^item> \<open>Buffers\<close>: byte arrays with the accesses of packed structures, for packets, sectors and host memory.

  \<^bold>\<open>Kernel.\<close>
  \<^item> \<open>Libk\<close>: \<open>kernel/lib/libk.c\<close>, the block and string routines. \<open>memmove\<close> is right for every overlap;
    \<open>strlcpy\<close> stays in its buffer and terminates.
  \<^item> \<open>Pmm\<close>: \<open>kernel/mm/pmm.c\<close>. The bitmap allocator returns the lowest free frame or aligned run, zeroed, and
    its count is exact in every reachable state; a reserved range is never handed out. Contract: locale \<open>frame_allocator\<close>, interpreted as \<open>pool\<close>.
  \<^item> \<open>Kmalloc\<close>: \<open>kernel/mm/kmalloc.c\<close>. The heap list is described by a segment predicate over the headers in
    memory; \<open>kmalloc\<close>, \<open>kfree\<close> and \<open>krealloc\<close> return, keep live objects apart and intact, and the statistic is
    exact. Requests are at most \<open>0xFFFFEFF0\<close> bytes, above which the page count of \<open>grow\<close> wraps. Contract: locale \<open>object_heap\<close>, interpreted as \<open>kobj\<close>.
  \<^item> \<open>Vm\<close>: \<open>kernel/arch/arm/vm.c\<close>. Two-level translation tables in memory refine a partial map from pages to
    frames under every sequence of map and unmap, return codes included; a new address space shares nothing with the old ones.
    Contract: locale \<open>address_space\<close>, interpreted as \<open>vspace\<close>.
  \<^item> \<open>Ramfs\<close>: \<open>kernel/fs/ramfs.c\<close>, the definitions: inodes, directories, path resolution, file data, pipes.

  \<^bold>\<open>Decompressor.\<close> \<open>kernel/lib/inflate.c\<close>.
  \<^item> \<open>Inflate\<close>: the definitions, from the bit reader to the gzip container. The Huffman tables are on the
    stack and only partly filled; what they held before is the argument \<open>u0\<close>. \<open>None\<close> is a call that does not
    return.
  \<^item> \<open>Inflate_Bits\<close>: the bit reader against the list of bits of the source. \<open>Inflate_Huff\<close>: canonical codes; a
    table is built exactly when the lengths satisfy the Kraft inequality, and decodes every code.
  \<^item> \<open>Deflate\<close>: blocks of literals and matches against the list of tokens they stand for. \<open>Gzip\<close>: an
    encoder of stored, fixed and dynamic blocks and of the container, and the round trip through it. The
    tables of the encoder follow the rules of RFC 1951 and its checksum is polynomial division.
  \<^item> \<open>Inflate_Safe\<close>: on any input the decoder returns, stays in its buffers and depends on nothing else.
    Buffers are below 2 GB, so that the bounds checks, which are sums of 32-bit words, do not wrap.

  \<^bold>\<open>RTOS.\<close>
  \<^item> \<open>Sched\<close>: \<open>rtos/kernel/sched.c\<close>, \<open>spinlock.h\<close>. The switch picks the most urgent runnable task; one task runs
    at a time; a sleeper wakes at its tick; a new task starts with the right frame; equal priorities do not rotate (a finding).
  \<^item> \<open>Sync\<close>: \<open>rtos/kernel/sync.c\<close>. Over all interleavings, a mutex that only its holder unlocks has one holder
    and no wake-up is lost: a waiter is ready or running whenever the resource is free.
    Contract: locale \<open>blocking_resource\<close>, interpreted for both mutex and semaphore.
  \<^item> \<open>Msgq\<close>: \<open>rtos/kernel/msgq.c\<close>, a ring that refines a bounded FIFO (locale \<open>bounded_queue\<close>, \<open>ring\<close>).
  \<^item> \<open>Memslab\<close>: \<open>rtos/lib/memslab.c\<close>. The free list in the free blocks survives whatever clients write.
  \<^item> \<open>Udp\<close>: \<open>rtos/net/udp.c\<close>. Frames are byte for byte those of the standards and the IP
    header is valid by RFC 1071; the first 256 bytes of a datagram sent are received unchanged.
  \<^item> \<open>W25q\<close>: \<open>rtos/drivers/flash/flash_w25q.c\<close> against the chip of \<open>sim/src/devices/w25q128.c\<close>. Writes return and
    program exactly their range. Contract: locale \<open>nor_flash\<close>, interpreted as \<open>w25q\<close>.
  \<^item> \<open>Tinyfs\<close>: \<open>rtos/fs/fs.c\<close>, \<open>tinyfs.c\<close> on that contract. Files read back what was written, also after a
    restart, which restores the names too; overwriting in place does not (a finding).

  \<^bold>\<open>Simulator.\<close>
  \<^item> \<open>Membus\<close>: \<open>sim/src/core/membus.c\<close>. Fast paths, cache and hash give what the scan of the regions gives.
  \<^item> \<open>Armv7m\<close>: \<open>sim/src/arch/armv7m/armv7m_cpu.c\<close>, every instruction, the step, exception entry and return.
    \<open>Armv7m_Laws\<close>: conditions after comparisons, push and pop, interrupts. \<open>Armv7m_Inv\<close>: the locale
    \<open>bus_closed\<close>, which carries an invariant of the bus through every instruction, interpreted as \<open>wf\<close>.
  \<^item> \<open>Events\<close>: \<open>sim/src/core/event_queue.c\<close>, a queue that refines a map of due events (locale
    \<open>timer_queue\<close>, interpreted as \<open>eventq\<close>).
  \<^item> \<open>Soc\<close>: the interrupt controller, SysTick, the STM32 peripherals, the SPI bus and \<open>soc/stm32f411.c\<close>.
    \<open>Soc_Laws\<close>: the timer's period, the way from a pin to an interrupt, the order of delivery. \<open>Soc_Wf\<close>:
    the invariant of the whole chip.

  \<^bold>\<open>Across components.\<close> This theory states the property that spans the simulator: bus, processor, event
  queue and peripherals together stay well-formed under every program.

  \<^bold>\<open>Not modelled.\<close> Of the kernel: processes, open files, system calls, ELF and cpio loading, device tree,
  drivers and assembly. Of the RTOS: the heap, the loader, logging, the shell and the register-level drivers other
  than the flash driver. Of the simulator: displays, serial back ends, the debugger stub and the board
  descriptions, which are host I/O behind the parameters of the chip. The boot loader, the C library,
  \<open>init\<close>, the tool chain, the debugger, the game engine and the product code are developments of their own
  and are not part of this one.
\<close>

text \<open>
  C12. The simulated chip stays well-formed, whatever program it runs and whatever happens on its pins.
  From its set-up on, through loading of an image, resets, ticks and input changes, with a board that
  keeps it so: every pointer into the table of bus regions is in range; the event queue holds at most
  one event per identifier and its cached cycle is not after any due time; the line buffer of a serial
  port never fills its 128 bytes; and a DMA stream that is enabled is in the active mask and, if it has
  a request, the flags are set that keep the controller from skipping it.
\<close>

theorem chip_well_formed:
  assumes "board_keeps bd" "machine_reach bd m" "s = devs (bus m)"
  shows "bus_inv (bus m) \<and> eq_inv (eq s) \<and> (\<forall>u. length (tx_buf (usarts s u)) < 128) \<and>
    (\<forall>k i. i < 8 \<longrightarrow> bit (cr (streams (dma s k) i)) CR_EN = bit (active_mask (dma s k)) i \<and>
       (bit (cr (streams (dma s k) i)) CR_EN \<and> request_pending (streams (dma s k) i) \<longrightarrow>
          any_active (dma s k) \<and> any_pending (dma s k)))"
  using machine_reach_wf [OF assms(1,2)] unfolding assms(3) bus_wf_def chip_wf_def dma_defs by auto

theorem chip_well_formed_witness:
  "length (tx_buf (usarts (devs (bus (snd (stm32f411_tick example_board 0
      (stm32f411_init example_board (example_chip example_nvic)))))) 0)) < 128"
proof -
  have "board_keeps example_board" by (simp add: board_keeps_def example_board_def)
  moreover have "machine_reach example_board (snd (stm32f411_tick example_board 0
      (stm32f411_init example_board (example_chip example_nvic))))"
    by (intro machine_reach.intros)
  ultimately show ?thesis using chip_well_formed [OF _ _ refl] by blast
qed

end
